(* ===== verification/Prelude.thy ===== *)
theory Prelude
  imports Main "HOL-Library.Word" "HOL-Library.Signed_Division"
begin

unbundle bit_operations_syntax

text \<open>
  The shared base of the development: the machine integer types of \<^verbatim>\<open>kernel/types.h\<close>, the
  sizes of \<^verbatim>\<open>kernel/param.h\<close>, the identities of kernel locks and wait channels, the result
  type of kernel operations and its sequencing operator, the little-endian codecs that the
  memory and the on-disk structures use, and generic lemmas on lists and words.
\<close>

section \<open>Machine integers\<close>

text \<open>\<^verbatim>\<open>uchar\<close>, \<^verbatim>\<open>ushort\<close>, \<^verbatim>\<open>uint\<close> and \<^verbatim>\<open>uint64\<close>; a C \<^verbatim>\<open>int\<close> is an \<^verbatim>\<open>i32\<close>, read with
  \<^term>\<open>sint\<close> where its sign matters. Addresses are \<^verbatim>\<open>uint64\<close>.\<close>

type_synonym u8 = "8 word"
type_synonym u16 = "16 word"
type_synonym u32 = "32 word"
type_synonym i32 = "32 word"
type_synonym u64 = "64 word"
type_synonym addr = "64 word"
type_synonym memory = "addr \<Rightarrow> u8"

text \<open>Signed division of C (truncating), on the 32-bit representation.\<close>

definition sdiv32 :: "i32 \<Rightarrow> i32 \<Rightarrow> i32" where
  "sdiv32 a b = word_of_int (sint a sdiv sint b)"

section \<open>Kernel parameters\<close>

definition NPROC :: nat where "NPROC = 64"
definition NCPU :: nat where "NCPU = 8"
definition NOFILE :: nat where "NOFILE = 16"
definition NFILE :: nat where "NFILE = 100"
definition NINODE :: nat where "NINODE = 50"
definition NDEV :: nat where "NDEV = 10"
definition ROOTDEV :: u32 where "ROOTDEV = 1"
definition MAXARG :: nat where "MAXARG = 32"
definition MAXOPBLOCKS :: nat where "MAXOPBLOCKS = 10"
definition LOGSIZE :: nat where "LOGSIZE = MAXOPBLOCKS * 3"
definition NBUF :: nat where "NBUF = MAXOPBLOCKS * 3"
definition FSSIZE :: nat where "FSSIZE = 1000"
definition MAXPATH :: nat where "MAXPATH = 128"
definition QUANTUM :: nat where "QUANTUM = 5"
definition ALPHA :: nat where "ALPHA = 50"

lemmas param_defs = NPROC_def NCPU_def NOFILE_def NFILE_def NINODE_def NDEV_def ROOTDEV_def
  MAXARG_def MAXOPBLOCKS_def LOGSIZE_def NBUF_def FSSIZE_def MAXPATH_def QUANTUM_def ALPHA_def

text \<open>The modes of \<^verbatim>\<open>open\<close> (\<^verbatim>\<open>kernel/fcntl.h\<close>).\<close>

definition O_RDONLY :: i32 where "O_RDONLY = 0x000"
definition O_WRONLY :: i32 where "O_WRONLY = 0x001"
definition O_RDWR :: i32 where "O_RDWR = 0x002"
definition O_CREATE :: i32 where "O_CREATE = 0x200"
definition O_TRUNC :: i32 where "O_TRUNC = 0x400"

section \<open>Locks, wait channels and results of kernel operations\<close>

text \<open>
  Every spinlock of the kernel has an identity: the global locks, one per process slot, one
  per pipe (by the address of its page), and the inner spinlock of each sleeplock. \<^verbatim>\<open>Busy_wait\<close> is not a
  lock, but stands for a loop that polls a device register or a flag.
\<close>

datatype lockid =
    Pid_lock | Wait_lock | Queue_lock | Tickslock | Proc_lock nat
  | Kmem_lock | Bcache_lock | Log_lock | Itable_lock | Ftable_lock
  | Pipe_lock addr | Buf_lk nat | Inode_lk nat
  | Cons_lock | Uart_tx_lock | Vdisk_lock | Pr_lock | Busy_wait

text \<open>
  The channels processes sleep on are addresses of kernel objects, and distinct objects have
  distinct addresses. \<^verbatim>\<open>Ch_none\<close> is the null channel.
\<close>

datatype chan =
    Ch_none | Ch_proc nat | Ch_ticks | Ch_log | Ch_buf_lock nat | Ch_inode_lock nat
  | Ch_pipe_nread addr | Ch_pipe_nwrite addr | Ch_buf nat | Ch_disk_free | Ch_cons_r
  | Ch_uart_tx_r

text \<open>
  A kernel operation returns normally with a value and the new state (\<^verbatim>\<open>Ok\<close>), stops the
  machine (\<^verbatim>\<open>Panic\<close>, the argument of \<^verbatim>\<open>panic()\<close>), gives up the CPU in \<^verbatim>\<open>sleep()\<close> with the
  state it leaves behind (\<^verbatim>\<open>Sleeps\<close>), or spins on a lock that another CPU holds (\<^verbatim>\<open>Spins\<close>).
\<close>

datatype ('a, 's) res =
    Ok 'a 's
  | Panic string
  | Sleeps chan 's
  | Spins lockid

definition kbind :: "('a, 's) res \<Rightarrow> ('a \<Rightarrow> 's \<Rightarrow> ('b, 's) res) \<Rightarrow> ('b, 's) res" where
  "kbind m f = (case m of Ok a s \<Rightarrow> f a s | Panic e \<Rightarrow> Panic e | Sleeps c s \<Rightarrow> Sleeps c s
     | Spins l \<Rightarrow> Spins l)"

lemma kbind_simps [simp]:
  "kbind (Ok a s) f = f a s"
  "kbind (Panic e) f = Panic e"
  "kbind (Sleeps c s) f = Sleeps c s"
  "kbind (Spins l) f = Spins l"
  by (simp_all add: kbind_def)

lemma kbind_Ok_iff: "kbind m f = Ok b t \<longleftrightarrow> (\<exists>a s. m = Ok a s \<and> f a s = Ok b t)"
  by (cases m) auto

lemma kbind_OkE:
  assumes "kbind m f = Ok b t"
  obtains a s where "m = Ok a s" and "f a s = Ok b t"
  using assms by (auto simp: kbind_Ok_iff)

lemma kbind_assoc: "kbind (kbind m f) g = kbind m (\<lambda>a s. kbind (f a s) g)"
  by (cases m) auto

lemma kbind_cong [fundef_cong]:
  "m = m' \<Longrightarrow> (\<And>a s. m' = Ok a s \<Longrightarrow> f a s = g a s) \<Longrightarrow> kbind m f = kbind m' g"
  by (cases m') auto

text \<open>\<^verbatim>\<open>kfor lo hi f\<close> runs the body \<^verbatim>\<open>f\<close> of a counting loop for \<^verbatim>\<open>lo\<close>, ..., \<^verbatim>\<open>hi - 1\<close>.\<close>

fun kfor_n :: "nat \<Rightarrow> nat \<Rightarrow> (nat \<Rightarrow> 's \<Rightarrow> (unit, 's) res) \<Rightarrow> 's \<Rightarrow> (unit, 's) res" where
  "kfor_n i 0 f s = Ok () s"
| "kfor_n i (Suc n) f s = kbind (f i s) (\<lambda>_ s. kfor_n (Suc i) n f s)"

definition kfor :: "nat \<Rightarrow> nat \<Rightarrow> (nat \<Rightarrow> 's \<Rightarrow> (unit, 's) res) \<Rightarrow> 's \<Rightarrow> (unit, 's) res" where
  "kfor lo hi f s = kfor_n lo (hi - lo) f s"

lemma kfor_n_inv:
  assumes "\<And>i t. lo \<le> i \<Longrightarrow> i < lo + n \<Longrightarrow> I i t \<Longrightarrow> \<exists>t'. f i t = Ok () t' \<and> I (Suc i) t'"
  shows "I lo s \<Longrightarrow> \<exists>t. kfor_n lo n f s = Ok () t \<and> I (lo + n) t"
  using assms
proof (induction n arbitrary: lo s)
  case 0
  then show ?case by simp
next
  case (Suc n)
  from Suc.prems obtain t where t: "f lo s = Ok () t" "I (Suc lo) t" by force
  from Suc.IH [OF t(2)] Suc.prems(2) obtain u where "kfor_n (Suc lo) n f t = Ok () u" "I (Suc lo + n) u"
    by fastforce
  with t show ?case by simp
qed

lemma kfor_inv:
  assumes "I lo s" and "lo \<le> hi"
    and "\<And>i t. lo \<le> i \<Longrightarrow> i < hi \<Longrightarrow> I i t \<Longrightarrow> \<exists>t'. f i t = Ok () t' \<and> I (Suc i) t'"
  shows "\<exists>t. kfor lo hi f s = Ok () t \<and> I hi t"
  using kfor_n_inv [of lo "hi - lo" I f s] assms by (simp add: kfor_def)

text \<open>
  \<^verbatim>\<open>kscan lo hi f\<close> is a search loop: the body runs for \<^verbatim>\<open>lo\<close>, ..., \<^verbatim>\<open>hi - 1\<close> until it leaves the loop with a
  value.
\<close>

fun kscan_n :: "nat \<Rightarrow> nat \<Rightarrow> (nat \<Rightarrow> 's \<Rightarrow> ('a option, 's) res) \<Rightarrow> 's \<Rightarrow> ('a option, 's) res" where
  "kscan_n i 0 f s = Ok None s"
| "kscan_n i (Suc n) f s = kbind (f i s) (\<lambda>r s.
     case r of Some a \<Rightarrow> Ok (Some a) s | None \<Rightarrow> kscan_n (Suc i) n f s)"

definition kscan :: "nat \<Rightarrow> nat \<Rightarrow> (nat \<Rightarrow> 's \<Rightarrow> ('a option, 's) res) \<Rightarrow> 's \<Rightarrow> ('a option, 's) res" where
  "kscan lo hi f s = kscan_n lo (hi - lo) f s"

lemma kscan_n_skip:
  "(\<And>j. i \<le> j \<Longrightarrow> j < i + n \<Longrightarrow> f j s = Ok None s) \<Longrightarrow> kscan_n i (n + m) f s = kscan_n (i + n) m f s"
proof (induction n arbitrary: i)
  case (Suc n)
  then have "kscan_n (Suc i) (n + m) f s = kscan_n (Suc i + n) m f s" by simp
  with Suc.prems [of i] show ?case by simp
qed simp

lemma kscan_None:
  "(\<And>j. lo \<le> j \<Longrightarrow> j < hi \<Longrightarrow> f j s = Ok None s) \<Longrightarrow> kscan lo hi f s = Ok None s"
  using kscan_n_skip [of lo "hi - lo" f s 0] by (simp add: kscan_def)

lemma kscan_Some:
  assumes "lo \<le> i" and "i < hi" and "\<And>j. lo \<le> j \<Longrightarrow> j < i \<Longrightarrow> f j s = Ok None s" and "f i s = Ok (Some a) t"
  shows "kscan lo hi f s = Ok (Some a) t"
proof -
  have "kscan_n lo ((i - lo) + Suc (hi - Suc i)) f s = Ok (Some a) t"
    using assms by (subst kscan_n_skip) auto
  moreover have "(i - lo) + Suc (hi - Suc i) = hi - lo" using assms(1,2) by simp
  ultimately show ?thesis by (simp only: kscan_def)
qed

definition is_ok :: "('a, 's) res \<Rightarrow> bool" where
  "is_ok r = (case r of Ok _ _ \<Rightarrow> True | _ \<Rightarrow> False)"

lemma is_ok_simps [simp]:
  "is_ok (Ok a s)" "\<not> is_ok (Panic e)" "\<not> is_ok (Sleeps c s)" "\<not> is_ok (Spins l)"
  by (simp_all add: is_ok_def)

lemma is_ok_iff: "is_ok r \<longleftrightarrow> (\<exists>a s. r = Ok a s)"
  by (cases r) auto

section \<open>What an operation may change\<close>

text \<open>
  \<^verbatim>\<open>within R s r\<close>: the state that the result \<^verbatim>\<open>r\<close> of an operation started in \<^verbatim>\<open>s\<close> leaves behind, if it leaves one, is related
  to \<^verbatim>\<open>s\<close> by \<^verbatim>\<open>R\<close>. For a preorder \<^verbatim>\<open>R\<close> the sequencing operators compose such facts; the collection \<^verbatim>\<open>frame\<close> has
  those of the single operations.
\<close>

named_theorems frame

definition within :: "('s \<Rightarrow> 's \<Rightarrow> bool) \<Rightarrow> 's \<Rightarrow> ('a, 's) res \<Rightarrow> bool" where
  "within R s r = (case r of Ok a t \<Rightarrow> R s t | Sleeps c t \<Rightarrow> R s t | Panic e \<Rightarrow> True | Spins l \<Rightarrow> True)"

lemma within_simps [simp]:
  "within R s (Ok a t) = R s t" "within R s (Sleeps c t) = R s t" "within R s (Panic e)" "within R s (Spins l)"
  by (simp_all add: within_def)

lemma within_Ok: "within R s r \<Longrightarrow> r = Ok a t \<Longrightarrow> R s t"
  by simp

lemma within_if: "(b \<Longrightarrow> within R s x) \<Longrightarrow> (\<not> b \<Longrightarrow> within R s y) \<Longrightarrow> within R s (if b then x else y)"
  by simp

lemma within_option: "(x = None \<Longrightarrow> within R s a) \<Longrightarrow> (\<And>y. x = Some y \<Longrightarrow> within R s (f y)) \<Longrightarrow>
    within R s (case x of None \<Rightarrow> a | Some y \<Rightarrow> f y)"
  by (cases x) simp_all

lemma within_prod: "(\<And>y z. x = (y, z) \<Longrightarrow> within R s (f y z)) \<Longrightarrow> within R s (case x of (y, z) \<Rightarrow> f y z)"
  by (cases x) simp

lemma within_Let: "within R s (f x) \<Longrightarrow> within R s (let y = x in f y)"
  by simp

locale step_rel =
  fixes R :: "'s \<Rightarrow> 's \<Rightarrow> bool"
  assumes R_refl: "R s s"
    and R_trans: "R s t \<Longrightarrow> R t u \<Longrightarrow> R s u"
begin

lemma within_trans: "R s t \<Longrightarrow> within R t r \<Longrightarrow> within R s r"
  by (cases r) (auto intro: R_trans)

lemma within_bind:
  assumes "within R s m" and "\<And>a t. m = Ok a t \<Longrightarrow> within R t (f a t)"
  shows "within R s (kbind m f)"
  using assms by (cases m) (auto intro: within_trans)

lemma within_kfor_n:
  assumes "\<And>i t. within R t (f i t)"
  shows "within R s (kfor_n lo n f s)"
  by (induction n arbitrary: lo s) (auto simp: R_refl intro: within_bind assms)

lemma within_kfor: "(\<And>i t. within R t (f i t)) \<Longrightarrow> within R s (kfor lo hi f s)"
  by (simp add: kfor_def within_kfor_n)

lemma within_kscan_n:
  assumes "\<And>i t. within R t (f i t)"
  shows "within R s (kscan_n lo n f s)"
  by (induction n arbitrary: lo s) (auto simp: R_refl intro!: within_bind within_option assms)

lemma within_kscan: "(\<And>i t. within R t (f i t)) \<Longrightarrow> within R s (kscan lo hi f s)"
  by (simp add: kscan_def within_kscan_n)

lemmas within_rules = within_if within_option within_prod within_Let within_bind within_kfor within_kscan

end

section \<open>Little-endian codecs\<close>

fun from_le :: "u8 list \<Rightarrow> 'a::len word" where
  "from_le [] = 0"
| "from_le (b # bs) = ucast b OR push_bit 8 (from_le bs)"

fun to_le :: "nat \<Rightarrow> 'a::len word \<Rightarrow> u8 list" where
  "to_le 0 v = []"
| "to_le (Suc n) v = ucast v # to_le n (drop_bit 8 v)"

lemma length_to_le [simp]: "length (to_le n v) = n"
  by (induction n arbitrary: v) auto

lemma from_le_to_le: "from_le (to_le n v) = take_bit (8 * n) (v :: 'a::len word)"
proof (induction n arbitrary: v)
  case 0
  then show ?case by simp
next
  case (Suc n)
  have "bit (ucast (ucast v :: u8) OR push_bit 8 (take_bit (8 * n) (drop_bit 8 v))) i
      = bit (take_bit (8 * Suc n) v) i" if "i < LENGTH('a)" for i
    using that by (auto simp: bit_simps)
  with Suc show ?case by (auto intro: bit_word_eqI)
qed

lemma to_le_take_bit: "8 * n \<le> k \<Longrightarrow> to_le n (take_bit k v) = to_le n (v :: 'a::len word)"
proof (induction n arbitrary: k v)
  case 0
  then show ?case by simp
next
  case (Suc n)
  have "(ucast (take_bit k v) :: u8) = ucast v"
    by (rule bit_word_eqI) (use Suc.prems in \<open>auto simp: bit_simps\<close>)
  moreover have "to_le n (take_bit (k - 8) (drop_bit 8 v)) = to_le n (drop_bit 8 v)"
    using Suc by simp
  ultimately show ?case by (simp add: drop_bit_take_bit)
qed

lemma to_le_from_le:
  "length bs = n \<Longrightarrow> 8 * n \<le> LENGTH('a) \<Longrightarrow> to_le n (from_le bs :: 'a::len word) = bs"
proof (induction bs arbitrary: n)
  case Nil
  then show ?case by simp
next
  case (Cons b bs)
  then obtain m where n: "n = Suc m" and m: "length bs = m" by auto
  let ?w = "from_le bs :: 'a word"
  from Cons.prems n have len: "8 * Suc m \<le> LENGTH('a)" by simp
  have low: "(ucast (ucast b OR push_bit 8 ?w) :: u8) = b"
    by (rule bit_word_eqI) (use len in \<open>auto simp: bit_simps\<close>)
  have "drop_bit 8 (ucast b OR push_bit 8 ?w) = take_bit (LENGTH('a) - 8) ?w"
    by (rule bit_word_eqI) (auto simp: bit_simps dest: bit_imp_le_length)
  then have "to_le m (drop_bit 8 (ucast b OR push_bit 8 ?w)) = to_le m ?w"
    using len by (simp add: to_le_take_bit)
  also have "\<dots> = bs"
    using Cons.IH m len by simp
  finally show ?case using n low by simp
qed

lemma sint_of_nat32: "n < 2 ^ 31 \<Longrightarrow> sint (of_nat n :: i32) = int n"
proof -
  assume "n < 2 ^ 31"
  then have "int n < 2 ^ 31" by (metis of_nat_less_iff of_nat_numeral of_nat_power)
  then have "signed_take_bit (LENGTH(32) - 1) (int n) = int n" by (intro signed_take_bit_int_eq_self) simp_all
  then have "sint (word_of_int (int n) :: i32) = int n" by (simp only: sint_sbintrunc')
  then show ?thesis by simp
qed

end
