(* ===== verification/Spinlock.thy ===== *)
theory Spinlock
  imports Prelude
begin

text \<open>
  Spinlocks (\<^verbatim>\<open>kernel/spinlock.c\<close>) with the interrupt-enable bit of \<^verbatim>\<open>kernel/riscv.h\<close>. The
  multiprocessor model keeps one \<^verbatim>\<open>struct cpu\<close> per hart and one \<^verbatim>\<open>struct spinlock\<close> per lock;
  the instruction-level step relation at the end interleaves the harts and gives mutual
  exclusion. The rest of the kernel uses the view of one hart, the list of locks it holds
  (\<^verbatim>\<open>acquire\<close> and \<^verbatim>\<open>release\<close>); both views satisfy the contract \<^verbatim>\<open>spin_contract\<close>.
\<close>

section \<open>State\<close>

record cpu_st =
  noff :: int
  intena :: bool
  sie :: bool

record spinlock_st =
  locked :: u32
  lk_cpu :: "nat option"

record smp =
  cpus :: "nat \<Rightarrow> cpu_st"
  slocks :: "lockid \<Rightarrow> spinlock_st"

lemma spinlock_st_collapse [simp]:
  "r\<lparr>locked := a, lk_cpu := b\<rparr> = \<lparr>locked = a, lk_cpu = b\<rparr>"
  "r\<lparr>lk_cpu := b, locked := a\<rparr> = \<lparr>locked = a, lk_cpu = b\<rparr>"
  by (cases r; simp)+

section \<open>Operations, executed by hart c\<close>

definition intr_get :: "nat \<Rightarrow> 'z smp_scheme \<Rightarrow> bool" where
  "intr_get c s = sie (cpus s c)"

definition intr_on :: "nat \<Rightarrow> 'z smp_scheme \<Rightarrow> 'z smp_scheme" where
  "intr_on c s = s\<lparr>cpus := (cpus s)(c := (cpus s c)\<lparr>sie := True\<rparr>)\<rparr>"

definition intr_off :: "nat \<Rightarrow> 'z smp_scheme \<Rightarrow> 'z smp_scheme" where
  "intr_off c s = s\<lparr>cpus := (cpus s)(c := (cpus s c)\<lparr>sie := False\<rparr>)\<rparr>"

definition initlock :: "lockid \<Rightarrow> 'z smp_scheme \<Rightarrow> 'z smp_scheme" where
  "initlock l s = s\<lparr>slocks := (slocks s)(l := \<lparr>locked = 0, lk_cpu = None\<rparr>)\<rparr>"

definition holding :: "nat \<Rightarrow> lockid \<Rightarrow> 'z smp_scheme \<Rightarrow> bool" where
  "holding c l s \<longleftrightarrow> locked (slocks s l) \<noteq> 0 \<and> lk_cpu (slocks s l) = Some c"

definition push_off :: "nat \<Rightarrow> 'z smp_scheme \<Rightarrow> 'z smp_scheme" where
  "push_off c s =
     (let old = intr_get c s;
          s = intr_off c s;
          s = (if noff (cpus s c) = 0
               then s\<lparr>cpus := (cpus s)(c := (cpus s c)\<lparr>intena := old\<rparr>)\<rparr> else s)
      in s\<lparr>cpus := (cpus s)(c := (cpus s c)\<lparr>noff := noff (cpus s c) + 1\<rparr>)\<rparr>)"

definition pop_off :: "nat \<Rightarrow> 'z smp_scheme \<Rightarrow> (unit, 'z smp_scheme) res" where
  "pop_off c s =
     (if intr_get c s then Panic ''pop_off - interruptible''
      else if noff (cpus s c) < 1 then Panic ''pop_off''
      else let s = s\<lparr>cpus := (cpus s)(c := (cpus s c)\<lparr>noff := noff (cpus s c) - 1\<rparr>)\<rparr>
           in if noff (cpus s c) = 0 \<and> intena (cpus s c) then Ok () (intr_on c s) else Ok () s)"

text \<open>
  \<^verbatim>\<open>sync_lock_test_and_set(&lk->locked, 1)\<close>: one atomic swap, returning the old value.
\<close>

definition test_and_set :: "lockid \<Rightarrow> 'z smp_scheme \<Rightarrow> u32 \<times> 'z smp_scheme" where
  "test_and_set l s =
     (locked (slocks s l), s\<lparr>slocks := (slocks s)(l := (slocks s l)\<lparr>locked := 1\<rparr>)\<rparr>)"

text \<open>
  \<^verbatim>\<open>acquire\<close> from one hart's point of view: when the swap finds the lock taken, the loop spins
  until another hart releases it.
\<close>

definition smp_acquire :: "nat \<Rightarrow> lockid \<Rightarrow> 'z smp_scheme \<Rightarrow> (unit, 'z smp_scheme) res" where
  "smp_acquire c l s =
     (let s = push_off c s in
      if holding c l s then Panic ''acquire''
      else case test_and_set l s of (old, s) \<Rightarrow>
        if old \<noteq> 0 then Spins l
        else Ok () (s\<lparr>slocks := (slocks s)(l := (slocks s l)\<lparr>lk_cpu := Some c\<rparr>)\<rparr>))"

definition smp_release :: "nat \<Rightarrow> lockid \<Rightarrow> 'z smp_scheme \<Rightarrow> (unit, 'z smp_scheme) res" where
  "smp_release c l s =
     (if \<not> holding c l s then Panic ''release''
      else let s = s\<lparr>slocks := (slocks s)(l := (slocks s l)\<lparr>lk_cpu := None\<rparr>)\<rparr>;
               s = s\<lparr>slocks := (slocks s)(l := (slocks s l)\<lparr>locked := 0\<rparr>)\<rparr>
           in pop_off c s)"

lemmas spin_defs = intr_get_def intr_on_def intr_off_def holding_def push_off_def pop_off_def
  test_and_set_def smp_acquire_def smp_release_def Let_def

section \<open>The view of one hart\<close>

text \<open>
  The sequential kernel code runs on one hart; what it can observe of the locks is which ones
  it holds. \<^verbatim>\<open>acquire\<close> panics when the hart holds the lock already, \<^verbatim>\<open>release\<close> when it does not.
\<close>

record cpu_view =
  held :: "lockid list"

definition acquire :: "lockid \<Rightarrow> 'z cpu_view_scheme \<Rightarrow> (unit, 'z cpu_view_scheme) res" where
  "acquire l s = (if l \<in> set (held s) then Panic ''acquire'' else Ok () (s\<lparr>held := l # held s\<rparr>))"

definition release :: "lockid \<Rightarrow> 'z cpu_view_scheme \<Rightarrow> (unit, 'z cpu_view_scheme) res" where
  "release l s = (if l \<notin> set (held s) then Panic ''release''
                  else Ok () (s\<lparr>held := remove1 l (held s)\<rparr>))"

lemma acquire_Ok [simp]: "l \<notin> set (held s) \<Longrightarrow> acquire l s = Ok () (s\<lparr>held := l # held s\<rparr>)"
  by (simp add: acquire_def)

lemma release_Ok [simp]:
  "l \<in> set (held s) \<Longrightarrow> release l s = Ok () (s\<lparr>held := remove1 l (held s)\<rparr>)"
  by (simp add: release_def)

lemma acquire_eq_Ok: "acquire l s = Ok u t \<longleftrightarrow> l \<notin> set (held s) \<and> t = s\<lparr>held := l # held s\<rparr>"
  by (auto simp: acquire_def)

lemma release_eq_Ok:
  "release l s = Ok u t \<longleftrightarrow> l \<in> set (held s) \<and> t = s\<lparr>held := remove1 l (held s)\<rparr>"
  by (auto simp: release_def)

section \<open>The locking contract\<close>

text \<open>
  What clients of a spinlock rely on: \<^verbatim>\<open>has s l\<close>, the hart holds the lock; \<^verbatim>\<open>avail s l\<close>, the lock
  can be taken without spinning.
\<close>

locale spin_contract =
  fixes acq :: "lockid \<Rightarrow> 's \<Rightarrow> (unit, 's) res"
    and rel :: "lockid \<Rightarrow> 's \<Rightarrow> (unit, 's) res"
    and has :: "'s \<Rightarrow> lockid \<Rightarrow> bool"
    and avail :: "'s \<Rightarrow> lockid \<Rightarrow> bool"
    and inv :: "'s \<Rightarrow> bool"
  assumes acq_free: "inv s \<Longrightarrow> avail s l \<Longrightarrow> \<not> has s l \<Longrightarrow>
      \<exists>t. acq l s = Ok () t \<and> inv t \<and> has t = (has s)(l := True)"
    and acq_again: "inv s \<Longrightarrow> has s l \<Longrightarrow> acq l s = Panic ''acquire''"
    and rel_held: "inv s \<Longrightarrow> has s l \<Longrightarrow>
      \<exists>t. rel l s = Ok () t \<and> inv t \<and> has t = (has s)(l := False) \<and> avail t l"
    and rel_free: "inv s \<Longrightarrow> \<not> has s l \<Longrightarrow> rel l s = Panic ''release''"
begin

lemma bracket:
  assumes "inv s" and "avail s l" and "\<not> has s l"
  shows "\<exists>t. kbind (acq l s) (\<lambda>_ s. rel l s) = Ok () t \<and> inv t \<and> has t = has s \<and> avail t l"
proof -
  from acq_free [OF assms] obtain t
    where t: "acq l s = Ok () t" "inv t" "has t = (has s)(l := True)" by blast
  from rel_held [of t l] t obtain u
    where u: "rel l t = Ok () u" "inv u" "has u = (has t)(l := False)" "avail u l" by auto
  have "has u = has s" using t(3) u(3) assms(3) by (auto simp: fun_eq_iff)
  with t u show ?thesis by simp
qed

lemma reacquire_panics:
  assumes "inv s" and "avail s l" and "\<not> has s l"
  shows "kbind (acq l s) (\<lambda>_ s. acq l s) = Panic ''acquire''"
proof -
  from acq_free [OF assms] obtain t
    where t: "acq l s = Ok () t" "inv t" "has t = (has s)(l := True)" by blast
  with acq_again [of t l] show ?thesis by simp
qed

end

interpretation hart_view: spin_contract acquire release "\<lambda>s l. l \<in> set (held s)"
  "\<lambda>_ _. True" "\<lambda>s. distinct (held s)"
  by unfold_locales (auto simp: acquire_def release_def fun_eq_iff)

text \<open>
  The invariant of the multiprocessor state for hart \<^verbatim>\<open>c\<close>: its nesting depth counts at least the
  locks it holds, interrupts are off while the depth is positive, and a free lock has no owner.
\<close>

definition spin_inv :: "nat \<Rightarrow> 'z smp_scheme \<Rightarrow> bool" where
  "spin_inv c s \<longleftrightarrow> finite {l. holding c l s} \<and> int (card {l. holding c l s}) \<le> noff (cpus s c)
     \<and> (0 < noff (cpus s c) \<longrightarrow> \<not> sie (cpus s c))
     \<and> (\<forall>l. locked (slocks s l) = 0 \<longrightarrow> lk_cpu (slocks s l) = None)"

lemma spin_inv_noff: "spin_inv c s \<Longrightarrow> 0 \<le> noff (cpus s c)"
  by (simp add: spin_inv_def)

lemma spin_inv_holding:
  assumes "spin_inv c s" and "holding c l s"
  shows "0 < noff (cpus s c)" and "\<not> sie (cpus s c)"
proof -
  from assms have "0 < card {l. holding c l s}"
    by (auto simp: spin_inv_def card_gt_0_iff)
  with assms show "0 < noff (cpus s c)" and "\<not> sie (cpus s c)"
    by (auto simp: spin_inv_def)
qed

lemma smp_acquire_free:
  assumes inv: "spin_inv c s" and free: "locked (slocks s l) = 0"
  shows "\<exists>t. smp_acquire c l s = Ok () t \<and> spin_inv c t
     \<and> (\<lambda>k. holding c k t) = (\<lambda>k. holding c k s)(l := True)
     \<and> \<not> sie (cpus t c) \<and> noff (cpus t c) = noff (cpus s c) + 1"
proof -
  from free have nh: "\<not> holding c l s" by (simp add: holding_def)
  define t where "t = (push_off c s)\<lparr>slocks := (slocks s)(l := \<lparr>locked = 1, lk_cpu = Some c\<rparr>)\<rparr>"
  have acq: "smp_acquire c l s = Ok () t"
    using free by (simp add: t_def spin_defs)
  have cpu: "\<not> sie (cpus t c)" "noff (cpus t c) = noff (cpus s c) + 1"
    by (simp_all add: t_def spin_defs)
  have hold: "(\<lambda>k. holding c k t) = (\<lambda>k. holding c k s)(l := True)"
    by (auto simp: t_def spin_defs fun_eq_iff)
  then have "{k. holding c k t} = insert l {k. holding c k s}"
    by (auto simp: fun_eq_iff split: if_splits)
  moreover have "\<forall>k. locked (slocks t k) = 0 \<longrightarrow> lk_cpu (slocks t k) = None"
    using inv by (simp add: t_def spin_inv_def)
  ultimately have "spin_inv c t"
    using inv cpu nh by (simp add: spin_inv_def)
  with acq hold cpu show ?thesis by blast
qed

lemma smp_acquire_again: "spin_inv c s \<Longrightarrow> holding c l s \<Longrightarrow> smp_acquire c l s = Panic ''acquire''"
  by (simp add: spin_defs)

lemma smp_acquire_contended:
  "\<not> holding c l s \<Longrightarrow> locked (slocks s l) \<noteq> 0 \<Longrightarrow> smp_acquire c l s = Spins l"
  by (simp add: spin_defs)

lemma smp_release_held:
  assumes inv: "spin_inv c s" and h: "holding c l s"
  shows "\<exists>t. smp_release c l s = Ok () t \<and> spin_inv c t
     \<and> (\<lambda>k. holding c k t) = (\<lambda>k. holding c k s)(l := False) \<and> locked (slocks t l) = 0
     \<and> noff (cpus t c) = noff (cpus s c) - 1
     \<and> sie (cpus t c) = (noff (cpus s c) = 1 \<and> intena (cpus s c))"
proof -
  note pos = spin_inv_holding [OF inv h]
  define d where "d = noff (cpus s c) - 1"
  define t where "t = s\<lparr>slocks := (slocks s)(l := \<lparr>locked = 0, lk_cpu = None\<rparr>),
      cpus := (cpus s)(c := (if d = 0 \<and> intena (cpus s c) then (cpus s c)\<lparr>noff := d, sie := True\<rparr>
                             else (cpus s c)\<lparr>noff := d\<rparr>))\<rparr>"
  have rel: "smp_release c l s = Ok () t"
    using pos h by (auto simp: t_def d_def spin_defs)
  have hold: "(\<lambda>k. holding c k t) = (\<lambda>k. holding c k s)(l := False)"
    by (auto simp: t_def holding_def fun_eq_iff)
  then have H: "{k. holding c k t} = {k. holding c k s} - {l}"
    by (auto simp: fun_eq_iff split: if_splits)
  have fin: "finite {k. holding c k s}" using inv by (simp add: spin_inv_def)
  from fin h have "0 < card {k. holding c k s}" by (auto simp: card_gt_0_iff)
  then have "int (card {k. holding c k t}) \<le> d"
    using inv h fin by (simp add: H d_def spin_inv_def)
  moreover have cpu: "noff (cpus t c) = d" "sie (cpus t c) = (d = 0 \<and> intena (cpus s c))"
    using pos by (auto simp: t_def)
  moreover have "\<forall>k. locked (slocks t k) = 0 \<longrightarrow> lk_cpu (slocks t k) = None"
    using inv by (simp add: t_def spin_inv_def)
  ultimately have "spin_inv c t"
    using fin H by (simp add: spin_inv_def)
  with rel hold cpu show ?thesis by (auto simp: t_def d_def)
qed

lemma smp_release_free: "\<not> holding c l s \<Longrightarrow> smp_release c l s = Panic ''release''"
  by (simp add: smp_release_def)

interpretation smp_hart: spin_contract "smp_acquire c" "smp_release c" "\<lambda>s l. holding c l s"
  "\<lambda>s l. locked (slocks s l) = 0" "spin_inv c" for c
proof (unfold_locales, goal_cases)
  case (1 s l)
  then show ?case using smp_acquire_free [of c s l] by blast
next
  case (2 s l)
  then show ?case by (rule smp_acquire_again)
next
  case (3 s l)
  then show ?case using smp_release_held [of c s l] by blast
next
  case (4 s l)
  then show ?case by (simp add: smp_release_free)
qed

section \<open>Interleaved harts\<close>

text \<open>
  The instructions of \<^verbatim>\<open>acquire\<close> and \<^verbatim>\<open>release\<close> of several harts interleave. The program counter
  of a hart says where in a lock operation it is: after \<^verbatim>\<open>push_off\<close> and the \<^verbatim>\<open>holding\<close> check
  (\<^verbatim>\<open>Trying\<close>), after the swap that took the lock (\<^verbatim>\<open>Got\<close>), after \<^verbatim>\<open>lk->cpu = 0\<close> in \<^verbatim>\<open>release\<close>
  (\<^verbatim>\<open>Clearing\<close>), or outside both (\<^verbatim>\<open>Run\<close>). The ghost field \<^verbatim>\<open>inside\<close> collects the critical sections
  a hart is in: from the return of \<^verbatim>\<open>acquire\<close> to the call of \<^verbatim>\<open>release\<close>.
\<close>

datatype lock_pc = Run | Trying lockid | Got lockid | Clearing lockid

record harts = smp +
  pcs :: "nat \<Rightarrow> lock_pc"
  inside :: "nat \<Rightarrow> lockid set"

definition harts_init :: harts where
  "harts_init = \<lparr>cpus = (\<lambda>_. \<lparr>noff = 0, intena = False, sie = False\<rparr>),
     slocks = (\<lambda>_. \<lparr>locked = 0, lk_cpu = None\<rparr>), pcs = (\<lambda>_. Run), inside = (\<lambda>_. {})\<rparr>"

inductive hart_step :: "harts \<Rightarrow> harts \<Rightarrow> bool" where
  acq_enter: "pcs s c = Run \<Longrightarrow> \<not> holding c l (push_off c s) \<Longrightarrow>
     hart_step s ((push_off c s)\<lparr>pcs := (pcs s)(c := Trying l)\<rparr>)"
| acq_spin: "pcs s c = Trying l \<Longrightarrow> test_and_set l s = (old, t) \<Longrightarrow> old \<noteq> 0 \<Longrightarrow> hart_step s t"
| acq_swap: "pcs s c = Trying l \<Longrightarrow> test_and_set l s = (old, t) \<Longrightarrow> old = 0 \<Longrightarrow>
     hart_step s (t\<lparr>pcs := (pcs t)(c := Got l)\<rparr>)"
| acq_record: "pcs s c = Got l \<Longrightarrow>
     hart_step s (s\<lparr>slocks := (slocks s)(l := (slocks s l)\<lparr>lk_cpu := Some c\<rparr>),
       pcs := (pcs s)(c := Run), inside := (inside s)(c := insert l (inside s c))\<rparr>)"
| rel_enter: "pcs s c = Run \<Longrightarrow> holding c l s \<Longrightarrow>
     hart_step s (s\<lparr>slocks := (slocks s)(l := (slocks s l)\<lparr>lk_cpu := None\<rparr>),
       pcs := (pcs s)(c := Clearing l), inside := (inside s)(c := inside s c - {l})\<rparr>)"
| rel_store: "pcs s c = Clearing l \<Longrightarrow>
     pop_off c (s\<lparr>slocks := (slocks s)(l := (slocks s l)\<lparr>locked := 0\<rparr>)\<rparr>) = Ok () t \<Longrightarrow>
     hart_step s (t\<lparr>pcs := (pcs t)(c := Run)\<rparr>)"
| enable: "pcs s c = Run \<Longrightarrow> noff (cpus s c) = 0 \<Longrightarrow> hart_step s (intr_on c s)"
| disable: "hart_step s (intr_off c s)"

inductive harts_reach :: "harts \<Rightarrow> bool" where
  start: "harts_reach harts_init"
| step: "harts_reach s \<Longrightarrow> hart_step s t \<Longrightarrow> harts_reach t"

definition owns :: "harts \<Rightarrow> nat \<Rightarrow> lockid \<Rightarrow> bool" where
  "owns s c l \<longleftrightarrow> l \<in> inside s c \<or> pcs s c = Got l \<or> pcs s c = Clearing l"

text \<open>
  A lock word is nonzero exactly when some hart owns the lock, ownership is exclusive, the
  recorded owner is the hart inside the critical section, and the \<^verbatim>\<open>push_off\<close> depth counts the
  critical sections plus the lock operation in progress.
\<close>

definition own_inv :: "harts \<Rightarrow> bool" where
  "own_inv s \<longleftrightarrow> (\<forall>l. locked (slocks s l) \<noteq> 0 \<longleftrightarrow> (\<exists>c. owns s c l))
     \<and> (\<forall>c d l. owns s c l \<longrightarrow> owns s d l \<longrightarrow> c = d)
     \<and> (\<forall>c l. lk_cpu (slocks s l) = Some c \<longleftrightarrow> l \<in> inside s c)
     \<and> (\<forall>c l. l \<in> inside s c \<longrightarrow> pcs s c \<noteq> Got l \<and> pcs s c \<noteq> Clearing l)"

definition depth_inv :: "harts \<Rightarrow> bool" where
  "depth_inv s \<longleftrightarrow> (\<forall>c. finite (inside s c)
     \<and> noff (cpus s c) = int (card (inside s c)) + (if pcs s c = Run then 0 else 1)
     \<and> (0 < noff (cpus s c) \<longrightarrow> \<not> sie (cpus s c)))"

lemma own_inv_init: "own_inv harts_init"
  by (simp add: own_inv_def owns_def harts_init_def)

lemma depth_inv_init: "depth_inv harts_init"
  by (simp add: depth_inv_def harts_init_def)

lemma push_off_frame [simp]:
  "slocks (push_off c s) = slocks s" "pcs (push_off c s) = pcs s" "inside (push_off c s) = inside s"
  by (simp_all add: spin_defs)

lemma push_off_cpus:
  "cpus (push_off c s) = (cpus s)(c := \<lparr>noff = noff (cpus s c) + 1,
     intena = (if noff (cpus s c) = 0 then sie (cpus s c) else intena (cpus s c)), sie = False\<rparr>)"
  by (cases "cpus s c") (simp add: spin_defs)

lemma test_and_set_eq:
  "test_and_set l s = (old, t) \<longleftrightarrow> old = locked (slocks s l)
     \<and> t = s\<lparr>slocks := (slocks s)(l := (slocks s l)\<lparr>locked := 1\<rparr>)\<rparr>"
  by (auto simp: test_and_set_def)

lemma pop_off_eq:
  "pop_off c s = Ok u t \<longleftrightarrow> \<not> sie (cpus s c) \<and> 1 \<le> noff (cpus s c)
     \<and> t = s\<lparr>cpus := (cpus s)(c := (cpus s c)\<lparr>noff := noff (cpus s c) - 1,
         sie := (noff (cpus s c) = 1 \<and> intena (cpus s c))\<rparr>)\<rparr>"
  by (cases "cpus s c") (auto simp: spin_defs)

lemma own_inv_frame:
  assumes "own_inv s" and "owns t = owns s" and "slocks t = slocks s" and "inside t = inside s"
    and "\<And>c l. pcs t c = Got l \<or> pcs t c = Clearing l \<Longrightarrow> pcs t c = pcs s c"
  shows "own_inv t"
  using assms unfolding own_inv_def by metis

lemma hart_step_own_inv: "hart_step s t \<Longrightarrow> own_inv s \<Longrightarrow> own_inv t"
proof (induction rule: hart_step.induct)
  case (acq_enter s c l)
  show ?case
    by (rule own_inv_frame [OF acq_enter.prems])
      (use acq_enter.hyps in \<open>auto simp: owns_def fun_eq_iff split: if_splits\<close>)
next
  case (acq_spin s c l old t)
  then have "owns t = owns s" by (auto simp: owns_def fun_eq_iff test_and_set_eq)
  with acq_spin show ?case by (auto simp: own_inv_def test_and_set_eq)
next
  case (acq_swap s c l old t)
  let ?t = "t\<lparr>pcs := (pcs t)(c := Got l)\<rparr>"
  from acq_swap have "owns ?t = (owns s)(c := (owns s c)(l := True))"
    by (auto simp: owns_def fun_eq_iff test_and_set_eq)
  moreover from acq_swap have free: "\<not> owns s d l" for d
    by (auto simp: own_inv_def test_and_set_eq)
  moreover from free have "l \<notin> inside s d" for d by (simp add: owns_def)
  ultimately show ?case using acq_swap
    by (auto simp: own_inv_def test_and_set_eq) metis+
next
  case (acq_record s c l)
  let ?t = "s\<lparr>slocks := (slocks s)(l := (slocks s l)\<lparr>lk_cpu := Some c\<rparr>),
       pcs := (pcs s)(c := Run), inside := (inside s)(c := insert l (inside s c))\<rparr>"
  have "owns ?t = owns s" using acq_record by (auto simp: owns_def fun_eq_iff own_inv_def)
  moreover have "l \<notin> inside s d" for d
    using acq_record unfolding own_inv_def owns_def by metis
  ultimately show ?case using acq_record by (auto simp: own_inv_def)
next
  case (rel_enter s c l)
  let ?t = "s\<lparr>slocks := (slocks s)(l := (slocks s l)\<lparr>lk_cpu := None\<rparr>),
       pcs := (pcs s)(c := Clearing l), inside := (inside s)(c := inside s c - {l})\<rparr>"
  have "l \<in> inside s c" using rel_enter by (auto simp: own_inv_def holding_def)
  then have "owns ?t = owns s" using rel_enter by (auto simp: owns_def fun_eq_iff own_inv_def)
  moreover have "l \<notin> inside s d" if "d \<noteq> c" for d
    using rel_enter.prems \<open>l \<in> inside s c\<close> that unfolding own_inv_def owns_def by metis
  ultimately show ?case using rel_enter by (auto simp: own_inv_def holding_def)
next
  case (rel_store s c l t)
  let ?t = "t\<lparr>pcs := (pcs t)(c := Run)\<rparr>"
  have "owns ?t = (owns s)(c := (owns s c)(l := False))"
    using rel_store by (auto simp: owns_def fun_eq_iff own_inv_def pop_off_eq)
  moreover have "owns s c l" using rel_store by (simp add: owns_def)
  ultimately show ?case using rel_store
    by (auto simp: own_inv_def pop_off_eq)
next
  case (enable s c)
  show ?case by (rule own_inv_frame [OF enable.prems]) (auto simp: owns_def fun_eq_iff intr_on_def)
next
  case (disable s c)
  show ?case
    by (rule own_inv_frame [OF disable.prems]) (auto simp: owns_def fun_eq_iff intr_off_def)
qed

lemma hart_step_depth_inv: "hart_step s t \<Longrightarrow> own_inv s \<Longrightarrow> depth_inv s \<Longrightarrow> depth_inv t"
proof (induction rule: hart_step.induct)
  case (acq_enter s c l)
  then show ?case by (auto simp: depth_inv_def push_off_cpus)
next
  case (acq_spin s c l old t)
  then show ?case by (auto simp: depth_inv_def test_and_set_eq)
next
  case (acq_swap s c l old t)
  then show ?case by (auto simp: depth_inv_def test_and_set_eq)
next
  case (acq_record s c l)
  then have "l \<notin> inside s c" by (auto simp: own_inv_def)
  with acq_record show ?case by (auto simp: depth_inv_def)
next
  case (rel_enter s c l)
  then have "l \<in> inside s c" and "finite (inside s c)"
    by (auto simp: own_inv_def holding_def depth_inv_def)
  then have "0 < card (inside s c)" by (auto simp: card_gt_0_iff)
  with rel_enter \<open>l \<in> inside s c\<close> show ?case by (auto simp: depth_inv_def)
next
  case (rel_store s c l t)
  then show ?case by (auto simp: depth_inv_def pop_off_eq)
next
  case (enable s c)
  then show ?case by (auto simp: depth_inv_def intr_on_def)
next
  case (disable s c)
  then show ?case by (auto simp: depth_inv_def intr_off_def)
qed

lemma harts_reach_inv: "harts_reach s \<Longrightarrow> own_inv s \<and> depth_inv s"
  by (induction rule: harts_reach.induct)
    (auto intro: own_inv_init depth_inv_init hart_step_own_inv hart_step_depth_inv)

text \<open>
  \<^bold>\<open>C2\<close> (mutual exclusion). In every reachable interleaving of \<^verbatim>\<open>acquire\<close> and \<^verbatim>\<open>release\<close> on any number
  of harts, at most one hart is inside the critical section of a lock, its interrupts are
  off there, and its call of \<^verbatim>\<open>release\<close> does not panic.
\<close>

theorem mutual_exclusion:
  assumes "harts_reach s" and "l \<in> inside s c"
  shows "(\<forall>d. l \<in> inside s d \<longrightarrow> d = c) \<and> \<not> sie (cpus s c)
     \<and> (\<exists>t. smp_release c l s = Ok () t)"
proof -
  from harts_reach_inv [OF assms(1)] have I: "own_inv s" "depth_inv s" by auto
  have uniq: "\<forall>d. l \<in> inside s d \<longrightarrow> d = c"
    using I assms(2) unfolding own_inv_def owns_def by metis
  have pos: "0 < noff (cpus s c)"
    using I assms(2) card_gt_0_iff [of "inside s c"] by (auto simp: depth_inv_def)
  then have off: "\<not> sie (cpus s c)" using I by (auto simp: depth_inv_def)
  have "holding c l s" using I assms(2) unfolding holding_def own_inv_def owns_def by metis
  then have "\<exists>t. smp_release c l s = Ok () t"
    using pos off by (simp add: spin_defs)
  with uniq off show ?thesis by blast
qed

lemma harts_reach_example:
  "harts_reach ((push_off 0 harts_init)\<lparr>
     slocks := (slocks harts_init)(Tickslock := \<lparr>locked = 1, lk_cpu = Some 0\<rparr>),
     pcs := (pcs harts_init)(0 := Run), inside := (inside harts_init)(0 := {Tickslock})\<rparr>)"
    (is "harts_reach ?t")
proof -
  let ?s1 = "(push_off 0 harts_init)\<lparr>pcs := (pcs harts_init)(0 := Trying Tickslock)\<rparr>"
  let ?s2 = "?s1\<lparr>slocks := (slocks ?s1)(Tickslock := (slocks ?s1 Tickslock)\<lparr>locked := 1\<rparr>),
     pcs := (pcs ?s1)(0 := Got Tickslock)\<rparr>"
  have "harts_reach ?s1"
    by (rule harts_reach.step [OF harts_reach.start], rule hart_step.acq_enter)
      (simp_all add: harts_init_def spin_defs)
  moreover have "hart_step ?s1 ?s2"
    using hart_step.acq_swap [of ?s1 0 Tickslock 0] by (simp add: test_and_set_def harts_init_def)
  moreover have "hart_step ?s2 ?t"
    using hart_step.acq_record [of ?s2 0 Tickslock] by (simp add: harts_init_def)
  ultimately show ?thesis by (blast intro: harts_reach.step)
qed

theorem mutual_exclusion_witness:
  "let s = (push_off 0 harts_init)\<lparr>
     slocks := (slocks harts_init)(Tickslock := \<lparr>locked = 1, lk_cpu = Some 0\<rparr>),
     pcs := (pcs harts_init)(0 := Run), inside := (inside harts_init)(0 := {Tickslock})\<rparr>
   in harts_reach s \<and> Tickslock \<in> inside s 0 \<and> \<not> sie (cpus s 0) \<and> (\<exists>t. smp_release 0 Tickslock s = Ok () t)"
proof -
  show ?thesis
    using harts_reach_example mutual_exclusion [OF harts_reach_example, of Tickslock 0]
    by (auto simp: Let_def)
qed

text \<open>
  \<^bold>\<open>C17\<close> (nesting of interrupt disabling). On a hart, \<^verbatim>\<open>acquire\<close> of a free lock followed by \<^verbatim>\<open>release\<close>
  restores the set of held locks, the \<^verbatim>\<open>push_off\<close> depth and the interrupt-enable bit, and the
  lock is free again; in between, interrupts are off. This holds at any nesting depth.
\<close>

theorem acquire_release_restores:
  assumes "spin_inv c s" and "locked (slocks s l) = 0"
  shows "\<exists>t u. smp_acquire c l s = Ok () t \<and> \<not> sie (cpus t c) \<and> holding c l t
     \<and> smp_release c l t = Ok () u \<and> spin_inv c u \<and> locked (slocks u l) = 0
     \<and> (\<forall>k. holding c k u = holding c k s)
     \<and> noff (cpus u c) = noff (cpus s c) \<and> sie (cpus u c) = sie (cpus s c)"
proof -
  from smp_acquire_free [OF assms] obtain t where t: "smp_acquire c l s = Ok () t" "spin_inv c t"
      "(\<lambda>k. holding c k t) = (\<lambda>k. holding c k s)(l := True)" "\<not> sie (cpus t c)"
      "noff (cpus t c) = noff (cpus s c) + 1" by blast
  then have h: "holding c l t" by (simp add: fun_eq_iff)
  from smp_release_held [OF t(2) h] obtain u where u: "smp_release c l t = Ok () u" "spin_inv c u"
      "(\<lambda>k. holding c k u) = (\<lambda>k. holding c k t)(l := False)" "locked (slocks u l) = 0"
      "noff (cpus u c) = noff (cpus t c) - 1"
      "sie (cpus u c) = (noff (cpus t c) = 1 \<and> intena (cpus t c))" by blast
  have "\<not> holding c l s" using assms(2) by (simp add: holding_def)
  then have "\<forall>k. holding c k u = holding c k s" using t(3) u(3) by (simp add: fun_eq_iff)
  moreover have "intena (cpus t c) = (if noff (cpus s c) = 0 then sie (cpus s c) else intena (cpus s c))"
    using t(1) by (auto simp: spin_defs split: if_splits)
  moreover have "0 < noff (cpus s c) \<Longrightarrow> \<not> sie (cpus s c)"
    using assms(1) by (simp add: spin_inv_def)
  ultimately show ?thesis using t u h spin_inv_noff [OF assms(1)] by auto
qed

theorem acquire_release_restores_witness:
  "let s = \<lparr>cpus = (\<lambda>_. \<lparr>noff = 0, intena = False, sie = True\<rparr>),
     slocks = (\<lambda>_. \<lparr>locked = 0, lk_cpu = None\<rparr>)\<rparr>
   in spin_inv 0 s \<and> locked (slocks s Log_lock) = 0
     \<and> (\<exists>t u. smp_acquire 0 Log_lock s = Ok () t \<and> smp_release 0 Log_lock t = Ok () u
          \<and> sie (cpus u 0))"
proof -
  let ?s = "\<lparr>cpus = (\<lambda>_. \<lparr>noff = 0, intena = False, sie = True\<rparr>),
     slocks = (\<lambda>_. \<lparr>locked = 0, lk_cpu = None\<rparr>)\<rparr> :: smp"
  have "spin_inv 0 ?s" "locked (slocks ?s Log_lock) = 0"
    by (simp_all add: spin_inv_def holding_def)
  with acquire_release_restores [OF this] show ?thesis by (auto simp: Let_def)
qed

end
