(* ===== verification/Cmem.thy ===== *)
theory Cmem
  imports Spinlock
begin

text \<open>
  Byte-addressed kernel memory and the routines of \<^verbatim>\<open>kernel/string.c\<close>. The loops of \<^verbatim>\<open>memset\<close>,
  \<^verbatim>\<open>memmove\<close> and \<^verbatim>\<open>memcmp\<close> run on memory; the string routines run on byte arrays, where a
  pointer is the rest of its array and a read at the end of a string yields its NUL.
\<close>

record machine = cpu_view +
  mem :: memory

section \<open>Reading and writing byte sequences\<close>

definition load_bytes :: "memory \<Rightarrow> addr \<Rightarrow> nat \<Rightarrow> u8 list" where
  "load_bytes m a n = map (\<lambda>i. m (a + of_nat i)) [0..<n]"

definition store_bytes :: "memory \<Rightarrow> addr \<Rightarrow> u8 list \<Rightarrow> memory" where
  "store_bytes m a bs = (\<lambda>x. if unat (x - a) < length bs then bs ! unat (x - a) else m x)"

definition load64 :: "memory \<Rightarrow> addr \<Rightarrow> u64" where
  "load64 m a = from_le (load_bytes m a 8)"

definition store64 :: "memory \<Rightarrow> addr \<Rightarrow> u64 \<Rightarrow> memory" where
  "store64 m a v = store_bytes m a (to_le 8 v)"

lemma length_load_bytes [simp]: "length (load_bytes m a n) = n"
  by (simp add: load_bytes_def)

lemma load_bytes_nth [simp]: "i < n \<Longrightarrow> load_bytes m a n ! i = m (a + of_nat i)"
  by (simp add: load_bytes_def)

lemma unat_lt64: "unat (a :: u64) < 18446744073709551616"
  using unsigned_less [of a, where ?'a = nat] by simp

lemma unat_of_nat_lt64: "i < 2 ^ 64 \<Longrightarrow> unat (of_nat i :: addr) = i"
  by (simp add: unat_of_nat)

lemma unat_diff_eq_iff: "i < 2 ^ 64 \<Longrightarrow> unat (x - a) = i \<longleftrightarrow> x = a + (of_nat i :: addr)"
  by (metis add_diff_cancel_left' diff_add_cancel add.commute of_nat_unat ucast_id unat_of_nat_lt64)

lemma load_store_bytes [simp]:
  "length bs \<le> 2 ^ 64 \<Longrightarrow> load_bytes (store_bytes m a bs) a (length bs) = bs"
  by (rule nth_equalityI) (auto simp: store_bytes_def unat_of_nat_lt64)

text \<open>The bytes \<^verbatim>\<open>a .. a + n - 1\<close>, with wrap-around.\<close>

definition region :: "addr \<Rightarrow> nat \<Rightarrow> addr set" where
  "region a n = {x. unat (x - a) < n}"

lemma in_region_offset: "i < n \<Longrightarrow> n \<le> 2 ^ 64 \<Longrightarrow> a + of_nat i \<in> region a n"
  by (simp add: region_def unat_of_nat_lt64)

lemma store_bytes_outside [simp]: "x \<notin> region a (length bs) \<Longrightarrow> store_bytes m a bs x = m x"
  by (simp add: store_bytes_def region_def)

lemma load_store_disjoint:
  assumes "region a (length bs) \<inter> region b n = {}" and "n \<le> 2 ^ 64"
  shows "load_bytes (store_bytes m a bs) b n = load_bytes m b n"
proof (rule nth_equalityI)
  fix i assume "i < length (load_bytes (store_bytes m a bs) b n)"
  then have i: "i < n" by simp
  with assms have "b + of_nat i \<notin> region a (length bs)"
    using in_region_offset [of i n b] by blast
  with i show "load_bytes (store_bytes m a bs) b n ! i = load_bytes m b n ! i" by simp
qed simp

lemma load64_store64 [simp]: "load64 (store64 m a v) a = v"
proof -
  have "load_bytes (store_bytes m a (to_le 8 v)) a 8 = to_le 8 v"
    using load_store_bytes [of "to_le 8 v" m a] by simp
  then show ?thesis
    using from_le_to_le [of 8 v] by (simp add: load64_def store64_def take_bit_word_eq_self)
qed

lemma load64_store64_disjoint:
  "region a 8 \<inter> region b 8 = {} \<Longrightarrow> load64 (store64 m a v) b = load64 m b"
  by (simp add: load64_def store64_def load_store_disjoint)

lemma load64_store_bytes_disjoint:
  "region a (length bs) \<inter> region b 8 = {} \<Longrightarrow> load64 (store_bytes m a bs) b = load64 m b"
  by (simp add: load64_def load_store_disjoint)

section \<open>memset, memcmp, memmove\<close>

text \<open>\<^verbatim>\<open>for(i = 0; i < n; i++) cdst[i] = c;\<close> with \<^verbatim>\<open>k\<close> iterations left.\<close>

fun memset_loop :: "memory \<Rightarrow> addr \<Rightarrow> u8 \<Rightarrow> nat \<Rightarrow> nat \<Rightarrow> memory" where
  "memset_loop m cdst c i 0 = m"
| "memset_loop m cdst c i (Suc k) = memset_loop (m(cdst + of_nat i := c)) cdst c (Suc i) k"

definition memset :: "memory \<Rightarrow> addr \<Rightarrow> i32 \<Rightarrow> u32 \<Rightarrow> memory" where
  "memset m dst c n = memset_loop m dst (ucast c) 0 (unat n)"

fun memcmp :: "memory \<Rightarrow> addr \<Rightarrow> addr \<Rightarrow> nat \<Rightarrow> int" where
  "memcmp m s1 s2 0 = 0"
| "memcmp m s1 s2 (Suc n) =
     (if m s1 \<noteq> m s2 then uint (m s1) - uint (m s2) else memcmp m (s1 + 1) (s2 + 1) n)"

fun move_forward :: "memory \<Rightarrow> addr \<Rightarrow> addr \<Rightarrow> nat \<Rightarrow> memory" where
  "move_forward m d s 0 = m"
| "move_forward m d s (Suc n) = move_forward (m(d := m s)) (d + 1) (s + 1) n"

fun move_backward :: "memory \<Rightarrow> addr \<Rightarrow> addr \<Rightarrow> nat \<Rightarrow> memory" where
  "move_backward m d s 0 = m"
| "move_backward m d s (Suc n) = move_backward (m(d - 1 := m (s - 1))) (d - 1) (s - 1) n"

definition memmove :: "memory \<Rightarrow> addr \<Rightarrow> addr \<Rightarrow> u32 \<Rightarrow> memory" where
  "memmove m dst src n =
     (if src < dst \<and> src + ucast n > dst
      then move_backward m (dst + ucast n) (src + ucast n) (unat n)
      else move_forward m dst src (unat n))"

definition memcpy :: "memory \<Rightarrow> addr \<Rightarrow> addr \<Rightarrow> u32 \<Rightarrow> memory" where
  "memcpy m dst src n = memmove m dst src n"

lemma memset_loop_eq:
  "i + k \<le> 2 ^ 64 \<Longrightarrow> memset_loop m d c i k
     = (\<lambda>x. if i \<le> unat (x - d) \<and> unat (x - d) < i + k then c else m x)"
proof (induction k arbitrary: m i)
  case 0
  then show ?case by (auto simp: fun_eq_iff)
next
  case (Suc k)
  have eq: "unat (x - d) = i \<longleftrightarrow> x = d + of_nat i" for x
    by (rule unat_diff_eq_iff) (use Suc.prems in simp)
  have "memset_loop m d c i (Suc k)
      = (\<lambda>x. if Suc i \<le> unat (x - d) \<and> unat (x - d) < Suc i + k then c
             else (m(d + of_nat i := c)) x)"
    using Suc by simp
  then show ?case by (auto simp: fun_eq_iff fun_upd_apply simp flip: eq)
qed

lemma memset_eq: "memset m dst c n = store_bytes m dst (replicate (unat n) (ucast c))"
proof -
  have "0 + unat n \<le> 2 ^ 64" using unsigned_less [of n, where ?'a = nat] by simp
  from memset_loop_eq [OF this, of m dst] show ?thesis
    by (auto simp: memset_def store_bytes_def fun_eq_iff)
qed

lemma load_bytes_0 [simp]: "load_bytes m a 0 = []"
  by (simp add: load_bytes_def)

lemma load_bytes_Suc: "load_bytes m a (Suc n) = m a # load_bytes m (a + 1) n"
  by (rule nth_equalityI) (auto simp: nth_Cons' algebra_simps of_nat_diff gr0_conv_Suc)

lemma load_bytes_snoc: "load_bytes m a (Suc n) = load_bytes m a n @ [m (a + of_nat n)]"
  by (simp add: load_bytes_def)

lemma load_bytes_cong: "(\<And>i. i < n \<Longrightarrow> m (a + of_nat i) = m' (a + of_nat i)) \<Longrightarrow>
    load_bytes m a n = load_bytes m' a n"
  by (simp add: load_bytes_def)

lemma store_bytes_Nil [simp]: "store_bytes m a [] = m"
  by (simp add: store_bytes_def)

lemma store_bytes_snoc:
  assumes "length bs < 2 ^ 64"
  shows "store_bytes (m(a + of_nat (length bs) := b)) a bs = store_bytes m a (bs @ [b])"
proof
  fix x
  show "store_bytes (m(a + of_nat (length bs) := b)) a bs x = store_bytes m a (bs @ [b]) x"
    using unat_diff_eq_iff [OF assms, of x a]
    by (auto simp: store_bytes_def nth_append less_Suc_eq)
qed

lemma store_bytes_Cons:
  assumes "length bs < 2 ^ 64"
  shows "store_bytes (m(a := b)) (a + 1) bs = store_bytes m a (b # bs)"
proof
  fix x
  show "store_bytes (m(a := b)) (a + 1) bs x = store_bytes m a (b # bs) x"
  proof (cases "x = a")
    case True
    then have "unat (x - (a + 1)) = 2 ^ 64 - 1"
      by (simp add: unsigned_minus_1_eq_mask mask_eq_exp_minus_1)
    with assms True show ?thesis by (simp add: store_bytes_def)
  next
    case False
    then have "unat (x - (a + 1)) = unat (x - a) - 1" and "0 < unat (x - a)"
      using unat_minus_one [of "x - a"] by (auto simp: algebra_simps unat_gt_0)
    with False show ?thesis by (auto simp: store_bytes_def nth_Cons')
  qed
qed

lemma move_forward_eq:
  assumes "n \<le> 2 ^ 64" and "\<And>i j. i < j \<Longrightarrow> j < n \<Longrightarrow> d + of_nat i \<noteq> s + of_nat j"
  shows "move_forward m d s n = store_bytes m d (load_bytes m s n)"
  using assms
proof (induction n arbitrary: m d s)
  case 0
  then show ?case by (simp add: load_bytes_def)
next
  case (Suc n)
  have ne: "s + 1 + of_nat j \<noteq> d" if "j < n" for j
    using Suc.prems(2) [of 0 "Suc j"] that by (auto simp: algebra_simps)
  have "move_forward (m(d := m s)) (d + 1) (s + 1) n
      = store_bytes (m(d := m s)) (d + 1) (load_bytes (m(d := m s)) (s + 1) n)"
  proof (rule Suc.IH)
    fix i j assume "i < j" and "j < n"
    then show "d + 1 + of_nat i \<noteq> s + 1 + of_nat j"
      using Suc.prems(2) [of "Suc i" "Suc j"] by (simp add: algebra_simps)
  qed (use Suc.prems in simp)
  also have "load_bytes (m(d := m s)) (s + 1) n = load_bytes m (s + 1) n"
    by (rule load_bytes_cong) (use ne in auto)
  also have "store_bytes (m(d := m s)) (d + 1) (load_bytes m (s + 1) n)
      = store_bytes m d (m s # load_bytes m (s + 1) n)"
    by (rule store_bytes_Cons) (use Suc.prems(1) in simp)
  finally show ?case by (simp only: move_forward.simps load_bytes_Suc)
qed

lemma move_backward_eq:
  assumes "n \<le> 2 ^ 64" and "\<And>i j. i < j \<Longrightarrow> j < n \<Longrightarrow> d + of_nat j \<noteq> s + of_nat i"
  shows "move_backward m (d + of_nat n) (s + of_nat n) n = store_bytes m d (load_bytes m s n)"
  using assms
proof (induction n arbitrary: m)
  case 0
  then show ?case by (simp add: load_bytes_def)
next
  case (Suc n)
  let ?m = "m(d + of_nat n := m (s + of_nat n))"
  have "move_backward m (d + of_nat (Suc n)) (s + of_nat (Suc n)) (Suc n)
      = move_backward ?m (d + of_nat n) (s + of_nat n) n"
    by (simp add: algebra_simps)
  also have "\<dots> = store_bytes ?m d (load_bytes ?m s n)"
    using Suc by simp
  also have "load_bytes ?m s n = load_bytes m s n"
  proof (rule load_bytes_cong)
    fix i assume "i < n"
    with Suc.prems(2) [of i n] have "s + of_nat i \<noteq> d + of_nat n" by (auto dest: sym)
    then show "?m (s + of_nat i) = m (s + of_nat i)" by simp
  qed
  also have "store_bytes ?m d (load_bytes m s n)
      = store_bytes m d (load_bytes m s n @ [m (s + of_nat n)])"
    using store_bytes_snoc [of "load_bytes m s n" m d "m (s + of_nat n)"] Suc.prems(1) by simp
  finally show ?case by (simp add: load_bytes_snoc)
qed

lemma unat_ucast32 [simp]: "unat (ucast (n :: u32) :: u64) = unat n"
  using unsigned_less [of n, where ?'a = nat] by (simp add: unsigned_ucast_eq take_bit_nat_eq_self)

lemma add_of_nat_inj:
  assumes "a + of_nat i = b + (of_nat j :: addr)" and "unat a + i < 2 ^ 64" and "unat b + j < 2 ^ 64"
  shows "unat a + i = unat b + j"
proof -
  have "unat (a + of_nat i) = unat a + i" "unat (b + of_nat j) = unat b + j"
    using assms(2,3) by (simp_all add: unat_word_ariths unat_of_nat_lt64)
  with assms(1) show ?thesis by simp
qed

lemma memmove_eq:
  assumes "unat src + unat n < 2 ^ 64" and "unat dst + unat n < 2 ^ 64"
  shows "memmove m dst src n = store_bytes m dst (load_bytes m src (unat n))"
proof (cases "src < dst \<and> src + ucast n > dst")
  case True
  have "dst + of_nat j \<noteq> src + of_nat i" if "i < j" "j < unat n" for i j
  proof
    assume "dst + of_nat j = src + of_nat i"
    from add_of_nat_inj [OF this] assms that have "unat dst + j = unat src + i" by simp
    with True that show False by (simp add: word_less_nat_alt)
  qed
  moreover have "ucast n = (of_nat (unat n) :: addr)" by simp
  ultimately show ?thesis
    using True move_backward_eq [of "unat n" dst src m] assms by (simp add: memmove_def)
next
  case False
  have un: "unat (src + ucast n) = unat src + unat n"
    using assms by (simp add: unat_word_ariths)
  have "dst + of_nat i \<noteq> src + of_nat j" if "i < j" "j < unat n" for i j
  proof
    assume "dst + of_nat i = src + of_nat j"
    from add_of_nat_inj [OF this] assms that have "unat dst + i = unat src + j" by simp
    with False that un show False by (auto simp: word_less_nat_alt)
  qed
  then show ?thesis
    using False move_forward_eq [of "unat n" dst src m] assms by (auto simp: memmove_def)
qed

text \<open>
  \<^bold>\<open>C18\<close> (memmove). For source and destination ranges that do not wrap around the address space,
  \<^verbatim>\<open>memmove\<close> writes to the destination exactly the bytes the source held before the call, however
  the two ranges overlap, and changes nothing else.
\<close>

theorem memmove_correct:
  assumes "unat src + unat n < 2 ^ 64" and "unat dst + unat n < 2 ^ 64"
  shows "memmove m dst src n = store_bytes m dst (load_bytes m src (unat n))"
  using assms by (rule memmove_eq)

theorem memmove_correct_witness:
  "let m = (\<lambda>a. ucast a) :: memory in
   unat (100 :: addr) + unat (4 :: u32) < 2 ^ 64 \<and> unat (102 :: addr) + unat (4 :: u32) < 2 ^ 64
   \<and> load_bytes (memmove m 102 100 4) 102 4 = [100, 101, 102, 103]"
proof -
  have "memmove (\<lambda>a. ucast a) 102 100 4
      = store_bytes (\<lambda>a. ucast a) 102 (load_bytes (\<lambda>a. ucast a) 100 (unat (4 :: u32)))"
    by (rule memmove_correct) simp_all
  then show ?thesis
    using load_store_bytes [of "load_bytes (\<lambda>a. ucast a) 100 4" "\<lambda>a. ucast a" 102]
    by (simp add: Let_def) (simp add: load_bytes_def upt_rec)
qed

section \<open>Strings and character arrays\<close>

text \<open>
  The character at a pointer, and the string a pointer designates: the bytes up to the first
  NUL. A list that holds no NUL stands for a string whose NUL follows its last byte.
\<close>

definition deref :: "u8 list \<Rightarrow> u8" where
  "deref p = (case p of [] \<Rightarrow> 0 | c # _ \<Rightarrow> c)"

definition cstr :: "u8 list \<Rightarrow> u8 list" where
  "cstr p = takeWhile (\<lambda>c. c \<noteq> 0) p"

text \<open>The bytes of a C string literal.\<close>

definition cbytes :: "string \<Rightarrow> u8 list" where
  "cbytes = map of_char"

lemma deref_simps [simp]: "deref [] = 0" "deref (c # p) = c"
  by (simp_all add: deref_def)

lemma deref_length [termination_simp]: "deref s \<noteq> 0 \<Longrightarrow> length s - Suc 0 < length s"
  by (cases s) auto

fun strlen :: "u8 list \<Rightarrow> nat" where
  "strlen s = (if deref s = 0 then 0 else Suc (strlen (tl s)))"

fun strncmp :: "u8 list \<Rightarrow> u8 list \<Rightarrow> nat \<Rightarrow> int" where
  "strncmp p q n =
     (if n > 0 \<and> deref p \<noteq> 0 \<and> deref p = deref q then strncmp (tl p) (tl q) (n - 1)
      else if n = 0 then 0 else uint (deref p) - uint (deref q))"

text \<open>
  The two loops of \<^verbatim>\<open>strncpy\<close>: the bytes written to \<^verbatim>\<open>s\<close>; \<^verbatim>\<open>strncpy\<close> overwrites that many bytes of the
  destination array.
\<close>

fun strncpy_bytes :: "u8 list \<Rightarrow> nat \<Rightarrow> u8 list" where
  "strncpy_bytes t 0 = []"
| "strncpy_bytes t (Suc n) =
     (if deref t \<noteq> 0 then deref t # strncpy_bytes (tl t) n else 0 # replicate n 0)"

definition strncpy :: "u8 list \<Rightarrow> u8 list \<Rightarrow> nat \<Rightarrow> u8 list" where
  "strncpy s t n = strncpy_bytes t n @ drop n s"

text \<open>
  \<^verbatim>\<open>while(--n > 0 && ( *s++ = *t++ ) != 0);  *s = 0;\<close> The copied NUL ends the loop, so the final
  store is at the byte after it.
\<close>

fun safestrcpy_bytes :: "u8 list \<Rightarrow> nat \<Rightarrow> u8 list" where
  "safestrcpy_bytes t 0 = []"
| "safestrcpy_bytes t (Suc 0) = [0]"
| "safestrcpy_bytes t (Suc (Suc n)) =
     (if deref t \<noteq> 0 then deref t # safestrcpy_bytes (tl t) (Suc n) else [0, 0])"

definition safestrcpy :: "u8 list \<Rightarrow> u8 list \<Rightarrow> nat \<Rightarrow> u8 list" where
  "safestrcpy s t n = (let w = safestrcpy_bytes t n in w @ drop (length w) s)"

declare strlen.simps [simp del] strncmp.simps [simp del]

lemma cstr_unfold: "cstr p = (if deref p = 0 then [] else deref p # cstr (tl p))"
  by (cases p) (auto simp: cstr_def)

lemma strlen_eq: "strlen s = length (cstr s)"
proof (induction s rule: strlen.induct)
  case (1 s)
  then show ?case by (subst strlen.simps, subst cstr_unfold) simp
qed

lemma strncmp_eq_0: "strncmp p q n = 0 \<longleftrightarrow> take n (cstr p) = take n (cstr q)"
proof (induction p q n rule: strncmp.induct)
  case (1 p q n)
  show ?case
  proof (cases "n > 0 \<and> deref p \<noteq> 0 \<and> deref p = deref q")
    case True
    then show ?thesis
      using 1 by (simp add: strncmp.simps [of p q n] cstr_unfold [of p] cstr_unfold [of q] take_Cons')
  next
    case False
    have "uint (deref p) = uint (deref q) \<longleftrightarrow> deref p = deref q" by (rule word_uint_eq_iff [symmetric])
    with False show ?thesis
      by (auto simp: strncmp.simps [of p q n] cstr_unfold [of p] cstr_unfold [of q] take_Cons')
  qed
qed

lemma length_strncpy_bytes [simp]: "length (strncpy_bytes t n) = n"
  by (induction t n rule: strncpy_bytes.induct) auto

lemma strncpy_bytes_eq:
  "strncpy_bytes t n = take n (cstr t) @ replicate (n - length (cstr t)) 0"
proof (induction t n rule: strncpy_bytes.induct)
  case (1 t)
  then show ?case by simp
next
  case (2 t n)
  then show ?case by (auto simp: cstr_unfold [of t])
qed

lemma safestrcpy_bytes_eq:
  "safestrcpy_bytes t n = (if n = 0 then []
     else take (n - 1) (cstr t) @ (if length (cstr t) < n - 1 then [0, 0] else [0]))"
proof (induction t n rule: safestrcpy_bytes.induct)
  case (3 t n)
  then show ?case by (auto simp: cstr_unfold [of t])
qed auto

lemma no_nul_cstr [simp]: "0 \<notin> set (cstr t)"
  by (auto simp: cstr_def dest: set_takeWhileD)

lemma cstr_append_nul [simp]: "0 \<notin> set xs \<Longrightarrow> cstr (xs @ 0 # ys) = xs"
  by (induction xs) (auto simp: cstr_def)

lemma strncpy_agrees:
  assumes n: "n \<le> length s"
  shows "length (strncpy s t n) = length s \<and> strncmp (strncpy s t n) t n = 0"
proof -
  have "take n (cstr (strncpy s t n)) = take n (cstr t)"
  proof (cases "n \<le> length (cstr t)")
    case True
    then have "strncpy s t n = take n (cstr t) @ drop n s"
      by (simp add: strncpy_def strncpy_bytes_eq)
    moreover have "takeWhile (\<lambda>c. c \<noteq> 0) (take n (cstr t) @ drop n s)
        = take n (cstr t) @ takeWhile (\<lambda>c. c \<noteq> 0) (drop n s)"
      using no_nul_cstr [of t] by (intro takeWhile_append2) (metis in_set_takeD)
    ultimately show ?thesis using True by (simp add: cstr_def)
  next
    case False
    then obtain k where "n - length (cstr t) = Suc k" by (metis Suc_diff_Suc not_le)
    then show ?thesis using False by (simp add: strncpy_def strncpy_bytes_eq)
  qed
  with n show ?thesis by (simp add: strncpy_def strncmp_eq_0)
qed

lemma safestrcpy_terminates:
  assumes n: "0 < n" "n \<le> length s"
  shows "length (safestrcpy s t n) = length s \<and> cstr (safestrcpy s t n) = take (n - 1) (cstr t)"
proof -
  have "0 \<notin> set (take (n - 1) (cstr t))" using no_nul_cstr [of t] by (metis in_set_takeD)
  then have "cstr (safestrcpy s t n) = take (n - 1) (cstr t)"
    using n by (simp add: safestrcpy_def safestrcpy_bytes_eq Let_def)
  moreover have "length (safestrcpy_bytes t n) \<le> n"
    using n by (auto simp: safestrcpy_bytes_eq)
  ultimately show ?thesis using n by (simp add: safestrcpy_def Let_def)
qed

text \<open>
  The bounded string routines. \<^verbatim>\<open>strncmp\<close> returns 0 exactly for strings that agree on their first
  \<^verbatim>\<open>n\<close> characters. \<^verbatim>\<open>strncpy\<close> keeps the size of the destination array and fills the rest of the
  \<^verbatim>\<open>n\<close> bytes with NULs, so that copying a name and comparing it with the original finds them equal.
  \<^verbatim>\<open>safestrcpy\<close> keeps the size of an array of at least \<^verbatim>\<open>n\<close> bytes and always leaves a NUL-terminated
  string there, the source cut to \<^verbatim>\<open>n - 1\<close> characters.
\<close>

lemma string_routines:
  "(strncmp p q n = 0 \<longleftrightarrow> take n (cstr p) = take n (cstr q))
   \<and> (n \<le> length s \<longrightarrow> length (strncpy s t n) = length s \<and> strncmp (strncpy s t n) t n = 0)
   \<and> (0 < n \<and> n \<le> length s \<longrightarrow>
        length (safestrcpy s t n) = length s \<and> cstr (safestrcpy s t n) = take (n - 1) (cstr t))"
  by (simp add: strncmp_eq_0 strncpy_agrees safestrcpy_terminates)

end
