(* ===== verification/Riscv.thy ===== *)
theory Riscv
  imports Cmem
begin

text \<open>
  The address arithmetic of \<^verbatim>\<open>kernel/riscv.h\<close> (pages, Sv39 page-table entries and indices) and
  the memory layout of \<^verbatim>\<open>kernel/memlayout.h\<close>, with the facts on pages that the allocator and
  the page-table code rest on.
\<close>

section \<open>Macros\<close>

definition PGSIZE :: u64 where "PGSIZE = 4096"
definition PGSHIFT :: nat where "PGSHIFT = 12"

definition PGROUNDUP :: "u64 \<Rightarrow> u64" where
  "PGROUNDUP sz = (sz + PGSIZE - 1) AND NOT (PGSIZE - 1)"

definition PGROUNDDOWN :: "u64 \<Rightarrow> u64" where
  "PGROUNDDOWN a = a AND NOT (PGSIZE - 1)"

definition PTE_V :: u64 where "PTE_V = push_bit 0 1"
definition PTE_R :: u64 where "PTE_R = push_bit 1 1"
definition PTE_W :: u64 where "PTE_W = push_bit 2 1"
definition PTE_X :: u64 where "PTE_X = push_bit 3 1"
definition PTE_U :: u64 where "PTE_U = push_bit 4 1"

definition PA2PTE :: "u64 \<Rightarrow> u64" where "PA2PTE pa = push_bit 10 (drop_bit 12 pa)"
definition PTE2PA :: "u64 \<Rightarrow> u64" where "PTE2PA pte = push_bit 12 (drop_bit 10 pte)"
definition PTE_FLAGS :: "u64 \<Rightarrow> u64" where "PTE_FLAGS pte = pte AND 0x3FF"

definition PXMASK :: u64 where "PXMASK = 0x1FF"
definition PXSHIFT :: "nat \<Rightarrow> nat" where "PXSHIFT level = PGSHIFT + 9 * level"
definition PX :: "nat \<Rightarrow> u64 \<Rightarrow> u64" where "PX level va = drop_bit (PXSHIFT level) va AND PXMASK"

definition MAXVA :: u64 where "MAXVA = push_bit (9 + 9 + 9 + 12 - 1) 1"

definition KERNBASE :: u64 where "KERNBASE = 0x80000000"
definition PHYSTOP :: u64 where "PHYSTOP = KERNBASE + 128 * 1024 * 1024"
definition TRAMPOLINE :: u64 where "TRAMPOLINE = MAXVA - PGSIZE"
definition TRAPFRAME :: u64 where "TRAPFRAME = TRAMPOLINE - PGSIZE"
definition KSTACK :: "nat \<Rightarrow> u64" where "KSTACK p = TRAMPOLINE - (of_nat p + 1) * 2 * PGSIZE"

definition SATP_SV39 :: u64 where "SATP_SV39 = push_bit 60 8"
definition MAKE_SATP :: "u64 \<Rightarrow> u64" where "MAKE_SATP pagetable = SATP_SV39 OR drop_bit 12 pagetable"

lemmas pte_flag_defs = PTE_V_def PTE_R_def PTE_W_def PTE_X_def PTE_U_def

section \<open>Pages\<close>

definition aligned :: "addr \<Rightarrow> bool" where
  "aligned a \<longleftrightarrow> a mod PGSIZE = 0"

lemma unat_PGSIZE [simp]: "unat PGSIZE = 4096"
  by (simp add: PGSIZE_def)

lemma aligned_nat: "aligned a \<longleftrightarrow> unat a mod 4096 = 0"
  by (simp add: aligned_def word_unat_eq_iff unat_mod_distrib)

lemma alignedE:
  assumes "aligned a"
  obtains k where "unat a = 4096 * k"
  using assms by (auto simp: aligned_nat mod_eq_0_iff_dvd dvd_def)

lemma PGROUNDDOWN_bits: "PGROUNDDOWN a = push_bit 12 (drop_bit 12 a)"
proof -
  have "PGSIZE - 1 = mask 12" by (simp add: PGSIZE_def mask_eq_exp_minus_1)
  then show ?thesis
    by (auto simp: PGROUNDDOWN_def bit_simps intro!: bit_word_eqI)
qed

lemma unat_PGROUNDDOWN: "unat (PGROUNDDOWN a) = unat a div 4096 * 4096"
proof -
  have "unat a div 4096 * 4096 < 2 ^ 64"
    using unsigned_less [of a, where ?'a = nat] by (auto intro: le_less_trans div_times_less_eq_dividend)
  moreover have "take_bit 64 (unat a) = unat a"
    using unsigned_less [of a, where ?'a = nat] by (intro take_bit_nat_eq_self) simp
  ultimately have "take_bit 64 (push_bit 12 (drop_bit 12 (take_bit 64 (unat a))))
      = unat a div 4096 * 4096"
    by (simp add: push_bit_eq_mult drop_bit_eq_div take_bit_nat_eq_self)
  then show ?thesis
    by (simp add: PGROUNDDOWN_bits unsigned_push_bit_eq unsigned_drop_bit_eq)
qed

lemma aligned_PGROUNDDOWN [simp]: "aligned (PGROUNDDOWN a)"
  by (simp add: aligned_nat unat_PGROUNDDOWN)

lemma PGROUNDDOWN_aligned: "aligned a \<Longrightarrow> PGROUNDDOWN a = a"
  by (auto simp: word_unat_eq_iff unat_PGROUNDDOWN elim!: alignedE)

lemma PGROUNDDOWN_le: "PGROUNDDOWN a \<le> a"
  by (simp add: word_le_nat_alt unat_PGROUNDDOWN)

lemma PGROUNDUP_eq: "PGROUNDUP sz = PGROUNDDOWN (sz + 4095)"
  by (simp add: PGROUNDUP_def PGROUNDDOWN_def PGSIZE_def algebra_simps)

lemma aligned_PGROUNDUP [simp]: "aligned (PGROUNDUP a)"
  by (simp add: PGROUNDUP_eq)

lemma unat_PGROUNDUP:
  "unat sz + 4095 < 2 ^ 64 \<Longrightarrow> unat (PGROUNDUP sz) = (unat sz + 4095) div 4096 * 4096"
  by (simp add: PGROUNDUP_eq unat_PGROUNDDOWN unat_word_ariths)

lemma aligned_room: "aligned a \<Longrightarrow> unat a + 4096 \<le> 2 ^ 64"
  using unsigned_less [of a, where ?'a = nat] by (auto elim!: alignedE)

lemma in_page_iff: "aligned a \<Longrightarrow> x \<in> region a 4096 \<longleftrightarrow> PGROUNDDOWN x = a"
proof
  assume a: "aligned a" and x: "x \<in> region a 4096"
  define i where "i = unat (x - a)"
  have i: "i < 4096" using x by (simp add: region_def i_def)
  have "x = a + of_nat i" by (simp add: i_def)
  then have "unat x = unat a + i"
    using i aligned_room [OF a] by (simp add: unat_word_ariths unat_of_nat_lt64)
  with i a show "PGROUNDDOWN x = a"
    by (auto simp: word_unat_eq_iff unat_PGROUNDDOWN elim!: alignedE)
next
  assume "PGROUNDDOWN x = a"
  then have "unat a = unat x div 4096 * 4096" by (simp flip: unat_PGROUNDDOWN)
  moreover from this have "a \<le> x" by (simp add: word_le_nat_alt)
  ultimately show "x \<in> region a 4096"
    by (simp add: region_def unat_sub minus_div_mult_eq_mod)
qed

lemma page_disjoint:
  "aligned a \<Longrightarrow> aligned b \<Longrightarrow> a \<noteq> b \<Longrightarrow> region a 4096 \<inter> region b 4096 = {}"
  by (auto simp: in_page_iff)

lemma region_mono: "m \<le> n \<Longrightarrow> region a m \<subseteq> region a n"
  by (auto simp: region_def)

lemma PTE2PA_PA2PTE:
  assumes "aligned pa" and "unat f < 1024"
  shows "PTE2PA (PA2PTE pa OR f) = pa"
proof (rule bit_word_eqI)
  fix i assume i: "i < LENGTH(64)"
  have low: "\<not> bit pa j" if "j < 12" for j
  proof -
    have "bit pa j = bit (push_bit 12 (drop_bit 12 pa)) j"
      using PGROUNDDOWN_aligned [OF assms(1)] by (simp add: PGROUNDDOWN_bits)
    with that show ?thesis by (simp add: bit_simps)
  qed
  have high: "\<not> bit f j" if "10 \<le> j" for j
  proof -
    have "take_bit 10 f = f"
      using assms(2) by (simp add: word_unat_eq_iff unsigned_take_bit_eq take_bit_nat_eq_self)
    then have "bit f j = bit (take_bit 10 f) j" by simp
    with that show ?thesis by (simp add: bit_simps)
  qed
  show "bit (PTE2PA (PA2PTE pa OR f)) i = bit pa i"
  proof (cases "12 \<le> i")
    case True
    then obtain j where "i = 12 + j" by (auto simp: le_iff_add)
    with i high [of "10 + j"] show ?thesis by (simp add: PTE2PA_def PA2PTE_def bit_simps)
  next
    case False
    with low [of i] show ?thesis by (simp add: PTE2PA_def bit_simps)
  qed
qed

end
