(* ===== verification/Kalloc.thy ===== *)
theory Kalloc
  imports Riscv
begin

text \<open>
  The physical page allocator (\<^verbatim>\<open>kernel/kalloc.c\<close>). The free list is the one the code keeps:
  a chain through the first eight bytes of each free page. \<^verbatim>\<open>kmem_ok s xs\<close> says that the chain
  holds exactly the pages \<^verbatim>\<open>xs\<close>; the contract \<^verbatim>\<open>page_allocator\<close> states what clients rely on.
\<close>

section \<open>State and operations\<close>

text \<open>\<^verbatim>\<open>k_end\<close> is the linker symbol \<^verbatim>\<open>end\<close>, the first address after the kernel image.\<close>

record kalloc_state = machine +
  freelist :: addr
  k_end :: addr

definition kfree :: "addr \<Rightarrow> 'z kalloc_state_scheme \<Rightarrow> (unit, 'z kalloc_state_scheme) res" where
  "kfree pa s =
     (if pa mod PGSIZE \<noteq> 0 \<or> pa < k_end s \<or> pa \<ge> PHYSTOP then Panic ''kfree''
      else let s = s\<lparr>mem := memset (mem s) pa 1 (ucast PGSIZE)\<rparr>; r = pa in
        kbind (acquire Kmem_lock s) (\<lambda>_ s.
        let s = s\<lparr>mem := store64 (mem s) r (freelist s)\<rparr>;
            s = s\<lparr>freelist := r\<rparr> in
        release Kmem_lock s))"

definition kalloc :: "'z kalloc_state_scheme \<Rightarrow> (addr, 'z kalloc_state_scheme) res" where
  "kalloc s =
     kbind (acquire Kmem_lock s) (\<lambda>_ s.
     let r = freelist s;
         s = (if r \<noteq> 0 then s\<lparr>freelist := load64 (mem s) r\<rparr> else s) in
     kbind (release Kmem_lock s) (\<lambda>_ s.
     let s = (if r \<noteq> 0 then s\<lparr>mem := memset (mem s) r 5 (ucast PGSIZE)\<rparr> else s) in
     Ok r s))"

text \<open>
  The loop of \<^verbatim>\<open>freerange\<close>; \<^verbatim>\<open>p + PGSIZE <= pa_end\<close> compares pointers, which do not wrap.
\<close>

function freerange_loop ::
  "addr \<Rightarrow> addr \<Rightarrow> 'z kalloc_state_scheme \<Rightarrow> (unit, 'z kalloc_state_scheme) res" where
  "freerange_loop p pa_end s =
     (if unat p + unat PGSIZE \<le> unat pa_end
      then kbind (kfree p s) (\<lambda>_ s. freerange_loop (p + PGSIZE) pa_end s)
      else Ok () s)"
  by pat_completeness auto
termination
proof (relation "measure (\<lambda>(p, e, s). unat e - unat p)", goal_cases)
  case (2 p e s u t)
  then have "unat (p + PGSIZE) = unat p + 4096"
    using unsigned_less [of e, where ?'a = nat] by (simp add: unat_word_ariths PGSIZE_def)
  with 2 show ?case by simp
qed simp

definition freerange ::
  "addr \<Rightarrow> addr \<Rightarrow> 'z kalloc_state_scheme \<Rightarrow> (unit, 'z kalloc_state_scheme) res" where
  "freerange pa_start pa_end s = freerange_loop (PGROUNDUP pa_start) pa_end s"

definition kinit :: "'z kalloc_state_scheme \<Rightarrow> (unit, 'z kalloc_state_scheme) res" where
  "kinit s = freerange (k_end s) PHYSTOP s"

declare freerange_loop.simps [simp del]

section \<open>The free list as a list of pages\<close>

fun chain :: "memory \<Rightarrow> addr \<Rightarrow> addr list \<Rightarrow> bool" where
  "chain m p [] \<longleftrightarrow> p = 0"
| "chain m p (x # xs) \<longleftrightarrow> p = x \<and> p \<noteq> 0 \<and> chain m (load64 m p) xs"

definition phys_page :: "'z kalloc_state_scheme \<Rightarrow> addr \<Rightarrow> bool" where
  "phys_page s x \<longleftrightarrow> aligned x \<and> k_end s \<le> x \<and> x < PHYSTOP"

definition kmem_ok :: "'z kalloc_state_scheme \<Rightarrow> addr list \<Rightarrow> bool" where
  "kmem_ok s xs \<longleftrightarrow> chain (mem s) (freelist s) xs \<and> distinct xs \<and> list_all (phys_page s) xs
     \<and> KERNBASE \<le> k_end s \<and> Kmem_lock \<notin> set (held s)"

lemma chain_unique: "chain m p xs \<Longrightarrow> chain m p ys \<Longrightarrow> xs = ys"
proof (induction xs arbitrary: p ys)
  case Nil
  then show ?case by (cases ys) auto
next
  case (Cons x xs)
  then show ?case by (cases ys) auto
qed

lemma phys_page_not_0: "phys_page s x \<Longrightarrow> KERNBASE \<le> k_end s \<Longrightarrow> x \<noteq> 0"
  by (auto simp: phys_page_def KERNBASE_def)

lemma phys_page_cong [simp]:
  "phys_page (s\<lparr>mem := m\<rparr>) = phys_page s" "phys_page (s\<lparr>freelist := f\<rparr>) = phys_page s"
  "phys_page (s\<lparr>held := h\<rparr>) = phys_page s"
  by (simp_all add: phys_page_def fun_eq_iff)

text \<open>Writes outside the free pages leave the free list alone.\<close>

lemma chain_frame:
  assumes "\<And>x. x \<in> set xs \<Longrightarrow> load64 m' x = load64 m x"
  shows "chain m' p xs = chain m p xs"
  using assms by (induction xs arbitrary: p) auto

lemma chain_store_bytes:
  assumes "aligned a" and "length bs \<le> 4096" and "a \<notin> set xs" and "\<forall>x\<in>set xs. aligned x"
  shows "chain (store_bytes m a bs) p xs = chain m p xs"
proof (rule chain_frame, rule load64_store_bytes_disjoint)
  fix x assume "x \<in> set xs"
  with assms have "region a 4096 \<inter> region x 4096 = {}" by (intro page_disjoint) auto
  moreover have "region a (length bs) \<subseteq> region a 4096" "region x 8 \<subseteq> region x 4096"
    using assms(2) by (auto intro!: region_mono)
  ultimately show "region a (length bs) \<inter> region x 8 = {}" by blast
qed

lemma ucast_PGSIZE [simp]: "unat (ucast PGSIZE :: u32) = 4096"
  by (simp add: PGSIZE_def)

lemma kfree_spec:
  assumes ok: "kmem_ok s xs" and pa: "phys_page s pa" and new: "pa \<notin> set xs"
  shows "\<exists>t. kfree pa s = Ok () t \<and> kmem_ok t (pa # xs)
     \<and> t = s\<lparr>mem := store64 (store_bytes (mem s) pa (replicate 4096 1)) pa (freelist s), freelist := pa\<rparr>"
proof -
  let ?m = "store64 (store_bytes (mem s) pa (replicate 4096 1)) pa (freelist s)"
  let ?t = "s\<lparr>mem := ?m, freelist := pa\<rparr>"
  have al: "\<forall>x\<in>set xs. aligned x"
    using ok by (auto simp: kmem_ok_def phys_page_def list_all_iff)
  have "chain ?m (freelist s) xs"
    using ok pa new al by (simp add: store64_def chain_store_bytes kmem_ok_def phys_page_def)
  moreover have "pa \<noteq> 0" using ok pa by (auto simp: kmem_ok_def dest: phys_page_not_0)
  ultimately have "kmem_ok ?t (pa # xs)"
    using ok pa new by (simp add: kmem_ok_def phys_page_def list_all_iff)
  moreover have "kfree pa s = Ok () ?t"
    using ok pa by (simp add: kfree_def kmem_ok_def phys_page_def aligned_def memset_eq Let_def not_less not_le)
  ultimately show ?thesis by blast
qed

lemma kfree_panic: "\<not> phys_page s pa \<Longrightarrow> kfree pa s = Panic ''kfree''"
  by (simp add: kfree_def phys_page_def aligned_def not_less not_le)

lemma kalloc_empty: "kmem_ok s [] \<Longrightarrow> kalloc s = Ok 0 s"
  by (simp add: kalloc_def kmem_ok_def Let_def)

lemma kalloc_spec:
  assumes ok: "kmem_ok s (x # xs)"
  shows "\<exists>t. kalloc s = Ok x t \<and> kmem_ok t xs \<and> x \<notin> set xs \<and> phys_page s x
     \<and> t = s\<lparr>mem := store_bytes (mem s) x (replicate 4096 5), freelist := load64 (mem s) x\<rparr>"
proof -
  let ?t = "s\<lparr>mem := store_bytes (mem s) x (replicate 4096 5), freelist := load64 (mem s) x\<rparr>"
  have al: "\<forall>y\<in>set xs. aligned y" "aligned x"
    using ok by (auto simp: kmem_ok_def phys_page_def list_all_iff)
  have "chain (store_bytes (mem s) x (replicate 4096 5)) (load64 (mem s) x) xs"
    using ok al by (auto simp: chain_store_bytes kmem_ok_def)
  then have "kmem_ok ?t xs"
    using ok by (simp add: kmem_ok_def phys_page_def list_all_iff)
  moreover have "kalloc s = Ok x ?t"
    using ok by (auto simp: kalloc_def kmem_ok_def memset_eq Let_def)
  ultimately show ?thesis using ok by (auto simp: kmem_ok_def)
qed

lemma from_le_zeros: "from_le (replicate n 0) = 0"
  by (induction n) simp_all

lemma load64_zero: "load64 (\<lambda>_. 0) a = 0"
  by (simp add: load64_def load_bytes_def map_replicate_const from_le_zeros)

section \<open>Contract\<close>

text \<open>
  What the users of the allocator rely on. \<^verbatim>\<open>ok s xs\<close>: in state \<^verbatim>\<open>s\<close> the pages \<^verbatim>\<open>xs\<close> are free;
  \<^verbatim>\<open>page s x\<close>: \<^verbatim>\<open>x\<close> is the address of a page the allocator manages; \<^verbatim>\<open>byte s a\<close> is the content of
  the memory.
\<close>

locale page_allocator =
  fixes alloc :: "'s \<Rightarrow> (addr, 's) res"
    and free :: "addr \<Rightarrow> 's \<Rightarrow> (unit, 's) res"
    and ok :: "'s \<Rightarrow> addr list \<Rightarrow> bool"
    and page :: "'s \<Rightarrow> addr \<Rightarrow> bool"
    and byte :: "'s \<Rightarrow> memory"
  assumes alloc_none: "ok s [] \<Longrightarrow> alloc s = Ok 0 s"
    and alloc_some: "ok s (x # xs) \<Longrightarrow> \<exists>t. alloc s = Ok x t \<and> ok t xs \<and> page t = page s
          \<and> (\<forall>a. a \<notin> region x 4096 \<longrightarrow> byte t a = byte s a)"
    and free_ok: "ok s xs \<Longrightarrow> page s x \<Longrightarrow> x \<notin> set xs \<Longrightarrow>
          \<exists>t. free x s = Ok () t \<and> ok t (x # xs) \<and> page t = page s
          \<and> (\<forall>a. a \<notin> region x 4096 \<longrightarrow> byte t a = byte s a)"
    and free_bad: "\<not> page s x \<Longrightarrow> \<exists>msg. free x s = Panic msg"
    and ok_pages: "ok s xs \<Longrightarrow> distinct xs \<and> list_all (page s) xs"
    and page_facts: "ok s xs \<Longrightarrow> page s x \<Longrightarrow> aligned x \<and> x \<noteq> 0"
begin

primrec alloc_many :: "nat \<Rightarrow> 's \<Rightarrow> (addr list, 's) res" where
  "alloc_many 0 s = Ok [] s"
| "alloc_many (Suc n) s = kbind (alloc s) (\<lambda>x s. kbind (alloc_many n s) (\<lambda>xs s. Ok (x # xs) s))"

lemma alloc_many_distinct:
  "ok s xs \<Longrightarrow> n \<le> length xs \<Longrightarrow>
   \<exists>t. alloc_many n s = Ok (take n xs) t \<and> ok t (drop n xs) \<and> distinct (take n xs)"
proof (induction n arbitrary: s xs)
  case 0
  then show ?case by simp
next
  case (Suc n)
  then obtain x ys where xs: "xs = x # ys" by (cases xs) auto
  with Suc.prems obtain t where t: "alloc s = Ok x t" "ok t ys" using alloc_some by blast
  from Suc.IH [OF t(2)] Suc.prems xs obtain u where "alloc_many n t = Ok (take n ys) u" "ok u (drop n ys)"
    by auto
  moreover have "distinct (take (Suc n) xs)" using ok_pages [OF Suc.prems(1)] by simp
  ultimately show ?case using t xs by simp
qed

lemma alloc_free_alloc:
  assumes "ok s (x # xs)"
  shows "\<exists>t u v. alloc s = Ok x t \<and> free x t = Ok () u \<and> ok u (x # xs) \<and> alloc u = Ok x v \<and> ok v xs"
proof -
  from alloc_some [OF assms] obtain t where t: "alloc s = Ok x t" "ok t xs" "page t = page s" by blast
  from ok_pages [OF assms] t(3) have "page t x" "x \<notin> set xs" by simp_all
  from free_ok [OF t(2) this] obtain u where u: "free x t = Ok () u" "ok u (x # xs)" by blast
  from alloc_some [OF u(2)] t u show ?thesis by blast
qed

lemma alloc_frame:
  assumes "ok s xs" "alloc s = Ok x t" "a \<notin> region x 4096"
  shows "byte t a = byte s a"
  using assms alloc_none alloc_some by (cases xs) fastforce+

end

lemma store64_outside_page: "a \<notin> region x 4096 \<Longrightarrow> store64 m x v a = m a"
  using region_mono [of 8 4096 x] by (subst store64_def, subst store_bytes_outside) auto

interpretation pages: page_allocator
  "kalloc :: 'z kalloc_state_scheme \<Rightarrow> _" kfree kmem_ok phys_page mem
proof
  fix s :: "'z kalloc_state_scheme" and x xs
  assume "kmem_ok s (x # xs)"
  from kalloc_spec [OF this]
  show "\<exists>t. kalloc s = Ok x t \<and> kmem_ok t xs \<and> phys_page t = phys_page s
          \<and> (\<forall>a. a \<notin> region x 4096 \<longrightarrow> mem t a = mem s a)"
    by auto
next
  fix s :: "'z kalloc_state_scheme" and x xs
  assume "kmem_ok s xs" "phys_page s x" "x \<notin> set xs"
  from kfree_spec [OF this]
  show "\<exists>t. kfree x s = Ok () t \<and> kmem_ok t (x # xs) \<and> phys_page t = phys_page s
          \<and> (\<forall>a. a \<notin> region x 4096 \<longrightarrow> mem t a = mem s a)"
    by (auto simp: store64_outside_page)
qed (auto simp: kalloc_empty kfree_panic kmem_ok_def phys_page_def KERNBASE_def)

section \<open>Properties\<close>

lemma aligned_add_PGSIZE:
  "aligned p \<Longrightarrow> unat p + 4096 \<le> unat (e :: addr) \<Longrightarrow> aligned (p + PGSIZE) \<and> unat (p + PGSIZE) = unat p + 4096"
proof -
  assume a: "aligned p" "unat p + 4096 \<le> unat e"
  then have "unat (p + PGSIZE) = unat p + 4096"
    using unat_lt64 [of e] by (simp add: unat_word_ariths unat_PGSIZE)
  with a show ?thesis by (simp add: aligned_nat)
qed

lemma aligned_between:
  "aligned p \<Longrightarrow> aligned x \<Longrightarrow> unat p \<le> unat x \<Longrightarrow> unat x < unat p + 4096 \<Longrightarrow> x = p"
  by (auto simp: word_unat_eq_iff elim!: alignedE)

text \<open>
  The loop of \<^verbatim>\<open>freerange\<close> adds exactly the pages of the range that the free list does not hold yet.
\<close>

lemma freerange_loop_spec:
  assumes "kmem_ok s xs" and "aligned p" and "k_end s \<le> p" and "unat e \<le> unat PHYSTOP"
    and "aligned e" and "\<forall>x\<in>set xs. unat x < unat p"
  shows "\<exists>t ys. freerange_loop p e s = Ok () t \<and> kmem_ok t ys \<and> k_end t = k_end s
           \<and> set ys = set xs \<union> {x. aligned x \<and> unat p \<le> unat x \<and> unat x < unat e}"
  using assms
proof (induction p e s arbitrary: xs rule: freerange_loop.induct)
  case (1 p e s)
  show ?case
  proof (cases "unat p + unat PGSIZE \<le> unat e")
    case True
    then have lt: "unat p + 4096 \<le> unat e" by (simp add: unat_PGSIZE)
    note step = aligned_add_PGSIZE [OF 1(3) lt]
    have "phys_page s p" using 1 lt by (auto simp: phys_page_def word_less_nat_alt)
    moreover have "p \<notin> set xs" using 1 by auto
    ultimately obtain t where t: "kfree p s = Ok () t" "kmem_ok t (p # xs)" "k_end t = k_end s"
      using kfree_spec [OF 1(2)] by fastforce
    have "k_end t \<le> p + PGSIZE" using 1(4) t(3) step by (simp add: word_le_nat_alt)
    with 1 t True step obtain u ys where u: "freerange_loop (p + PGSIZE) e t = Ok () u" "kmem_ok u ys"
      "k_end u = k_end t"
      "set ys = set (p # xs) \<union> {x. aligned x \<and> unat (p + PGSIZE) \<le> unat x \<and> unat x < unat e}"
      using 1(1) [OF True t(1,2)] by fastforce
    have "set ys = set xs \<union> {x. aligned x \<and> unat p \<le> unat x \<and> unat x < unat e}"
      using u(4) step lt 1(3) aligned_between [OF 1(3)] by (auto simp: not_le)
    with u t True show ?thesis by (auto simp: freerange_loop.simps [of p e s])
  next
    case False
    then have "\<not> (aligned x \<and> unat p \<le> unat x \<and> unat x < unat e)" for x
      using 1(3,6) by (auto simp: unat_PGSIZE elim!: alignedE)
    with False 1(2) show ?thesis by (auto simp: freerange_loop.simps [of p e s])
  qed
qed

text \<open>
  \<^bold>\<open>C19\<close> \<^verbatim>\<open>kinit\<close>, called with an empty free list, frees every page-aligned address from the end
  of the kernel image up to \<^verbatim>\<open>PHYSTOP\<close>, each once, without a panic.
\<close>

theorem kinit_frees_all:
  assumes "freelist s = 0" and "KERNBASE \<le> k_end s" and "k_end s \<le> PHYSTOP"
    and "Kmem_lock \<notin> set (held s)"
  shows "\<exists>t xs. kinit s = Ok () t \<and> kmem_ok t xs \<and> set xs = {x. phys_page s x}"
proof -
  let ?p = "PGROUNDUP (k_end s)"
  have up: "unat (k_end s) \<le> unat ?p" "unat ?p < unat (k_end s) + 4096" "aligned ?p"
    using assms(3) by (simp_all add: unat_PGROUNDUP aligned_PGROUNDUP word_le_nat_alt PHYSTOP_def KERNBASE_def)
  have "kmem_ok s []" using assms by (simp add: kmem_ok_def)
  moreover have "k_end s \<le> ?p" using up by (simp add: word_le_nat_alt)
  moreover have "aligned PHYSTOP" by (simp add: aligned_def PHYSTOP_def KERNBASE_def PGSIZE_def)
  ultimately obtain t ys where t: "freerange_loop ?p PHYSTOP s = Ok () t" "kmem_ok t ys"
    "set ys = {x. aligned x \<and> unat ?p \<le> unat x \<and> unat x < unat PHYSTOP}"
    using freerange_loop_spec [of s "[]" ?p PHYSTOP] up(3) by auto
  have "unat ?p \<le> unat x \<longleftrightarrow> unat (k_end s) \<le> unat x" if ax: "aligned x" for x
  proof -
    obtain j k where "unat ?p = 4096 * j" "unat x = 4096 * k" using ax up(3) by (metis alignedE)
    with up show ?thesis by auto
  qed
  with t show ?thesis
    by (auto simp: kinit_def freerange_def phys_page_def word_le_nat_alt word_less_nat_alt)
qed

lemma kinit_frees_all_witness:
  "\<exists>t xs. kinit \<lparr>held = [], mem = (\<lambda>_. 0), freelist = 0, k_end = 0x80021001\<rparr> = Ok () t
     \<and> kmem_ok t xs
     \<and> set xs = {x. phys_page \<lparr>held = [], mem = (\<lambda>_. 0), freelist = 0, k_end = 0x80021001\<rparr> x}"
  by (rule kinit_frees_all) (simp_all add: KERNBASE_def PHYSTOP_def)

text \<open>
  \<^bold>\<open>C20\<close> When a page is free, \<^verbatim>\<open>kalloc\<close> hands out a page that is no longer on the free list, filled
  with the junk value 5, and changes no other byte of memory; \<^verbatim>\<open>kfree\<close> puts it back. When no page is
  free \<^verbatim>\<open>kalloc\<close> returns 0 and changes nothing, and \<^verbatim>\<open>kfree\<close> panics on an address it does not manage.
\<close>

theorem kalloc_kfree_exact:
  assumes "kmem_ok s xs"
  shows "(\<forall>y. \<not> phys_page s y \<longrightarrow> kfree y s = Panic ''kfree'') \<and> (case xs of [] \<Rightarrow> kalloc s = Ok 0 s
     | x # ys \<Rightarrow> \<exists>t u. kalloc s = Ok x t \<and> kmem_ok t ys \<and> x \<notin> set ys
         \<and> load_bytes (mem t) x 4096 = replicate 4096 5 \<and> (\<forall>a. a \<notin> region x 4096 \<longrightarrow> mem t a = mem s a)
         \<and> kfree x t = Ok () u \<and> kmem_ok u xs)"
proof (cases xs)
  case Nil
  with assms show ?thesis by (simp add: kalloc_empty kfree_panic)
next
  case (Cons x ys)
  from kalloc_spec [OF assms [unfolded Cons]] obtain t where t: "kalloc s = Ok x t" "kmem_ok t ys"
    "x \<notin> set ys" "phys_page s x"
    "t = s\<lparr>mem := store_bytes (mem s) x (replicate 4096 5), freelist := load64 (mem s) x\<rparr>" by blast
  from pages.alloc_free_alloc [OF assms [unfolded Cons]] t(1) obtain u where
    u: "kfree x t = Ok () u" "kmem_ok u (x # ys)" by auto
  have "load_bytes (mem t) x 4096 = replicate 4096 5"
    using load_store_bytes [of "replicate 4096 5" "mem s" x] t(5) by simp
  moreover have "\<forall>a. a \<notin> region x 4096 \<longrightarrow> mem t a = mem s a" using t(5) by simp
  ultimately have "\<exists>t u. kalloc s = Ok x t \<and> kmem_ok t ys \<and> x \<notin> set ys
         \<and> load_bytes (mem t) x 4096 = replicate 4096 5 \<and> (\<forall>a. a \<notin> region x 4096 \<longrightarrow> mem t a = mem s a)
         \<and> kfree x t = Ok () u \<and> kmem_ok u xs"
    using t(1-3) u Cons by blast
  with Cons show ?thesis by (simp add: kfree_panic)
qed

definition one_page_free :: kalloc_state where
  "one_page_free = \<lparr>held = [], mem = (\<lambda>_. 0), freelist = 0x87000000, k_end = 0x80021000\<rparr>"

lemma kmem_ok_one_page_free: "kmem_ok one_page_free [0x87000000]"
  by (simp add: kmem_ok_def one_page_free_def phys_page_def aligned_def load64_zero
      PGSIZE_def KERNBASE_def PHYSTOP_def)

lemma kalloc_kfree_exact_witness:
  "\<exists>t u. kalloc one_page_free = Ok 0x87000000 t \<and> kmem_ok t []
     \<and> kfree 0x87000000 t = Ok () u \<and> kmem_ok u [0x87000000]"
  using kalloc_kfree_exact [OF kmem_ok_one_page_free] by auto

end
