(* ===== verification/Vm.thy ===== *)
theory Vm
  imports Kalloc
begin

text \<open>
  Page tables and user memory (\<^verbatim>\<open>kernel/vm.c\<close>, with \<^verbatim>\<open>proc_mapstacks\<close> of \<^verbatim>\<open>kernel/proc.c\<close>).
  Page tables are the three-level trees in byte memory that the hardware walks; a page-table entry
  is read and written with \<^term>\<open>load64\<close> and \<^term>\<open>store64\<close>. Kernel objects on the other side of
  \<^verbatim>\<open>copyout\<close> and \<^verbatim>\<open>copyin\<close> are byte lists. The memory of the TLB is not modelled.
\<close>

section \<open>Operations\<close>

text \<open>\<^verbatim>\<open>k_etext\<close> and \<^verbatim>\<open>k_trampoline\<close> are linker symbols, \<^verbatim>\<open>satp\<close> the register of the hart.\<close>

record vm_state = kalloc_state +
  kernel_pagetable :: addr
  satp :: u64
  k_etext :: addr
  k_trampoline :: addr

abbreviation pte_slot :: "addr \<Rightarrow> u64 \<Rightarrow> addr" where
  "pte_slot pagetable i \<equiv> pagetable + 8 * i"

fun walk_loop :: "nat \<Rightarrow> addr \<Rightarrow> u64 \<Rightarrow> bool \<Rightarrow> 'z kalloc_state_scheme \<Rightarrow> (addr, 'z kalloc_state_scheme) res" where
  "walk_loop 0 pagetable va alloc s = Ok (pte_slot pagetable (PX 0 va)) s"
| "walk_loop (Suc l) pagetable va alloc s =
     (let pte = pte_slot pagetable (PX (Suc l) va) in
      if load64 (mem s) pte AND PTE_V \<noteq> 0
      then walk_loop l (PTE2PA (load64 (mem s) pte)) va alloc s
      else if \<not> alloc then Ok 0 s
      else kbind (kalloc s) (\<lambda>pagetable s.
        if pagetable = 0 then Ok 0 s
        else let s = s\<lparr>mem := memset (mem s) pagetable 0 (ucast PGSIZE)\<rparr>;
                 s = s\<lparr>mem := store64 (mem s) pte (PA2PTE pagetable OR PTE_V)\<rparr>
             in walk_loop l pagetable va alloc s))"

definition walk :: "addr \<Rightarrow> u64 \<Rightarrow> bool \<Rightarrow> 'z kalloc_state_scheme \<Rightarrow> (addr, 'z kalloc_state_scheme) res" where
  "walk pagetable va alloc s =
     (if va \<ge> MAXVA then Panic ''walk'' else walk_loop 2 pagetable va alloc s)"

definition walkaddr :: "addr \<Rightarrow> u64 \<Rightarrow> 'z kalloc_state_scheme \<Rightarrow> (u64, 'z kalloc_state_scheme) res" where
  "walkaddr pagetable va s =
     (if va \<ge> MAXVA then Ok 0 s
      else kbind (walk pagetable va False s) (\<lambda>pte s.
        if pte = 0 then Ok 0 s
        else if load64 (mem s) pte AND PTE_V = 0 then Ok 0 s
        else if load64 (mem s) pte AND PTE_U = 0 then Ok 0 s
        else Ok (PTE2PA (load64 (mem s) pte)) s))"

lemma walk_Ok_va: "walk pagetable va alloc s = Ok pte t \<Longrightarrow> unat va < 274877906944"
  by (simp add: walk_def word_less_nat_alt MAXVA_def not_le split: if_splits)

lemma walk_Ok_step: "walk pagetable va alloc s = Ok pte t \<Longrightarrow> unat (va + PGSIZE) = unat va + 4096"
  using walk_Ok_va [of pagetable va alloc s pte t] by (simp add: unat_word_ariths)

function mappages_loop ::
  "addr \<Rightarrow> u64 \<Rightarrow> u64 \<Rightarrow> u64 \<Rightarrow> i32 \<Rightarrow> 'z kalloc_state_scheme \<Rightarrow> (int, 'z kalloc_state_scheme) res" where
  "mappages_loop pagetable a alast pa perm s =
     kbind (walk pagetable a True s) (\<lambda>pte s.
       if pte = 0 then Ok (-1) s
       else if load64 (mem s) pte AND PTE_V \<noteq> 0 then Panic ''remap''
       else let s = s\<lparr>mem := store64 (mem s) pte (PA2PTE pa OR scast perm OR PTE_V)\<rparr> in
         if a = alast then Ok 0 s
         else mappages_loop pagetable (a + PGSIZE) alast (pa + PGSIZE) perm s)"
  by pat_completeness auto
termination
proof (relation "measure (\<lambda>(pagetable, a, _). 274877911040 - unat a)", goal_cases)
  case (2 pagetable a alast pa perm s pte t u)
  then show ?case using walk_Ok_va [OF 2(1)] walk_Ok_step [OF 2(1)] by simp
qed simp

declare mappages_loop.simps [simp del]

definition mappages ::
  "addr \<Rightarrow> u64 \<Rightarrow> u64 \<Rightarrow> u64 \<Rightarrow> i32 \<Rightarrow> 'z kalloc_state_scheme \<Rightarrow> (int, 'z kalloc_state_scheme) res" where
  "mappages pagetable va sz pa perm s =
     mappages_loop pagetable (PGROUNDDOWN va) (PGROUNDDOWN (va + sz - 1)) pa perm s"

definition kvmmap ::
  "addr \<Rightarrow> u64 \<Rightarrow> u64 \<Rightarrow> u64 \<Rightarrow> i32 \<Rightarrow> 'z kalloc_state_scheme \<Rightarrow> (unit, 'z kalloc_state_scheme) res" where
  "kvmmap kpgtbl va pa sz perm s =
     kbind (mappages kpgtbl va sz pa perm s) (\<lambda>r s. if r \<noteq> 0 then Panic ''kvmmap'' else Ok () s)"

function uvmunmap_loop ::
  "addr \<Rightarrow> u64 \<Rightarrow> u64 \<Rightarrow> bool \<Rightarrow> 'z kalloc_state_scheme \<Rightarrow> (unit, 'z kalloc_state_scheme) res" where
  "uvmunmap_loop pagetable a bound do_free s =
     (if a < bound then
        kbind (walk pagetable a False s) (\<lambda>pte s.
          if pte = 0 then Panic ''uvmunmap: walk''
          else if load64 (mem s) pte AND PTE_V = 0 then Panic ''uvmunmap: not mapped''
          else if PTE_FLAGS (load64 (mem s) pte) = PTE_V then Panic ''uvmunmap: not a leaf''
          else kbind (if do_free then kfree (PTE2PA (load64 (mem s) pte)) s else Ok () s) (\<lambda>_ s.
            let s = s\<lparr>mem := store64 (mem s) pte 0\<rparr> in
            uvmunmap_loop pagetable (a + PGSIZE) bound do_free s))
      else Ok () s)"
  by pat_completeness auto
termination
proof (relation "measure (\<lambda>(pagetable, a, _). 274877911040 - unat a)", goal_cases)
  case (2 pagetable a bound do_free s pte t u v)
  then show ?case using walk_Ok_va [OF 2(2)] walk_Ok_step [OF 2(2)] by simp
qed simp

declare uvmunmap_loop.simps [simp del]

definition uvmunmap ::
  "addr \<Rightarrow> u64 \<Rightarrow> u64 \<Rightarrow> bool \<Rightarrow> 'z kalloc_state_scheme \<Rightarrow> (unit, 'z kalloc_state_scheme) res" where
  "uvmunmap pagetable va npages do_free s =
     (if va mod PGSIZE \<noteq> 0 then Panic ''uvmunmap: not aligned''
      else uvmunmap_loop pagetable va (va + npages * PGSIZE) do_free s)"

definition uvmcreate :: "'z kalloc_state_scheme \<Rightarrow> (addr, 'z kalloc_state_scheme) res" where
  "uvmcreate s =
     kbind (kalloc s) (\<lambda>pagetable s.
       if pagetable = 0 then Ok 0 s
       else Ok pagetable (s\<lparr>mem := memset (mem s) pagetable 0 (ucast PGSIZE)\<rparr>))"

text \<open>The image \<^verbatim>\<open>src\<close> of the first process is an array of the kernel's data.\<close>

definition uvminit :: "addr \<Rightarrow> u8 list \<Rightarrow> u32 \<Rightarrow> 'z kalloc_state_scheme \<Rightarrow> (unit, 'z kalloc_state_scheme) res" where
  "uvminit pagetable src sz s =
     (if ucast sz \<ge> PGSIZE then Panic ''inituvm: more than a page''
      else kbind (kalloc s) (\<lambda>m s.
        let s = s\<lparr>mem := memset (mem s) m 0 (ucast PGSIZE)\<rparr> in
        kbind (mappages pagetable 0 PGSIZE m (ucast (PTE_W OR PTE_R OR PTE_X OR PTE_U)) s) (\<lambda>_ s.
        Ok () (s\<lparr>mem := store_bytes (mem s) m (take (unat sz) src)\<rparr>))))"

definition uvmdealloc ::
  "addr \<Rightarrow> u64 \<Rightarrow> u64 \<Rightarrow> 'z kalloc_state_scheme \<Rightarrow> (u64, 'z kalloc_state_scheme) res" where
  "uvmdealloc pagetable oldsz newsz s =
     (if newsz \<ge> oldsz then Ok oldsz s
      else kbind (if PGROUNDUP newsz < PGROUNDUP oldsz
                  then let npages = ucast ((PGROUNDUP oldsz - PGROUNDUP newsz) div PGSIZE) :: i32 in
                    uvmunmap pagetable (PGROUNDUP newsz) (scast npages) True s
                  else Ok () s)
           (\<lambda>_ s. Ok newsz s))"

lemma mappages_loop_Ok_va:
  "mappages_loop pagetable a alast pa perm s = Ok r t \<Longrightarrow> unat a < 274877906944"
  by (subst (asm) mappages_loop.simps) (auto simp: kbind_Ok_iff dest: walk_Ok_va)

lemma mappages_Ok_step:
  "mappages pagetable a sz pa perm s = Ok r t \<Longrightarrow>
     unat a < 274877911040 \<and> unat (a + PGSIZE) = unat a + 4096"
proof -
  assume "mappages pagetable a sz pa perm s = Ok r t"
  then have "unat (PGROUNDDOWN a) < 274877906944" by (auto simp: mappages_def dest: mappages_loop_Ok_va)
  then have "unat a < 274877911040" by (simp add: unat_PGROUNDDOWN)
  then show ?thesis by (simp add: unat_word_ariths)
qed

function uvmalloc_loop ::
  "addr \<Rightarrow> u64 \<Rightarrow> u64 \<Rightarrow> u64 \<Rightarrow> 'z kalloc_state_scheme \<Rightarrow> (u64, 'z kalloc_state_scheme) res" where
  "uvmalloc_loop pagetable a oldsz newsz s =
     (if a < newsz then
        kbind (kalloc s) (\<lambda>m s.
          if m = 0 then kbind (uvmdealloc pagetable a oldsz s) (\<lambda>_ s. Ok 0 s)
          else let s = s\<lparr>mem := memset (mem s) m 0 (ucast PGSIZE)\<rparr> in
            kbind (mappages pagetable a PGSIZE m (ucast (PTE_W OR PTE_X OR PTE_R OR PTE_U)) s) (\<lambda>r s.
              if r \<noteq> 0 then
                kbind (kfree m s) (\<lambda>_ s. kbind (uvmdealloc pagetable a oldsz s) (\<lambda>_ s. Ok 0 s))
              else uvmalloc_loop pagetable (a + PGSIZE) oldsz newsz s))
      else Ok newsz s)"
  by pat_completeness auto
termination
proof (relation "measure (\<lambda>(pagetable, a, _). 274877915136 - unat a)", goal_cases)
  case (2 pagetable a oldsz newsz s m t u r v)
  then show ?case using mappages_Ok_step [OF 2(5)] by (auto intro: diff_less_mono)
qed simp

declare uvmalloc_loop.simps [simp del]

definition uvmalloc ::
  "addr \<Rightarrow> u64 \<Rightarrow> u64 \<Rightarrow> 'z kalloc_state_scheme \<Rightarrow> (u64, 'z kalloc_state_scheme) res" where
  "uvmalloc pagetable oldsz newsz s =
     (if newsz < oldsz then Ok oldsz s
      else uvmalloc_loop pagetable (PGROUNDUP oldsz) (PGROUNDUP oldsz) newsz s)"

text \<open>
  The recursion of \<^verbatim>\<open>freewalk\<close> follows the tree; \<^verbatim>\<open>depth\<close> bounds it. Beyond the bound the kernel stack of
  one page is exhausted and its guard page raises a fault, which \<^verbatim>\<open>kerneltrap\<close> turns into a panic.
\<close>

fun freewalk :: "nat \<Rightarrow> addr \<Rightarrow> 'z kalloc_state_scheme \<Rightarrow> (unit, 'z kalloc_state_scheme) res" where
  "freewalk 0 pagetable s = Panic ''kerneltrap''"
| "freewalk (Suc depth) pagetable s =
     kbind (kfor 0 512 (\<lambda>i s.
       let pte = load64 (mem s) (pte_slot pagetable (of_nat i)) in
       if pte AND PTE_V \<noteq> 0 \<and> pte AND (PTE_R OR PTE_W OR PTE_X) = 0 then
         kbind (freewalk depth (PTE2PA pte) s) (\<lambda>_ s.
         Ok () (s\<lparr>mem := store64 (mem s) (pte_slot pagetable (of_nat i)) 0\<rparr>))
       else if pte AND PTE_V \<noteq> 0 then Panic ''freewalk: leaf''
       else Ok () s) s) (\<lambda>_ s.
     kfree pagetable s)"

definition uvmfree :: "addr \<Rightarrow> u64 \<Rightarrow> 'z kalloc_state_scheme \<Rightarrow> (unit, 'z kalloc_state_scheme) res" where
  "uvmfree pagetable sz s =
     kbind (if sz > 0 then uvmunmap pagetable 0 (PGROUNDUP sz div PGSIZE) True s else Ok () s) (\<lambda>_ s.
     freewalk 3 pagetable s)"

function uvmcopy_loop ::
  "addr \<Rightarrow> addr \<Rightarrow> u64 \<Rightarrow> u64 \<Rightarrow> 'z kalloc_state_scheme \<Rightarrow> (int, 'z kalloc_state_scheme) res" where
  "uvmcopy_loop old new i sz s =
     (if i < sz then
        kbind (walk old i False s) (\<lambda>pte s.
          if pte = 0 then Panic ''uvmcopy: pte should exist''
          else if load64 (mem s) pte AND PTE_V = 0 then Panic ''uvmcopy: page not present''
          else let pa = PTE2PA (load64 (mem s) pte);
                   flags = ucast (PTE_FLAGS (load64 (mem s) pte)) :: u32 in
            kbind (kalloc s) (\<lambda>m s.
              if m = 0 then kbind (uvmunmap new 0 (i div PGSIZE) True s) (\<lambda>_ s. Ok (-1) s)
              else let s = s\<lparr>mem := memmove (mem s) m pa (ucast PGSIZE)\<rparr> in
                kbind (mappages new i PGSIZE m flags s) (\<lambda>r s.
                  if r \<noteq> 0 then
                    kbind (kfree m s) (\<lambda>_ s.
                    kbind (uvmunmap new 0 (i div PGSIZE) True s) (\<lambda>_ s. Ok (-1) s))
                  else uvmcopy_loop old new (i + PGSIZE) sz s)))
      else Ok 0 s)"
  by pat_completeness auto
termination
proof (relation "measure (\<lambda>(old, new, i, _). 274877911040 - unat i)", goal_cases)
  case (2 old new i sz s pte t)
  then show ?case using walk_Ok_va [OF 2(2)] walk_Ok_step [OF 2(2)] by simp
qed simp

declare uvmcopy_loop.simps [simp del]

definition uvmcopy ::
  "addr \<Rightarrow> addr \<Rightarrow> u64 \<Rightarrow> 'z kalloc_state_scheme \<Rightarrow> (int, 'z kalloc_state_scheme) res" where
  "uvmcopy old new sz s = uvmcopy_loop old new 0 sz s"

definition uvmclear :: "addr \<Rightarrow> u64 \<Rightarrow> 'z kalloc_state_scheme \<Rightarrow> (unit, 'z kalloc_state_scheme) res" where
  "uvmclear pagetable va s =
     kbind (walk pagetable va False s) (\<lambda>pte s.
       if pte = 0 then Panic ''uvmclear''
       else Ok () (s\<lparr>mem := store64 (mem s) pte (load64 (mem s) pte AND NOT PTE_U)\<rparr>))"

text \<open>
  The number of bytes that one round of the copy loops handles: the rest of the page of \<^verbatim>\<open>va\<close>, at
  most \<^verbatim>\<open>len\<close>.
\<close>

definition page_part :: "u64 \<Rightarrow> u64 \<Rightarrow> u64" where
  "page_part va len = (let n = PGSIZE - (va - PGROUNDDOWN va) in if n > len then len else n)"

lemma page_offset: "unat (va - PGROUNDDOWN va) = unat va mod 4096"
  by (simp add: unat_sub PGROUNDDOWN_le unat_PGROUNDDOWN minus_div_mult_eq_mod)

lemma unat_page_part: "unat (page_part va len) = min (4096 - unat va mod 4096) (unat len)"
proof -
  have "va - PGROUNDDOWN va \<le> PGSIZE"
    by (simp add: word_le_nat_alt page_offset less_imp_le)
  then have "unat (PGSIZE - (va - PGROUNDDOWN va)) = 4096 - unat va mod 4096"
    by (simp add: unat_sub page_offset)
  then show ?thesis
    by (simp add: page_part_def Let_def word_less_nat_alt min_def)
qed

lemma page_part_pos: "0 < len \<Longrightarrow> 0 < unat (page_part va len)"
  by (simp add: unat_page_part word_less_nat_alt)

lemma page_part_le: "unat (page_part va len) \<le> unat len"
  by (simp add: unat_page_part)

lemma page_part_measure: "len > 0 \<Longrightarrow> unat (len - page_part va len) < unat len"
  using page_part_pos [of len va] page_part_le [of va len]
  by (simp add: unat_sub word_le_nat_alt word_less_nat_alt)

function copyout ::
  "addr \<Rightarrow> u64 \<Rightarrow> u8 list \<Rightarrow> u64 \<Rightarrow> 'z kalloc_state_scheme \<Rightarrow> (int, 'z kalloc_state_scheme) res" where
  "copyout pagetable dstva src len s =
     (if len > 0 then
        let va0 = PGROUNDDOWN dstva in
        kbind (walkaddr pagetable va0 s) (\<lambda>pa0 s.
          if pa0 = 0 then Ok (-1) s
          else let n = page_part dstva len;
                   s = s\<lparr>mem := store_bytes (mem s) (pa0 + (dstva - va0)) (take (unat n) src)\<rparr> in
            copyout pagetable (va0 + PGSIZE) (drop (unat n) src) (len - n) s)
      else Ok 0 s)"
  by pat_completeness auto
termination
  by (relation "measure (\<lambda>(pagetable, dstva, src, len, s). unat len)") (simp_all add: page_part_measure)

declare copyout.simps [simp del]

text \<open>\<^verbatim>\<open>copyin\<close> returns the bytes it has stored at \<^verbatim>\<open>dst\<close>, also when it fails.\<close>

function copyin ::
  "addr \<Rightarrow> u64 \<Rightarrow> u64 \<Rightarrow> 'z kalloc_state_scheme \<Rightarrow> (int \<times> u8 list, 'z kalloc_state_scheme) res" where
  "copyin pagetable srcva len s =
     (if len > 0 then
        let va0 = PGROUNDDOWN srcva in
        kbind (walkaddr pagetable va0 s) (\<lambda>pa0 s.
          if pa0 = 0 then Ok (-1, []) s
          else let n = page_part srcva len;
                   dst = load_bytes (mem s) (pa0 + (srcva - va0)) (unat n) in
            kbind (copyin pagetable (va0 + PGSIZE) (len - n) s) (\<lambda>(r, rest) s. Ok (r, dst @ rest) s))
      else Ok (0, []) s)"
  by pat_completeness auto
termination
  by (relation "measure (\<lambda>(pagetable, srcva, len, s). unat len)") (simp_all add: page_part_measure)

declare copyin.simps [simp del]

text \<open>The inner loop of \<^verbatim>\<open>copyinstr\<close>: whether a NUL was found, what is left of \<^verbatim>\<open>max\<close>, the bytes stored.\<close>

fun copyinstr_page :: "memory \<Rightarrow> addr \<Rightarrow> nat \<Rightarrow> u64 \<Rightarrow> bool \<times> u64 \<times> u8 list" where
  "copyinstr_page m p 0 mx = (False, mx, [])"
| "copyinstr_page m p (Suc n) mx =
     (if m p = 0 then (True, mx, [0])
      else let (got_null, mx', dst) = copyinstr_page m (p + 1) n (mx - 1) in
        (got_null, mx', m p # dst))"

lemma copyinstr_page_max:
  "copyinstr_page m p n mx = (False, mx', dst) \<Longrightarrow> mx' = mx - of_nat n"
  by (induction m p n mx arbitrary: mx' dst rule: copyinstr_page.induct)
    (auto simp: algebra_simps split: if_splits prod.splits)

function copyinstr ::
  "addr \<Rightarrow> u64 \<Rightarrow> u64 \<Rightarrow> 'z kalloc_state_scheme \<Rightarrow> (int \<times> u8 list, 'z kalloc_state_scheme) res" where
  "copyinstr pagetable srcva mx s =
     (if mx > 0 then
        let va0 = PGROUNDDOWN srcva in
        kbind (walkaddr pagetable va0 s) (\<lambda>pa0 s.
          if pa0 = 0 then Ok (-1, []) s
          else case copyinstr_page (mem s) (pa0 + (srcva - va0)) (unat (page_part srcva mx)) mx of
            (got_null, mx', dst) \<Rightarrow>
              if got_null then Ok (0, dst) s
              else kbind (copyinstr pagetable (va0 + PGSIZE) mx' s) (\<lambda>(r, rest) s. Ok (r, dst @ rest) s))
      else Ok (-1, []) s)"
  by pat_completeness auto
termination
proof (relation "measure (\<lambda>(pagetable, srcva, mx, s). unat mx)", goal_cases)
  case (2 pagetable srcva mx s va0 pa0 t gn y mx' dst)
  then have "mx' = mx - page_part srcva mx" by (auto dest!: sym [of "(_, _)"] copyinstr_page_max)
  with 2 show ?case by (simp add: page_part_measure)
qed simp

declare copyinstr.simps [simp del]

section \<open>The kernel's page table\<close>

definition UART0 :: u64 where "UART0 = 0x10000000"
definition VIRTIO0 :: u64 where "VIRTIO0 = 0x10001000"
definition PLIC :: u64 where "PLIC = 0x0c000000"

definition proc_mapstacks :: "addr \<Rightarrow> 'z vm_state_scheme \<Rightarrow> (unit, 'z vm_state_scheme) res" where
  "proc_mapstacks kpgtbl s =
     kfor 0 NPROC (\<lambda>p s.
       kbind (kalloc s) (\<lambda>pa s.
       if pa = 0 then Panic ''kalloc''
       else kvmmap kpgtbl (KSTACK p) pa PGSIZE (ucast (PTE_R OR PTE_W)) s)) s"

definition kvmmake :: "'z vm_state_scheme \<Rightarrow> (addr, 'z vm_state_scheme) res" where
  "kvmmake s =
     kbind (kalloc s) (\<lambda>kpgtbl s.
     let s = s\<lparr>mem := memset (mem s) kpgtbl 0 (ucast PGSIZE)\<rparr>;
         rw = ucast (PTE_R OR PTE_W) :: i32; rx = ucast (PTE_R OR PTE_X) :: i32 in
     kbind (kvmmap kpgtbl UART0 UART0 PGSIZE rw s) (\<lambda>_ s.
     kbind (kvmmap kpgtbl VIRTIO0 VIRTIO0 PGSIZE rw s) (\<lambda>_ s.
     kbind (kvmmap kpgtbl PLIC PLIC 0x400000 rw s) (\<lambda>_ s.
     kbind (kvmmap kpgtbl KERNBASE KERNBASE (k_etext s - KERNBASE) rx s) (\<lambda>_ s.
     kbind (kvmmap kpgtbl (k_etext s) (k_etext s) (PHYSTOP - k_etext s) rw s) (\<lambda>_ s.
     kbind (kvmmap kpgtbl TRAMPOLINE (k_trampoline s) PGSIZE rx s) (\<lambda>_ s.
     kbind (proc_mapstacks kpgtbl s) (\<lambda>_ s.
     Ok kpgtbl s))))))))"

definition kvminit :: "'z vm_state_scheme \<Rightarrow> (unit, 'z vm_state_scheme) res" where
  "kvminit s = kbind (kvmmake s) (\<lambda>pt s. Ok () (s\<lparr>kernel_pagetable := pt\<rparr>))"

definition kvminithart :: "'z vm_state_scheme \<Rightarrow> (unit, 'z vm_state_scheme) res" where
  "kvminithart s = Ok () (s\<lparr>satp := MAKE_SATP (kernel_pagetable s)\<rparr>)"

end
