(* ===== verification/Vm_Tree.thy ===== *)
theory Vm_Tree
  imports Vm
begin

text \<open>
  Page tables as trees. \<^verbatim>\<open>tp l m pt\<close> is the set of page-table pages reachable from a table at level
  \<^verbatim>\<open>l\<close>, \<^verbatim>\<open>wf_tbl\<close> says that they form a tree, and \<^verbatim>\<open>pte_val\<close> reads the leaf entry of a virtual
  address: the address space a table represents. The lemmas relate \<^verbatim>\<open>walk\<close> and stores through the
  pointers it returns to this view.
\<close>

section \<open>Entries of one table\<close>

definition pte_valid :: "memory \<Rightarrow> addr \<Rightarrow> u64 \<Rightarrow> bool" where
  "pte_valid m pt i \<longleftrightarrow> load64 m (pte_slot pt i) AND PTE_V \<noteq> 0"

definition child :: "memory \<Rightarrow> addr \<Rightarrow> u64 \<Rightarrow> addr" where
  "child m pt i = PTE2PA (load64 m (pte_slot pt i))"

definition pte_leaf :: "u64 \<Rightarrow> bool" where
  "pte_leaf v \<longleftrightarrow> v AND (PTE_R OR PTE_W OR PTE_X) \<noteq> 0"

lemma PX_less: "PX l va < 512"
proof -
  have "PX l va \<le> 511" by (simp add: PX_def PXMASK_def word_and_le1)
  then show ?thesis by (simp add: word_le_nat_alt word_less_nat_alt)
qed

lemma unat_8_times: "i < 512 \<Longrightarrow> unat (8 * i :: u64) = 8 * unat i"
  by (simp add: unat_word_ariths word_less_nat_alt)

lemma unat_from_slot:
  assumes "i < 512" and "unat (x - pte_slot pt i) < 8"
  shows "unat (x - pt) = unat (x - pte_slot pt i) + 8 * unat i"
proof -
  have "unat (x - pt) = unat ((x - pte_slot pt i) + 8 * i)" by simp
  then show ?thesis
    using assms unat_8_times [OF assms(1)] by (simp only: unat_word_ariths(1)) (simp add: word_less_nat_alt)
qed

lemma slot_in_page:
  assumes "i < 512" "x \<in> region (pte_slot pt i) 8"
  shows "x \<in> region pt 4096"
  using assms unat_from_slot [of i x pt] by (simp add: region_def word_less_nat_alt)

lemma slots_disjoint:
  assumes "i < 512" "j < 512" "i \<noteq> j"
  shows "region (pte_slot pt i) 8 \<inter> region (pte_slot pt j) 8 = {}"
proof (rule ccontr)
  assume "\<not> ?thesis"
  then obtain x where x: "unat (x - pte_slot pt i) < 8" "unat (x - pte_slot pt j) < 8"
    by (auto simp: region_def)
  have "unat i = unat j"
    using unat_from_slot [OF assms(1) x(1)] unat_from_slot [OF assms(2) x(2)] x by arith
  with assms(3) show False by (simp add: word_unat_eq_iff)
qed

text \<open>Two memories with the same content on the pages \<^verbatim>\<open>P\<close>, and on everything else.\<close>

definition same_on :: "addr set \<Rightarrow> memory \<Rightarrow> memory \<Rightarrow> bool" where
  "same_on P m m' \<longleftrightarrow> (\<forall>p\<in>P. \<forall>a\<in>region p 4096. m' a = m a)"

definition same_off :: "addr set \<Rightarrow> memory \<Rightarrow> memory \<Rightarrow> bool" where
  "same_off P m m' \<longleftrightarrow> (\<forall>a. (\<forall>p\<in>P. a \<notin> region p 4096) \<longrightarrow> m' a = m a)"

lemma same_off_refl [simp]: "same_off P m m"
  by (simp add: same_off_def)

lemma same_off_trans: "same_off P m m' \<Longrightarrow> same_off Q m' m'' \<Longrightarrow> same_off (P \<union> Q) m m''"
  by (simp add: same_off_def)

lemma same_off_mono: "same_off P m m' \<Longrightarrow> P \<subseteq> Q \<Longrightarrow> same_off Q m m'"
  by (auto simp: same_off_def)

lemma same_on_off:
  "same_off P m m' \<Longrightarrow> P \<inter> Q = {} \<Longrightarrow> \<forall>p\<in>P \<union> Q. aligned p \<Longrightarrow> same_on Q m m'"
  unfolding same_off_def same_on_def by (metis UnCI disjoint_iff page_disjoint)

lemma same_on_subset: "same_on P m m' \<Longrightarrow> Q \<subseteq> P \<Longrightarrow> same_on Q m m'"
  by (auto simp: same_on_def)

lemma load_bytes_same:
  "\<forall>a\<in>region p n. m' a = m a \<Longrightarrow> n \<le> 2 ^ 64 \<Longrightarrow> load_bytes m' p n = load_bytes m p n"
  using in_region_offset by (intro load_bytes_cong) blast

lemma load64_same: "\<forall>a\<in>region p 8. m' a = m a \<Longrightarrow> load64 m' p = load64 m p"
  using load_bytes_same [of p 8 m' m] by (simp add: load64_def)

lemma entry_same:
  "same_on P m m' \<Longrightarrow> pt \<in> P \<Longrightarrow> i < 512 \<Longrightarrow> load64 m' (pte_slot pt i) = load64 m (pte_slot pt i)"
  by (rule load64_same) (auto simp: same_on_def dest: slot_in_page)

lemma same_off_store64: "i < 512 \<Longrightarrow> same_off {pt} m (store64 m (pte_slot pt i) v)"
  by (auto simp: same_off_def store64_def intro!: store_bytes_outside dest: slot_in_page)

lemma entry_store64:
  "i < 512 \<Longrightarrow> j < 512 \<Longrightarrow>
   load64 (store64 m (pte_slot pt i) v) (pte_slot pt j) = (if j = i then v else load64 m (pte_slot pt j))"
  using slots_disjoint [of i j pt] by (simp add: load64_store64_disjoint)

section \<open>Trees\<close>

fun tp :: "nat \<Rightarrow> memory \<Rightarrow> addr \<Rightarrow> addr set" where
  "tp 0 m pt = {pt}"
| "tp (Suc l) m pt = insert pt (\<Union>i\<in>{i. i < 512 \<and> pte_valid m pt i}. tp l m (child m pt i))"

fun wf_tbl :: "nat \<Rightarrow> memory \<Rightarrow> addr \<Rightarrow> bool" where
  "wf_tbl 0 m pt \<longleftrightarrow> aligned pt \<and> pt \<noteq> 0"
| "wf_tbl (Suc l) m pt \<longleftrightarrow> aligned pt \<and> pt \<noteq> 0
     \<and> (\<forall>i<512. pte_valid m pt i \<longrightarrow>
          wf_tbl l m (child m pt i) \<and> pt \<notin> tp l m (child m pt i)
          \<and> \<not> pte_leaf (load64 m (pte_slot pt i))
          \<and> (\<forall>j<512. pte_valid m pt j \<and> j \<noteq> i \<longrightarrow> tp l m (child m pt i) \<inter> tp l m (child m pt j) = {}))"

fun pte_ptr :: "nat \<Rightarrow> memory \<Rightarrow> addr \<Rightarrow> u64 \<Rightarrow> addr" where
  "pte_ptr 0 m pt va = pte_slot pt (PX 0 va)"
| "pte_ptr (Suc l) m pt va =
     (if pte_valid m pt (PX (Suc l) va) then pte_ptr l m (child m pt (PX (Suc l) va)) va else 0)"

fun pte_val :: "nat \<Rightarrow> memory \<Rightarrow> addr \<Rightarrow> u64 \<Rightarrow> u64" where
  "pte_val 0 m pt va = load64 m (pte_slot pt (PX 0 va))"
| "pte_val (Suc l) m pt va =
     (if pte_valid m pt (PX (Suc l) va) then pte_val l m (child m pt (PX (Suc l) va)) va else 0)"

fun same_path :: "nat \<Rightarrow> u64 \<Rightarrow> u64 \<Rightarrow> bool" where
  "same_path 0 va va' \<longleftrightarrow> PX 0 va = PX 0 va'"
| "same_path (Suc l) va va' \<longleftrightarrow> PX (Suc l) va = PX (Suc l) va' \<and> same_path l va va'"

lemma tp_root: "pt \<in> tp l m pt"
  by (cases l) auto

lemma wf_tbl_root: "wf_tbl l m pt \<Longrightarrow> aligned pt \<and> pt \<noteq> 0"
  by (cases l) auto

lemma tp_aligned: "wf_tbl l m pt \<Longrightarrow> t \<in> tp l m pt \<Longrightarrow> aligned t \<and> t \<noteq> 0"
  by (induction l arbitrary: pt) auto

lemma tree_frame:
  "same_on (tp l m pt) m m' \<Longrightarrow>
   tp l m' pt = tp l m pt \<and> wf_tbl l m' pt = wf_tbl l m pt
     \<and> (\<forall>va. pte_val l m' pt va = pte_val l m pt va \<and> pte_ptr l m' pt va = pte_ptr l m pt va)"
proof (induction l arbitrary: pt)
  case 0
  then show ?case using entry_same [of "{pt}" m m' pt] PX_less by simp
next
  case (Suc l)
  have e: "load64 m' (pte_slot pt i) = load64 m (pte_slot pt i)" if "i < 512" for i
    using entry_same [OF Suc.prems tp_root that] .
  have v: "pte_valid m' pt i = pte_valid m pt i" "child m' pt i = child m pt i" if "i < 512" for i
    using e [OF that] by (simp_all add: pte_valid_def child_def)
  have c: "tp l m' (child m pt i) = tp l m (child m pt i) \<and> wf_tbl l m' (child m pt i) = wf_tbl l m (child m pt i)
     \<and> (\<forall>va. pte_val l m' (child m pt i) va = pte_val l m (child m pt i) va
            \<and> pte_ptr l m' (child m pt i) va = pte_ptr l m (child m pt i) va)"
    if "i < 512" "pte_valid m pt i" for i
    using that Suc.prems by (intro Suc.IH) (auto elim: same_on_subset)
  have "tp (Suc l) m' pt = tp (Suc l) m pt" using v c by auto
  moreover have "wf_tbl (Suc l) m' pt = wf_tbl (Suc l) m pt" using v c e by simp
  moreover have "pte_val (Suc l) m' pt va = pte_val (Suc l) m pt va
       \<and> pte_ptr (Suc l) m' pt va = pte_ptr (Suc l) m pt va" for va
    using v c PX_less by simp
  ultimately show ?case by blast
qed

text \<open>A change inside the subtree of entry \<^verbatim>\<open>i\<close> that may add the pages \<^verbatim>\<open>Z\<close> to it.\<close>

lemma subtree_update:
  assumes wf: "wf_tbl (Suc l) m pt" and i: "i < 512" "pte_valid m pt i"
    and off: "same_off (tp l m (child m pt i) \<union> Z) m m'"
    and Z: "Z \<inter> tp (Suc l) m pt = {}" "\<forall>z\<in>Z. aligned z"
    and wf': "wf_tbl l m' (child m pt i)" and tp': "tp l m' (child m pt i) = tp l m (child m pt i) \<union> Z"
  shows "wf_tbl (Suc l) m' pt \<and> tp (Suc l) m' pt = tp (Suc l) m pt \<union> Z
     \<and> (\<forall>va. pte_val (Suc l) m' pt va = (if PX (Suc l) va = i then pte_val l m' (child m pt i) va
                                             else pte_val (Suc l) m pt va)
          \<and> pte_ptr (Suc l) m' pt va = (if PX (Suc l) va = i then pte_ptr l m' (child m pt i) va
                                             else pte_ptr (Suc l) m pt va))"
proof -
  let ?c = "child m pt i"
  have al: "\<forall>t\<in>tp (Suc l) m pt \<union> Z. aligned t" using tp_aligned [OF wf] Z(2) by blast
  have sub: "tp l m (child m pt j) \<subseteq> tp (Suc l) m pt" if "j < 512" "pte_valid m pt j" for j
    using that by auto
  have pt: "pt \<notin> tp l m ?c \<union> Z" using wf i Z tp_root [of pt "Suc l" m] by auto
  have "same_on {pt} m m'"
    using same_on_off [OF off] pt al sub [OF i] tp_root [of pt "Suc l" m] by blast
  then have e: "load64 m' (pte_slot pt j) = load64 m (pte_slot pt j)" if "j < 512" for j
    using entry_same that by blast
  then have v: "pte_valid m' pt j = pte_valid m pt j" "child m' pt j = child m pt j" if "j < 512" for j
    using that by (simp_all add: pte_valid_def child_def)
  have dj: "tp l m (child m pt k) \<inter> tp l m (child m pt j) = {}"
    if "j < 512" "pte_valid m pt j" "k < 512" "pte_valid m pt k" "j \<noteq> k" for j k
    using wf that by (simp add: Int_commute)
  have dz: "Z \<inter> tp l m (child m pt j) = {}" if "j < 512" "pte_valid m pt j" for j
    using Z(1) sub [OF that] by blast
  have f: "tp l m' (child m pt j) = tp l m (child m pt j) \<and> wf_tbl l m' (child m pt j) = wf_tbl l m (child m pt j)
     \<and> (\<forall>va. pte_val l m' (child m pt j) va = pte_val l m (child m pt j) va
            \<and> pte_ptr l m' (child m pt j) va = pte_ptr l m (child m pt j) va)"
    if "j < 512" "pte_valid m pt j" "j \<noteq> i" for j
  proof -
    have "(tp l m ?c \<union> Z) \<inter> tp l m (child m pt j) = {}" using dj [OF that(1,2) i that(3)] dz [OF that(1,2)] by blast
    then have "same_on (tp l m (child m pt j)) m m'"
      using same_on_off [OF off] al sub [OF i] sub [OF that(1,2)] by blast
    from tree_frame [OF this] show ?thesis .
  qed
  have tpj: "tp l m' (child m pt j) = (if j = i then tp l m ?c \<union> Z else tp l m (child m pt j))"
    if "j < 512" "pte_valid m pt j" for j
    using f [OF that] tp' by auto
  have "tp (Suc l) m' pt = tp (Suc l) m pt \<union> Z" using v tpj i by (auto split: if_splits)
  moreover have "wf_tbl (Suc l) m' pt"
  proof -
    have "wf_tbl l m' (child m pt j) \<and> pt \<notin> tp l m' (child m pt j) \<and> \<not> pte_leaf (load64 m' (pte_slot pt j))"
      if "j < 512" "pte_valid m pt j" for j
      using that tpj [OF that] wf wf' f [OF that] pt e [OF that(1)] by (cases "j = i") auto
    moreover have "tp l m' (child m pt j) \<inter> tp l m' (child m pt k) = {}"
      if "j < 512" "pte_valid m pt j" "k < 512" "pte_valid m pt k" "k \<noteq> j" for j k
      using tpj [OF that(1,2)] tpj [OF that(3,4)] dj [OF that(3,4,1,2,5)] dz [OF that(1,2)] dz [OF that(3,4)] that(5)
      by auto
    ultimately show ?thesis using wf v by simp
  qed
  moreover have "pte_val (Suc l) m' pt va = (if PX (Suc l) va = i then pte_val l m' ?c va else pte_val (Suc l) m pt va)
     \<and> pte_ptr (Suc l) m' pt va = (if PX (Suc l) va = i then pte_ptr l m' ?c va else pte_ptr (Suc l) m pt va)" for va
    using v [OF PX_less, of "Suc l" va] f [OF PX_less, of "Suc l" va] i by auto
  ultimately show ?thesis by blast
qed

definition zero_page :: "memory \<Rightarrow> addr \<Rightarrow> bool" where
  "zero_page m p \<longleftrightarrow> (\<forall>a\<in>region p 4096. m a = 0)"

lemma load64_zeros: "\<forall>a\<in>region p 8. m a = 0 \<Longrightarrow> load64 m p = 0"
  using load64_same [of p m "\<lambda>_. 0"] by (simp add: load64_zero)

lemma zero_entry: "zero_page m pt \<Longrightarrow> i < 512 \<Longrightarrow> load64 m (pte_slot pt i) = 0"
  by (rule load64_zeros) (auto simp: zero_page_def dest: slot_in_page)

lemma zero_table:
  assumes "zero_page m pt" "aligned pt" "pt \<noteq> 0"
  shows "tp l m pt = {pt} \<and> wf_tbl l m pt \<and> (\<forall>va. pte_val l m pt va = 0)"
proof -
  have "\<not> pte_valid m pt i" if "i < 512" for i
    using zero_entry [OF assms(1) that] by (simp add: pte_valid_def)
  then show ?thesis
    using assms zero_entry [OF assms(1) PX_less] by (cases l) (auto simp: PX_less)
qed

lemma PA2PTE_V_flags: "\<not> pte_leaf (PA2PTE pa OR PTE_V) \<and> (PA2PTE pa OR PTE_V) AND PTE_V \<noteq> 0"
proof -
  have "(PA2PTE pa OR PTE_V) AND (PTE_R OR PTE_W OR PTE_X) = 0"
    unfolding PA2PTE_def pte_flag_defs by (rule bit_word_eqI) (simp only: bit_simps, auto)
  moreover have "bit ((PA2PTE pa OR PTE_V) AND PTE_V) 0"
    by (simp add: PA2PTE_def pte_flag_defs bit_simps)
  ultimately show ?thesis by (auto simp: pte_leaf_def)
qed

lemma link_table:
  assumes wf: "wf_tbl (Suc l) m pt" and i: "i < 512" "\<not> pte_valid m pt i"
    and x: "aligned x" "x \<noteq> 0" "x \<notin> tp (Suc l) m pt"
    and off: "same_off {x} m m1" and zero: "zero_page m1 x"
    and m2: "m2 = store64 m1 (pte_slot pt i) (PA2PTE x OR PTE_V)"
  shows "wf_tbl (Suc l) m2 pt \<and> tp (Suc l) m2 pt = tp (Suc l) m pt \<union> {x} \<and> pte_valid m2 pt i
     \<and> child m2 pt i = x \<and> tp l m2 x = {x} \<and> same_off {pt, x} m m2
     \<and> (\<forall>va. pte_val (Suc l) m2 pt va = pte_val (Suc l) m pt va)"
proof -
  have ptx: "pt \<noteq> x" using x(3) tp_root by blast
  have al: "\<forall>t\<in>tp (Suc l) m pt. aligned t" using tp_aligned [OF wf] by blast
  have on: "same_on (tp (Suc l) m pt) m m1" using same_on_off [OF off] al x by blast
  have off2: "same_off {pt} m1 m2" using m2 same_off_store64 [OF i(1)] by simp
  have offm: "same_off {pt, x} m m2" using same_off_trans [OF off off2] by (simp add: insert_commute)
  have "zero_page m2 x"
    using zero off2 x(1) al tp_root [of pt "Suc l" m] page_disjoint [of pt x] ptx
    by (auto simp: zero_page_def same_off_def)
  note z = zero_table [OF this x(1,2)]
  have e: "load64 m2 (pte_slot pt j) = (if j = i then PA2PTE x OR PTE_V else load64 m (pte_slot pt j))"
    if "j < 512" for j
    using entry_same [OF on tp_root that] entry_store64 [OF i(1) that, of m1 pt "PA2PTE x OR PTE_V"] m2 by simp
  have vi: "pte_valid m2 pt i" "child m2 pt i = x"
    using e [OF i(1)] PA2PTE_V_flags PTE2PA_PA2PTE [OF x(1), of PTE_V]
    by (simp_all add: pte_valid_def child_def PTE_V_def)
  have v: "pte_valid m2 pt j = pte_valid m pt j" "child m2 pt j = child m pt j" if "j < 512" "j \<noteq> i" for j
    using e [OF that(1)] that by (simp_all add: pte_valid_def child_def)
  have f: "tp l m2 (child m pt j) = tp l m (child m pt j) \<and> wf_tbl l m2 (child m pt j) = wf_tbl l m (child m pt j)
     \<and> (\<forall>va. pte_val l m2 (child m pt j) va = pte_val l m (child m pt j) va
            \<and> pte_ptr l m2 (child m pt j) va = pte_ptr l m (child m pt j) va)"
    if "j < 512" "pte_valid m pt j" for j
  proof (rule tree_frame, rule same_on_off [OF offm])
    have "pt \<notin> tp l m (child m pt j)" using wf that by simp
    moreover have "tp l m (child m pt j) \<subseteq> tp (Suc l) m pt" using that by auto
    ultimately show "{pt, x} \<inter> tp l m (child m pt j) = {}" "\<forall>p\<in>{pt, x} \<union> tp l m (child m pt j). aligned p"
      using x al tp_root [of pt "Suc l" m] by auto
  qed
  have ne: "j \<noteq> i" if "pte_valid m pt j" for j using that i(2) by blast
  have sub: "tp l m (child m pt j) \<subseteq> tp (Suc l) m pt" if "j < 512" "pte_valid m pt j" for j
    using that by auto
  have dj: "tp l m (child m pt k) \<inter> tp l m (child m pt j) = {}"
    if "j < 512" "pte_valid m pt j" "k < 512" "pte_valid m pt k" "j \<noteq> k" for j k
    using wf that by (simp add: Int_commute)
  have val: "pte_valid m2 pt j \<longleftrightarrow> j = i \<or> pte_valid m pt j" if "j < 512" for j
    using v(1) [OF that] vi by blast
  have tpj: "tp l m2 (child m2 pt j) = (if j = i then {x} else tp l m (child m pt j))"
    if "j < 512" "pte_valid m2 pt j" for j
    using v [OF that(1)] f [OF that(1)] val [OF that(1)] that vi(2) z by (cases "j = i") simp_all
  have "tp (Suc l) m2 pt = tp (Suc l) m pt \<union> {x}"
  proof -
    let ?J = "{j. j < 512 \<and> pte_valid m pt j}"
    have A: "(\<Union>j\<in>{j. j < 512 \<and> pte_valid m2 pt j}. tp l m2 (child m2 pt j))
        = (\<Union>j\<in>{j. j < 512 \<and> pte_valid m2 pt j}. if j = i then {x} else tp l m (child m pt j))"
      using tpj by simp
    have B: "{j. j < 512 \<and> pte_valid m2 pt j} = insert i ?J" using val i by blast
    have C: "(\<Union>j\<in>insert i ?J. if j = i then {x} else tp l m (child m pt j))
        = {x} \<union> (\<Union>j\<in>?J. tp l m (child m pt j))"
      using ne by auto
    show ?thesis unfolding tp.simps A unfolding B C by (simp add: insert_commute)
  qed
  moreover have "wf_tbl (Suc l) m2 pt"
  proof -
    have "wf_tbl l m2 (child m2 pt j) \<and> pt \<notin> tp l m2 (child m2 pt j) \<and> \<not> pte_leaf (load64 m2 (pte_slot pt j))"
      if "j < 512" "pte_valid m2 pt j" for j
    proof (cases "j = i")
      case True
      then show ?thesis using vi z e [OF i(1)] PA2PTE_V_flags ptx by simp
    next
      case False
      then have "pte_valid m pt j" "child m2 pt j = child m pt j" using v [OF that(1)] that(2) by simp_all
      then show ?thesis using wf that(1) f [OF that(1)] e [OF that(1)] False by simp
    qed
    moreover have "tp l m2 (child m2 pt j) \<inter> tp l m2 (child m2 pt k) = {}"
      if "j < 512" "pte_valid m2 pt j" "k < 512" "pte_valid m2 pt k" "k \<noteq> j" for j k
    proof -
      have jk: "j = i \<or> pte_valid m pt j" "k = i \<or> pte_valid m pt k"
        using val [OF that(1)] val [OF that(3)] that(2,4) by simp_all
      have xn: "x \<notin> tp l m (child m pt n)" if "n < 512" "pte_valid m pt n" for n
        using sub [OF that] x(3) by blast
      show ?thesis
        using jk that(1,3,5) dj [of k j] xn [of j] xn [of k] unfolding tpj [OF that(1,2)] tpj [OF that(3,4)]
        by auto
    qed
    ultimately show ?thesis using wf by simp
  qed
  moreover have "pte_val (Suc l) m2 pt va = pte_val (Suc l) m pt va" for va
    using vi z v [OF PX_less, of "Suc l" va] f [OF PX_less, of "Suc l" va] i(2)
    by (cases "PX (Suc l) va = i") simp_all
  ultimately show ?thesis using vi z offm by simp
qed

text \<open>Storing through the pointer that a walk returns changes one leaf of the tree.\<close>

lemma pte_ptr_store:
  "wf_tbl l m pt \<Longrightarrow> pte_ptr l m pt va \<noteq> 0 \<Longrightarrow> m' = store64 m (pte_ptr l m pt va) v \<Longrightarrow>
      wf_tbl l m' pt \<and> tp l m' pt = tp l m pt \<and> same_off (tp l m pt) m m'
      \<and> (\<forall>va'. pte_val l m' pt va' = (if same_path l va va' then v else pte_val l m pt va')
            \<and> pte_ptr l m' pt va' = pte_ptr l m pt va')"
proof (induction l arbitrary: pt)
  case 0
  then show ?case
    by (auto simp: entry_store64 PX_less same_off_store64)
next
  case (Suc l)
  let ?i = "PX (Suc l) va"
  let ?c = "child m pt ?i"
  have i: "?i < 512" "pte_valid m pt ?i" using Suc.prems(2) PX_less by (auto split: if_splits)
  have wc: "wf_tbl l m ?c" using Suc.prems(1) i by simp
  have "pte_ptr l m ?c va \<noteq> 0" "m' = store64 m (pte_ptr l m ?c va) v" using Suc.prems(2,3) i by simp_all
  note IH = Suc.IH [OF wc this]
  have off: "same_off (tp (Suc l) m pt) m m'"
    by (rule same_off_mono [of "tp l m ?c"]) (use IH i in auto)
  have up: "wf_tbl (Suc l) m' pt \<and> tp (Suc l) m' pt = tp (Suc l) m pt \<union> {}
     \<and> (\<forall>va'. pte_val (Suc l) m' pt va' = (if PX (Suc l) va' = ?i then pte_val l m' ?c va'
                                             else pte_val (Suc l) m pt va')
          \<and> pte_ptr (Suc l) m' pt va' = (if PX (Suc l) va' = ?i then pte_ptr l m' ?c va'
                                             else pte_ptr (Suc l) m pt va'))"
    using IH by (intro subtree_update [OF Suc.prems(1) i]) simp_all
  have c: "pte_val (Suc l) m pt va' = pte_val l m ?c va'" "pte_ptr (Suc l) m pt va' = pte_ptr l m ?c va'"
    if "PX (Suc l) va' = ?i" for va'
    using i that by simp_all
  have "pte_val (Suc l) m' pt va' = (if same_path (Suc l) va va' then v else pte_val (Suc l) m pt va')
    \<and> pte_ptr (Suc l) m' pt va' = pte_ptr (Suc l) m pt va'" for va'
    using up IH c [of va'] by (auto simp del: pte_val.simps(2) pte_ptr.simps(2))
  with up off show ?case by blast
qed

section \<open>Walks\<close>

lemma walk_loop_noalloc: "walk_loop l pt va False s = Ok (pte_ptr l (mem s) pt va) s"
  by (induction l arbitrary: pt) (simp_all add: Let_def pte_valid_def child_def)

lemma slot_not_0: "aligned pt \<Longrightarrow> pt \<noteq> 0 \<Longrightarrow> i < 512 \<Longrightarrow> pte_slot pt i \<noteq> 0"
proof
  assume a: "aligned pt" "pt \<noteq> 0" "i < 512" "pte_slot pt i = 0"
  have "pte_slot pt i \<in> region pt 4096"
    using a(3) unat_8_times [OF a(3)] by (simp add: region_def word_less_nat_alt)
  then have "PGROUNDDOWN 0 = pt" unfolding in_page_iff [OF a(1)] a(4) .
  with a(2) show False by (simp add: PGROUNDDOWN_def)
qed

lemma pte_val_ptr: "pte_ptr l m pt va \<noteq> 0 \<Longrightarrow> load64 m (pte_ptr l m pt va) = pte_val l m pt va"
  by (induction l arbitrary: pt) (auto split: if_splits)

lemma pte_ptr_0: "wf_tbl l m pt \<Longrightarrow> pte_ptr l m pt va = 0 \<Longrightarrow> pte_val l m pt va = 0"
  by (induction l arbitrary: pt) (auto simp: PX_less slot_not_0 split: if_splits)

definition kstep :: "'z kalloc_state_scheme \<Rightarrow> 'z kalloc_state_scheme \<Rightarrow> bool" where
  "kstep s t \<longleftrightarrow> t = s\<lparr>mem := mem t, freelist := freelist t\<rparr>"

lemma kstep_refl [simp]: "kstep s s" "kstep s (s\<lparr>mem := m\<rparr>)" "kstep s (s\<lparr>mem := m, freelist := f\<rparr>)"
  by (cases s; simp add: kstep_def)+

lemma kstep_trans: "kstep s t \<Longrightarrow> kstep t u \<Longrightarrow> kstep s u"
  by (cases s; cases t; cases u) (simp add: kstep_def)

lemma kstepD: "kstep s t \<Longrightarrow> held t = held s \<and> k_end t = k_end s \<and> phys_page t = phys_page s"
  by (cases s; cases t) (simp add: kstep_def phys_page_def fun_eq_iff)

definition pt_ok :: "nat \<Rightarrow> 'z kalloc_state_scheme \<Rightarrow> addr \<Rightarrow> addr list \<Rightarrow> bool" where
  "pt_ok l s pt xs \<longleftrightarrow> kmem_ok s xs \<and> wf_tbl l (mem s) pt \<and> (\<forall>t\<in>tp l (mem s) pt. phys_page s t)
     \<and> tp l (mem s) pt \<inter> set xs = {}"

lemma kmem_ok_frame:
  assumes "kmem_ok s xs" "same_on (set xs) (mem s) m'"
  shows "kmem_ok (s\<lparr>mem := m'\<rparr>) xs"
proof -
  have "load64 m' x = load64 (mem s) x" if "x \<in> set xs" for x
    using assms(2) that region_mono [of 8 4096 x] by (intro load64_same) (auto simp: same_on_def)
  then have "chain m' (freelist s) xs = chain (mem s) (freelist s) xs" by (rule chain_frame)
  then show ?thesis using assms(1) by (simp add: kmem_ok_def)
qed

lemma kmem_ok_aligned: "kmem_ok s xs \<Longrightarrow> x \<in> set xs \<Longrightarrow> aligned x \<and> x \<noteq> 0"
  using phys_page_not_0 by (auto simp: kmem_ok_def list_all_iff phys_page_def)

lemma same_off_store_page: "length bs \<le> 4096 \<Longrightarrow> same_off {p} m (store_bytes m p bs)"
  using region_mono [of "length bs" 4096 p] by (auto simp: same_off_def intro!: store_bytes_outside)

text \<open>A page from the allocator, cleared as \<^verbatim>\<open>walk\<close>, \<^verbatim>\<open>uvmcreate\<close> and \<^verbatim>\<open>uvmalloc\<close> do.\<close>

lemma kalloc_zeroed:
  assumes "kmem_ok s (x # xs)"
  shows "\<exists>t u. kalloc s = Ok x t \<and> u = t\<lparr>mem := memset (mem t) x 0 (ucast PGSIZE)\<rparr> \<and> kstep s u
     \<and> kmem_ok t xs \<and> kmem_ok u xs \<and> same_off {x} (mem s) (mem u) \<and> zero_page (mem u) x
     \<and> aligned x \<and> x \<noteq> 0 \<and> x \<notin> set xs \<and> phys_page s x"
proof -
  from kalloc_spec [OF assms] obtain t where t: "kalloc s = Ok x t" "kmem_ok t xs" "x \<notin> set xs" "phys_page s x"
    "t = s\<lparr>mem := store_bytes (mem s) x (replicate 4096 5), freelist := load64 (mem s) x\<rparr>" by blast
  let ?u = "t\<lparr>mem := memset (mem t) x 0 (ucast PGSIZE)\<rparr>"
  have m: "mem ?u = store_bytes (mem t) x (replicate 4096 0)" by (simp add: memset_eq)
  have al: "aligned x" "x \<noteq> 0" using kmem_ok_aligned [OF assms] by simp_all
  have off: "same_off {x} (mem t) (mem ?u)" unfolding m by (rule same_off_store_page) simp
  have "same_on (set xs) (mem t) (mem ?u)"
    using t(3) al kmem_ok_aligned [OF t(2)] by (intro same_on_off [OF off]) auto
  then have "kmem_ok ?u xs" using kmem_ok_frame [OF t(2)] by simp
  moreover have "same_off {x} (mem s) (mem ?u)"
    using same_off_trans [OF _ off, of "{x}"] same_off_store_page [of "replicate 4096 5" x "mem s"] t(5) by simp
  moreover have "kstep s ?u"
    by (rule kstep_trans [of s t]) (subst t(5), rule kstep_refl, rule kstep_refl)
  moreover have "zero_page (mem ?u) x"
    by (auto simp: m zero_page_def store_bytes_def region_def)
  ultimately show ?thesis using t(1-4) al by blast
qed

text \<open>
  \<^verbatim>\<open>grown l s pt zs t\<close>: from \<^verbatim>\<open>s\<close> to \<^verbatim>\<open>t\<close> the tree at \<^verbatim>\<open>pt\<close> took the pages \<^verbatim>\<open>zs\<close> as new tables, and nothing
  outside the tree changed.
\<close>

definition grown :: "nat \<Rightarrow> 'z kalloc_state_scheme \<Rightarrow> addr \<Rightarrow> addr list \<Rightarrow> 'z kalloc_state_scheme \<Rightarrow> bool" where
  "grown l s pt zs t \<longleftrightarrow> kstep s t \<and> tp l (mem t) pt = tp l (mem s) pt \<union> set zs
     \<and> same_off (tp l (mem s) pt \<union> set zs) (mem s) (mem t)"

lemma child_sub: "i < 512 \<Longrightarrow> pte_valid m pt i \<Longrightarrow> tp l m (child m pt i) \<subseteq> tp (Suc l) m pt"
  by auto

lemma wf_child: "wf_tbl (Suc l) m pt \<Longrightarrow> i < 512 \<Longrightarrow> pte_valid m pt i \<Longrightarrow> wf_tbl l m (child m pt i)"
  by simp

declare tp.simps(2) [simp del] wf_tbl.simps(2) [simp del] pte_val.simps(2) [simp del] pte_ptr.simps(2) [simp del]

definition walk_spec ::
  "nat \<Rightarrow> u64 \<Rightarrow> 'z kalloc_state_scheme \<Rightarrow> addr \<Rightarrow> addr list \<Rightarrow> (addr, 'z kalloc_state_scheme) res \<Rightarrow> bool" where
  "walk_spec l va s pt xs r \<longleftrightarrow>
     (\<exists>p t zs ys. r = Ok p t \<and> xs = zs @ ys \<and> length zs \<le> l \<and> pt_ok l t pt ys \<and> grown l s pt zs t
        \<and> (\<forall>va'. pte_val l (mem t) pt va' = pte_val l (mem s) pt va')
        \<and> (if p = 0 then ys = [] else p = pte_ptr l (mem t) pt va))"

lemma walk_descend:
  assumes u: "pt_ok (Suc l) u pt us" "grown (Suc l) s pt ws u" "xs = ws @ us"
      "\<forall>va'. pte_val (Suc l) (mem u) pt va' = pte_val (Suc l) (mem s) pt va'"
    and v: "pte_valid (mem u) pt (PX (Suc l) va)" and c: "c = child (mem u) pt (PX (Suc l) va)"
    and IH: "pt_ok l u c us \<Longrightarrow> walk_spec l va u c us r" and one: "length ws \<le> 1"
  shows "walk_spec (Suc l) va s pt xs r"
proof -
  have i: "PX (Suc l) va < 512" by (rule PX_less)
  have sub: "tp l (mem u) c \<subseteq> tp (Suc l) (mem u) pt" using i v c child_sub by metis
  have "pt_ok l u c us" using u(1) i v c sub wf_child unfolding pt_ok_def by blast
  from IH [OF this] obtain p t zs ys where t: "r = Ok p t" "us = zs @ ys"
    "pt_ok l t c ys" "grown l u c zs t" "\<forall>va'. pte_val l (mem t) c va' = pte_val l (mem u) c va'"
    "if p = 0 then ys = [] else p = pte_ptr l (mem t) c va" "length zs \<le> l" unfolding walk_spec_def by blast
  have wfu: "wf_tbl (Suc l) (mem u) pt" and off: "same_off (tp l (mem u) c \<union> set zs) (mem u) (mem t)"
    and tpc: "tp l (mem t) c = tp l (mem u) c \<union> set zs" and wft: "wf_tbl l (mem t) c"
    and kt: "kstep u t" and ku: "kstep s u" and kmu: "kmem_ok u us"
    using u(1,2) t(3,4) by (simp_all add: pt_ok_def grown_def)
  have zs: "set zs \<inter> tp (Suc l) (mem u) pt = {}" "\<forall>z\<in>set zs. aligned z"
    using u(1) t(2) kmem_ok_aligned [OF kmu] by (auto simp: pt_ok_def)
  note up = subtree_update [OF wfu i v off [unfolded c] zs wft [unfolded c] tpc [unfolded c], folded c]
  have ok: "pt_ok (Suc l) t pt ys"
  proof -
    have "\<forall>z\<in>set zs. phys_page u z" "set zs \<inter> set ys = {}"
      using kmu t(2) by (auto simp: kmem_ok_def list_all_iff)
    then show ?thesis
      using up u(1) t(2,3) kstepD [OF kt] unfolding pt_ok_def by auto
  qed
  have tpu: "tp (Suc l) (mem u) pt = tp (Suc l) (mem s) pt \<union> set ws"
    and offu: "same_off (tp (Suc l) (mem s) pt \<union> set ws) (mem s) (mem u)"
    using u(2) by (simp_all add: grown_def)
  have "same_off (tp (Suc l) (mem s) pt \<union> set (ws @ zs)) (mem s) (mem t)"
    by (rule same_off_mono [OF same_off_trans [OF offu off]]) (use sub tpu in auto)
  then have gr: "grown (Suc l) s pt (ws @ zs) t"
    using up tpu kstep_trans [OF ku kt] unfolding grown_def by auto
  have val: "pte_val (Suc l) (mem t) pt va' = pte_val (Suc l) (mem s) pt va'" for va'
  proof (cases "PX (Suc l) va' = PX (Suc l) va")
    case True
    then have "pte_val (Suc l) (mem u) pt va' = pte_val l (mem u) c va'" using v c by (simp add: pte_val.simps)
    with True up t(5) u(4) show ?thesis by metis
  next
    case False
    with up u(4) show ?thesis by metis
  qed
  have "if p = 0 then ys = [] else p = pte_ptr (Suc l) (mem t) pt va" using t(6) up by metis
  moreover have "length (ws @ zs) \<le> Suc l" using t(7) one by simp
  ultimately show ?thesis using t(1,2) u(3) ok gr val unfolding walk_spec_def by (metis append_assoc)
qed

lemma walk_loop_alloc: "pt_ok l s pt xs \<Longrightarrow> walk_spec l va s pt xs (walk_loop l pt va True s)"
proof (induction l arbitrary: s pt xs)
  case 0
  then have "pte_slot pt (PX 0 va) \<noteq> 0" using slot_not_0 PX_less by (auto simp: pt_ok_def)
  with 0 show ?case unfolding walk_spec_def
    by (intro exI [of _ "pte_slot pt (PX 0 va)"] exI [of _ s] exI [of _ "[]"] exI [of _ xs]) (simp add: grown_def)
next
  case (Suc l)
  let ?i = "PX (Suc l) va"
  have wf: "wf_tbl (Suc l) (mem s) pt" and km: "kmem_ok s xs" using Suc.prems by (simp_all add: pt_ok_def)
  show ?case
  proof (cases "pte_valid (mem s) pt ?i")
    case True
    then have w: "walk_loop (Suc l) pt va True s = walk_loop l (child (mem s) pt ?i) va True s"
      by (simp add: pte_valid_def child_def Let_def)
    show ?thesis unfolding w
      by (rule walk_descend [where us = xs and ws = "[]", OF Suc.prems])
        (use True Suc.IH in \<open>simp_all add: grown_def\<close>)
  next
    case False
    show ?thesis
    proof (cases xs)
      case Nil
      with False km have "walk_loop (Suc l) pt va True s = Ok 0 s"
        by (simp add: pte_valid_def Let_def kalloc_empty)
      with Nil Suc.prems show ?thesis by (auto simp: walk_spec_def grown_def)
    next
      case (Cons x us)
      from kalloc_zeroed [OF km [unfolded Cons]] obtain t u where
        t: "kalloc s = Ok x t" "u = t\<lparr>mem := memset (mem t) x 0 (ucast PGSIZE)\<rparr>"
        and u: "kstep s u" "kmem_ok u us" "same_off {x} (mem s) (mem u)" "zero_page (mem u) x"
        and x: "aligned x" "x \<noteq> 0" "x \<notin> set us" "phys_page s x" by blast
      define m2 where "m2 = store64 (mem u) (pte_slot pt ?i) (PA2PTE x OR PTE_V)"
      define w where "w = u\<lparr>mem := m2\<rparr>"
      have walk: "walk_loop (Suc l) pt va True s = walk_loop l x va True w"
        using False t x by (simp add: pte_valid_def Let_def m2_def w_def)
      have xn: "x \<notin> tp (Suc l) (mem s) pt" using Suc.prems Cons by (auto simp: pt_ok_def)
      note lk = link_table [OF wf PX_less False x(1,2) xn u(3,4) m2_def]
      have mw: "mem w = m2" by (simp add: w_def)
      have kw: "kstep s w" unfolding w_def by (rule kstep_trans [OF u(1)]) simp
      have "same_off {pt} (mem u) m2" unfolding m2_def by (rule same_off_store64 [OF PX_less])
      moreover have "pt \<notin> set us" using Suc.prems Cons tp_root [of pt "Suc l" "mem s"] unfolding pt_ok_def by auto
      ultimately have "same_on (set us) (mem u) m2"
        using wf_tbl_root [OF wf] kmem_ok_aligned [OF u(2)] by (intro same_on_off) auto
      then have kmw: "kmem_ok w us" unfolding w_def by (rule kmem_ok_frame [OF u(2)])
      have "pt_ok (Suc l) w pt us"
        using lk kmw Suc.prems x Cons kstepD [OF kw] unfolding pt_ok_def mw by auto
      moreover have "grown (Suc l) s pt [x] w"
        unfolding grown_def mw using lk kw tp_root [of pt "Suc l" "mem s"]
        by (auto intro: same_off_mono)
      ultimately show ?thesis unfolding walk
        by (rule walk_descend) (use lk Cons Suc.IH in \<open>simp_all add: mw\<close>)
    qed
  qed
qed

end
