(* ===== verification/Vm_Space.thy ===== *)
theory Vm_Space
  imports Vm_Tree
begin

text \<open>
  Address spaces: \<^verbatim>\<open>mappages\<close>, \<^verbatim>\<open>uvmunmap\<close>, \<^verbatim>\<open>uvmalloc\<close>, \<^verbatim>\<open>uvmdealloc\<close>, \<^verbatim>\<open>uvmcopy\<close> and \<^verbatim>\<open>uvmfree\<close> as
  operations on the map from page numbers to leaf entries that a three-level table represents.
\<close>

section \<open>Virtual page numbers\<close>

lemma less_not_ge: "a < b \<Longrightarrow> (b \<le> a) = False" for a b :: "'a::linorder"
  by simp

lemma PX_bits: "PX l va = take_bit 9 (drop_bit (12 + 9 * l) va)"
proof -
  have "(0x1FF :: u64) = mask 9" by (simp add: mask_eq_exp_minus_1)
  then show ?thesis by (simp add: PX_def PXMASK_def PXSHIFT_def PGSHIFT_def take_bit_eq_mask)
qed

lemma bit_PX: "bit (PX l va) n \<longleftrightarrow> n < 9 \<and> bit va (12 + 9 * l + n)"
  by (auto simp: PX_bits bit_simps add.commute)

text \<open>
  The three indices cover bits 12 to 38, so a table has an entry for every page below \<^verbatim>\<open>SV39TOP\<close>; the
  kernel uses the lower half, below \<^verbatim>\<open>MAXVA\<close>.
\<close>

definition SV39TOP :: u64 where "SV39TOP = push_bit 39 1"

lemma MAXVA_SV39TOP: "va < MAXVA \<Longrightarrow> va < SV39TOP"
  by (simp add: MAXVA_def SV39TOP_def word_less_nat_alt)

lemma bit_SV39TOP: "va < SV39TOP \<Longrightarrow> 39 \<le> n \<Longrightarrow> \<not> bit va n"
proof -
  assume "va < SV39TOP" "39 \<le> n"
  then have "unat va < 2 ^ 39" by (simp add: word_less_nat_alt SV39TOP_def)
  then have "take_bit 39 va = va"
    by (simp add: word_unat_eq_iff unsigned_take_bit_eq take_bit_nat_eq_self)
  then have "bit va n = bit (take_bit 39 va) n" by simp
  with \<open>39 \<le> n\<close> show ?thesis by (simp add: bit_simps)
qed

lemma page_bits: "PGROUNDDOWN va = PGROUNDDOWN va' \<longleftrightarrow> (\<forall>n\<ge>12. bit va n = bit va' n)"
proof
  assume "PGROUNDDOWN va = PGROUNDDOWN va'"
  then have eq: "bit (push_bit 12 (drop_bit 12 va)) n = bit (push_bit 12 (drop_bit 12 va')) n" for n
    by (simp add: PGROUNDDOWN_bits)
  show "\<forall>n\<ge>12. bit va n = bit va' n"
  proof (intro allI impI)
    fix n :: nat assume "12 \<le> n"
    then show "bit va n = bit va' n"
      using eq [of n] bit_imp_le_length [of va n] bit_imp_le_length [of va' n]
      by (simp add: bit_push_bit_iff bit_drop_bit_eq) blast
  qed
next
  assume "\<forall>n\<ge>12. bit va n = bit va' n"
  then have "drop_bit 12 va = drop_bit 12 va'" by (intro bit_eqI) (simp add: bit_drop_bit_eq)
  then show "PGROUNDDOWN va = PGROUNDDOWN va'" by (simp add: PGROUNDDOWN_bits)
qed

lemma same_path_page:
  assumes "va < SV39TOP" "va' < SV39TOP"
  shows "same_path 2 va va' \<longleftrightarrow> PGROUNDDOWN va = PGROUNDDOWN va'"
proof
  assume "PGROUNDDOWN va = PGROUNDDOWN va'"
  then have "PX l va = PX l va'" for l
    by (intro bit_eqI) (simp add: bit_PX page_bits)
  then show "same_path 2 va va'" by (simp add: numeral_2_eq_2)
next
  assume "same_path 2 va va'"
  then have p: "PX l va = PX l va'" if "l \<le> 2" for l
    using that by (auto simp: numeral_2_eq_2 le_Suc_eq)
  have "bit va n = bit va' n" if n: "12 \<le> n" for n
  proof (cases "n < 39")
    case True
    then have "(n - 12) div 9 \<le> 2" by simp
    then have "bit (PX ((n - 12) div 9) va) ((n - 12) mod 9) = bit (PX ((n - 12) div 9) va') ((n - 12) mod 9)"
      by (simp only: p)
    moreover have "12 + 9 * ((n - 12) div 9) + (n - 12) mod 9 = n" using n by simp
    ultimately show ?thesis by (simp only: bit_PX) simp
  next
    case False
    with assms show ?thesis by (simp add: bit_SV39TOP)
  qed
  then show "PGROUNDDOWN va = PGROUNDDOWN va'" by (simp add: page_bits)
qed

abbreviation pte_of :: "memory \<Rightarrow> addr \<Rightarrow> u64 \<Rightarrow> u64" where
  "pte_of m pt va \<equiv> pte_val 2 m pt va"

lemma grown_refl: "grown l s pt [] s"
  by (simp add: grown_def)

lemma grown_trans:
  assumes "grown l s pt zs t" "grown l t pt ws u"
  shows "grown l s pt (zs @ ws) u"
proof -
  have "same_off (tp l (mem s) pt \<union> set zs \<union> (tp l (mem t) pt \<union> set ws)) (mem s) (mem u)"
    using assms same_off_trans unfolding grown_def by blast
  moreover have "tp l (mem t) pt = tp l (mem s) pt \<union> set zs" using assms(1) by (simp add: grown_def)
  ultimately have "same_off (tp l (mem s) pt \<union> set (zs @ ws)) (mem s) (mem u)"
    by (rule_tac same_off_mono) auto
  then show ?thesis using assms kstep_trans [of s t u] unfolding grown_def by (simp add: Un_assoc)
qed

section \<open>Entries\<close>

text \<open>A store through a walked pointer: one entry changes, the tree stays.\<close>

lemma store_pte:
  assumes ok: "pt_ok 2 s pt xs" and va: "va < MAXVA" and p: "pte_ptr 2 (mem s) pt va \<noteq> 0"
    and t: "t = s\<lparr>mem := store64 (mem s) (pte_ptr 2 (mem s) pt va) v\<rparr>"
  shows "pt_ok 2 t pt xs \<and> grown 2 s pt [] t
     \<and> (\<forall>va'<SV39TOP. pte_of (mem t) pt va' = (if PGROUNDDOWN va' = PGROUNDDOWN va then v else pte_of (mem s) pt va'))"
proof -
  have mt: "mem t = store64 (mem s) (pte_ptr 2 (mem s) pt va) v" by (simp add: t)
  note st = pte_ptr_store [OF _ p mt]
  have wf: "wf_tbl 2 (mem s) pt" using ok by (simp add: pt_ok_def)
  have off: "same_off (tp 2 (mem s) pt) (mem s) (mem t)" using st [OF wf] by blast
  have "same_on (set xs) (mem s) (mem t)"
    using ok tp_aligned [OF wf] kmem_ok_aligned [of s xs] by (intro same_on_off [OF off]) (auto simp: pt_ok_def)
  then have "kmem_ok t xs" using ok kmem_ok_frame [of s xs "mem t"] by (simp add: t pt_ok_def)
  moreover have "pte_of (mem t) pt va' = (if PGROUNDDOWN va' = PGROUNDDOWN va then v else pte_of (mem s) pt va')"
    if "va' < SV39TOP" for va'
    using st [OF wf] same_path_page [OF MAXVA_SV39TOP [OF va] that] by auto
  moreover have "tp 2 (mem t) pt = tp 2 (mem s) pt" "wf_tbl 2 (mem t) pt" using st [OF wf] by blast+
  moreover have "kstep s t" "phys_page t = phys_page s" by (simp_all add: t)
  ultimately show ?thesis using ok off unfolding pt_ok_def grown_def by simp
qed

lemma walk_alloc:
  assumes "pt_ok 2 s pt xs" "va < MAXVA"
  shows "walk_spec 2 va s pt xs (walk pt va True s)"
  using walk_loop_alloc [OF assms(1)] assms(2) by (simp add: walk_def less_not_ge)

lemma walk_noalloc: "va < MAXVA \<Longrightarrow> walk pt va False s = Ok (pte_ptr 2 (mem s) pt va) s"
  by (simp add: walk_def walk_loop_noalloc less_not_ge)

lemma walkaddr_eq:
  assumes "wf_tbl 2 (mem s) pt"
  shows "walkaddr pt va s = Ok (if va < MAXVA \<and> pte_of (mem s) pt va AND PTE_V \<noteq> 0 \<and> pte_of (mem s) pt va AND PTE_U \<noteq> 0
     then PTE2PA (pte_of (mem s) pt va) else 0) s"
  using pte_ptr_0 [OF assms, of va] pte_val_ptr [of 2 "mem s" pt va]
  by (cases "va < MAXVA") (auto simp: walkaddr_def walk_noalloc less_not_ge)

section \<open>Mapping\<close>

definition leaf_pte :: "u64 \<Rightarrow> i32 \<Rightarrow> u64" where
  "leaf_pte pa perm = PA2PTE pa OR scast perm OR PTE_V"

text \<open>The address space \<^verbatim>\<open>f\<close> with \<^verbatim>\<open>k\<close> pages from \<^verbatim>\<open>a\<close> on mapped to the pages from \<^verbatim>\<open>pa\<close> on.\<close>

definition with_map :: "u64 \<Rightarrow> nat \<Rightarrow> u64 \<Rightarrow> i32 \<Rightarrow> (u64 \<Rightarrow> u64) \<Rightarrow> u64 \<Rightarrow> u64" where
  "with_map a k pa perm f va =
     (if a \<le> PGROUNDDOWN va \<and> unat (PGROUNDDOWN va - a) < 4096 * k
      then leaf_pte (pa + (PGROUNDDOWN va - a)) perm else f va)"

lemma with_map_0 [simp]: "with_map a 0 pa perm f = f"
  by (simp add: with_map_def fun_eq_iff)

lemma page_diff:
  assumes "aligned a" "a \<le> PGROUNDDOWN va" "PGROUNDDOWN va \<noteq> a"
  shows "unat (PGROUNDDOWN va - a) \<ge> 4096 \<and> unat a + 4096 \<le> unat (PGROUNDDOWN va)"
proof -
  obtain j k where "unat a = 4096 * j" "unat (PGROUNDDOWN va) = 4096 * k"
    using assms(1) by (metis alignedE aligned_PGROUNDDOWN)
  moreover have "unat (PGROUNDDOWN va) \<noteq> unat a" using assms(3) by (simp add: word_unat_eq_iff)
  ultimately show ?thesis using assms(2) by (auto simp: unat_sub word_le_nat_alt)
qed

lemma with_map_Suc:
  assumes a: "aligned a" "unat a < 2 ^ 38"
  shows "with_map (a + PGSIZE) k (pa + PGSIZE) perm
           (\<lambda>va. if PGROUNDDOWN va = a then leaf_pte pa perm else f va) va = with_map a (Suc k) pa perm f va"
proof -
  let ?p = "PGROUNDDOWN va"
  have step: "unat (a + PGSIZE) = unat a + 4096" using a(2) by (simp add: unat_word_ariths)
  consider "?p = a" | "?p \<noteq> a" "a \<le> ?p" | "\<not> a \<le> ?p" by blast
  then show ?thesis
  proof cases
    case 1
    then show ?thesis using step by (simp add: with_map_def word_le_nat_alt)
  next
    case 2
    note d = page_diff [OF a(1) 2(2,1)]
    then have le: "a + PGSIZE \<le> ?p" by (simp add: word_le_nat_alt step)
    then have "unat (?p - (a + PGSIZE)) = unat (?p - a) - 4096"
      using d step 2(2) by (simp add: unat_sub)
    then show ?thesis using 2 d le by (auto simp: with_map_def algebra_simps)
  next
    case 3
    then have "\<not> a + PGSIZE \<le> ?p" "?p \<noteq> a" using step by (auto simp: word_le_nat_alt)
    with 3 show ?thesis by (simp add: with_map_def)
  qed
qed

lemma map_one:
  assumes ok: "pt_ok 2 s pt xs" and a: "aligned a" "a < MAXVA" and free: "pte_of (mem s) pt a AND PTE_V = 0"
  obtains (none) t where "walk pt a True s = Ok 0 t" "grown 2 s pt xs t" "pt_ok 2 t pt []" "length xs \<le> 2"
      "\<forall>va. pte_of (mem t) pt va = pte_of (mem s) pt va"
  | (slot) p t u zs ys where "walk pt a True s = Ok p t" "p \<noteq> 0" "load64 (mem t) p AND PTE_V = 0"
      "xs = zs @ ys" "u = t\<lparr>mem := store64 (mem t) p v\<rparr>" "pt_ok 2 u pt ys" "grown 2 s pt zs u" "length zs \<le> 2"
      "\<forall>va<SV39TOP. pte_of (mem u) pt va = (if PGROUNDDOWN va = a then v else pte_of (mem s) pt va)"
proof -
  from walk_alloc [OF ok a(2)] obtain p t zs ys where w: "walk pt a True s = Ok p t" "xs = zs @ ys"
    "pt_ok 2 t pt ys" "grown 2 s pt zs t" "\<forall>va. pte_of (mem t) pt va = pte_of (mem s) pt va"
    "if p = 0 then ys = [] else p = pte_ptr 2 (mem t) pt a" "length zs \<le> 2" unfolding walk_spec_def by blast
  show ?thesis
  proof (cases "p = 0")
    case True
    with w none show ?thesis by simp
  next
    case False
    with w have p: "p = pte_ptr 2 (mem t) pt a" "pte_ptr 2 (mem t) pt a \<noteq> 0" by simp_all
    then have l: "load64 (mem t) p AND PTE_V = 0" using pte_val_ptr w(5) free by simp
    define u where "u = t\<lparr>mem := store64 (mem t) p v\<rparr>"
    note st = store_pte [OF w(3) a(2) p(2), of u v]
    have u: "pt_ok 2 u pt ys" "grown 2 t pt [] u"
      "\<forall>va<SV39TOP. pte_of (mem u) pt va = (if PGROUNDDOWN va = a then v else pte_of (mem s) pt va)"
      using st w(5) PGROUNDDOWN_aligned [OF a(1)] by (simp_all add: u_def p)
    have "grown 2 s pt zs u" using grown_trans [OF w(4) u(2)] by simp
    then show ?thesis using slot [OF w(1) False l w(2) u_def u(1) _ w(7) u(3)] by blast
  qed
qed

lemma page_k:
  assumes "aligned a" "unat a + 4096 * k < 2 ^ 64"
  shows "unat (a + of_nat k * PGSIZE) = unat a + 4096 * k \<and> aligned (a + of_nat k * PGSIZE)"
proof -
  have "unat (of_nat k * PGSIZE :: u64) = 4096 * k"
    using assms(2) by (simp add: unat_word_ariths unat_of_nat)
  then have "unat (a + of_nat k * PGSIZE) = unat a + 4096 * k"
    using assms(2) by (simp add: unat_word_ariths)
  with assms(1) show ?thesis by (simp add: aligned_nat)
qed

lemma mappages_loop_spec:
  assumes "pt_ok 2 s pt xs" "aligned a" "unat a + 4096 * n < 2 ^ 38"
    and "\<forall>k\<le>n. pte_of (mem s) pt (a + of_nat k * PGSIZE) AND PTE_V = 0"
  shows "\<exists>r t zs ys k. mappages_loop pt a (a + of_nat n * PGSIZE) pa perm s = Ok r t \<and> xs = zs @ ys
     \<and> pt_ok 2 t pt ys \<and> grown 2 s pt zs t
     \<and> (if r = 0 then k = Suc n else r = -1 \<and> ys = [] \<and> k \<le> n) \<and> length zs \<le> 2 * Suc n
     \<and> (\<forall>va<SV39TOP. pte_of (mem t) pt va = with_map a k pa perm (pte_of (mem s) pt) va)"
  using assms
proof (induction n arbitrary: a pa s xs)
  case (0 a pa s xs)
  have a: "a < MAXVA" using 0 by (simp add: MAXVA_def word_less_nat_alt)
  have f: "pte_of (mem s) pt a AND PTE_V = 0" using 0 by simp
  show ?case
  proof (rule map_one [OF 0(1,2) a f, where v = "leaf_pte pa perm"])
    fix t assume "walk pt a True s = Ok 0 t" "grown 2 s pt xs t" "pt_ok 2 t pt []" "length xs \<le> 2"
      "\<forall>va. pte_of (mem t) pt va = pte_of (mem s) pt va"
    then show ?case
      by (intro exI [of _ "-1"] exI [of _ t] exI [of _ xs] exI [of _ "[]"] exI [of _ 0]) (simp add: mappages_loop.simps)
  next
    fix p t u zs ys assume u: "walk pt a True s = Ok p t" "p \<noteq> 0" "load64 (mem t) p AND PTE_V = 0"
      "xs = zs @ ys" "u = t\<lparr>mem := store64 (mem t) p (leaf_pte pa perm)\<rparr>" "pt_ok 2 u pt ys" "grown 2 s pt zs u" "length zs \<le> 2"
      "\<forall>va<SV39TOP. pte_of (mem u) pt va = (if PGROUNDDOWN va = a then leaf_pte pa perm else pte_of (mem s) pt va)"
    have "mappages_loop pt a (a + of_nat 0 * PGSIZE) pa perm s = Ok 0 u"
      using u by (simp add: mappages_loop.simps leaf_pte_def Let_def)
    moreover have "pte_of (mem u) pt va = with_map a (Suc 0) pa perm (pte_of (mem s) pt) va" if "va < SV39TOP" for va
      using with_map_Suc [of a 0 pa perm "pte_of (mem s) pt" va] u(9) that 0 by simp
    ultimately show ?case using u(4,6,7,8)
      by (intro exI [of _ 0] exI [of _ u] exI [of _ zs] exI [of _ ys] exI [of _ "Suc 0"]) simp
  qed
next
  case (Suc n a pa s xs)
  have a: "a < MAXVA" using Suc.prems by (simp add: MAXVA_def word_less_nat_alt)
  have f: "pte_of (mem s) pt a AND PTE_V = 0" using Suc.prems(4) by (metis Suc_leD le0 add.right_neutral mult_zero_left of_nat_0)
  show ?case
  proof (rule map_one [OF Suc.prems(1,2) a f, where v = "leaf_pte pa perm"])
    fix t assume "walk pt a True s = Ok 0 t" "grown 2 s pt xs t" "pt_ok 2 t pt []" "length xs \<le> 2"
      "\<forall>va. pte_of (mem t) pt va = pte_of (mem s) pt va"
    then show ?case
      by (intro exI [of _ "-1"] exI [of _ t] exI [of _ xs] exI [of _ "[]"] exI [of _ 0]) (simp add: mappages_loop.simps)
  next
    fix p t u zs ys assume u: "walk pt a True s = Ok p t" "p \<noteq> 0" "load64 (mem t) p AND PTE_V = 0"
      "xs = zs @ ys" "u = t\<lparr>mem := store64 (mem t) p (leaf_pte pa perm)\<rparr>" "pt_ok 2 u pt ys" "grown 2 s pt zs u" "length zs \<le> 2"
      "\<forall>va<SV39TOP. pte_of (mem u) pt va = (if PGROUNDDOWN va = a then leaf_pte pa perm else pte_of (mem s) pt va)"
    let ?b = "a + PGSIZE"
    have b: "unat ?b = unat a + 4096" "aligned ?b" using page_k [OF Suc.prems(2), of 1] Suc.prems(3) by simp_all
    have shift: "?b + of_nat k * PGSIZE = a + of_nat (Suc k) * PGSIZE" for k by (simp add: algebra_simps)
    have far: "PGROUNDDOWN (?b + of_nat k * PGSIZE) \<noteq> a \<and> ?b + of_nat k * PGSIZE < MAXVA" if "k \<le> n" for k
      using page_k [OF b(2), of k] b(1) Suc.prems(3) that
      by (auto simp: PGROUNDDOWN_aligned word_unat_eq_iff MAXVA_def word_less_nat_alt)
    have "\<forall>k\<le>n. pte_of (mem u) pt (?b + of_nat k * PGSIZE) AND PTE_V = 0"
    proof (intro allI impI)
      fix k assume k: "k \<le> n"
      have "pte_of (mem s) pt (?b + of_nat k * PGSIZE) AND PTE_V = 0"
        unfolding shift using Suc.prems(4) k by (simp del: of_nat_Suc)
      with u(9) far [OF k] MAXVA_SV39TOP show "pte_of (mem u) pt (?b + of_nat k * PGSIZE) AND PTE_V = 0" by simp
    qed
    from Suc.IH [OF u(6) b(2) _ this, of "pa + PGSIZE"] b(1) Suc.prems(3) obtain r v ws vs k where
      v: "mappages_loop pt ?b (?b + of_nat n * PGSIZE) (pa + PGSIZE) perm u = Ok r v" "ys = ws @ vs"
      "pt_ok 2 v pt vs" "grown 2 u pt ws v" "if r = 0 then k = Suc n else r = -1 \<and> vs = [] \<and> k \<le> n" "length ws \<le> 2 * Suc n"
      "\<forall>va<SV39TOP. pte_of (mem v) pt va = with_map ?b k (pa + PGSIZE) perm (pte_of (mem u) pt) va"
      by auto
    have "a \<noteq> a + of_nat (Suc n) * PGSIZE"
      using page_k [OF Suc.prems(2), of "Suc n"] Suc.prems(3) by (auto simp: word_unat_eq_iff)
    then have "mappages_loop pt a (a + of_nat (Suc n) * PGSIZE) pa perm s = Ok r v"
      using u v(1) shift [of n] by (subst mappages_loop.simps) (simp add: leaf_pte_def Let_def)
    moreover have "pte_of (mem v) pt va = with_map a (Suc k) pa perm (pte_of (mem s) pt) va" if va: "va < SV39TOP" for va
    proof -
      have "pte_of (mem v) pt va = with_map ?b k (pa + PGSIZE) perm
          (\<lambda>va. if PGROUNDDOWN va = a then leaf_pte pa perm else pte_of (mem s) pt va) va"
        using v(7) u(9) va by (simp add: with_map_def)
      then show ?thesis using with_map_Suc [OF Suc.prems(2)] Suc.prems(3) by simp
    qed
    ultimately show ?case using u(4,8) v(2,3,5,6) grown_trans [OF u(7) v(4)]
      by (intro exI [of _ r] exI [of _ v] exI [of _ "zs @ ws"] exI [of _ vs] exI [of _ "Suc k"]) auto
  qed
qed

section \<open>User address spaces\<close>

text \<open>
  \<^verbatim>\<open>space_ok s pt K xs\<close>: below the trapframe page, the table at \<^verbatim>\<open>pt\<close> maps exactly the pages numbered \<^verbatim>\<open>K\<close>,
  each to a physical page of its own that is neither free nor part of the table. \<^verbatim>\<open>owned\<close> is the set
  of all pages accounted for.
\<close>

definition USERPAGES :: nat where "USERPAGES = unat TRAPFRAME div 4096"

abbreviation vpage :: "nat \<Rightarrow> u64" where "vpage k \<equiv> of_nat k * PGSIZE"

definition upage :: "memory \<Rightarrow> addr \<Rightarrow> nat \<Rightarrow> addr" where
  "upage m pt k = PTE2PA (pte_of m pt (vpage k))"

definition space_ok :: "'z kalloc_state_scheme \<Rightarrow> addr \<Rightarrow> nat set \<Rightarrow> addr list \<Rightarrow> bool" where
  "space_ok s pt K xs \<longleftrightarrow> pt_ok 2 s pt xs \<and> K \<subseteq> {..<USERPAGES}
     \<and> (\<forall>k<USERPAGES. pte_of (mem s) pt (vpage k) AND PTE_V \<noteq> 0 \<longleftrightarrow> k \<in> K)
     \<and> (\<forall>k\<in>K. PTE_FLAGS (pte_of (mem s) pt (vpage k)) \<noteq> PTE_V \<and> phys_page s (upage (mem s) pt k))
     \<and> inj_on (upage (mem s) pt) K
     \<and> upage (mem s) pt ` K \<inter> (tp 2 (mem s) pt \<union> set xs) = {}"

definition owned :: "'z kalloc_state_scheme \<Rightarrow> addr \<Rightarrow> nat set \<Rightarrow> addr list \<Rightarrow> addr set" where
  "owned s pt K xs = set xs \<union> tp 2 (mem s) pt \<union> upage (mem s) pt ` K"

lemma USERPAGES_eq: "USERPAGES = 67108862"
  by (simp add: USERPAGES_def TRAPFRAME_def TRAMPOLINE_def MAXVA_def PGSIZE_def)

lemma vpage_facts:
  assumes "k \<le> USERPAGES"
  shows "unat (vpage k) = 4096 * k \<and> aligned (vpage k) \<and> vpage k < MAXVA \<and> vpage k < SV39TOP \<and> PGROUNDDOWN (vpage k) = vpage k"
proof -
  have al: "aligned (0 :: u64)" by (simp add: aligned_nat)
  have "unat (vpage k) = 4096 * k \<and> aligned (vpage k)"
    using page_k [OF al, of k] assms by (simp add: USERPAGES_eq)
  with assms show ?thesis
    by (simp add: USERPAGES_eq MAXVA_def SV39TOP_def word_less_nat_alt PGROUNDDOWN_aligned)
qed

lemma vpage_inj: "j \<le> USERPAGES \<Longrightarrow> k \<le> USERPAGES \<Longrightarrow> vpage j = vpage k \<longleftrightarrow> j = k"
  using vpage_facts [of j] vpage_facts [of k] by (auto simp: word_unat_eq_iff)

lemma space_okD:
  assumes "space_ok s pt K xs"
  shows "pt_ok 2 s pt xs" "kmem_ok s xs" "wf_tbl 2 (mem s) pt" "tp 2 (mem s) pt \<inter> set xs = {}"
    "\<And>k. k \<in> K \<Longrightarrow> k < USERPAGES" "\<And>k. k < USERPAGES \<Longrightarrow> pte_of (mem s) pt (vpage k) AND PTE_V \<noteq> 0 \<longleftrightarrow> k \<in> K"
    "\<And>k. k \<in> K \<Longrightarrow> upage (mem s) pt k \<notin> tp 2 (mem s) pt \<and> upage (mem s) pt k \<notin> set xs"
    "\<And>k. k \<in> K \<Longrightarrow> aligned (upage (mem s) pt k)" "\<And>k. k \<in> K \<Longrightarrow> phys_page s (upage (mem s) pt k)"
    "\<And>k. k \<in> K \<Longrightarrow> PTE_FLAGS (pte_of (mem s) pt (vpage k)) \<noteq> PTE_V"
    "inj_on (upage (mem s) pt) K"
  using assms by (auto simp: space_ok_def pt_ok_def phys_page_def)

lemma unmap_one:
  assumes ok: "space_ok s pt K xs" and k: "k \<in> K"
  shows "\<exists>t u. walk pt (vpage k) False s = Ok (pte_ptr 2 (mem s) pt (vpage k)) s
     \<and> pte_ptr 2 (mem s) pt (vpage k) \<noteq> 0
     \<and> load64 (mem s) (pte_ptr 2 (mem s) pt (vpage k)) = pte_of (mem s) pt (vpage k)
     \<and> kfree (upage (mem s) pt k) s = Ok () t
     \<and> u = t\<lparr>mem := store64 (mem t) (pte_ptr 2 (mem s) pt (vpage k)) 0\<rparr>
     \<and> space_ok u pt (K - {k}) (upage (mem s) pt k # xs) \<and> kstep s u
     \<and> tp 2 (mem u) pt = tp 2 (mem s) pt
     \<and> same_off (tp 2 (mem s) pt \<union> {upage (mem s) pt k}) (mem s) (mem u)
     \<and> (\<forall>va<SV39TOP. pte_of (mem u) pt va = (if PGROUNDDOWN va = vpage k then 0 else pte_of (mem s) pt va))"
proof -
  note D = space_okD [OF ok]
  let ?pa = "upage (mem s) pt k"
  let ?p = "pte_ptr 2 (mem s) pt (vpage k)"
  have kU: "k < USERPAGES" using D(5) k by blast
  note vk = vpage_facts [OF less_imp_le [OF kU]]
  have V: "pte_of (mem s) pt (vpage k) AND PTE_V \<noteq> 0" using D(6) kU k by blast
  have p: "?p \<noteq> 0" using pte_ptr_0 [OF D(3), of "vpage k"] V by auto
  from kfree_spec [OF D(2) D(9) [OF k]] D(7) [OF k] obtain t where
    t: "kfree ?pa s = Ok () t" "kmem_ok t (?pa # xs)"
      "t = s\<lparr>mem := store64 (store_bytes (mem s) ?pa (replicate 4096 1)) ?pa (freelist s), freelist := ?pa\<rparr>" by blast
  have offt: "same_off {?pa} (mem s) (mem t)"
    unfolding t(3) by (simp add: same_off_def store64_outside_page)
  have "same_on (tp 2 (mem s) pt) (mem s) (mem t)"
    using D(7,8) [OF k] tp_aligned [OF D(3)] by (intro same_on_off [OF offt]) auto
  note fr = tree_frame [OF this]
  have kt: "kstep s t" unfolding t(3) by (rule kstep_refl)
  have okt: "pt_ok 2 t pt (?pa # xs)"
    using D(1) t(2) fr kstepD [OF kt] D(7) [OF k] unfolding pt_ok_def by auto
  define u where "u = t\<lparr>mem := store64 (mem t) ?p 0\<rparr>"
  have pt': "pte_ptr 2 (mem t) pt (vpage k) = ?p" using fr by blast
  have st: "pt_ok 2 u pt (?pa # xs)" "grown 2 t pt [] u"
    "\<forall>va<SV39TOP. pte_of (mem u) pt va = (if PGROUNDDOWN va = vpage k then 0 else pte_of (mem s) pt va)"
    using store_pte [OF okt, of "vpage k" u 0] vk p pt' fr by (simp_all add: u_def)
  have ku: "kstep s u" using kstep_trans [OF kt] by (simp add: u_def)
  have tpu: "tp 2 (mem u) pt = tp 2 (mem s) pt" "same_off (tp 2 (mem s) pt) (mem t) (mem u)"
    using st(2) fr by (simp_all add: grown_def)
  have ent: "pte_of (mem u) pt (vpage j) = (if j = k then 0 else pte_of (mem s) pt (vpage j))"
    if "j < USERPAGES" for j
    using st(3) vpage_facts [of j] that vpage_inj [of j k] kU by simp
  have up: "upage (mem u) pt j = upage (mem s) pt j" if "j \<in> K" "j \<noteq> k" for j
    using ent [OF D(5) [OF that(1)]] that(2) by (simp add: upage_def)
  have "space_ok u pt (K - {k}) (?pa # xs)"
    unfolding space_ok_def
  proof (intro conjI)
    show "inj_on (upage (mem u) pt) (K - {k})"
      using D(11) up by (auto simp: inj_on_def)
    show "upage (mem u) pt ` (K - {k}) \<inter> (tp 2 (mem u) pt \<union> set (?pa # xs)) = {}"
      using D(7,11) up k tpu by (auto simp: inj_on_def)
    show "\<forall>j\<in>K - {k}. PTE_FLAGS (pte_of (mem u) pt (vpage j)) \<noteq> PTE_V \<and> phys_page u (upage (mem u) pt j)"
      using D(5,9,10) up ent kstepD [OF ku] by auto
    show "\<forall>j<USERPAGES. (pte_of (mem u) pt (vpage j) AND PTE_V \<noteq> 0) = (j \<in> K - {k})"
      using D(6) ent by auto
  qed (use st(1) D(5) in auto)
  then show ?thesis
    using walk_noalloc vk p t(1) u_def ku tpu st(3) pte_val_ptr [OF p]
      same_off_trans [OF offt tpu(2)] by (auto simp: Un_commute)
qed

text \<open>What a change of \<^verbatim>\<open>pt\<close>'s tree and of the pages \<^verbatim>\<open>P\<close> leaves alone: the content of the user pages \<^verbatim>\<open>K\<close>.\<close>

definition umem :: "memory \<Rightarrow> addr \<Rightarrow> nat \<Rightarrow> u8 list" where
  "umem m pt k = load_bytes m (upage m pt k) 4096"

lemma umem_same:
  assumes "same_off P (mem s) (mem t)" and "upage (mem t) pt k = upage (mem s) pt k"
    and "upage (mem s) pt k \<notin> P" and "aligned (upage (mem s) pt k)" and "\<forall>p\<in>P. aligned p"
  shows "umem (mem t) pt k = umem (mem s) pt k"
proof -
  have "same_on {upage (mem s) pt k} (mem s) (mem t)"
    using assms(3-5) by (intro same_on_off [OF assms(1)]) auto
  then show ?thesis
    unfolding umem_def assms(2) by (intro load_bytes_same) (auto simp: same_on_def)
qed

lemma vpage_less: "i \<le> USERPAGES \<Longrightarrow> n \<le> USERPAGES \<Longrightarrow> vpage i < vpage n \<longleftrightarrow> i < n"
  using vpage_facts [of i] vpage_facts [of n] by (simp add: word_less_nat_alt)

lemma vpage_Suc: "vpage i + PGSIZE = vpage (Suc i)"
  by (simp add: algebra_simps)

text \<open>
  \<^verbatim>\<open>unmapped s pt K J xs t ys\<close>: from \<^verbatim>\<open>s\<close> to \<^verbatim>\<open>t\<close> the pages \<^verbatim>\<open>J\<close> of the address space were unmapped and freed.
\<close>

definition unmapped ::
  "'z kalloc_state_scheme \<Rightarrow> addr \<Rightarrow> nat set \<Rightarrow> nat set \<Rightarrow> addr list \<Rightarrow> 'z kalloc_state_scheme \<Rightarrow> addr list \<Rightarrow> bool" where
  "unmapped s pt K J xs t ys \<longleftrightarrow> space_ok t pt (K - J) ys \<and> kstep s t
     \<and> tp 2 (mem t) pt = tp 2 (mem s) pt \<and> set ys = set xs \<union> upage (mem s) pt ` J
     \<and> same_off (tp 2 (mem s) pt \<union> upage (mem s) pt ` J) (mem s) (mem t)
     \<and> (\<forall>va<SV39TOP. pte_of (mem t) pt va =
          (if \<exists>j\<in>J. PGROUNDDOWN va = vpage j then 0 else pte_of (mem s) pt va))"

lemma unmapped_trans:
  assumes ok: "space_ok s pt K xs" and "unmapped s pt K I xs t ys" "unmapped t pt (K - I) J ys u zs"
    and "I \<inter> J = {}" "I \<union> J \<subseteq> K"
  shows "unmapped s pt K (I \<union> J) xs u zs"
proof -
  note A = assms(2) [unfolded unmapped_def] and B = assms(3) [unfolded unmapped_def]
  have J: "upage (mem t) pt ` J = upage (mem s) pt ` J"
  proof (rule image_cong [OF refl])
    fix j assume j: "j \<in> J"
    then have jU: "j < USERPAGES" using space_okD(5) [OF ok] assms(5) by blast
    have "PGROUNDDOWN (vpage j) \<noteq> vpage i" if i: "i \<in> I" for i
    proof -
      have "i < USERPAGES" "i \<noteq> j" using i j assms(4,5) space_okD(5) [OF ok] by blast+
      then show ?thesis using jU vpage_facts [of j] vpage_inj [of j i] by simp
    qed
    then have "\<not> (\<exists>i\<in>I. PGROUNDDOWN (vpage j) = vpage i)" by blast
    then show "upage (mem t) pt j = upage (mem s) pt j"
      using A vpage_facts [of j] jU by (simp add: upage_def)
  qed
  have "same_off (tp 2 (mem s) pt \<union> upage (mem s) pt ` (I \<union> J)) (mem s) (mem u)"
  proof (rule same_off_mono)
    show "same_off (tp 2 (mem s) pt \<union> upage (mem s) pt ` I \<union> (tp 2 (mem t) pt \<union> upage (mem t) pt ` J)) (mem s) (mem u)"
      by (rule same_off_trans [of _ _ "mem t"]) (use A B in simp_all)
  qed (use A J in \<open>simp add: image_Un, blast\<close>)
  moreover have "K - (I \<union> J) = K - I - J" by blast
  moreover have "pte_of (mem u) pt va = (if \<exists>j\<in>I \<union> J. PGROUNDDOWN va = vpage j then 0 else pte_of (mem s) pt va)"
    if "va < SV39TOP" for va
  proof -
    have "pte_of (mem t) pt va = (if \<exists>j\<in>I. PGROUNDDOWN va = vpage j then 0 else pte_of (mem s) pt va)"
      "pte_of (mem u) pt va = (if \<exists>j\<in>J. PGROUNDDOWN va = vpage j then 0 else pte_of (mem t) pt va)"
      using A B that by blast+
    then show ?thesis by (simp add: bex_Un)
  qed
  moreover have "set zs = set xs \<union> upage (mem s) pt ` (I \<union> J)" using A B J by (simp add: image_Un Un_assoc)
  ultimately show ?thesis
    using A B kstep_trans [of s t u] unfolding unmapped_def by simp
qed

lemma uvmunmap_loop_free:
  assumes "space_ok s pt K xs" "{i..<n} \<subseteq> K" "i \<le> n" "n \<le> USERPAGES"
  shows "\<exists>t ys. uvmunmap_loop pt (vpage i) (vpage n) True s = Ok () t \<and> unmapped s pt K {i..<n} xs t ys"
  using assms
proof (induction "n - i" arbitrary: i s K xs)
  case 0
  then have "i = n" by simp
  with 0 show ?case
    by (intro exI [of _ s] exI [of _ xs]) (simp add: uvmunmap_loop.simps unmapped_def)
next
  case (Suc d)
  then have lt: "i < n" and iK: "i \<in> K" by auto
  note D = space_okD [OF Suc.prems(1)]
  from unmap_one [OF Suc.prems(1) iK] obtain t u where
    w: "walk pt (vpage i) False s = Ok (pte_ptr 2 (mem s) pt (vpage i)) s" "pte_ptr 2 (mem s) pt (vpage i) \<noteq> 0"
      "load64 (mem s) (pte_ptr 2 (mem s) pt (vpage i)) = pte_of (mem s) pt (vpage i)"
      "kfree (upage (mem s) pt i) s = Ok () t"
      "u = t\<lparr>mem := store64 (mem t) (pte_ptr 2 (mem s) pt (vpage i)) 0\<rparr>"
    and u: "unmapped s pt K {i} xs u (upage (mem s) pt i # xs)" unfolding unmapped_def by auto
  have less: "vpage i < vpage n" using vpage_less [of i n] lt Suc.prems(4) by simp
  have step: "uvmunmap_loop pt (vpage i) (vpage n) True s = uvmunmap_loop pt (vpage (Suc i)) (vpage n) True u"
    using w less D(6) [of i] D(10) [OF iK] D(5) [OF iK] iK
    by (subst uvmunmap_loop.simps) (simp add: upage_def Let_def vpage_Suc del: of_nat_Suc)
  have "space_ok u pt (K - {i}) (upage (mem s) pt i # xs)" using u by (simp add: unmapped_def)
  moreover have "d = n - Suc i" "{Suc i..<n} \<subseteq> K - {i}" "Suc i \<le> n" using Suc.hyps(2) Suc.prems(2) lt by auto
  ultimately obtain v zs where
    v: "uvmunmap_loop pt (vpage (Suc i)) (vpage n) True u = Ok () v"
      "unmapped u pt (K - {i}) {Suc i..<n} (upage (mem s) pt i # xs) v zs"
    using Suc.hyps(1) Suc.prems(4) by blast
  have "{i} \<union> {Suc i..<n} = {i..<n}" using lt by auto
  with unmapped_trans [OF Suc.prems(1) u v(2)] Suc.prems(2) step v(1) show ?case by auto
qed

section \<open>Growing and shrinking\<close>

text \<open>
  \<^verbatim>\<open>space_step s pt K xs t L ys\<close>: the pages mapped by \<^verbatim>\<open>pt\<close> went from \<^verbatim>\<open>K\<close> to \<^verbatim>\<open>L\<close> and the free list from \<^verbatim>\<open>xs\<close> to
  \<^verbatim>\<open>ys\<close>; no page was lost or created, pages mapped before and after kept their entry and content,
  the entries above the user part stayed, and nothing else in memory changed.
\<close>

definition space_step ::
  "'z kalloc_state_scheme \<Rightarrow> addr \<Rightarrow> nat set \<Rightarrow> addr list \<Rightarrow> 'z kalloc_state_scheme \<Rightarrow> nat set \<Rightarrow> addr list \<Rightarrow> bool" where
  "space_step s pt K xs t L ys \<longleftrightarrow> space_ok t pt L ys \<and> kstep s t \<and> owned t pt L ys = owned s pt K xs
     \<and> same_off (owned s pt K xs) (mem s) (mem t)
     \<and> (\<forall>k\<in>K \<inter> L. pte_of (mem t) pt (vpage k) = pte_of (mem s) pt (vpage k) \<and> umem (mem t) pt k = umem (mem s) pt k)
     \<and> (\<forall>va<SV39TOP. TRAPFRAME \<le> va \<longrightarrow> pte_of (mem t) pt va = pte_of (mem s) pt va)"

lemma space_step_refl: "space_ok s pt K xs \<Longrightarrow> space_step s pt K xs s K xs"
  by (simp add: space_step_def)

lemma space_step_trans:
  assumes "space_step s pt K xs t L ys" "space_step t pt L ys u M zs" "K \<inter> M \<subseteq> L"
  shows "space_step s pt K xs u M zs"
proof -
  have "same_off (owned s pt K xs \<union> owned t pt L ys) (mem s) (mem u)"
    using assms(1,2) same_off_trans unfolding space_step_def by blast
  moreover have "owned t pt L ys = owned s pt K xs" "owned u pt M zs = owned s pt K xs"
    using assms(1,2) by (simp_all add: space_step_def)
  ultimately show ?thesis
    using assms kstep_trans [of s t u] unfolding space_step_def by (auto dest: subsetD)
qed

lemma owned_aligned: "space_ok s pt K xs \<Longrightarrow> p \<in> owned s pt K xs \<Longrightarrow> aligned p"
  using space_okD(8) tp_aligned [OF space_okD(3)] kmem_ok_aligned [OF space_okD(2)] by (fastforce simp: owned_def)

lemma user_below_trapframe:
  assumes "k < USERPAGES" "TRAPFRAME \<le> va"
  shows "PGROUNDDOWN va \<noteq> vpage k"
proof -
  have "4096 * USERPAGES = unat TRAPFRAME"
    by (simp add: USERPAGES_def TRAPFRAME_def TRAMPOLINE_def MAXVA_def PGSIZE_def)
  then have "unat va div 4096 \<ge> USERPAGES" using assms(2) by (simp add: word_le_nat_alt USERPAGES_def div_le_mono)
  then show ?thesis using assms(1) vpage_facts [of k] by (auto simp: word_unat_eq_iff unat_PGROUNDDOWN)
qed

lemma unmapped_step:
  assumes ok: "space_ok s pt K xs" and J: "J \<subseteq> K" and un: "unmapped s pt K J xs t ys"
  shows "space_step s pt K xs t (K - J) ys"
proof -
  note U = un [unfolded unmapped_def] and D = space_okD [OF ok]
  have ent: "pte_of (mem t) pt (vpage k) = pte_of (mem s) pt (vpage k)" if "k \<in> K - J" for k
  proof -
    have "k < USERPAGES" using D(5) that by blast
    moreover have "\<not> (\<exists>j\<in>J. vpage k = vpage j)"
      using that calculation vpage_inj D(5) J by (metis DiffD2 less_imp_le subsetD)
    ultimately show ?thesis using U vpage_facts [of k] by simp
  qed
  then have up: "upage (mem t) pt k = upage (mem s) pt k" if "k \<in> K - J" for k
    using that by (simp add: upage_def)
  have "upage (mem t) pt ` (K - J) = upage (mem s) pt ` (K - J)" by (rule image_cong) (simp_all add: up)
  moreover have "upage (mem s) pt ` J \<union> upage (mem s) pt ` (K - J) = upage (mem s) pt ` K" using J by blast
  ultimately have own: "owned t pt (K - J) ys = owned s pt K xs"
    using U unfolding owned_def by blast
  have "umem (mem t) pt k = umem (mem s) pt k" if k: "k \<in> K - J" for k
  proof (rule umem_same [where P = "tp 2 (mem s) pt \<union> upage (mem s) pt ` J"])
    show "upage (mem s) pt k \<notin> tp 2 (mem s) pt \<union> upage (mem s) pt ` J"
      using k D(7,11) J by (auto simp: inj_on_def)
  qed (use U up [OF k] k D(8) J tp_aligned [OF D(3)] in auto)
  moreover have "pte_of (mem t) pt va = pte_of (mem s) pt va" if "va < SV39TOP" "TRAPFRAME \<le> va" for va
    using U that user_below_trapframe D(5) J by auto
  moreover have "same_off (owned s pt K xs) (mem s) (mem t)"
    by (rule same_off_mono [of "tp 2 (mem s) pt \<union> upage (mem s) pt ` J"]) (use U J in \<open>auto simp: owned_def\<close>)
  ultimately show ?thesis using U ent own unfolding space_step_def by auto
qed

lemma kalloc_page:
  assumes "kmem_ok s (x # xs)"
  shows "\<exists>t. kalloc s = Ok x t \<and> kstep s t \<and> kmem_ok t xs \<and> same_off {x} (mem s) (mem t)
     \<and> aligned x \<and> x \<noteq> 0 \<and> x \<notin> set xs \<and> phys_page s x"
  using kalloc_spec [OF assms] kmem_ok_aligned [OF assms, of x] same_off_store_page [of "replicate 4096 5" x "mem s"]
  by auto

lemma fill_page:
  assumes "kmem_ok t xs" "x \<notin> set xs" "aligned x" "length bs = 4096"
  shows "kmem_ok (t\<lparr>mem := store_bytes (mem t) x bs\<rparr>) xs \<and> same_off {x} (mem t) (store_bytes (mem t) x bs)"
proof -
  have off: "same_off {x} (mem t) (store_bytes (mem t) x bs)"
    using assms(4) by (intro same_off_store_page) simp
  have "same_on (set xs) (mem t) (store_bytes (mem t) x bs)"
    using assms(2,3) kmem_ok_aligned [OF assms(1)] by (intro same_on_off [OF off]) auto
  with off kmem_ok_frame [OF assms(1)] show ?thesis by blast
qed

lemma mappages_page:
  assumes "pt_ok 2 s pt xs" "k < USERPAGES" "pte_of (mem s) pt (vpage k) AND PTE_V = 0"
  shows "\<exists>r t zs ys. mappages pt (vpage k) PGSIZE pa perm s = Ok r t \<and> xs = zs @ ys
     \<and> pt_ok 2 t pt ys \<and> grown 2 s pt zs t \<and> (r = 0 \<or> r = -1 \<and> ys = []) \<and> length zs \<le> 2
     \<and> (\<forall>va<SV39TOP. pte_of (mem t) pt va =
          (if r = 0 \<and> PGROUNDDOWN va = vpage k then leaf_pte pa perm else pte_of (mem s) pt va))"
proof -
  note vk = vpage_facts [OF less_imp_le [OF assms(2)]]
  have "vpage k + PGSIZE - 1 = vpage k + 4095" by (simp add: PGSIZE_def)
  moreover have "unat (vpage k + 4095) = 4096 * k + 4095"
    using vk assms(2) by (simp add: unat_word_ariths USERPAGES_eq)
  ultimately have lst: "PGROUNDDOWN (vpage k + PGSIZE - 1) = vpage k"
    using vk by (simp add: word_unat_eq_iff unat_PGROUNDDOWN)
  have "unat (vpage k) + 4096 * 0 < 2 ^ 38" using vk assms(2) by (simp add: USERPAGES_eq)
  moreover have "\<forall>j\<le>0. pte_of (mem s) pt (vpage k + of_nat j * PGSIZE) AND PTE_V = 0" using assms(3) by simp
  ultimately obtain r t zs ys j where
    t: "mappages pt (vpage k) PGSIZE pa perm s = Ok r t" "xs = zs @ ys" "pt_ok 2 t pt ys" "grown 2 s pt zs t"
    and j: "if r = 0 then j = Suc 0 else r = -1 \<and> ys = [] \<and> j \<le> 0" "length zs \<le> 2"
      "\<forall>va<SV39TOP. pte_of (mem t) pt va = with_map (vpage k) j pa perm (pte_of (mem s) pt) va"
    using mappages_loop_spec [OF assms(1), of "vpage k" 0 pa perm] vk lst by (auto simp: mappages_def)
  have "with_map (vpage k) j pa perm f va = (if r = 0 \<and> PGROUNDDOWN va = vpage k then leaf_pte pa perm else f va)" for f va
    using j(1) with_map_Suc [of "vpage k" 0 pa perm f va] vk assms(2) by (cases "r = 0") (auto simp: USERPAGES_eq)
  with t j show ?thesis by (metis (no_types, lifting))
qed

lemma below_1024: "unat w < 1024 \<longleftrightarrow> take_bit 10 w = w" for w :: u64
proof -
  have "take_bit 10 w = w \<longleftrightarrow> take_bit 10 (unat w) = unat w"
    by (simp add: word_unat_eq_iff unsigned_take_bit_eq)
  also have "\<dots> \<longleftrightarrow> unat w < 2 ^ 10" by (rule take_bit_nat_eq_self_iff)
  finally show ?thesis by simp
qed

lemma PTE_FLAGS_bits: "PTE_FLAGS v = take_bit 10 v"
proof -
  have "(0x3FF :: u64) = mask 10" by (simp add: mask_eq_exp_minus_1)
  then show ?thesis by (simp add: PTE_FLAGS_def take_bit_eq_mask)
qed

lemma leaf_pte_facts:
  assumes "aligned pa" and "unat (scast perm :: u64) < 1024"
  shows "PTE2PA (leaf_pte pa perm) = pa \<and> leaf_pte pa perm AND PTE_V \<noteq> 0
     \<and> PTE_FLAGS (leaf_pte pa perm) = scast perm OR PTE_V"
proof -
  have f: "take_bit 10 (scast perm OR PTE_V :: u64) = scast perm OR PTE_V"
    using assms(2) by (simp add: below_1024 take_bit_or PTE_V_def)
  have "take_bit 10 (PA2PTE pa) = 0" by (rule bit_word_eqI) (simp add: PA2PTE_def bit_simps)
  then have "PTE_FLAGS (leaf_pte pa perm) = scast perm OR PTE_V"
    using f by (simp add: PTE_FLAGS_bits leaf_pte_def or.assoc take_bit_or)
  moreover have "PTE2PA (leaf_pte pa perm) = pa"
    using PTE2PA_PA2PTE [OF assms(1)] f by (simp add: leaf_pte_def or.assoc below_1024)
  moreover have "bit (leaf_pte pa perm AND PTE_V) 0" by (simp add: leaf_pte_def PTE_V_def bit_simps)
  ultimately show ?thesis by auto
qed

text \<open>The address space after the table took the pages \<^verbatim>\<open>zs\<close>, with or without the page \<^verbatim>\<open>x\<close> mapped as page \<^verbatim>\<open>k\<close>.\<close>

lemma space_grown:
  assumes ok: "space_ok s pt K (x # us)" and k: "k < USERPAGES" "k \<notin> K" and v: "us = zs @ ys"
    and pt: "pt_ok 2 v pt ys'" "set ys' = set ys \<union> (if b then {} else {x})" "kstep s v"
    and tp: "tp 2 (mem v) pt = tp 2 (mem s) pt \<union> set zs"
    and off: "same_off (tp 2 (mem s) pt \<union> set zs \<union> {x}) (mem s) (mem v)"
    and ent: "\<forall>va<SV39TOP. pte_of (mem v) pt va =
          (if b \<and> PGROUNDDOWN va = vpage k then leaf_pte x perm else pte_of (mem s) pt va)"
    and perm: "unat (scast perm :: u64) < 1024" "scast perm OR PTE_V \<noteq> PTE_V"
  shows "space_step s pt K (x # us) v (if b then insert k K else K) ys'"
proof -
  note D = space_okD [OF ok]
  let ?L = "if b then insert k K else K"
  have x: "aligned x" "phys_page s x" "x \<notin> set us" "x \<notin> tp 2 (mem s) pt"
    using D(2,4) kmem_ok_aligned [OF D(2)] by (auto simp: kmem_ok_def)
  have us: "set zs \<inter> set ys = {}" "\<forall>z\<in>set us. aligned z"
    using D(2) v kmem_ok_aligned [OF D(2)] by (auto simp: kmem_ok_def)
  note lf = leaf_pte_facts [OF x(1) perm(1)]
  have e: "pte_of (mem v) pt (vpage j) = (if b \<and> j = k then leaf_pte x perm else pte_of (mem s) pt (vpage j))"
    if "j < USERPAGES" for j
    using ent vpage_facts [of j] vpage_inj [of j k] that k(1) by simp
  have up: "upage (mem v) pt j = (if b \<and> j = k then x else upage (mem s) pt j)" if "j < USERPAGES" for j
    using e [OF that] lf by (simp add: upage_def)
  have upK: "upage (mem v) pt j = upage (mem s) pt j" if "j \<in> K" for j
    using up [OF D(5) [OF that]] that k(2) by auto
  have imK: "upage (mem v) pt ` K = upage (mem s) pt ` K" by (rule image_cong) (simp_all add: upK)
  have imL: "upage (mem v) pt ` ?L = upage (mem s) pt ` K \<union> (if b then {x} else {})"
    using imK up [OF k(1)] by auto
  have "space_ok v pt ?L ys'"
    unfolding space_ok_def
  proof (intro conjI)
    show "inj_on (upage (mem v) pt) ?L"
    proof -
      have "inj_on (upage (mem v) pt) K" using D(11) upK by (simp add: inj_on_def)
      moreover have "upage (mem v) pt k \<notin> upage (mem v) pt ` K" if b
        using that imK up [OF k(1)] D(7) by (metis imageE list.set_intros(1))
      ultimately show ?thesis using k(2) by simp
    qed
    show "upage (mem v) pt ` ?L \<inter> (tp 2 (mem v) pt \<union> set ys') = {}"
      unfolding imL tp pt(2) using D(7) x(3,4) v us(1) by auto
    show "\<forall>j\<in>?L. PTE_FLAGS (pte_of (mem v) pt (vpage j)) \<noteq> PTE_V \<and> phys_page v (upage (mem v) pt j)"
      using D(5,9,10) e up lf perm(2) kstepD [OF pt(3)] x(2) k by auto
    show "\<forall>j<USERPAGES. (pte_of (mem v) pt (vpage j) AND PTE_V \<noteq> 0) = (j \<in> ?L)"
      using D(6) e lf k by auto
  qed (use pt(1) D(5) k(1) in auto)
  moreover have own: "owned v pt ?L ys' = owned s pt K (x # us)"
    unfolding owned_def imL tp pt(2) v by auto
  moreover have "same_off (owned s pt K (x # us)) (mem s) (mem v)"
    by (rule same_off_mono [OF off]) (auto simp: owned_def v)
  moreover have "umem (mem v) pt j = umem (mem s) pt j" if j: "j \<in> K" for j
    by (rule umem_same [OF off upK [OF j]])
      (use j D(7,8) v x(1) us(2) tp_aligned [OF D(3)] in auto)
  moreover have "pte_of (mem v) pt va = pte_of (mem s) pt va" if "va < SV39TOP" "TRAPFRAME \<le> va" for va
    using ent that user_below_trapframe [OF k(1)] by simp
  moreover have "pte_of (mem v) pt (vpage j) = pte_of (mem s) pt (vpage j)" if "j \<in> K" for j
    using e [OF D(5) [OF that]] that k(2) by auto
  ultimately show ?thesis using pt(3) unfolding space_step_def by auto
qed

text \<open>
  One round of \<^verbatim>\<open>uvmalloc\<close> and \<^verbatim>\<open>uvmcopy\<close>: a fresh page with content \<^verbatim>\<open>bs\<close> is mapped as page \<^verbatim>\<open>k\<close>, or else, when
  there is no page left for the table, given back.
\<close>

lemma map_fresh:
  assumes ok: "space_ok s pt K (x # us)" and k: "k < USERPAGES" "k \<notin> K" and bs: "length bs = 4096"
    and perm: "unat (scast perm :: u64) < 1024" "scast perm OR PTE_V \<noteq> PTE_V"
  shows "\<exists>t r v vs. kalloc s = Ok x t \<and> x \<noteq> 0 \<and> same_off {x} (mem s) (mem t)
     \<and> mappages pt (vpage k) PGSIZE x perm (t\<lparr>mem := store_bytes (mem t) x bs\<rparr>) = Ok r v
     \<and> (if r = 0 then space_step s pt K (x # us) v (insert k K) vs \<and> length us \<le> length vs + 2
            \<and> umem (mem v) pt k = bs \<and> pte_of (mem v) pt (vpage k) = leaf_pte x perm
        else r = -1 \<and> length us \<le> 2 \<and> (\<exists>w. kfree x v = Ok () w \<and> space_step s pt K (x # us) w K [x]))"
proof -
  note D = space_okD [OF ok]
  from kalloc_page [OF D(2)] obtain t where t: "kalloc s = Ok x t" "kstep s t" "kmem_ok t us"
    "same_off {x} (mem s) (mem t)" and x: "aligned x" "x \<noteq> 0" "x \<notin> set us" "phys_page s x" by blast
  define u where "u = t\<lparr>mem := store_bytes (mem t) x bs\<rparr>"
  have u: "kmem_ok u us" "same_off {x} (mem s) (mem u)" "kstep s u"
    using fill_page [OF t(3) x(3,1) bs] same_off_trans [OF t(4), of "{x}"] kstep_trans [OF t(2)] by (auto simp: u_def)
  have xtp: "x \<notin> tp 2 (mem s) pt" using D(4) by auto
  have "same_on (tp 2 (mem s) pt) (mem s) (mem u)"
    using xtp x(1) tp_aligned [OF D(3)] by (intro same_on_off [OF u(2)]) auto
  note fr = tree_frame [OF this]
  have oku: "pt_ok 2 u pt us" using D(1) u(1) fr kstepD [OF u(3)] unfolding pt_ok_def by auto
  have "pte_of (mem u) pt (vpage k) AND PTE_V = 0" using D(6) [OF k(1)] k(2) fr by auto
  from mappages_page [OF oku k(1) this, of x perm] fr obtain r v zs ys where
    v: "mappages pt (vpage k) PGSIZE x perm u = Ok r v" "us = zs @ ys" "pt_ok 2 v pt ys" "grown 2 u pt zs v"
      "r = 0 \<or> r = -1 \<and> ys = []" "length zs \<le> 2"
      "\<forall>va<SV39TOP. pte_of (mem v) pt va =
          (if r = 0 \<and> PGROUNDDOWN va = vpage k then leaf_pte x perm else pte_of (mem s) pt va)"
    by (auto cong: conj_cong if_cong)
  have tpv: "tp 2 (mem v) pt = tp 2 (mem s) pt \<union> set zs" and kv: "kstep s v"
    and offv: "same_off (tp 2 (mem s) pt \<union> set zs) (mem u) (mem v)"
    using v(4) fr kstep_trans [OF u(3)] by (auto simp: grown_def)
  have off: "same_off (tp 2 (mem s) pt \<union> set zs \<union> {x}) (mem s) (mem v)"
    using same_off_trans [OF u(2) offv] by (simp add: Un_commute)
  show ?thesis
  proof (cases "r = 0")
    case True
    have "space_step s pt K (x # us) v (if True then insert k K else K) ys"
      by (rule space_grown [OF ok k v(2,3) _ kv tpv off _ perm]) (use v(7) True in auto)
    moreover have pte: "pte_of (mem v) pt (vpage k) = leaf_pte x perm"
      using v(7) True vpage_facts [of k] k(1) by simp
    moreover have "umem (mem v) pt k = bs"
    proof -
      have "same_on {x} (mem u) (mem v)"
        using x(1,3) xtp v(2) tp_aligned [OF D(3)] kmem_ok_aligned [OF D(2)] by (intro same_on_off [OF offv]) auto
      then have "load_bytes (mem v) x 4096 = load_bytes (mem u) x 4096"
        by (intro load_bytes_same) (auto simp: same_on_def)
      then show ?thesis
        using pte leaf_pte_facts [OF x(1) perm(1)] load_store_bytes [of bs "mem t" x] bs
        by (simp add: umem_def upage_def u_def)
    qed
    ultimately show ?thesis using t(1,4) x(2) v(1,2,6) True unfolding u_def by auto
  next
    case False
    then have r: "r = -1" "ys = []" using v(5) by auto
    have px: "phys_page v x" using kstepD [OF kv] x(4) by simp
    have "kmem_ok v []" using v(3) r by (simp add: pt_ok_def)
    from kfree_spec [OF this px] obtain w where w: "kfree x v = Ok () w" "kmem_ok w [x]"
      "w = v\<lparr>mem := store64 (store_bytes (mem v) x (replicate 4096 1)) x (freelist v), freelist := x\<rparr>" by auto
    have offw: "same_off {x} (mem v) (mem w)"
      unfolding w(3) by (simp add: same_off_def store64_outside_page)
    have kw: "kstep v w" unfolding w(3) by (rule kstep_refl)
    have xv: "x \<notin> tp 2 (mem v) pt" using tpv xtp x(3) v(2) by auto
    have "same_on (tp 2 (mem v) pt) (mem v) (mem w)"
      using xv x(1) tp_aligned [of 2 "mem v" pt] v(3) by (intro same_on_off [OF offw]) (auto simp: pt_ok_def)
    note frw = tree_frame [OF this]
    have "pt_ok 2 w pt [x]"
      using v(3) w(2) frw kstepD [OF kw] xv unfolding pt_ok_def by auto
    moreover have "same_off (tp 2 (mem s) pt \<union> set zs \<union> {x}) (mem s) (mem w)"
      using same_off_trans [OF off offw] by simp
    ultimately have "space_step s pt K (x # us) w (if False then insert k K else K) [x]"
      by (rule_tac space_grown [OF ok k v(2), where b = False and perm = perm])
        (use frw tpv v(7) r perm kstep_trans [OF kv kw] in auto)
    then show ?thesis using t(1,4) x(2) v(1,2,6) r w(1) unfolding u_def by auto
  qed
qed

end
