(* ===== verification/Vm_User.thy ===== *)
theory Vm_User
  imports Vm_Space
begin

text \<open>
  The life of a user address space: \<^verbatim>\<open>uvmalloc\<close>, \<^verbatim>\<open>uvmdealloc\<close>, \<^verbatim>\<open>uvmcopy\<close> and \<^verbatim>\<open>uvmfree\<close> neither lose nor
  duplicate a page, on success and on every failure, and \<^verbatim>\<open>copyout\<close> and \<^verbatim>\<open>copyin\<close> move the bytes they
  claim to move.
\<close>

section \<open>Sizes in pages\<close>

definition pages_of :: "u64 \<Rightarrow> nat" where
  "pages_of sz = (unat sz + 4095) div 4096"

lemma TRAPFRAME_nat: "unat TRAPFRAME = 4096 * USERPAGES"
  by (simp add: USERPAGES_eq TRAPFRAME_def TRAMPOLINE_def MAXVA_def PGSIZE_def)

lemma pages_of_facts:
  assumes "sz \<le> TRAPFRAME"
  shows "PGROUNDUP sz = vpage (pages_of sz)" and "pages_of sz \<le> USERPAGES"
proof -
  have le: "unat sz \<le> 4096 * USERPAGES" using assms by (simp add: word_le_nat_alt TRAPFRAME_nat)
  then show p: "pages_of sz \<le> USERPAGES" by (simp add: pages_of_def USERPAGES_eq)
  have "unat (PGROUNDUP sz) = 4096 * pages_of sz"
    using le by (simp add: unat_PGROUNDUP pages_of_def USERPAGES_eq)
  then show "PGROUNDUP sz = vpage (pages_of sz)" using vpage_facts [OF p] by (simp add: word_unat_eq_iff)
qed

lemma pages_of_mono: "a \<le> b \<Longrightarrow> pages_of a \<le> pages_of b"
  by (simp add: pages_of_def word_le_nat_alt div_le_mono)

lemma pages_of_vpage: "k \<le> USERPAGES \<Longrightarrow> pages_of (vpage k) = k"
  using vpage_facts [of k] by (simp add: pages_of_def)

lemma vpage_le_TRAPFRAME: "k \<le> USERPAGES \<Longrightarrow> vpage k \<le> TRAPFRAME"
  using vpage_facts [of k] by (simp add: word_le_nat_alt TRAPFRAME_nat)

lemma scast_npages: "n \<le> USERPAGES \<Longrightarrow> (scast (ucast (of_nat n :: u64) :: i32) :: u64) = of_nat n"
proof -
  assume n: "n \<le> USERPAGES"
  have "unat (ucast (of_nat n :: u64) :: i32) = n"
    using n by (simp add: USERPAGES_eq unsigned_ucast_eq unat_of_nat_lt64 take_bit_nat_eq_self)
  then have "(ucast (of_nat n :: u64) :: i32) = of_nat n"
    using n by (simp add: word_unat_eq_iff unat_of_nat USERPAGES_eq)
  moreover have "(scast (of_nat n :: i32) :: u64) = of_nat n"
    using n by (simp add: signed_of_nat signed_take_bit_int_eq_self USERPAGES_eq)
  ultimately show ?thesis by simp
qed

lemma vpage_diff:
  assumes "a \<le> b" "b \<le> USERPAGES"
  shows "(vpage b - vpage a) div PGSIZE = of_nat (b - a)"
proof -
  have "vpage a \<le> vpage b" using assms vpage_facts [of a] vpage_facts [of b] by (simp add: word_le_nat_alt)
  then have "unat (vpage b - vpage a) = 4096 * (b - a)"
    using assms vpage_facts [of a] vpage_facts [of b] by (simp add: unat_sub diff_mult_distrib2)
  then show ?thesis
    using assms by (simp add: word_unat_eq_iff unat_div_distrib unat_of_nat USERPAGES_eq del: of_nat_diff)
qed

section \<open>Growing and shrinking a process\<close>

lemma uvmdealloc_spec:
  assumes ok: "space_ok s pt {..<pages_of oldsz} xs" and sz: "oldsz \<le> TRAPFRAME"
  shows "\<exists>t ys. uvmdealloc pt oldsz newsz s = Ok (min oldsz newsz) t
     \<and> space_step s pt {..<pages_of oldsz} xs t {..<pages_of (min oldsz newsz)} ys"
proof (cases "newsz \<ge> oldsz")
  case True
  then show ?thesis using space_step_refl [OF ok] by (simp add: uvmdealloc_def min_absorb1) blast
next
  case False
  then have le: "newsz \<le> oldsz" by simp
  then have new: "newsz \<le> TRAPFRAME" using sz by simp
  note po = pages_of_facts [OF sz] and pn = pages_of_facts [OF new]
  have m: "min oldsz newsz = newsz" using le by (simp add: min_absorb2)
  have mono: "pages_of newsz \<le> pages_of oldsz" using pages_of_mono [OF le] .
  show ?thesis
  proof (cases "PGROUNDUP newsz < PGROUNDUP oldsz")
    case True
    then have lt: "pages_of newsz < pages_of oldsz" using po pn vpage_less by simp
    let ?n = "pages_of oldsz - pages_of newsz"
    have vn: "vpage (pages_of newsz) + vpage ?n = vpage (pages_of oldsz)"
      using lt by (simp add: distrib_right [symmetric] flip: of_nat_add)
    have "(vpage (pages_of oldsz) - vpage (pages_of newsz)) div PGSIZE = of_nat ?n"
      by (rule vpage_diff [OF mono po(2)])
    then have u: "uvmdealloc pt oldsz newsz s =
        kbind (uvmunmap_loop pt (vpage (pages_of newsz)) (vpage (pages_of oldsz)) True s) (\<lambda>_ s. Ok newsz s)"
      using False True po pn vn vpage_facts [OF pn(2)] scast_npages [of ?n]
      by (simp add: uvmdealloc_def uvmunmap_def Let_def aligned_def)
    have sub: "{pages_of newsz..<pages_of oldsz} \<subseteq> {..<pages_of oldsz}" by auto
    from uvmunmap_loop_free [OF ok sub mono po(2)] obtain t ys where
      t: "uvmunmap_loop pt (vpage (pages_of newsz)) (vpage (pages_of oldsz)) True s = Ok () t"
        "unmapped s pt {..<pages_of oldsz} {pages_of newsz..<pages_of oldsz} xs t ys" by auto
    have "{..<pages_of oldsz} - {pages_of newsz..<pages_of oldsz} = {..<pages_of newsz}" using lt by auto
    with unmapped_step [OF ok sub t(2)] t(1) u m show ?thesis by auto
  next
    case nlt: False
    then have "pages_of newsz = pages_of oldsz" using po pn mono vpage_less [of "pages_of newsz" "pages_of oldsz"] by simp
    with False nlt m space_step_refl [OF ok] show ?thesis by (auto simp: uvmdealloc_def)
  qed
qed

lemma user_perm:
  "unat (scast (ucast (PTE_W OR PTE_X OR PTE_R OR PTE_U) :: i32) :: u64) < 1024"
  "scast (ucast (PTE_W OR PTE_X OR PTE_R OR PTE_U) :: i32) OR PTE_V \<noteq> PTE_V"
  by (simp_all add: pte_flag_defs)

lemma vpage_less_size: "k \<le> USERPAGES \<Longrightarrow> vpage k < sz \<longleftrightarrow> k < pages_of sz"
  using vpage_facts [of k] by (auto simp: word_less_nat_alt pages_of_def)

lemma memset_page: "memset m p c (ucast PGSIZE) = store_bytes m p (replicate 4096 (ucast c))"
  by (simp add: memset_eq)

definition user_flags :: u64 where
  "user_flags = PTE_W OR PTE_X OR PTE_R OR PTE_U OR PTE_V"

lemma uvmalloc_loop_spec:
  assumes "space_ok s pt {..<k} xs" "n0 \<le> k" "k \<le> USERPAGES" "newsz \<le> TRAPFRAME"
  shows "\<exists>r t ys. uvmalloc_loop pt (vpage k) (vpage n0) newsz s = Ok r t
     \<and> (r = newsz \<and> space_step s pt {..<k} xs t {..<max k (pages_of newsz)} ys
          \<and> (\<forall>j. k \<le> j \<and> j < pages_of newsz \<longrightarrow> umem (mem t) pt j = replicate 4096 0
                \<and> PTE_FLAGS (pte_of (mem t) pt (vpage j)) = user_flags)
        \<or> r = 0 \<and> length xs \<le> 3 * (pages_of newsz - k) \<and> space_step s pt {..<k} xs t {..<n0} ys)"
  using assms
proof (induction "pages_of newsz - k" arbitrary: k s xs)
  case 0
  then have "\<not> k < pages_of newsz" by simp
  with 0 space_step_refl [OF 0(2)] show ?case
    by (intro exI [of _ newsz] exI [of _ s] exI [of _ xs]) (auto simp: uvmalloc_loop.simps vpage_less_size max_def)
next
  case (Suc d)
  then have lt: "k < pages_of newsz" by simp
  have kU: "k < USERPAGES" using lt pages_of_facts(2) [OF Suc.prems(4)] by simp
  have less: "vpage k < newsz" using lt vpage_less_size Suc.prems(3) by blast
  have pk: "pages_of (vpage k) = k" using pages_of_vpage Suc.prems(3) .
  have dealloc: "\<exists>v zs. uvmdealloc pt (vpage k) (vpage n0) u = Ok (vpage n0) v \<and> space_step s pt {..<k} xs v {..<n0} zs"
    if u: "space_step s pt {..<k} xs u {..<k} ys" for u ys
  proof -
    have "vpage n0 \<le> vpage k" using Suc.prems(2,3) vpage_facts [of n0] vpage_facts [of k] by (simp add: word_le_nat_alt)
    then have m: "min (vpage k) (vpage n0) = vpage n0" by (simp add: min_absorb2)
    have "space_ok u pt {..<pages_of (vpage k)} ys" using u by (simp add: pk space_step_def)
    from uvmdealloc_spec [OF this vpage_le_TRAPFRAME [OF Suc.prems(3)], of "vpage n0"]
    obtain v zs where v: "uvmdealloc pt (vpage k) (vpage n0) u = Ok (vpage n0) v" "space_step u pt {..<k} ys v {..<n0} zs"
      using Suc.prems(2,3) by (auto simp: m pk pages_of_vpage)
    have "space_step s pt {..<k} xs v {..<n0} zs" by (rule space_step_trans [OF u v(2)]) auto
    with v(1) show ?thesis by blast
  qed
  show ?case
  proof (cases xs)
    case Nil
    then have "kalloc s = Ok 0 s" using kalloc_empty space_okD(2) [OF Suc.prems(1)] by blast
    then show ?thesis
      using less dealloc [OF space_step_refl [OF Suc.prems(1)]] Nil by (subst uvmalloc_loop.simps) auto
  next
    case (Cons x us)
    have ok: "space_ok s pt {..<k} (x # us)" using Suc.prems(1) Cons by simp
    have x: "aligned x" using kmem_ok_aligned [OF space_okD(2) [OF ok]] by simp
    from map_fresh [OF ok kU _ _ user_perm, of "replicate 4096 0"]
    obtain t r v vs where t: "kalloc s = Ok x t" "x \<noteq> 0"
      "mappages pt (vpage k) PGSIZE x (ucast (PTE_W OR PTE_X OR PTE_R OR PTE_U))
         (t\<lparr>mem := store_bytes (mem t) x (replicate 4096 0)\<rparr>) = Ok r v"
      and r: "if r = 0 then space_step s pt {..<k} (x # us) v (insert k {..<k}) vs
            \<and> length us \<le> length vs + 2 \<and> umem (mem v) pt k = replicate 4096 0
            \<and> pte_of (mem v) pt (vpage k) = leaf_pte x (ucast (PTE_W OR PTE_X OR PTE_R OR PTE_U))
        else r = -1 \<and> length us \<le> 2 \<and> (\<exists>w. kfree x v = Ok () w \<and> space_step s pt {..<k} (x # us) w {..<k} [x])"
      by (auto split: if_splits)
    show ?thesis
    proof (cases "r = 0")
      case True
      have ins: "insert k {..<k} = {..<Suc k}" by auto
      have st: "space_step s pt {..<k} xs v {..<Suc k} vs" "umem (mem v) pt k = replicate 4096 0"
        "length us \<le> length vs + 2" "PTE_FLAGS (pte_of (mem v) pt (vpage k)) = user_flags"
        using r True Cons ins x leaf_pte_facts [OF _ user_perm(1), of x] by (auto simp: user_flags_def pte_flag_defs)
      have step: "uvmalloc_loop pt (vpage k) (vpage n0) newsz s = uvmalloc_loop pt (vpage (Suc k)) (vpage n0) newsz v"
        using less t True by (subst uvmalloc_loop.simps) (simp add: memset_page Let_def vpage_Suc del: of_nat_Suc)
      have "space_ok v pt {..<Suc k} vs" using st by (simp add: space_step_def)
      moreover have "d = pages_of newsz - Suc k" "n0 \<le> Suc k" "Suc k \<le> USERPAGES"
        using Suc.hyps(2) Suc.prems(2) kU by simp_all
      ultimately obtain r' w ws where
        w: "uvmalloc_loop pt (vpage (Suc k)) (vpage n0) newsz v = Ok r' w"
          "r' = newsz \<and> space_step v pt {..<Suc k} vs w {..<max (Suc k) (pages_of newsz)} ws
            \<and> (\<forall>j. Suc k \<le> j \<and> j < pages_of newsz \<longrightarrow> umem (mem w) pt j = replicate 4096 0
                  \<and> PTE_FLAGS (pte_of (mem w) pt (vpage j)) = user_flags)
          \<or> r' = 0 \<and> length vs \<le> 3 * (pages_of newsz - Suc k) \<and> space_step v pt {..<Suc k} vs w {..<n0} ws"
        using Suc.hyps(1) [OF _ _ _ _ Suc.prems(4)] by blast
      from w(2) show ?thesis
      proof
        assume a: "r' = newsz \<and> space_step v pt {..<Suc k} vs w {..<max (Suc k) (pages_of newsz)} ws
            \<and> (\<forall>j. Suc k \<le> j \<and> j < pages_of newsz \<longrightarrow> umem (mem w) pt j = replicate 4096 0
                  \<and> PTE_FLAGS (pte_of (mem w) pt (vpage j)) = user_flags)"
        have mx: "max (Suc k) (pages_of newsz) = pages_of newsz" "max k (pages_of newsz) = pages_of newsz"
          using lt by simp_all
        have "umem (mem w) pt k = umem (mem v) pt k \<and> pte_of (mem w) pt (vpage k) = pte_of (mem v) pt (vpage k)"
          using a lt by (auto simp: space_step_def mx)
        then have "umem (mem w) pt j = replicate 4096 0 \<and> PTE_FLAGS (pte_of (mem w) pt (vpage j)) = user_flags"
          if "k \<le> j" "j < pages_of newsz" for j
          using that a st(2,4) by (cases "j = k") auto
        moreover have "space_step s pt {..<k} xs w {..<pages_of newsz} ws"
          by (rule space_step_trans [OF st(1)]) (use a mx in auto)
        ultimately show ?thesis using step w(1) a mx by metis
      next
        assume a: "r' = 0 \<and> length vs \<le> 3 * (pages_of newsz - Suc k) \<and> space_step v pt {..<Suc k} vs w {..<n0} ws"
        have "space_step s pt {..<k} xs w {..<n0} ws"
          by (rule space_step_trans [OF st(1)]) (use a Suc.prems(2) in auto)
        moreover have "length xs \<le> 3 * (pages_of newsz - k)" using a st(3) Cons lt by auto
        ultimately show ?thesis using step w(1) a by metis
      qed
    next
      case False
      then obtain w where w: "kfree x v = Ok () w" "space_step s pt {..<k} xs w {..<k} [x]" "length us \<le> 2"
        using r Cons by auto
      have "length xs \<le> 3 * (pages_of newsz - k)" using w(3) Cons lt by auto
      from dealloc [OF w(2)] obtain y ys where
        "uvmdealloc pt (vpage k) (vpage n0) w = Ok (vpage n0) y" "space_step s pt {..<k} xs y {..<n0} ys" by blast
      then show ?thesis
        using \<open>length xs \<le> _\<close> less t False w(1) by (subst uvmalloc_loop.simps) (auto simp: memset_page Let_def)
    qed
  qed
qed

section \<open>Copying an address space\<close>

text \<open>
  Two address spaces side by side: the pages accounted for by the first do not include those of the
  second. A step of the first leaves the second one alone.
\<close>

definition foreign :: "'z kalloc_state_scheme \<Rightarrow> addr \<Rightarrow> nat set \<Rightarrow> addr set \<Rightarrow> bool" where
  "foreign s pt K P \<longleftrightarrow> wf_tbl 2 (mem s) pt \<and> (tp 2 (mem s) pt \<union> upage (mem s) pt ` K) \<inter> P = {}
     \<and> (\<forall>k\<in>K. aligned (upage (mem s) pt k))"

lemma foreign_kept:
  assumes "foreign s pt' K' P" "same_off P (mem s) (mem t)" "\<forall>p\<in>P. aligned p"
  shows "foreign t pt' K' P \<and> (\<forall>va. pte_of (mem t) pt' va = pte_of (mem s) pt' va)
     \<and> (\<forall>k\<in>K'. umem (mem t) pt' k = umem (mem s) pt' k)
     \<and> (\<forall>va. pte_ptr 2 (mem t) pt' va = pte_ptr 2 (mem s) pt' va)"
proof -
  note F = assms(1) [unfolded foreign_def]
  have "same_on (tp 2 (mem s) pt') (mem s) (mem t)"
    using F assms(3) tp_aligned [of 2 "mem s" pt'] by (intro same_on_off [OF assms(2)]) auto
  note fr = tree_frame [OF this]
  then have up: "upage (mem t) pt' k = upage (mem s) pt' k" for k by (simp add: upage_def)
  have "umem (mem t) pt' k = umem (mem s) pt' k" if "k \<in> K'" for k
    by (rule umem_same [OF assms(2) up]) (use F that assms(3) in auto)
  then show ?thesis using F fr up by (simp add: foreign_def)
qed

lemma space_step_foreign:
  assumes "space_ok s pt K xs" "space_step s pt K xs t L ys" "foreign s pt' K' (owned s pt K xs)"
  shows "foreign t pt' K' (owned t pt L ys) \<and> (\<forall>va. pte_of (mem t) pt' va = pte_of (mem s) pt' va)
     \<and> (\<forall>k\<in>K'. umem (mem t) pt' k = umem (mem s) pt' k)
     \<and> (\<forall>va. pte_ptr 2 (mem t) pt' va = pte_ptr 2 (mem s) pt' va)"
  using foreign_kept [OF assms(3), of t] assms(2) owned_aligned [OF assms(1)]
  by (simp add: space_step_def)

lemma memmove_page:
  assumes "p < PHYSTOP" "q < PHYSTOP"
  shows "memmove m p q (ucast PGSIZE) = store_bytes m p (load_bytes m q 4096)"
  using assms memmove_eq [of q "ucast PGSIZE" p m] by (simp add: word_less_nat_alt PHYSTOP_def KERNBASE_def)

lemma unmap_all:
  assumes ok: "space_ok s pt {..<k} xs" and k: "k \<le> USERPAGES"
  shows "\<exists>t ys. uvmunmap pt 0 (vpage k div PGSIZE) True s = Ok () t \<and> space_step s pt {..<k} xs t {} ys"
proof -
  have d: "vpage k div PGSIZE = of_nat k" using vpage_diff [of 0 k] k by simp
  have sub: "{0..<k} \<subseteq> {..<k}" by auto
  from uvmunmap_loop_free [OF ok sub _ k] obtain t ys where
    t: "uvmunmap_loop pt (vpage 0) (vpage k) True s = Ok () t" "unmapped s pt {..<k} {0..<k} xs t ys" by auto
  have "{..<k} - {0..<k} = {}" by auto
  with unmapped_step [OF ok sub t(2)] t(1) d show ?thesis by (auto simp: uvmunmap_def)
qed

lemma flags_or_V:
  assumes "v AND PTE_V \<noteq> 0"
  shows "PTE_FLAGS v OR PTE_V = PTE_FLAGS v"
proof -
  have "PTE_V = (1 :: u64)" by (simp add: PTE_V_def)
  then have "bit v 0" using assms by (auto simp: and_one_eq odd_iff_mod_2_eq_one bit_0 split: if_splits)
  then show ?thesis by (intro bit_word_eqI) (auto simp: PTE_FLAGS_bits PTE_V_def bit_simps)
qed

lemma flags_perm:
  fixes v :: u64
  assumes "v AND PTE_V \<noteq> 0" "PTE_FLAGS v \<noteq> PTE_V"
  defines "perm \<equiv> ucast (PTE_FLAGS v) :: i32"
  shows "unat (scast perm :: u64) < 1024" "scast perm OR PTE_V \<noteq> PTE_V" "scast perm = PTE_FLAGS v"
proof -
  have lt: "unat (PTE_FLAGS v) < 1024" by (simp add: below_1024 PTE_FLAGS_bits)
  show sc: "scast perm = PTE_FLAGS v"
    using scast_npages [of "unat (PTE_FLAGS v)"] lt by (simp add: perm_def USERPAGES_eq)
  then show "unat (scast perm :: u64) < 1024" using lt by simp
  show "scast perm OR PTE_V \<noteq> PTE_V" using sc assms(2) flags_or_V [OF assms(1)] by simp
qed

lemma uvmcopy_loop_spec:
  assumes "space_ok s new {..<k} xs" "k \<le> n" "n = pages_of sz" "sz \<le> TRAPFRAME"
    and "foreign s old {..<n} (owned s new {..<k} xs)"
    and "\<forall>j<n. pte_of (mem s) old (vpage j) AND PTE_V \<noteq> 0 \<and> PTE_FLAGS (pte_of (mem s) old (vpage j)) \<noteq> PTE_V
            \<and> upage (mem s) old j < PHYSTOP"
  shows "\<exists>r t ys. uvmcopy_loop old new (vpage k) sz s = Ok r t
     \<and> (r = 0 \<and> space_step s new {..<k} xs t {..<n} ys
          \<and> (\<forall>j. k \<le> j \<and> j < n \<longrightarrow> umem (mem t) new j = umem (mem s) old j
                \<and> PTE_FLAGS (pte_of (mem t) new (vpage j)) = PTE_FLAGS (pte_of (mem s) old (vpage j)))
        \<or> r = -1 \<and> length xs \<le> 3 * (n - k) \<and> space_step s new {..<k} xs t {} ys)"
  using assms
proof (induction "n - k" arbitrary: k s xs)
  case 0
  then have kn: "k = n" by simp
  moreover have "\<not> vpage k < sz" using kn 0 vpage_less_size [of k sz] pages_of_facts(2) [of sz] by simp
  ultimately show ?case using space_step_refl [OF 0(2)]
    by (intro exI [of _ 0] exI [of _ s] exI [of _ xs]) (auto simp: uvmcopy_loop.simps)
next
  case (Suc d)
  then have lt: "k < n" by simp
  have kU: "k < USERPAGES" using lt pages_of_facts(2) [OF Suc.prems(4)] Suc.prems(3) by simp
  have less: "vpage k < sz" using lt vpage_less_size [of k sz] kU Suc.prems(3) by simp
  let ?v = "pte_of (mem s) old (vpage k)"
  have v: "?v AND PTE_V \<noteq> 0" "PTE_FLAGS ?v \<noteq> PTE_V" "upage (mem s) old k < PHYSTOP" using Suc.prems(6) lt by blast+
  have wfo: "wf_tbl 2 (mem s) old" using Suc.prems(5) by (simp add: foreign_def)
  have p: "pte_ptr 2 (mem s) old (vpage k) \<noteq> 0" using pte_ptr_0 [OF wfo, of "vpage k"] v(1) by auto
  have w: "walk old (vpage k) False s = Ok (pte_ptr 2 (mem s) old (vpage k)) s"
    by (rule walk_noalloc) (use vpage_facts [of k] kU in simp)
  have ld: "load64 (mem s) (pte_ptr 2 (mem s) old (vpage k)) = ?v" using pte_val_ptr [OF p] .
  let ?perm = "ucast (PTE_FLAGS ?v) :: i32"
  note perm = flags_perm [OF v(1,2)]
  show ?case
  proof (cases xs)
    case Nil
    then have "kalloc s = Ok 0 s" using kalloc_empty space_okD(2) [OF Suc.prems(1)] by blast
    moreover obtain t ys where "uvmunmap new 0 (vpage k div PGSIZE) True s = Ok () t" "space_step s new {..<k} xs t {} ys"
      using unmap_all [OF Suc.prems(1)] kU by auto
    ultimately show ?thesis using less w p ld v Nil by (subst uvmcopy_loop.simps) auto
  next
    case (Cons x us)
    have "space_ok s new {..<k} (x # us)" using Suc.prems(1) Cons by simp
    from map_fresh [OF this kU _ _ perm(1,2), of "umem (mem s) old k"]
    obtain t r u vs where t: "kalloc s = Ok x t" "x \<noteq> 0" "same_off {x} (mem s) (mem t)"
      "mappages new (vpage k) PGSIZE x ?perm (t\<lparr>mem := store_bytes (mem t) x (umem (mem s) old k)\<rparr>) = Ok r u"
      and r: "if r = 0 then space_step s new {..<k} (x # us) u (insert k {..<k}) vs
            \<and> length us \<le> length vs + 2
            \<and> umem (mem u) new k = umem (mem s) old k \<and> pte_of (mem u) new (vpage k) = leaf_pte x ?perm
        else r = -1 \<and> length us \<le> 2 \<and> (\<exists>w. kfree x u = Ok () w \<and> space_step s new {..<k} (x # us) w {..<k} [x])"
      by (auto simp: umem_def split: if_splits)
    have x: "x < PHYSTOP" "aligned x" using space_okD(2) [OF Suc.prems(1)] Cons by (auto simp: kmem_ok_def phys_page_def)
    have "upage (mem s) old k \<noteq> x" "aligned (upage (mem s) old k)"
      using Suc.prems(5) lt Cons by (auto simp: foreign_def owned_def)
    then have "same_on {upage (mem s) old k} (mem s) (mem t)"
      using x(2) by (intro same_on_off [OF t(3)]) auto
    then have "load_bytes (mem t) (upage (mem s) old k) 4096 = umem (mem s) old k"
      unfolding umem_def by (intro load_bytes_same) (auto simp: same_on_def)
    then have mv: "memmove (mem t) x (PTE2PA ?v) (ucast PGSIZE) = store_bytes (mem t) x (umem (mem s) old k)"
      using memmove_page [OF x(1) v(3)] by (simp add: upage_def)
    show ?thesis
    proof (cases "r = 0")
      case True
      have ins: "insert k {..<k} = {..<Suc k}" by auto
      have st: "space_step s new {..<k} xs u {..<Suc k} vs" "umem (mem u) new k = umem (mem s) old k"
        "pte_of (mem u) new (vpage k) = leaf_pte x ?perm" "length us \<le> length vs + 2" using r True Cons ins by auto
      have fl: "PTE_FLAGS (leaf_pte x ?perm) = PTE_FLAGS ?v"
        using leaf_pte_facts [OF x(2) perm(1)] perm v(1) by (simp add: flags_or_V)
      have step: "uvmcopy_loop old new (vpage k) sz s = uvmcopy_loop old new (vpage (Suc k)) sz u"
        using less w p ld v t True mv by (subst uvmcopy_loop.simps) (simp add: Let_def vpage_Suc del: of_nat_Suc)
      note fo = space_step_foreign [OF Suc.prems(1) st(1) Suc.prems(5)]
      have "space_ok u new {..<Suc k} vs" using st by (simp add: space_step_def)
      moreover have "d = n - Suc k" "Suc k \<le> n" using Suc.hyps(2) lt by simp_all
      moreover have "\<forall>j<n. pte_of (mem u) old (vpage j) AND PTE_V \<noteq> 0
          \<and> PTE_FLAGS (pte_of (mem u) old (vpage j)) \<noteq> PTE_V \<and> upage (mem u) old j < PHYSTOP"
        using fo Suc.prems(6) by (simp add: upage_def)
      ultimately obtain r' z zs where z: "uvmcopy_loop old new (vpage (Suc k)) sz u = Ok r' z"
        "r' = 0 \<and> space_step u new {..<Suc k} vs z {..<n} zs
          \<and> (\<forall>j. Suc k \<le> j \<and> j < n \<longrightarrow> umem (mem z) new j = umem (mem u) old j
                \<and> PTE_FLAGS (pte_of (mem z) new (vpage j)) = PTE_FLAGS (pte_of (mem u) old (vpage j)))
          \<or> r' = -1 \<and> length vs \<le> 3 * (n - Suc k) \<and> space_step u new {..<Suc k} vs z {} zs"
        using Suc.hyps(1) [OF _ _ _ Suc.prems(3,4)] fo by blast
      from z(2) show ?thesis
      proof
        assume a: "r' = 0 \<and> space_step u new {..<Suc k} vs z {..<n} zs
          \<and> (\<forall>j. Suc k \<le> j \<and> j < n \<longrightarrow> umem (mem z) new j = umem (mem u) old j
                \<and> PTE_FLAGS (pte_of (mem z) new (vpage j)) = PTE_FLAGS (pte_of (mem u) old (vpage j)))"
        have "umem (mem z) new k = umem (mem u) new k" "pte_of (mem z) new (vpage k) = pte_of (mem u) new (vpage k)"
          using a lt by (auto simp: space_step_def)
        then have "umem (mem z) new j = umem (mem s) old j
            \<and> PTE_FLAGS (pte_of (mem z) new (vpage j)) = PTE_FLAGS (pte_of (mem s) old (vpage j))" if "k \<le> j" "j < n" for j
          using that a st fl fo by (cases "j = k") auto
        moreover have "space_step s new {..<k} xs z {..<n} zs"
          by (rule space_step_trans [OF st(1)]) (use a lt in auto)
        ultimately show ?thesis using step z(1) a by metis
      next
        assume a: "r' = -1 \<and> length vs \<le> 3 * (n - Suc k) \<and> space_step u new {..<Suc k} vs z {} zs"
        have "space_step s new {..<k} xs z {} zs"
          by (rule space_step_trans [OF st(1)]) (use a in auto)
        moreover have "length xs \<le> 3 * (n - k)" using a st(4) Cons lt by auto
        ultimately show ?thesis using step z(1) a by metis
      qed
    next
      case False
      then obtain w' where w': "kfree x u = Ok () w'" "space_step s new {..<k} xs w' {..<k} [x]" "length us \<le> 2"
        using r Cons by auto
      have len: "length xs \<le> 3 * (n - k)" using w'(3) Cons lt by auto
      have "space_ok w' new {..<k} [x]" using w'(2) by (simp add: space_step_def)
      from unmap_all [OF this] kU obtain y ys where
        y: "uvmunmap new 0 (vpage k div PGSIZE) True w' = Ok () y" "space_step w' new {..<k} [x] y {} ys" by auto
      have "space_step s new {..<k} xs y {} ys" by (rule space_step_trans [OF w'(2) y(2)]) auto
      then show ?thesis
        using less w p ld v t False w'(1) y(1) mv len by (subst uvmcopy_loop.simps) (auto simp: Let_def)
    qed
  qed
qed

section \<open>Freeing an address space\<close>

fun empty_tbl :: "nat \<Rightarrow> memory \<Rightarrow> addr \<Rightarrow> bool" where
  "empty_tbl 0 m pt \<longleftrightarrow> (\<forall>i<512. \<not> pte_valid m pt i)"
| "empty_tbl (Suc l) m pt \<longleftrightarrow> (\<forall>i<512. pte_valid m pt i \<longrightarrow> empty_tbl l m (child m pt i))"

lemma empty_tbl_frame: "same_on (tp l m pt) m m' \<Longrightarrow> empty_tbl l m' pt = empty_tbl l m pt"
proof (induction l arbitrary: pt)
  case 0
  then show ?case using entry_same [OF 0 tp_root] by (simp add: pte_valid_def)
next
  case (Suc l)
  have e: "load64 m' (pte_slot pt i) = load64 m (pte_slot pt i)" if "i < 512" for i
    using entry_same [OF Suc.prems tp_root that] .
  have "empty_tbl l m' (child m pt i) = empty_tbl l m (child m pt i)" if "i < 512" "pte_valid m pt i" for i
    by (rule Suc.IH) (use child_sub [OF that] Suc.prems same_on_subset in blast)
  then show ?case using e by (simp add: pte_valid_def child_def)
qed

lemma of_nat_index: "i < 512 \<Longrightarrow> (of_nat i :: u64) < 512 \<and> unat (of_nat i :: u64) = i"
  by (simp add: word_less_nat_alt unat_of_nat)

text \<open>The state of the loop of \<^verbatim>\<open>freewalk\<close> after the entries below \<^verbatim>\<open>i\<close>.\<close>

definition freed_upto ::
  "nat \<Rightarrow> addr \<Rightarrow> addr list \<Rightarrow> 'z kalloc_state_scheme \<Rightarrow> nat \<Rightarrow> 'z kalloc_state_scheme \<Rightarrow> bool" where
  "freed_upto l pt xs s i t \<longleftrightarrow>
     (let C = (\<Union>j\<in>{j. j < 512 \<and> unat j < i \<and> pte_valid (mem s) pt j}. tp l (mem s) (child (mem s) pt j)) in
      (\<exists>ys. kmem_ok t ys \<and> set ys = set xs \<union> C) \<and> kstep s t \<and> same_off (insert pt C) (mem s) (mem t)
      \<and> (\<forall>j<512. i \<le> unat j \<longrightarrow> load64 (mem t) (pte_slot pt j) = load64 (mem s) (pte_slot pt j)))"

lemma kfree_page:
  assumes "kmem_ok s xs" "phys_page s x" "x \<notin> set xs"
  shows "\<exists>t. kfree x s = Ok () t \<and> kmem_ok t (x # xs) \<and> kstep s t \<and> same_off {x} (mem s) (mem t)"
  using kfree_spec [OF assms] by (auto simp: same_off_def store64_outside_page)

lemma freed_skip:
  assumes "freed_upto l pt xs s i t" "i < 512" "\<not> pte_valid (mem s) pt (of_nat i)"
  shows "freed_upto l pt xs s (Suc i) t"
proof -
  have "{j. j < 512 \<and> unat j < Suc i \<and> pte_valid (mem s) pt j} = {j. j < 512 \<and> unat j < i \<and> pte_valid (mem s) pt j}"
    using assms(2,3) by (auto simp: less_Suc_eq)
  with assms(1) show ?thesis by (simp add: freed_upto_def Let_def)
qed

lemma freed_child:
  assumes ok: "pt_ok (Suc l) s pt xs" and f: "freed_upto l pt xs s i t" and i: "i < 512"
    and v: "pte_valid (mem s) pt (of_nat i)" and c: "c = child (mem s) pt (of_nat i)"
    and IH: "\<And>ys. pt_ok l t c ys \<Longrightarrow> empty_tbl l (mem t) c \<Longrightarrow>
       \<exists>u zs. freewalk (Suc l) c t = Ok () u \<and> kmem_ok u zs \<and> kstep t u \<and> set zs = set ys \<union> tp l (mem t) c
         \<and> same_off (tp l (mem t) c) (mem t) (mem u)"
    and e: "empty_tbl l (mem s) c"
  shows "\<exists>u. freewalk (Suc l) c t = Ok () u
     \<and> freed_upto l pt xs s (Suc i) (u\<lparr>mem := store64 (mem u) (pte_slot pt (of_nat i)) 0\<rparr>)"
proof -
  let ?m = "mem s" and ?j = "of_nat i :: u64"
  let ?C = "\<lambda>i. \<Union>j\<in>{j. j < 512 \<and> unat j < i \<and> pte_valid ?m pt j}. tp l ?m (child ?m pt j)"
  note j = of_nat_index [OF i]
  have wf: "wf_tbl (Suc l) ?m pt" using ok by (simp add: pt_ok_def)
  have al: "\<forall>p\<in>tp (Suc l) ?m pt. aligned p" using tp_aligned [OF wf] by blast
  define D where "D = ?C i"
  have C: "?C (Suc i) = D \<union> tp l ?m c"
  proof -
    have "{j. j < 512 \<and> unat j < Suc i \<and> pte_valid ?m pt j} = insert ?j {j. j < 512 \<and> unat j < i \<and> pte_valid ?m pt j}"
    proof -
      have "k = ?j" if "unat k = i" for k using arg_cong [OF that, of "of_nat :: nat \<Rightarrow> u64"] by simp
      then show ?thesis using j v by (auto simp: less_Suc_eq)
    qed
    then show ?thesis unfolding c D_def by (simp only: UN_insert Un_commute)
  qed
  have "D \<subseteq> tp (Suc l) ?m pt" unfolding D_def tp.simps by blast
  moreover have "tp l ?m c \<subseteq> tp (Suc l) ?m pt" unfolding c by (rule child_sub) (use j v in simp_all)
  ultimately have subi: "D \<subseteq> tp (Suc l) ?m pt" "tp l ?m c \<subseteq> tp (Suc l) ?m pt" "pt \<in> tp (Suc l) ?m pt"
    using tp_root by auto
  have "tp l ?m c \<inter> tp l ?m (child ?m pt k) = {}" if "k < 512" "unat k < i" "pte_valid ?m pt k" for k
  proof -
    have "k \<noteq> ?j" using that(2) j by auto
    then show ?thesis using wf j v c that by (simp add: wf_tbl.simps)
  qed
  then have dj: "tp l ?m c \<inter> D = {}" unfolding D_def by blast
  have ptn: "pt \<notin> tp l ?m c" "pt \<notin> D" unfolding D_def using wf j v c by (simp_all add: wf_tbl.simps) 
  from f obtain ys where ys: "kmem_ok t ys" "set ys = set xs \<union> D" and kt: "kstep s t"
    and off: "same_off (insert pt (D)) ?m (mem t)"
    and ent: "\<forall>j<512. i \<le> unat j \<longrightarrow> load64 (mem t) (pte_slot pt j) = load64 ?m (pte_slot pt j)"
    unfolding freed_upto_def Let_def D_def by blast
  have on: "same_on (tp l ?m c) ?m (mem t)"
    using dj ptn subi al by (intro same_on_off [OF off]) auto
  note fr = tree_frame [OF on]
  have xs: "set xs \<inter> tp (Suc l) ?m pt = {}" using ok by (auto simp: pt_ok_def)
  have okc: "pt_ok l t c ys"
    unfolding pt_ok_def
  proof (intro conjI)
    have "wf_tbl l ?m c" unfolding c by (rule wf_child [OF wf]) (use j v in simp_all)
    then show "wf_tbl l (mem t) c" using fr by blast
    have tpc: "tp l (mem t) c = tp l ?m c" using fr by blast
    show "\<forall>p\<in>tp l (mem t) c. phys_page t p" unfolding tpc using ok subi kstepD [OF kt] unfolding pt_ok_def by auto
    show "tp l (mem t) c \<inter> set ys = {}" unfolding tpc ys(2) using dj xs subi by blast
  qed (rule ys(1))
  have tpc: "tp l (mem t) c = tp l ?m c" using fr by blast
  have "empty_tbl l (mem t) c" using empty_tbl_frame [OF on] e by blast
  from IH [OF okc this, unfolded tpc] obtain u zs where u: "freewalk (Suc l) c t = Ok () u" "kmem_ok u zs"
    "kstep t u" "set zs = set ys \<union> tp l ?m c" "same_off (tp l ?m c) (mem t) (mem u)" by blast
  define w where "w = u\<lparr>mem := store64 (mem u) (pte_slot pt ?j) 0\<rparr>"
  have offw: "same_off {pt} (mem u) (mem w)" using same_off_store64 j by (simp add: w_def)
  have ptz: "pt \<notin> set zs" using u(4) ys(2) xs ptn subi by auto
  have "same_on (set zs) (mem u) (mem w)"
    using ptz subi al kmem_ok_aligned [OF u(2)] by (intro same_on_off [OF offw]) auto
  then have "kmem_ok w zs" using kmem_ok_frame [OF u(2)] by (simp add: w_def)
  moreover have "set zs = set xs \<union> ?C (Suc i)" using u(4) ys(2) C by auto
  moreover have "kstep s w" unfolding w_def by (rule kstep_trans [OF kstep_trans [OF kt u(3)]]) simp
  moreover have "same_off (insert pt (?C (Suc i))) ?m (mem w)"
    by (rule same_off_mono [OF same_off_trans [OF same_off_trans [OF off u(5)] offw]]) (use C in auto)
  moreover have "load64 (mem w) (pte_slot pt k) = load64 ?m (pte_slot pt k)" if k: "k < 512" "Suc i \<le> unat k" for k
  proof -
    have "same_on {pt} (mem t) (mem u)" using ptn subi al by (intro same_on_off [OF u(5)]) auto
    then have "load64 (mem u) (pte_slot pt k) = load64 ?m (pte_slot pt k)"
      using entry_same [of "{pt}" "mem t" "mem u" pt k] ent k by simp
    moreover have "k \<noteq> ?j" using k(2) j by auto
    ultimately show ?thesis using entry_store64 [of ?j k] j k(1) by (simp add: w_def)
  qed
  ultimately have "freed_upto l pt xs s (Suc i) w" unfolding freed_upto_def Let_def by blast
  with u(1) show ?thesis unfolding w_def by blast
qed

lemma freewalk_spec:
  "pt_ok l s pt xs \<Longrightarrow> empty_tbl l (mem s) pt \<Longrightarrow>
   \<exists>t ys. freewalk (Suc l) pt s = Ok () t \<and> kmem_ok t ys \<and> kstep s t \<and> set ys = set xs \<union> tp l (mem s) pt
     \<and> same_off (tp l (mem s) pt) (mem s) (mem t)"
proof (induction l arbitrary: s pt xs)
  case 0
  let ?f = "\<lambda>i s. let pte = load64 (mem s) (pte_slot pt (of_nat i)) in
       if pte AND PTE_V \<noteq> 0 \<and> pte AND (PTE_R OR PTE_W OR PTE_X) = 0 then
         kbind (freewalk 0 (PTE2PA pte) s) (\<lambda>_ s.
         Ok () (s\<lparr>mem := store64 (mem s) (pte_slot pt (of_nat i)) 0\<rparr>))
       else if pte AND PTE_V \<noteq> 0 then Panic ''freewalk: leaf''
       else Ok () s"
  have "\<exists>t. kfor 0 512 ?f s = Ok () t \<and> t = s"
    by (rule kfor_inv) (use 0 of_nat_index in \<open>auto simp: pte_valid_def Let_def\<close>)
  moreover obtain t where "kfree pt s = Ok () t" "kmem_ok t (pt # xs)" "kstep s t" "same_off {pt} (mem s) (mem t)"
    using kfree_page [of s xs pt] 0 by (auto simp: pt_ok_def)
  ultimately show ?case by (intro exI [of _ t] exI [of _ "pt # xs"]) simp
next
  case (Suc l)
  let ?f = "\<lambda>i s. let pte = load64 (mem s) (pte_slot pt (of_nat i)) in
       if pte AND PTE_V \<noteq> 0 \<and> pte AND (PTE_R OR PTE_W OR PTE_X) = 0 then
         kbind (freewalk (Suc l) (PTE2PA pte) s) (\<lambda>_ s.
         Ok () (s\<lparr>mem := store64 (mem s) (pte_slot pt (of_nat i)) 0\<rparr>))
       else if pte AND PTE_V \<noteq> 0 then Panic ''freewalk: leaf''
       else Ok () s"
  have wf: "wf_tbl (Suc l) (mem s) pt" and km: "kmem_ok s xs" using Suc.prems(1) by (simp_all add: pt_ok_def)
  have "\<exists>t. kfor 0 512 ?f s = Ok () t \<and> freed_upto l pt xs s 512 t"
  proof (rule kfor_inv)
    show "freed_upto l pt xs s 0 s" using km by (auto simp: freed_upto_def)
  next
    fix i t assume i: "i < 512" and f: "freed_upto l pt xs s i t"
    note j = of_nat_index [OF i]
    have e: "load64 (mem t) (pte_slot pt (of_nat i)) = load64 (mem s) (pte_slot pt (of_nat i))"
      using f j by (simp add: freed_upto_def Let_def)
    show "\<exists>t'. ?f i t = Ok () t' \<and> freed_upto l pt xs s (Suc i) t'"
    proof (cases "pte_valid (mem s) pt (of_nat i)")
      case True
      have "empty_tbl l (mem s) (child (mem s) pt (of_nat i))" using Suc.prems(2) True j by simp
      from freed_child [OF Suc.prems(1) f i True refl Suc.IH this] True wf e j show ?thesis
        by (auto simp: wf_tbl.simps pte_leaf_def pte_valid_def child_def Let_def)
    next
      case False
      with freed_skip [OF f i] e show ?thesis by (auto simp: pte_valid_def Let_def)
    qed
  qed simp
  then obtain t where t: "kfor 0 512 ?f s = Ok () t" "freed_upto l pt xs s 512 t" by blast
  let ?C = "\<Union>j\<in>{j. j < 512 \<and> pte_valid (mem s) pt j}. tp l (mem s) (child (mem s) pt j)"
  have "{j. j < 512 \<and> unat j < 512 \<and> pte_valid (mem s) pt j} = {j. j < 512 \<and> pte_valid (mem s) pt j}"
    by (auto simp: word_less_nat_alt)
  with t(2) obtain ys where ys: "kmem_ok t ys" "set ys = set xs \<union> ?C" "kstep s t" "same_off (insert pt ?C) (mem s) (mem t)"
    unfolding freed_upto_def Let_def by auto
  have tp: "tp (Suc l) (mem s) pt = insert pt ?C" by (simp add: tp.simps)
  have "pt \<notin> ?C" using wf by (auto simp: wf_tbl.simps)
  then have "pt \<notin> set ys" using ys(2) Suc.prems(1) tp by (auto simp: pt_ok_def)
  moreover have "phys_page t pt" using Suc.prems(1) tp kstepD [OF ys(3)] by (simp add: pt_ok_def)
  ultimately obtain u where u: "kfree pt t = Ok () u" "kmem_ok u (pt # ys)" "kstep t u" "same_off {pt} (mem t) (mem u)"
    using kfree_page [OF ys(1)] by blast
  have "same_off (insert pt ?C) (mem s) (mem u)" using same_off_trans [OF ys(4) u(4)] by (simp add: insert_absorb2)
  moreover have "freewalk (Suc (Suc l)) pt s = Ok () u" using t(1) u(1) by (subst freewalk.simps) simp
  ultimately show ?case
    using u(2) ys(2) kstep_trans [OF ys(3) u(3)] tp by (intro exI [of _ u] exI [of _ "pt # ys"]) simp
qed

text \<open>
  A table whose user part is empty and that maps nothing from the trapframe page on is empty, so
  \<^verbatim>\<open>uvmfree\<close> can free it.
\<close>

definition no_top :: "memory \<Rightarrow> addr \<Rightarrow> bool" where
  "no_top m pt \<longleftrightarrow> (\<forall>va. va < SV39TOP \<longrightarrow> TRAPFRAME \<le> va \<longrightarrow> pte_of m pt va AND PTE_V = 0)"

lemma pte_val_path: "same_path l va va' \<Longrightarrow> pte_val l m pt va = pte_val l m pt va'"
  by (induction l arbitrary: pt) (simp_all add: pte_val.simps)

lemma path_exists:
  assumes "i2 < 512" "i1 < 512" "i0 < 512"
  shows "\<exists>va. va < SV39TOP \<and> PX 2 va = i2 \<and> PX 1 va = i1 \<and> PX 0 va = i0"
proof -
  define va :: u64 where "va = (push_bit 30 i2 OR push_bit 21 i1 OR push_bit 12 i0)"
  have small: "\<not> bit i n" if "i < 512" "9 \<le> n" for i :: u64 and n
  proof -
    have "unat i < 2 ^ 9" using that(1) by (simp add: word_less_nat_alt)
    then have "take_bit 9 i = i" by (simp add: word_unat_eq_iff unsigned_take_bit_eq take_bit_nat_eq_self)
    then have "bit i n = bit (take_bit 9 i) n" by simp
    with that(2) show ?thesis by (simp add: bit_simps)
  qed
  have b: "bit va n \<longleftrightarrow> (30 \<le> n \<and> n < 39 \<and> bit i2 (n - 30)) \<or> (21 \<le> n \<and> n < 30 \<and> bit i1 (n - 21))
      \<or> (12 \<le> n \<and> n < 21 \<and> bit i0 (n - 12))" for n
  proof -
    have lt: "bit i (n - k) \<Longrightarrow> n < k + 9" if "i < 512" for i :: u64 and k
      using small [OF that, of "n - k"] by (cases "n < k + 9") (auto simp: not_less)
    show ?thesis
      using lt [OF assms(1), of 30] lt [OF assms(2), of 21] lt [OF assms(3), of 12]
      by (auto simp: va_def bit_or_iff bit_push_bit_iff)
  qed
  have c: "bit i n \<longleftrightarrow> n < 9 \<and> bit i n" if "i < 512" for i :: u64 and n
    using small [OF that, of n] by (cases "n < 9") auto
  have "PX 2 va = i2" by (rule bit_eqI, subst c [OF assms(1)]) (simp add: bit_PX b)
  moreover have "PX 1 va = i1" by (rule bit_eqI, subst c [OF assms(2)]) (auto simp: bit_PX b)
  moreover have "PX 0 va = i0" by (rule bit_eqI, subst c [OF assms(3)]) (auto simp: bit_PX b)
  ultimately have px: "PX 2 va = i2" "PX 1 va = i1" "PX 0 va = i0" by blast+
  have "take_bit 39 va = va" by (rule bit_eqI) (auto simp: bit_take_bit_iff b)
  then have "unat va = take_bit 39 (unat va)" by (metis unsigned_take_bit_eq)
  then have "unat va < 2 ^ 39" by (metis take_bit_nat_less_exp)
  then have "va < SV39TOP" by (simp add: word_less_nat_alt SV39TOP_def)
  with px show ?thesis by blast
qed

lemma empty_from_pte:
  assumes "\<forall>va<SV39TOP. pte_of m pt va AND PTE_V = 0"
  shows "empty_tbl 2 m pt"
proof -
  have "\<not> pte_valid m (child m (child m pt i2) i1) i0"
    if "i2 < 512" "i1 < 512" "i0 < 512" "pte_valid m pt i2" "pte_valid m (child m pt i2) i1" for i2 i1 i0
  proof -
    from path_exists [OF that(1-3)] obtain va where "va < SV39TOP" "PX 2 va = i2" "PX 1 va = i1" "PX 0 va = i0" by blast
    with assms that(4,5) show ?thesis by (auto simp: numeral_2_eq_2 pte_val.simps pte_valid_def)
  qed
  then show ?thesis by (simp add: numeral_2_eq_2)
qed

lemma uvmfree_spec:
  assumes ok: "space_ok s pt {..<pages_of sz} xs" and sz: "sz \<le> TRAPFRAME" and top: "no_top (mem s) pt"
  shows "\<exists>t ys. uvmfree pt sz s = Ok () t \<and> kmem_ok t ys \<and> kstep s t \<and> set ys = owned s pt {..<pages_of sz} xs
     \<and> same_off (owned s pt {..<pages_of sz} xs) (mem s) (mem t)"
proof -
  note pf = pages_of_facts [OF sz]
  obtain t ys where t: "(if sz > 0 then uvmunmap pt 0 (PGROUNDUP sz div PGSIZE) True s else Ok () s) = Ok () t"
    "space_step s pt {..<pages_of sz} xs t {} ys"
  proof (cases "sz > 0")
    case True
    then show ?thesis using unmap_all [OF ok pf(2)] pf(1) that by auto
  next
    case False
    then have "sz = 0" by (simp add: word_less_nat_alt word_unat_eq_iff)
    then have "pages_of sz = 0" by (simp add: pages_of_def)
    then show ?thesis using False space_step_refl [OF ok] that by auto
  qed
  have okt: "space_ok t pt {} ys" and kt: "kstep s t" and own: "set ys \<union> tp 2 (mem t) pt = owned s pt {..<pages_of sz} xs"
    and off: "same_off (owned s pt {..<pages_of sz} xs) (mem s) (mem t)"
    and above: "\<forall>va<SV39TOP. TRAPFRAME \<le> va \<longrightarrow> pte_of (mem t) pt va = pte_of (mem s) pt va"
    using t(2) by (auto simp: space_step_def owned_def)
  have "pte_of (mem t) pt va AND PTE_V = 0" if va: "va < SV39TOP" for va
  proof (cases "TRAPFRAME \<le> va")
    case True
    then show ?thesis using above va top by (simp add: no_top_def)
  next
    case False
    let ?k = "unat va div 4096"
    have k: "?k < USERPAGES" using False TRAPFRAME_nat by (simp add: word_le_nat_alt not_le)
    have "PGROUNDDOWN va = PGROUNDDOWN (vpage ?k)"
      using vpage_facts [of ?k] k by (simp add: word_unat_eq_iff unat_PGROUNDDOWN)
    then have "same_path 2 va (vpage ?k)" using same_path_page va vpage_facts [of ?k] k by simp
    then show ?thesis using pte_val_path space_okD(6) [OF okt k] by force
  qed
  then have "empty_tbl 2 (mem t) pt" by (intro empty_from_pte) blast
  from freewalk_spec [OF space_okD(1) [OF okt] this] obtain u zs where
    u: "freewalk 3 pt t = Ok () u" "kmem_ok u zs" "kstep t u" "set zs = set ys \<union> tp 2 (mem t) pt"
      "same_off (tp 2 (mem t) pt) (mem t) (mem u)" by (auto simp: numeral_3_eq_3 numeral_2_eq_2)
  have "same_off (owned s pt {..<pages_of sz} xs) (mem s) (mem u)"
    by (rule same_off_mono [OF same_off_trans [OF off u(5)]]) (use own in auto)
  then show ?thesis using t(1) u own kstep_trans [OF kt u(3)] by (auto simp: uvmfree_def)
qed

end
