(* ===== verification/Vm_Copy.thy ===== *)
theory Vm_Copy
  imports Vm_User
begin

text \<open>
  \<^verbatim>\<open>copyout\<close>, \<^verbatim>\<open>copyin\<close> and \<^verbatim>\<open>copyinstr\<close> against the memory a user program sees: the byte \<^verbatim>\<open>ubyte m pt va\<close>
  behind each virtual address, where \<^verbatim>\<open>acc\<close> says which addresses user code may access.
\<close>

section \<open>The user's view of memory\<close>

definition acc :: "memory \<Rightarrow> addr \<Rightarrow> u64 \<Rightarrow> bool" where
  "acc m pt va \<longleftrightarrow> va < MAXVA \<and> pte_of m pt va AND PTE_V \<noteq> 0 \<and> pte_of m pt va AND PTE_U \<noteq> 0
     \<and> PTE2PA (pte_of m pt va) \<noteq> 0"

definition ubyte :: "memory \<Rightarrow> addr \<Rightarrow> u64 \<Rightarrow> u8" where
  "ubyte m pt va = m (PTE2PA (pte_of m pt va) + (va - PGROUNDDOWN va))"

lemma PGROUNDDOWN_MAXVA: "PGROUNDDOWN va < MAXVA \<longleftrightarrow> va < MAXVA"
proof -
  obtain q r where qr: "unat va = 4096 * q + r" "r < 4096"
    by (metis mod_less_divisor mult_div_mod_eq zero_less_numeral)
  then have "unat va div 4096 * 4096 < 274877906944 \<longleftrightarrow> unat va < 274877906944" by auto
  then show ?thesis by (simp add: word_less_nat_alt unat_PGROUNDDOWN MAXVA_def)
qed

lemma pte_of_page:
  assumes "va < MAXVA"
  shows "pte_of m pt (PGROUNDDOWN va) = pte_of m pt va"
proof (rule pte_val_path, subst same_path_page)
  show "PGROUNDDOWN va < SV39TOP" "va < SV39TOP"
    using assms PGROUNDDOWN_MAXVA MAXVA_SV39TOP by auto
  show "PGROUNDDOWN (PGROUNDDOWN va) = PGROUNDDOWN va" by (simp add: PGROUNDDOWN_aligned)
qed

lemma walkaddr_acc:
  assumes "wf_tbl 2 (mem s) pt"
  shows "walkaddr pt (PGROUNDDOWN va) s =
     Ok (if acc (mem s) pt va then PTE2PA (pte_of (mem s) pt va) else 0) s"
  using walkaddr_eq [OF assms, of "PGROUNDDOWN va"] pte_of_page [of va "mem s" pt]
  by (cases "va < MAXVA") (auto simp: acc_def PGROUNDDOWN_MAXVA)

text \<open>Addresses of one page are accessible together.\<close>

lemma same_page_off:
  assumes "i < unat (page_part va len)"
  shows "PGROUNDDOWN (va + of_nat i) = PGROUNDDOWN va \<and> va + of_nat i - PGROUNDDOWN va = (va - PGROUNDDOWN va) + of_nat i"
proof -
  obtain q r where qr: "unat va = 4096 * q + r" "r < 4096"
    by (metis mod_less_divisor mult_div_mod_eq zero_less_numeral)
  have i: "r + i < 4096" using assms qr by (auto simp: unat_page_part)
  have "4096 * q + 4096 \<le> 2 ^ 64"
    using aligned_room [of "PGROUNDDOWN va"] qr by (simp add: unat_PGROUNDDOWN)
  then have v: "unat (va + of_nat i) = 4096 * q + (r + i)"
    using i qr by (simp add: unat_word_ariths unat_of_nat)
  have "(4096 * q + (r + i)) div 4096 = q" "(4096 * q + r) div 4096 = q" using i qr(2) by simp_all
  with v qr have "unat (PGROUNDDOWN (va + of_nat i)) = unat (PGROUNDDOWN va)"
    by (simp add: unat_PGROUNDDOWN)
  then have "PGROUNDDOWN (va + of_nat i) = PGROUNDDOWN va" by (simp only: word_unat_eq_iff)
  then show ?thesis by (simp add: algebra_simps)
qed

lemma page_next:
  assumes "page_part va len \<noteq> len"
  shows "va + page_part va len = PGROUNDDOWN va + PGSIZE"
  using assms by (auto simp: page_part_def Let_def split: if_splits)

lemma acc_part: "i < unat (page_part va len) \<Longrightarrow> acc m pt (va + of_nat i) = acc m pt va"
proof -
  assume "i < unat (page_part va len)"
  from same_page_off [OF this] have p: "PGROUNDDOWN (va + of_nat i) = PGROUNDDOWN va" by blast
  then have "va + of_nat i < MAXVA \<longleftrightarrow> va < MAXVA" by (metis PGROUNDDOWN_MAXVA)
  moreover have "pte_of m pt (va + of_nat i) = pte_of m pt va" if "va < MAXVA"
    using that calculation p pte_of_page by metis
  ultimately show ?thesis by (auto simp: acc_def)
qed

lemma ubyte_part:
  assumes "i < unat (page_part va len)" "acc m pt va"
  shows "ubyte m pt (va + of_nat i) = m (PTE2PA (pte_of m pt va) + (va - PGROUNDDOWN va) + of_nat i)"
proof -
  note p = same_page_off [OF assms(1)]
  have "va < MAXVA" "va + of_nat i < MAXVA" using assms acc_part [OF assms(1), of m pt] by (auto simp: acc_def)
  then have "pte_of m pt (va + of_nat i) = pte_of m pt va" using p pte_of_page by metis
  then show ?thesis using p by (simp add: ubyte_def algebra_simps)
qed

lemma load_ubytes_part:
  assumes "acc m pt va"
  shows "load_bytes m (PTE2PA (pte_of m pt va) + (va - PGROUNDDOWN va)) (unat (page_part va len))
       = load_bytes (ubyte m pt) va (unat (page_part va len))"
  by (rule nth_equalityI) (simp_all add: ubyte_part [OF _ assms])

lemma load_bytes_append: "load_bytes m a (j + k) = load_bytes m a j @ load_bytes m (a + of_nat j) k"
  by (rule nth_equalityI) (auto simp: nth_append algebra_simps)

fun acc_prefix :: "memory \<Rightarrow> addr \<Rightarrow> u64 \<Rightarrow> nat \<Rightarrow> nat" where
  "acc_prefix m pt va 0 = 0"
| "acc_prefix m pt va (Suc n) = (if acc m pt va then Suc (acc_prefix m pt (va + 1) n) else 0)"

lemma acc_prefix_le: "acc_prefix m pt va n \<le> n"
  by (induction n arbitrary: va) auto

lemma acc_prefix_add:
  "\<forall>i<j. acc m pt (va + of_nat i) \<Longrightarrow> acc_prefix m pt va (j + k) = j + acc_prefix m pt (va + of_nat j) k"
proof (induction j arbitrary: va)
  case 0
  then show ?case by simp
next
  case (Suc j)
  from Suc.prems have "acc m pt va" "\<forall>i<j. acc m pt (va + 1 + of_nat i)"
    by (simp_all add: All_less_Suc2 add.assoc)
  then show ?case using Suc.IH [of "va + 1"] by (simp add: add.assoc)
qed

lemma acc_prefix_all: "acc_prefix m pt va n = n \<longleftrightarrow> (\<forall>i<n. acc m pt (va + of_nat i))"
proof (induction n arbitrary: va)
  case (Suc n)
  show ?case
  proof (cases "acc m pt va")
    case True
    have "(\<forall>i<Suc n. acc m pt (va + of_nat i)) \<longleftrightarrow> (\<forall>i<n. acc m pt (va + 1 + of_nat i))"
      using True by (simp add: All_less_Suc2 add.assoc)
    with True Suc.IH show ?thesis by simp
  next
    case False
    then show ?thesis by (auto intro: exI [of _ 0])
  qed
qed simp

lemma acc_prefix_part:
  assumes "0 < len"
  shows "acc_prefix m pt va (unat len) =
     (if acc m pt va then unat (page_part va len)
        + acc_prefix m pt (PGROUNDDOWN va + PGSIZE) (unat (len - page_part va len)) else 0)"
proof (cases "acc m pt va")
  case True
  let ?n = "page_part va len"
  have all: "\<forall>i<unat ?n. acc m pt (va + of_nat i)" using True acc_part by blast
  have le: "?n \<le> len" using page_part_le by (simp add: word_le_nat_alt)
  then have len: "unat len = unat ?n + unat (len - ?n)" using page_part_le [of va len] by (simp add: unat_sub)
  show ?thesis
  proof (cases "?n = len")
    case True
    then show ?thesis using acc_prefix_all [of m pt va "unat len"] all \<open>acc m pt va\<close> by simp
  next
    case False
    with True acc_prefix_add [OF all, of "unat (len - ?n)"] page_next [OF False] len show ?thesis by simp
  qed
next
  case False
  have "unat len \<noteq> 0" using assms by (simp add: word_less_nat_alt)
  then show ?thesis using False by (cases "unat len") auto
qed

section \<open>Copying in\<close>

lemma copyin_spec:
  assumes "wf_tbl 2 (mem s) pt"
  shows "copyin pt srcva len s =
     (let k = acc_prefix (mem s) pt srcva (unat len) in
      Ok (if k = unat len then 0 else -1, load_bytes (ubyte (mem s) pt) srcva k) s)"
  using assms
proof (induction pt srcva len s rule: copyin.induct)
  case (1 pt srcva len s)
  let ?n = "page_part srcva len" and ?m = "mem s"
  show ?case
  proof (cases "len > 0")
    case True
    note part = acc_prefix_part [OF True, of ?m pt srcva]
    show ?thesis
    proof (cases "acc ?m pt srcva")
      case acc: True
      let ?pa = "PTE2PA (pte_of ?m pt srcva)" and ?next = "PGROUNDDOWN srcva + PGSIZE"
      have w: "walkaddr pt (PGROUNDDOWN srcva) s = Ok ?pa s" "?pa \<noteq> 0"
        using walkaddr_acc [OF 1(2), of srcva] acc by (simp_all add: acc_def)
      define k where "k = acc_prefix ?m pt ?next (unat (len - ?n))"
      have IH: "copyin pt ?next (len - ?n) s =
          Ok (if k = unat (len - ?n) then 0 else -1, load_bytes (ubyte ?m pt) ?next k) s"
        using 1(1) [OF True refl w(1,2) refl refl 1(2)] by (simp add: Let_def k_def)
      have le: "?n \<le> len" using page_part_le by (simp add: word_le_nat_alt)
      then have len: "unat len = unat ?n + unat (len - ?n)" using page_part_le [of srcva len] by (simp add: unat_sub)
      have "load_bytes (ubyte ?m pt) srcva (unat ?n + k) = load_bytes ?m (?pa + (srcva - PGROUNDDOWN srcva)) (unat ?n)
          @ load_bytes (ubyte ?m pt) ?next k"
      proof (cases "?n = len")
        case True
        then have "k = 0" using acc_prefix_le [of ?m pt ?next 0] by (simp add: k_def)
        then show ?thesis using load_ubytes_part [OF acc, of len] by (simp add: load_bytes_def)
      next
        case False
        then show ?thesis using load_ubytes_part [OF acc, of len] page_next [OF False] by (simp add: load_bytes_append)
      qed
      moreover have "acc_prefix ?m pt srcva (unat len) = unat ?n + k" using part acc by (simp add: k_def)
      ultimately show ?thesis
        using True w IH len by (subst copyin.simps) (simp add: Let_def)
    next
      case False
      with True walkaddr_acc [OF 1(2), of srcva] part show ?thesis
        by (subst copyin.simps) (simp add: Let_def word_less_nat_alt)
    qed
  next
    case False
    then have "unat len = 0" by (simp add: word_less_nat_alt)
    with False show ?thesis by (subst copyin.simps) (simp add: Let_def)
  qed
qed

section \<open>Copying out\<close>

text \<open>From the trapframe page on, nothing is accessible to the user.\<close>

definition top_kernel :: "memory \<Rightarrow> addr \<Rightarrow> bool" where
  "top_kernel m pt \<longleftrightarrow> (\<forall>va. TRAPFRAME \<le> va \<longrightarrow> \<not> acc m pt va)"

lemma acc_user_page:
  assumes ok: "space_ok s pt K xs" and top: "top_kernel (mem s) pt" and a: "acc (mem s) pt va"
  shows "unat va div 4096 \<in> K \<and> PGROUNDDOWN va = vpage (unat va div 4096)
     \<and> PTE2PA (pte_of (mem s) pt va) = upage (mem s) pt (unat va div 4096)"
proof -
  let ?k = "unat va div 4096"
  have "va < TRAPFRAME" using top a by (auto simp: top_kernel_def not_le [symmetric])
  then have k: "?k < USERPAGES" using TRAPFRAME_nat by (simp add: word_less_nat_alt)
  have p: "PGROUNDDOWN va = vpage ?k"
    using vpage_facts [of ?k] k by (simp add: word_unat_eq_iff unat_PGROUNDDOWN)
  have "pte_of (mem s) pt va = pte_of (mem s) pt (vpage ?k)"
    using pte_of_page [of va "mem s" pt] a p by (simp add: acc_def)
  moreover from this have "?k \<in> K" using space_okD(6) [OF ok k] a by (auto simp: acc_def)
  ultimately show ?thesis using p by (simp add: upage_def)
qed

lemma region_in_page:
  assumes "length bs \<le> unat (page_part va len)"
  shows "region (p + (va - PGROUNDDOWN va)) (length bs) \<subseteq> region p 4096"
proof
  fix x assume "x \<in> region (p + (va - PGROUNDDOWN va)) (length bs)"
  then have "unat (x - (p + (va - PGROUNDDOWN va))) < 4096 - unat va mod 4096"
    using assms by (simp add: region_def unat_page_part)
  moreover have "x - p = (x - (p + (va - PGROUNDDOWN va))) + (va - PGROUNDDOWN va)" by simp
  ultimately have "unat (x - p) < 4096"
    using page_offset [of va] unat_word_ariths(1) [of "x - (p + (va - PGROUNDDOWN va))" "va - PGROUNDDOWN va"]
    by (simp add: less_diff_conv)
  then show "x \<in> region p 4096" by (simp add: region_def)
qed

lemma space_user_write:
  assumes ok: "space_ok s pt K xs" and P: "P \<subseteq> upage (mem s) pt ` K" and off: "same_off P (mem s) m'"
  shows "space_ok (s\<lparr>mem := m'\<rparr>) pt K xs \<and> (\<forall>va. pte_of m' pt va = pte_of (mem s) pt va)"
proof -
  note D = space_okD [OF ok]
  have al: "\<forall>p\<in>P. aligned p" using P D(8) by blast
  have "same_on (tp 2 (mem s) pt) (mem s) m'"
    using P D(7) al tp_aligned [OF D(3)] by (intro same_on_off [OF off]) blast+
  note fr = tree_frame [OF this]
  have "same_on (set xs) (mem s) m'"
    using P D(7) al kmem_ok_aligned [OF D(2)] by (intro same_on_off [OF off]) blast+
  then have km: "kmem_ok (s\<lparr>mem := m'\<rparr>) xs" by (rule kmem_ok_frame [OF D(2)])
  have up: "upage m' pt = upage (mem s) pt" using fr by (simp add: upage_def fun_eq_iff)
  show ?thesis using ok km fr up unfolding space_ok_def pt_ok_def by simp
qed

lemma ubyte_write:
  assumes ok: "space_ok s pt K xs" and top: "top_kernel (mem s) pt" and a: "acc (mem s) pt va"
    and bs: "length bs \<le> unat (page_part va len)"
    and m': "m' = store_bytes (mem s) (PTE2PA (pte_of (mem s) pt va) + (va - PGROUNDDOWN va)) bs"
    and a': "acc (mem s) pt va'" and pte: "\<forall>va. pte_of m' pt va = pte_of (mem s) pt va"
  shows "ubyte m' pt va' = store_bytes (ubyte (mem s) pt) va bs va'"
proof -
  let ?k = "unat va div 4096" and ?k' = "unat va' div 4096" and ?m = "mem s"
  note A = acc_user_page [OF ok top a] and A' = acc_user_page [OF ok top a']
  note D = space_okD [OF ok]
  let ?x = "upage ?m pt ?k' + (va' - vpage ?k')"
  have ub: "ubyte f pt va' = f ?x" if "pte_of f pt va' = pte_of ?m pt va'" for f
    using A' that by (simp add: ubyte_def)
  have inpage: "?x \<in> region (upage ?m pt ?k') 4096"
    using A' page_offset [of va'] by (simp add: region_def)
  show ?thesis
  proof (cases "?k = ?k'")
    case True
    have "?x - (upage ?m pt ?k + (va - vpage ?k)) = va' - va" using True by simp
    then show ?thesis using ub [of m'] ub [of ?m] pte A True by (simp add: m' store_bytes_def)
  next
    case False
    then have "upage ?m pt ?k \<noteq> upage ?m pt ?k'" using D(11) A A' by (auto simp: inj_on_def)
    then have "?x \<notin> region (upage ?m pt ?k) 4096"
      using page_disjoint [of "upage ?m pt ?k" "upage ?m pt ?k'"] D(8) A A' inpage by blast
    then have "?x \<notin> region (upage ?m pt ?k + (va - PGROUNDDOWN va)) (length bs)"
      using region_in_page [OF bs] by blast
    then have "ubyte m' pt va' = ubyte ?m pt va'" using ub [of m'] ub [of ?m] pte A by (simp add: m')
    moreover have "\<not> unat (va' - va) < length bs"
    proof
      assume "unat (va' - va) < length bs"
      then have "unat (va' - va) < unat (page_part va len)" using bs by simp
      from same_page_off [OF this] have "PGROUNDDOWN va' = PGROUNDDOWN va" by simp
      then have "unat (PGROUNDDOWN va') = unat (PGROUNDDOWN va)" by simp
      then show False using False by (simp add: unat_PGROUNDDOWN)
    qed
    ultimately show ?thesis by (simp add: store_bytes_def)
  qed
qed

lemma store_bytes_append:
  assumes "length xs + length ys \<le> 2 ^ 64"
  shows "store_bytes (store_bytes m a xs) (a + of_nat (length xs)) ys x = store_bytes m a (xs @ ys) x"
proof -
  let ?d = "unat (x - a)" and ?n = "length xs"
  show ?thesis
  proof (cases "ys = []")
    case True
    then show ?thesis by simp
  next
    case False
    then have n: "?n < 2 ^ 64" using assms by (cases ys) auto
    have e: "x - (a + of_nat ?n) = (x - a) - of_nat ?n" by (simp add: algebra_simps)
    show ?thesis
    proof (cases "?n \<le> ?d")
      case True
      then have "unat (x - (a + of_nat ?n)) = ?d - ?n"
        unfolding e using n by (subst unat_sub) (simp_all add: word_le_nat_alt unat_of_nat_lt64)
      with True show ?thesis by (auto simp: store_bytes_def nth_append)
    next
      case F: False
      have "unat (x - (a + of_nat ?n)) = 2 ^ 64 + ?d - ?n"
        unfolding e using n F unat_of_nat_lt64 [OF n] unat_lt64 [of "x - a"]
        by (subst unat_sub_if') (auto simp: unat_of_nat_lt64)
      with F assms show ?thesis by (auto simp: store_bytes_def nth_append)
    qed
  qed
qed

lemma copyout_spec:
  "space_ok s pt K xs \<Longrightarrow> top_kernel (mem s) pt \<Longrightarrow> unat len \<le> length src \<Longrightarrow>
   \<exists>t. copyout pt dstva src len s =
        Ok (if acc_prefix (mem s) pt dstva (unat len) = unat len then 0 else -1) t
     \<and> t = s\<lparr>mem := mem t\<rparr> \<and> space_ok t pt K xs \<and> same_off (upage (mem s) pt ` K) (mem s) (mem t)
     \<and> (\<forall>va. pte_of (mem t) pt va = pte_of (mem s) pt va)
     \<and> (\<forall>va. acc (mem s) pt va \<longrightarrow> ubyte (mem t) pt va
            = store_bytes (ubyte (mem s) pt) dstva (take (acc_prefix (mem s) pt dstva (unat len)) src) va)"
proof (induction pt dstva src len s rule: copyout.induct)
  case (1 pt dst src len s)
  let ?m = "mem s" and ?n = "page_part dst len"
  have same: "s = s\<lparr>mem := mem s\<rparr>" by (cases s) simp
  show ?case
  proof (cases "len > 0")
    case False
    then have "unat len = 0" by (simp add: word_less_nat_alt)
    with False 1(2) same show ?thesis by (subst copyout.simps) simp
  next
    case True
    note wf = space_okD(3) [OF 1(2)]
    note part = acc_prefix_part [OF True, of ?m pt dst]
    show ?thesis
    proof (cases "acc ?m pt dst")
      case False
      with True walkaddr_acc [OF wf, of dst] part 1(2) same show ?thesis
        by (subst copyout.simps) (simp add: Let_def word_less_nat_alt)
    next
      case acc: True
      let ?pa = "PTE2PA (pte_of ?m pt dst)" and ?next = "PGROUNDDOWN dst + PGSIZE"
      have w: "walkaddr pt (PGROUNDDOWN dst) s = Ok ?pa s" "?pa \<noteq> 0"
        using walkaddr_acc [OF wf, of dst] acc by (simp_all add: acc_def)
      have le: "?n \<le> len" using page_part_le by (simp add: word_le_nat_alt)
      then have len: "unat len = unat ?n + unat (len - ?n)" using page_part_le [of dst len] by (simp add: unat_sub)
      let ?bs = "take (unat ?n) src"
      have bs: "length ?bs = unat ?n" using 1(4) len by simp
      define m' where "m' = store_bytes ?m (?pa + (dst - PGROUNDDOWN dst)) ?bs"
      define u where "u = s\<lparr>mem := m'\<rparr>"
      note A = acc_user_page [OF 1(2,3) acc]
      have off: "same_off {?pa} ?m m'"
        using region_in_page [of ?bs dst len ?pa] bs
        by (auto simp: m'_def same_off_def intro!: store_bytes_outside)
      have P: "{?pa} \<subseteq> upage ?m pt ` K" using A by auto
      note sw = space_user_write [OF 1(2) P off]
      have pte: "\<forall>va. pte_of m' pt va = pte_of ?m pt va" using sw by blast
      then have acc': "Vm_Copy.acc m' pt va = Vm_Copy.acc ?m pt va" for va by (simp add: acc_def)
      then have pre: "acc_prefix m' pt va j = acc_prefix ?m pt va j" for va j
        by (induction j arbitrary: va) simp_all
      have ub: "ubyte m' pt va = store_bytes (ubyte ?m pt) dst ?bs va" if "Vm_Copy.acc ?m pt va" for va
        using ubyte_write [OF 1(2,3) acc _ m'_def that pte, of len] bs by simp
      have mu: "mem u = m'" by (simp add: u_def)
      have ueq: "u = s\<lparr>mem := store_bytes ?m (?pa + (dst - PGROUNDDOWN dst)) ?bs\<rparr>" by (simp add: u_def m'_def)
      have u: "space_ok u pt K xs" "top_kernel (mem u) pt" using sw 1(3) acc' by (simp_all add: u_def top_kernel_def)
      have "unat (len - ?n) \<le> length (drop (unat ?n) src)" using 1(4) len by simp
      note IH = 1(1) [OF True refl w refl ueq u this, unfolded mu pre acc']
      define k where "k = acc_prefix ?m pt ?next (unat (len - ?n))"
      obtain t where t: "copyout pt ?next (drop (unat ?n) src) (len - ?n) u =
            Ok (if k = unat (len - ?n) then 0 else -1) t" "t = u\<lparr>mem := mem t\<rparr>" "space_ok t pt K xs"
          "same_off (upage m' pt ` K) m' (mem t)" "\<forall>va. pte_of (mem t) pt va = pte_of m' pt va"
          "\<forall>va. Vm_Copy.acc ?m pt va \<longrightarrow> ubyte (mem t) pt va
             = store_bytes (ubyte m' pt) ?next (take k (drop (unat ?n) src)) va"
        using IH unfolding k_def by blast
      have up: "upage m' pt = upage ?m pt" using pte by (simp add: upage_def fun_eq_iff)
      have kk: "acc_prefix ?m pt dst (unat len) = unat ?n + k" using part acc by (simp add: k_def)
      have "copyout pt dst src len s = Ok (if unat ?n + k = unat len then 0 else -1) t"
        using True w t(1) len by (subst copyout.simps) (simp add: Let_def u_def m'_def)
      moreover have "same_off (upage ?m pt ` K) ?m (mem t)"
        by (rule same_off_mono [OF same_off_trans [OF off t(4)]]) (use P up in auto)
      moreover have "ubyte (mem t) pt va = store_bytes (ubyte ?m pt) dst (take (unat ?n + k) src) va"
        if va: "Vm_Copy.acc ?m pt va" for va
      proof -
        let ?rest = "take k (drop (unat ?n) src)"
        have "ubyte (mem t) pt va = store_bytes (store_bytes (ubyte ?m pt) dst ?bs) ?next ?rest va"
          using t(6) va ub [OF va] by (simp add: store_bytes_def)
        also have "\<dots> = store_bytes (ubyte ?m pt) dst (?bs @ ?rest) va"
        proof (cases "?n = len")
          case True
          then have "k = 0" by (simp add: k_def)
          then show ?thesis by simp
        next
          case False
          have "k \<le> unat (len - ?n)" unfolding k_def by (rule acc_prefix_le)
          then have "length ?bs + length ?rest \<le> 2 ^ 64" using bs len unat_lt64 [of len] by simp
          from store_bytes_append [OF this, of "ubyte ?m pt" dst va] page_next [OF False] bs show ?thesis by simp
        qed
        also have "?bs @ ?rest = take (unat ?n + k) src" by (simp add: take_add)
        finally show ?thesis .
      qed
      moreover have "t = s\<lparr>mem := mem t\<rparr>" using t(2) by (cases s) (simp add: u_def)
      ultimately show ?thesis using t(3,5) pte kk by auto
    qed
  qed
qed

section \<open>Strings\<close>

text \<open>The byte-wise reference for \<^verbatim>\<open>copyinstr\<close>.\<close>

fun ustr :: "memory \<Rightarrow> addr \<Rightarrow> u64 \<Rightarrow> nat \<Rightarrow> int \<times> u8 list" where
  "ustr m pt va 0 = (-1, [])"
| "ustr m pt va (Suc n) =
     (if \<not> acc m pt va then (-1, [])
      else if ubyte m pt va = 0 then (0, [0])
      else case ustr m pt (va + 1) n of (r, bs) \<Rightarrow> (r, ubyte m pt va # bs))"

lemma ustr_page:
  "\<forall>i<n. acc m pt (va + of_nat i) \<and> ubyte m pt (va + of_nat i) = m (p + of_nat i) \<Longrightarrow>
   ustr m pt va (n + k) = (case copyinstr_page m p n mx of (got_null, mx', dst) \<Rightarrow>
     if got_null then (0, dst) else case ustr m pt (va + of_nat n) k of (r, bs) \<Rightarrow> (r, dst @ bs))"
proof (induction n arbitrary: va p mx)
  case 0
  then show ?case by (simp split: prod.splits)
next
  case (Suc n)
  from Suc.prems have "acc m pt va" "ubyte m pt va = m p"
    "\<forall>i<n. acc m pt (va + 1 + of_nat i) \<and> ubyte m pt (va + 1 + of_nat i) = m (p + 1 + of_nat i)"
    by (simp_all add: All_less_Suc2 add.assoc)
  with Suc.IH [of "va + 1" "p + 1" "mx - 1"] show ?case
    by (auto simp: add.assoc split: prod.splits if_splits)
qed

lemma copyinstr_spec:
  assumes "wf_tbl 2 (mem s) pt"
  shows "copyinstr pt srcva mx s = Ok (ustr (mem s) pt srcva (unat mx)) s"
  using assms
proof (induction pt srcva mx s rule: copyinstr.induct)
  case (1 pt srcva mx s)
  let ?n = "page_part srcva mx" and ?m = "mem s"
  show ?case
  proof (cases "mx > 0")
    case False
    then have "unat mx = 0" by (simp add: word_less_nat_alt)
    with False show ?thesis by (subst copyinstr.simps) simp
  next
    case True
    show ?thesis
    proof (cases "acc ?m pt srcva")
      case False
      have "unat mx \<noteq> 0" using True by (simp add: word_less_nat_alt)
      then have "ustr ?m pt srcva (unat mx) = (-1, [])" using False by (cases "unat mx") auto
      with False True walkaddr_acc [OF 1(2), of srcva] show ?thesis by (subst copyinstr.simps) simp
    next
      case acc: True
      let ?pa = "PTE2PA (pte_of ?m pt srcva)" and ?next = "PGROUNDDOWN srcva + PGSIZE"
      let ?p = "?pa + (srcva - PGROUNDDOWN srcva)"
      have w: "walkaddr pt (PGROUNDDOWN srcva) s = Ok ?pa s" "?pa \<noteq> 0"
        using walkaddr_acc [OF 1(2), of srcva] acc by (simp_all add: acc_def)
      have le: "?n \<le> mx" using page_part_le by (simp add: word_le_nat_alt)
      then have mx: "unat mx = unat ?n + unat (mx - ?n)" using page_part_le [of srcva mx] by (simp add: unat_sub)
      obtain g mx' dst where cp: "copyinstr_page ?m ?p (unat ?n) mx = (g, mx', dst)" by (metis prod_cases3)
      have all: "\<forall>i<unat ?n. Vm_Copy.acc ?m pt (srcva + of_nat i) \<and> ubyte ?m pt (srcva + of_nat i) = ?m (?p + of_nat i)"
        using acc acc_part ubyte_part by blast
      have us: "ustr ?m pt srcva (unat mx) = (if g then (0, dst)
          else case ustr ?m pt (srcva + of_nat (unat ?n)) (unat (mx - ?n)) of (r, bs) \<Rightarrow> (r, dst @ bs))"
        using ustr_page [OF all, of "unat (mx - ?n)" mx] cp mx by simp
      show ?thesis
      proof (cases g)
        case True
        then show ?thesis using \<open>mx > 0\<close> w cp us by (subst copyinstr.simps) simp
      next
        case g: False
        then have mx': "mx' = mx - ?n" using copyinstr_page_max cp by fastforce
        have IH: "copyinstr pt ?next mx' s = Ok (ustr ?m pt ?next (unat mx')) s"
          using 1(1) [OF \<open>mx > 0\<close> refl w cp [symmetric]] g 1(2) by simp
        have "ustr ?m pt ?next (unat mx') = ustr ?m pt (srcva + of_nat (unat ?n)) (unat (mx - ?n))"
          using page_next [of srcva mx] mx' by (cases "?n = mx") auto
        then show ?thesis using \<open>mx > 0\<close> w cp us g IH by (subst copyinstr.simps) (simp split: prod.splits)
      qed
    qed
  qed
qed

end
