(* ===== verification/Vm_Props.thy ===== *)
theory Vm_Props
  imports Vm_Copy
begin

text \<open>
  The contract between the kernel and user memory as an interface, its interpretation on
  \<^verbatim>\<open>copyout\<close> and \<^verbatim>\<open>copyin\<close>, and the properties of virtual memory.
\<close>

section \<open>The contract of user copies\<close>

locale user_copy =
  fixes put :: "u64 \<Rightarrow> u8 list \<Rightarrow> 's \<Rightarrow> (int, 's) res"
    and get :: "u64 \<Rightarrow> nat \<Rightarrow> 's \<Rightarrow> (int \<times> u8 list, 's) res"
    and ok :: "'s \<Rightarrow> bool"
    and may :: "'s \<Rightarrow> u64 \<Rightarrow> bool"
    and byte :: "'s \<Rightarrow> memory"
  assumes put_all: "ok s \<Longrightarrow> length bs < 2 ^ 64 \<Longrightarrow> \<forall>i<length bs. may s (va + of_nat i) \<Longrightarrow>
      \<exists>t. put va bs s = Ok 0 t \<and> ok t \<and> may t = may s
        \<and> (\<forall>a. may s a \<longrightarrow> byte t a = store_bytes (byte s) va bs a)"
    and put_some: "ok s \<Longrightarrow> length bs < 2 ^ 64 \<Longrightarrow> \<not> (\<forall>i<length bs. may s (va + of_nat i)) \<Longrightarrow>
      \<exists>t. put va bs s = Ok (-1) t \<and> ok t \<and> may t = may s"
    and get_all: "ok s \<Longrightarrow> n < 2 ^ 64 \<Longrightarrow> \<forall>i<n. may s (va + of_nat i) \<Longrightarrow>
      get va n s = Ok (0, load_bytes (byte s) va n) s"
begin

lemma put_get:
  assumes "ok s" "length bs < 2 ^ 64" "\<forall>i<length bs. may s (va + of_nat i)"
  shows "\<exists>t. put va bs s = Ok 0 t \<and> get va (length bs) t = Ok (0, bs) t"
proof -
  from put_all [OF assms] obtain t where t: "put va bs s = Ok 0 t" "ok t" "may t = may s"
    "\<forall>a. may s a \<longrightarrow> byte t a = store_bytes (byte s) va bs a" by blast
  have "get va (length bs) t = Ok (0, load_bytes (byte t) va (length bs)) t"
    using get_all [OF t(2) assms(2)] assms(3) t(3) by simp
  moreover have "load_bytes (byte t) va (length bs) = load_bytes (store_bytes (byte s) va bs) va (length bs)"
    using t(4) assms(3) by (intro load_bytes_cong) simp
  ultimately show ?thesis using t(1) assms(2) by auto
qed

lemma put_elsewhere:
  assumes "ok s" "length bs < 2 ^ 64" "n < 2 ^ 64" "\<forall>i<length bs. may s (va + of_nat i)"
    and "\<forall>i<n. may s (vb + of_nat i)" "region va (length bs) \<inter> region vb n = {}"
  shows "\<exists>t r. put va bs s = Ok 0 t \<and> get vb n s = Ok r s \<and> get vb n t = Ok r t"
proof -
  from put_all [OF assms(1,2,4)] obtain t where t: "put va bs s = Ok 0 t" "ok t" "may t = may s"
    "\<forall>a. may s a \<longrightarrow> byte t a = store_bytes (byte s) va bs a" by blast
  have "load_bytes (byte t) vb n = load_bytes (byte s) vb n"
  proof (rule load_bytes_cong)
    fix i assume i: "i < n"
    then have "vb + of_nat i \<notin> region va (length bs)"
      using assms(3,6) in_region_offset [of i n vb] by auto
    then show "byte t (vb + of_nat i) = byte s (vb + of_nat i)" using t(4) assms(5) i by simp
  qed
  then show ?thesis using get_all [OF t(2) assms(3)] get_all [OF assms(1,3)] assms(5) t by auto
qed

end

definition put_user :: "addr \<Rightarrow> u64 \<Rightarrow> u8 list \<Rightarrow> 'z kalloc_state_scheme \<Rightarrow> (int, 'z kalloc_state_scheme) res" where
  "put_user pt va bs s = copyout pt va bs (of_nat (length bs)) s"

definition get_user :: "addr \<Rightarrow> u64 \<Rightarrow> nat \<Rightarrow> 'z kalloc_state_scheme \<Rightarrow> (int \<times> u8 list, 'z kalloc_state_scheme) res" where
  "get_user pt va n s = copyin pt va (of_nat n) s"

definition user_ready :: "addr \<Rightarrow> nat set \<Rightarrow> addr list \<Rightarrow> 'z kalloc_state_scheme \<Rightarrow> bool" where
  "user_ready pt K xs s \<longleftrightarrow> space_ok s pt K xs \<and> top_kernel (mem s) pt"

interpretation uc: user_copy "put_user pt :: _ \<Rightarrow> _ \<Rightarrow> 'z kalloc_state_scheme \<Rightarrow> _" "get_user pt" "user_ready pt K xs"
  "\<lambda>s. acc (mem s) pt" "\<lambda>s. ubyte (mem s) pt" for pt K xs
proof
  fix s :: "'z kalloc_state_scheme" and bs :: "u8 list" and va assume s: "user_ready pt K xs s" and bs: "length bs < 2 ^ 64"
  let ?len = "of_nat (length bs) :: u64"
  have len: "unat ?len = length bs" using bs by (simp add: unat_of_nat_lt64)
  have ok: "space_ok s pt K xs" "top_kernel (mem s) pt" using s by (simp_all add: user_ready_def)
  from copyout_spec [OF ok, of ?len bs va] obtain t where
    t: "put_user pt va bs s = Ok (if acc_prefix (mem s) pt va (length bs) = length bs then 0 else -1) t"
      "space_ok t pt K xs" "\<forall>a. pte_of (mem t) pt a = pte_of (mem s) pt a"
      "\<forall>a. acc (mem s) pt a \<longrightarrow> ubyte (mem t) pt a
         = store_bytes (ubyte (mem s) pt) va (take (acc_prefix (mem s) pt va (length bs)) bs) a"
    by (auto simp: len put_user_def)
  have may: "acc (mem t) pt = acc (mem s) pt" using t(3) by (simp add: acc_def fun_eq_iff)
  then have rt: "user_ready pt K xs t" using t(2) ok(2) by (simp add: user_ready_def top_kernel_def)
  {
    assume "\<forall>i<length bs. acc (mem s) pt (va + of_nat i)"
    then have "acc_prefix (mem s) pt va (length bs) = length bs" by (simp add: acc_prefix_all)
    then show "\<exists>t. put_user pt va bs s = Ok 0 t \<and> user_ready pt K xs t \<and> acc (mem t) pt = acc (mem s) pt
        \<and> (\<forall>a. acc (mem s) pt a \<longrightarrow> ubyte (mem t) pt a = store_bytes (ubyte (mem s) pt) va bs a)"
      using t rt may by auto
  next
    assume "\<not> (\<forall>i<length bs. acc (mem s) pt (va + of_nat i))"
    then have "acc_prefix (mem s) pt va (length bs) \<noteq> length bs" by (simp add: acc_prefix_all)
    then show "\<exists>t. put_user pt va bs s = Ok (-1) t \<and> user_ready pt K xs t \<and> acc (mem t) pt = acc (mem s) pt"
      using t rt may by auto
  }
next
  fix s :: "'z kalloc_state_scheme" and va and n :: nat assume s: "user_ready pt K xs s" and n: "n < 2 ^ 64" "\<forall>i<n. acc (mem s) pt (va + of_nat i)"
  moreover have "acc_prefix (mem s) pt va n = n" using n(2) by (simp add: acc_prefix_all)
  ultimately show "get_user pt va n s = Ok (0, load_bytes (ubyte (mem s) pt) va n) s"
    using copyin_spec [of s pt va "of_nat n"] space_okD(3) [of s pt K xs]
    by (simp add: get_user_def user_ready_def unat_of_nat_lt64)
qed

section \<open>A small machine\<close>

text \<open>A zeroed page as the root of a page table and four free pages.\<close>

definition root_page :: addr where "root_page = 0x87000000"

definition free_pages :: "addr list" where
  "free_pages = [0x87001000, 0x87002000, 0x87003000, 0x87004000]"

definition small :: kalloc_state where
  "small = \<lparr>held = [], mem = store64 (store64 (store64 (\<lambda>_. 0) 0x87001000 0x87002000) 0x87002000 0x87003000)
     0x87003000 0x87004000, freelist = 0x87001000, k_end = 0x80021000\<rparr>"

lemma load64_store64_page:
  "aligned a \<Longrightarrow> aligned b \<Longrightarrow> a \<noteq> b \<Longrightarrow> load64 (store64 m a v) b = load64 m b"
proof -
  assume "aligned a" "aligned b" "a \<noteq> b"
  then have "region a 4096 \<inter> region b 4096 = {}" by (rule page_disjoint)
  moreover have "region a 8 \<subseteq> region a 4096" "region b 8 \<subseteq> region b 4096" by (simp_all add: region_mono)
  ultimately have "region a 8 \<inter> region b 8 = {}" by blast
  then show ?thesis by (rule load64_store64_disjoint)
qed

lemma small_aligned:
  "aligned 0x87000000" "aligned 0x87001000" "aligned 0x87002000" "aligned 0x87003000" "aligned 0x87004000"
  by (simp_all add: aligned_def PGSIZE_def)

lemma kmem_ok_small: "kmem_ok small free_pages"
proof -
  have m: "load64 (mem small) 0x87001000 = 0x87002000" "load64 (mem small) 0x87002000 = 0x87003000"
    "load64 (mem small) 0x87003000 = 0x87004000" "load64 (mem small) 0x87004000 = 0"
    by (simp_all add: small_def load64_store64_page small_aligned load64_zero)
  have "list_all (phys_page small) free_pages"
    by (simp add: small_def free_pages_def phys_page_def small_aligned KERNBASE_def PHYSTOP_def)
  moreover have "chain (mem small) 0x87001000 free_pages" unfolding free_pages_def by (simp add: m)
  moreover have "distinct free_pages" by (simp add: free_pages_def)
  ultimately show ?thesis unfolding kmem_ok_def by (simp add: small_def KERNBASE_def)
qed

lemma zero_root_small: "zero_page (mem small) root_page"
proof -
  have "store64 m p v a = m a" if "a \<in> region root_page 4096" "p \<in> set free_pages" for m p v a
  proof (rule store64_outside_page)
    have "region root_page 4096 \<inter> region p 4096 = {}"
      using that(2) by (intro page_disjoint) (auto simp: root_page_def free_pages_def small_aligned)
    with that(1) show "a \<notin> region p 4096" by blast
  qed
  then show ?thesis by (simp add: zero_page_def small_def free_pages_def)
qed

lemma space_ok_small: "space_ok small root_page {} free_pages" and no_top_small: "no_top (mem small) root_page"
  and top_kernel_small: "top_kernel (mem small) root_page"
proof -
  have r: "aligned root_page" "root_page \<noteq> 0" by (simp_all add: root_page_def small_aligned)
  note z = zero_table [OF zero_root_small r, of 2]
  have "phys_page small root_page"
    by (simp add: root_page_def phys_page_def small_def small_aligned PHYSTOP_def KERNBASE_def)
  moreover have "root_page \<notin> set free_pages" by (simp add: root_page_def free_pages_def)
  ultimately have "pt_ok 2 small root_page free_pages" using z kmem_ok_small unfolding pt_ok_def by auto
  then show "space_ok small root_page {} free_pages" using z by (simp add: space_ok_def)
  show "no_top (mem small) root_page" using z by (simp add: no_top_def)
  show "top_kernel (mem small) root_page" using z by (simp add: top_kernel_def acc_def)
qed

section \<open>Properties\<close>

text \<open>
  \<^bold>\<open>C21\<close> \<^verbatim>\<open>mappages\<close> on a well-formed page table and a range of unmapped pages below \<^verbatim>\<open>MAXVA\<close> either maps
  every page of the range to consecutive physical pages with the given permissions, or returns -1
  when the allocator has no page left for the table; entries outside the range keep their values,
  the table stays a tree disjoint from the free list, and memory outside the table and the pages
  added to it does not change.
\<close>

theorem mappages_maps_range:
  assumes "pt_ok 2 s pt xs" and "aligned va" and "0 < n" and "unat va + 4096 * n \<le> unat MAXVA"
    and "\<forall>k<n. pte_of (mem s) pt (va + of_nat k * PGSIZE) AND PTE_V = 0"
  shows "\<exists>r t zs ys. mappages pt va (of_nat n * PGSIZE) pa perm s = Ok r t \<and> xs = zs @ ys \<and> pt_ok 2 t pt ys
     \<and> tp 2 (mem t) pt = tp 2 (mem s) pt \<union> set zs \<and> same_off (tp 2 (mem s) pt \<union> set zs) (mem s) (mem t)
     \<and> (r = 0 \<or> r = -1 \<and> ys = [])
     \<and> (\<forall>a<MAXVA. pte_of (mem t) pt a =
          (if va \<le> PGROUNDDOWN a \<and> unat (PGROUNDDOWN a - va) < 4096 * n
           then if r = 0 then PA2PTE (pa + (PGROUNDDOWN a - va)) OR scast perm OR PTE_V
                else pte_of (mem t) pt a
           else pte_of (mem s) pt a))"
proof -
  obtain n' where n': "n = Suc n'" using assms(3) by (cases n) auto
  have bound: "unat va + 4096 * n' < 2 ^ 38" "unat va + 4096 * n \<le> 2 ^ 38"
    using assms(4) n' by (simp_all add: MAXVA_def)
  have lst: "PGROUNDDOWN (va + of_nat n * PGSIZE - 1) = va + of_nat n' * PGSIZE"
  proof -
    have e: "va + of_nat n * PGSIZE - 1 = (va + of_nat n' * PGSIZE) + 4095" by (simp add: n' PGSIZE_def algebra_simps)
    have "unat (va + of_nat n' * PGSIZE) = unat va + 4096 * n'" "aligned (va + of_nat n' * PGSIZE)"
      using page_k [OF assms(2), of n'] bound by simp_all
    then show ?thesis unfolding e using bound
      by (auto simp: word_unat_eq_iff unat_PGROUNDDOWN unat_word_ariths elim!: alignedE)
  qed
  have "\<forall>k\<le>n'. pte_of (mem s) pt (va + of_nat k * PGSIZE) AND PTE_V = 0" using assms(5) n' by simp
  from mappages_loop_spec [OF assms(1,2) bound(1) this, of pa perm] obtain r t zs ys k where
    t: "mappages pt va (of_nat n * PGSIZE) pa perm s = Ok r t" "xs = zs @ ys" "pt_ok 2 t pt ys" "grown 2 s pt zs t"
      "if r = 0 then k = Suc n' else r = -1 \<and> ys = [] \<and> k \<le> n'"
      "\<forall>va'<SV39TOP. pte_of (mem t) pt va' = with_map va k pa perm (pte_of (mem s) pt) va'"
    using PGROUNDDOWN_aligned [OF assms(2)] by (auto simp: mappages_def lst)
  have "pte_of (mem t) pt a = (if va \<le> PGROUNDDOWN a \<and> unat (PGROUNDDOWN a - va) < 4096 * n
      then if r = 0 then PA2PTE (pa + (PGROUNDDOWN a - va)) OR scast perm OR PTE_V else pte_of (mem t) pt a
      else pte_of (mem s) pt a)" if a: "a < MAXVA" for a
  proof -
    have "pte_of (mem t) pt a = with_map va k pa perm (pte_of (mem s) pt) a" using t(6) MAXVA_SV39TOP [OF a] by blast
    moreover have "k \<le> n" "r = 0 \<Longrightarrow> k = n" using t(5) n' by (auto split: if_splits)
    ultimately show ?thesis by (auto simp: with_map_def leaf_pte_def or.assoc)
  qed
  moreover have "r = 0 \<or> r = -1 \<and> ys = []" using t(5) by (auto split: if_splits)
  ultimately show ?thesis using t(1-4) unfolding grown_def by blast
qed

lemma mappages_maps_range_witness:
  "\<exists>r t zs ys. mappages root_page 0x1000 (of_nat 2 * PGSIZE) 0x86000000 (ucast PTE_R) small = Ok r t
     \<and> free_pages = zs @ ys \<and> pt_ok 2 t root_page ys \<and> (r = 0 \<or> r = -1 \<and> ys = [])"
proof -
  have "pt_ok 2 small root_page free_pages" using space_okD(1) [OF space_ok_small] .
  moreover have "aligned 0x1000" by (simp add: aligned_def PGSIZE_def)
  moreover have "\<forall>k<2. pte_of (mem small) root_page (0x1000 + of_nat k * PGSIZE) AND PTE_V = 0"
    using zero_table [OF zero_root_small, of 2] by (simp add: root_page_def small_aligned)
  ultimately show ?thesis
    using mappages_maps_range [of small root_page free_pages "0x1000" 2 "0x86000000" "ucast PTE_R"]
    by (auto simp: MAXVA_def)
qed

text \<open>
  \<^bold>\<open>C22\<close> Growing a process with \<^verbatim>\<open>uvmalloc\<close> keeps the pages it has, with their content, and adds zeroed pages up to
  the new size; when memory runs out it returns 0 and restores the old size. With three free pages
  per new page it succeeds. In both cases no physical page is lost, duplicated or shared with the
  free list, and memory outside the pages of this address space and the free list is untouched.
\<close>

theorem uvmalloc_grows:
  assumes "space_ok s pt {..<pages_of oldsz} xs" and "oldsz \<le> newsz" and "newsz \<le> TRAPFRAME"
  shows "\<exists>r t ys. uvmalloc pt oldsz newsz s = Ok r t
     \<and> (r = newsz \<and> space_step s pt {..<pages_of oldsz} xs t {..<pages_of newsz} ys
          \<and> (\<forall>j. pages_of oldsz \<le> j \<and> j < pages_of newsz \<longrightarrow> umem (mem t) pt j = replicate 4096 0
                \<and> PTE_FLAGS (pte_of (mem t) pt (vpage j)) = user_flags)
        \<or> r = 0 \<and> length xs \<le> 3 * (pages_of newsz - pages_of oldsz)
          \<and> space_step s pt {..<pages_of oldsz} xs t {..<pages_of oldsz} ys)"
proof -
  have old: "oldsz \<le> TRAPFRAME" using assms(2,3) by simp
  note po = pages_of_facts [OF old]
  have "max (pages_of oldsz) (pages_of newsz) = pages_of newsz" using pages_of_mono [OF assms(2)] by simp
  moreover have "uvmalloc pt oldsz newsz s = uvmalloc_loop pt (vpage (pages_of oldsz)) (vpage (pages_of oldsz)) newsz s"
    using assms(2) po(1) by (auto simp: uvmalloc_def)
  ultimately show ?thesis
    using uvmalloc_loop_spec [OF assms(1) order_refl po(2) assms(3)] by simp
qed

lemma uvmalloc_small:
  "\<exists>t ys. uvmalloc root_page 0 0x800 small = Ok 0x800 t \<and> space_step small root_page {} free_pages t {..<1} ys
     \<and> umem (mem t) root_page 0 = replicate 4096 0 \<and> PTE_FLAGS (pte_of (mem t) root_page (vpage 0)) = user_flags"
proof -
  have "space_ok small root_page {..<0} free_pages" using space_ok_small by simp
  moreover have "(0x800 :: u64) \<le> TRAPFRAME" by (simp add: TRAPFRAME_def TRAMPOLINE_def MAXVA_def PGSIZE_def)
  moreover have p: "PGROUNDUP (0 :: u64) = vpage 0" by (simp add: PGROUNDUP_def PGSIZE_def)
  moreover have "pages_of 0x800 = 1" by (simp add: pages_of_def)
  ultimately obtain r t ys where "uvmalloc root_page 0 0x800 small = Ok r t"
    "r = 0x800 \<and> space_step small root_page {} free_pages t {..<1} ys
          \<and> umem (mem t) root_page 0 = replicate 4096 0 \<and> PTE_FLAGS (pte_of (mem t) root_page (vpage 0)) = user_flags
        \<or> r = 0 \<and> length free_pages \<le> 3"
    using uvmalloc_loop_spec [of small root_page 0 free_pages 0 "0x800"] by (auto simp: uvmalloc_def)
  then show ?thesis by (auto simp: free_pages_def)
qed

lemma uvmalloc_grows_witness:
  "\<exists>r t ys. uvmalloc root_page 0 0x800 small = Ok r t
     \<and> (r = 0x800 \<and> space_step small root_page {..<pages_of 0} free_pages t {..<pages_of 0x800} ys
        \<or> r = 0 \<and> space_step small root_page {..<pages_of 0} free_pages t {..<pages_of 0} ys)"
proof -
  have "space_ok small root_page {..<pages_of 0} free_pages" using space_ok_small by (simp add: pages_of_def)
  moreover have "(0x800 :: u64) \<le> TRAPFRAME" by (simp add: TRAPFRAME_def TRAMPOLINE_def MAXVA_def PGSIZE_def)
  ultimately show ?thesis using uvmalloc_grows [of small root_page 0 free_pages "0x800"] by auto
qed

text \<open>
  \<^bold>\<open>C23\<close> Shrinking a process with \<^verbatim>\<open>uvmdealloc\<close> never fails on a well-formed address space: it returns the smaller
  size, frees exactly the pages above it and leaves the others and their content alone.
\<close>

theorem uvmdealloc_shrinks:
  assumes "space_ok s pt {..<pages_of oldsz} xs" and "oldsz \<le> TRAPFRAME"
  shows "\<exists>t ys. uvmdealloc pt oldsz newsz s = Ok (min oldsz newsz) t
     \<and> space_step s pt {..<pages_of oldsz} xs t {..<pages_of (min oldsz newsz)} ys"
  by (rule uvmdealloc_spec [OF assms])

lemma uvmdealloc_shrinks_witness:
  "\<exists>s t ys zs. uvmalloc root_page 0 0x800 small = Ok 0x800 s
     \<and> uvmdealloc root_page 0x800 0 s = Ok 0 t \<and> space_step s root_page {..<1} ys t {} zs"
proof -
  obtain s ys where s: "uvmalloc root_page 0 0x800 small = Ok 0x800 s" "space_step small root_page {} free_pages s {..<1} ys"
    using uvmalloc_small by blast
  have "space_ok s root_page {..<pages_of 0x800} ys" using s(2) by (simp add: space_step_def pages_of_def)
  moreover have "(0x800 :: u64) \<le> TRAPFRAME" by (simp add: TRAPFRAME_def TRAMPOLINE_def MAXVA_def PGSIZE_def)
  ultimately show ?thesis
    using uvmdealloc_shrinks [of s root_page "0x800" ys 0] s by (auto simp: pages_of_def)
qed

text \<open>
  \<^bold>\<open>C24\<close> \<^verbatim>\<open>uvmcopy\<close> gives the child a private copy of every page of the parent, with the same content and
  flags, or returns -1 when memory runs out and then frees every page it had mapped for the child.
  The parent's address space is unchanged either way.
\<close>

theorem uvmcopy_copies:
  assumes "space_ok s new {} xs" and "sz \<le> TRAPFRAME"
    and "foreign s old {..<pages_of sz} (owned s new {} xs)"
    and "\<forall>j<pages_of sz. pte_of (mem s) old (vpage j) AND PTE_V \<noteq> 0
           \<and> PTE_FLAGS (pte_of (mem s) old (vpage j)) \<noteq> PTE_V \<and> upage (mem s) old j < PHYSTOP"
  shows "\<exists>r t ys. uvmcopy old new sz s = Ok r t
     \<and> (r = 0 \<and> space_step s new {} xs t {..<pages_of sz} ys
          \<and> (\<forall>j<pages_of sz. umem (mem t) new j = umem (mem s) old j
                \<and> PTE_FLAGS (pte_of (mem t) new (vpage j)) = PTE_FLAGS (pte_of (mem s) old (vpage j)))
        \<or> r = -1 \<and> length xs \<le> 3 * pages_of sz \<and> space_step s new {} xs t {} ys)
     \<and> (\<forall>va. pte_of (mem t) old va = pte_of (mem s) old va)
     \<and> (\<forall>j<pages_of sz. umem (mem t) old j = umem (mem s) old j)"
proof -
  have "space_ok s new {..<0} xs" "foreign s old {..<pages_of sz} (owned s new {..<0} xs)" using assms(1,3) by simp_all
  from uvmcopy_loop_spec [OF this(1) _ refl assms(2) this(2) assms(4)] obtain r t ys where
    t: "uvmcopy old new sz s = Ok r t"
      "r = 0 \<and> space_step s new {} xs t {..<pages_of sz} ys
          \<and> (\<forall>j<pages_of sz. umem (mem t) new j = umem (mem s) old j
                \<and> PTE_FLAGS (pte_of (mem t) new (vpage j)) = PTE_FLAGS (pte_of (mem s) old (vpage j)))
        \<or> r = -1 \<and> length xs \<le> 3 * pages_of sz \<and> space_step s new {} xs t {} ys"
    by (auto simp: uvmcopy_def)
  then obtain L where "space_step s new {} xs t L ys" by blast
  from space_step_foreign [OF assms(1) this assms(3)] t show ?thesis by auto
qed

lemma uvmcopy_copies_witness:
  "\<exists>s r t. uvmalloc root_page 0 0x800 small = Ok 0x800 s
     \<and> uvmcopy root_page 0x86000000 0x800 s = Ok r t \<and> (r = 0 \<or> r = -1)
     \<and> (r = 0 \<longrightarrow> umem (mem t) 0x86000000 0 = umem (mem s) root_page 0)
     \<and> umem (mem t) root_page 0 = replicate 4096 0"
proof -
  let ?new = "0x86000000 :: addr"
  obtain s ys where s: "uvmalloc root_page 0 0x800 small = Ok 0x800 s"
    "space_step small root_page {} free_pages s {..<1} ys" "umem (mem s) root_page 0 = replicate 4096 0"
    using uvmalloc_small by blast
  have ok: "space_ok s root_page {..<1} ys" and own: "owned s root_page {..<1} ys = insert root_page (set free_pages)"
    and off: "same_off (insert root_page (set free_pages)) (mem small) (mem s)" and ks: "kstep small s"
    using s(2) zero_table [OF zero_root_small, of 2]
    by (auto simp: space_step_def owned_def root_page_def small_aligned)
  note D = space_okD [OF ok]
  have al: "aligned ?new" by (simp add: aligned_def PGSIZE_def)
  have fresh: "?new \<notin> insert root_page (set free_pages)" by (simp add: root_page_def free_pages_def)
  have far: "region ?new 4096 \<inter> region p 4096 = {}" if "p \<in> insert root_page (set free_pages)" for p
    using that fresh al by (intro page_disjoint) (auto simp: root_page_def free_pages_def small_aligned)
  have "mem small a = 0" if "a \<in> region ?new 4096" for a
    using that far store64_outside_page by (simp add: small_def free_pages_def disjoint_iff)
  then have "zero_page (mem s) ?new" using off far by (auto simp: zero_page_def same_off_def disjoint_iff)
  note z = zero_table [OF this al, of 2]
  have phys: "phys_page s ?new"
    using kstepD [OF ks] by (simp add: phys_page_def small_def al PHYSTOP_def KERNBASE_def)
  have ysn: "?new \<notin> set ys" using own fresh unfolding owned_def by blast
  have "space_ok s ?new {} ys"
    using z D(2) phys ysn unfolding space_ok_def pt_ok_def by auto
  moreover have "foreign s root_page {..<pages_of 0x800} (owned s ?new {} ys)"
    using D(3,4,7,8) z own fresh unfolding foreign_def owned_def by (auto simp: pages_of_def)
  moreover have "\<forall>j<pages_of 0x800. pte_of (mem s) root_page (vpage j) AND PTE_V \<noteq> 0
           \<and> PTE_FLAGS (pte_of (mem s) root_page (vpage j)) \<noteq> PTE_V \<and> upage (mem s) root_page j < PHYSTOP"
    using D(5,9,10) D(6) [of 0] by (auto simp: pages_of_def phys_page_def)
  moreover have "(0x800 :: u64) \<le> TRAPFRAME" by (simp add: TRAPFRAME_def TRAMPOLINE_def MAXVA_def PGSIZE_def)
  ultimately show ?thesis
    using uvmcopy_copies [of s ?new ys "0x800" root_page] s by (fastforce simp: pages_of_def)
qed

text \<open>
  \<^bold>\<open>C25\<close> \<^verbatim>\<open>uvmfree\<close> on an address space without mappings above the user part returns every page of it to the free
  list: the user pages, the tables of all three levels and the root. It does not panic.
\<close>

theorem uvmfree_frees_all:
  assumes "space_ok s pt {..<pages_of sz} xs" and "sz \<le> TRAPFRAME" and "no_top (mem s) pt"
  shows "\<exists>t ys. uvmfree pt sz s = Ok () t \<and> kmem_ok t ys
     \<and> set ys = set xs \<union> tp 2 (mem s) pt \<union> upage (mem s) pt ` {..<pages_of sz}"
  using uvmfree_spec [OF assms] by (auto simp: owned_def)

lemma uvmfree_frees_all_witness:
  "\<exists>s t ys. uvmalloc root_page 0 0x800 small = Ok 0x800 s \<and> uvmfree root_page 0x800 s = Ok () t
     \<and> kmem_ok t ys \<and> set ys = insert root_page (set free_pages)"
proof -
  obtain s ys where s: "uvmalloc root_page 0 0x800 small = Ok 0x800 s"
    "space_step small root_page {} free_pages s {..<1} ys"
    using uvmalloc_small by blast
  have own: "owned s root_page {..<1} ys = insert root_page (set free_pages)"
    using s(2) zero_table [OF zero_root_small, of 2]
    by (auto simp: space_step_def owned_def root_page_def small_aligned)
  have "space_ok s root_page {..<pages_of 0x800} ys" using s(2) by (simp add: space_step_def pages_of_def)
  moreover have "(0x800 :: u64) \<le> TRAPFRAME" by (simp add: TRAPFRAME_def TRAMPOLINE_def MAXVA_def PGSIZE_def)
  moreover have "no_top (mem s) root_page" using s(2) no_top_small by (simp add: space_step_def no_top_def)
  ultimately show ?thesis
    using uvmfree_frees_all [of s root_page "0x800" ys] s(1) own by (auto simp: owned_def pages_of_def)
qed

text \<open>
  \<^bold>\<open>C26\<close> When every byte of the range is accessible to the user, \<^verbatim>\<open>copyout\<close> succeeds, \<^verbatim>\<open>copyin\<close> reads the same bytes
  back and no other byte the user sees changes, even when the range crosses pages that are not adjacent
  in physical memory; otherwise \<^verbatim>\<open>copyout\<close> returns -1.
\<close>

theorem copyout_copyin_roundtrip:
  assumes "space_ok s pt K xs" and "top_kernel (mem s) pt" and "length bs < 2 ^ 64"
  shows "if \<forall>i<length bs. acc (mem s) pt (va + of_nat i)
     then \<exists>t. copyout pt va bs (of_nat (length bs)) s = Ok 0 t
        \<and> copyin pt va (of_nat (length bs)) t = Ok (0, bs) t
        \<and> (\<forall>a. acc (mem s) pt a \<and> a \<notin> region va (length bs) \<longrightarrow> ubyte (mem t) pt a = ubyte (mem s) pt a)
     else \<exists>t. copyout pt va bs (of_nat (length bs)) s = Ok (-1) t"
proof -
  have r: "user_ready pt K xs s" using assms(1,2) by (simp add: user_ready_def)
  note put = uc.put_all [OF r assms(3), of va] and bad = uc.put_some [OF r assms(3), of va]
    and pg = uc.put_get [OF r assms(3), of va]
  show ?thesis
  proof (cases "\<forall>i<length bs. acc (mem s) pt (va + of_nat i)")
    case True
    with put pg show ?thesis by (fastforce simp: put_user_def get_user_def)
  next
    case False
    with bad show ?thesis by (auto simp: put_user_def)
  qed
qed

lemma acc_small:
  assumes "space_ok s root_page {..<1} ys" and "PTE_FLAGS (pte_of (mem s) root_page (vpage 0)) = user_flags"
    and "unat va < 4096"
  shows "acc (mem s) root_page va"
proof -
  note D = space_okD [OF assms(1)]
  have lt: "va < MAXVA" using assms(3) by (simp add: word_less_nat_alt MAXVA_def)
  have "PGROUNDDOWN va = 0" using assms(3) by (simp add: word_unat_eq_iff unat_PGROUNDDOWN)
  then have e: "pte_of (mem s) root_page va = pte_of (mem s) root_page (vpage 0)"
    using pte_of_page [OF lt, of "mem s" root_page] by simp
  have "bit (PTE_FLAGS (pte_of (mem s) root_page (vpage 0))) 4" "bit (PTE_FLAGS (pte_of (mem s) root_page (vpage 0))) 0"
    unfolding assms(2) by (simp_all add: user_flags_def pte_flag_defs bit_simps)
  then have "bit (pte_of (mem s) root_page va AND PTE_U) 4" "bit (pte_of (mem s) root_page va AND PTE_V) 0"
    unfolding e by (simp_all add: PTE_FLAGS_bits bit_simps pte_flag_defs)
  moreover have "PTE2PA (pte_of (mem s) root_page va) \<noteq> 0"
    using D(9) [of 0] D(2) phys_page_not_0 unfolding e by (auto simp: upage_def kmem_ok_def)
  ultimately show ?thesis using lt by (auto simp: acc_def)
qed

lemma user_page_small:
  "\<exists>s ys. uvmalloc root_page 0 0x800 small = Ok 0x800 s \<and> space_ok s root_page {..<1} ys \<and> top_kernel (mem s) root_page
     \<and> (\<forall>va. unat va < 4096 \<longrightarrow> acc (mem s) root_page va)"
proof -
  obtain s ys where s: "uvmalloc root_page 0 0x800 small = Ok 0x800 s"
    "space_step small root_page {} free_pages s {..<1} ys" "PTE_FLAGS (pte_of (mem s) root_page (vpage 0)) = user_flags"
    using uvmalloc_small by blast
  have ok: "space_ok s root_page {..<1} ys" using s(2) by (simp add: space_step_def)
  have "\<not> acc (mem s) root_page va" if "TRAPFRAME \<le> va" for va
    using s(2) that zero_table [OF zero_root_small, of 2] MAXVA_SV39TOP [of va]
    by (auto simp: acc_def space_step_def root_page_def small_aligned)
  then have "top_kernel (mem s) root_page" by (simp add: top_kernel_def)
  then show ?thesis using s(1) ok acc_small [OF ok s(3)] by blast
qed

text \<open>The invariants read only the memory, the free list, the end of the kernel and the locks held.\<close>

lemma space_ok_view:
  fixes s :: "'y kalloc_state_scheme" and t :: "'z kalloc_state_scheme"
  assumes "mem t = mem s" and "freelist t = freelist s" and "k_end t = k_end s" and "held t = held s"
  shows "space_ok t pt K xs = space_ok s pt K xs"
proof -
  have p: "phys_page t = phys_page s" by (simp add: phys_page_def assms fun_eq_iff)
  have "kmem_ok t xs = kmem_ok s xs" by (simp add: kmem_ok_def p assms)
  then show ?thesis by (simp add: space_ok_def pt_ok_def p assms)
qed

lemma copyout_copyin_roundtrip_witness:
  "\<exists>s t. uvmalloc root_page 0 0x800 small = Ok 0x800 s \<and> copyout root_page 5 [1, 2, 3] 3 s = Ok 0 t
     \<and> copyin root_page 5 3 t = Ok (0, [1, 2, 3]) t"
proof -
  obtain s ys where s: "uvmalloc root_page 0 0x800 small = Ok 0x800 s" "space_ok s root_page {..<1} ys"
    "top_kernel (mem s) root_page" "\<forall>va. unat va < 4096 \<longrightarrow> acc (mem s) root_page va"
    using user_page_small by blast
  have acc: "acc (mem s) root_page (5 + of_nat i)" if "i < 3" for i
    using that s(4) by (simp add: unat_word_ariths unat_of_nat)
  show ?thesis
    using copyout_copyin_roundtrip [OF s(2,3), of "[1, 2, 3]" 5] acc s(1) by fastforce
qed

text \<open>
  \<^bold>\<open>C27\<close> \<^verbatim>\<open>copyinstr\<close>, which works page by page, returns what a byte-wise reader returns: the user's bytes up to and
  including the first NUL, with 0; or -1 when an inaccessible address or the limit comes first.
\<close>

theorem copyinstr_reference:
  assumes "wf_tbl 2 (mem s) pt"
  shows "copyinstr pt srcva mx s = Ok (ustr (mem s) pt srcva (unat mx)) s"
  by (rule copyinstr_spec [OF assms])

lemma copyinstr_reference_witness:
  "copyinstr root_page 5 100 small = Ok (-1, []) small"
proof -
  have z: "wf_tbl 2 (mem small) root_page" "\<forall>va. pte_of (mem small) root_page va = 0"
    using zero_table [OF zero_root_small, of 2] by (simp_all add: root_page_def small_aligned)
  have "ustr (mem small) root_page 5 (Suc n) = (-1, [])" for n using z(2) by (simp add: acc_def)
  from this [of 99] show ?thesis using copyinstr_reference [OF z(1), of 5 100] by simp
qed

text \<open>
  \<^bold>\<open>C4\<close> Isolation: growing, shrinking or writing into one address space leaves every other address space, whose
  tables and pages are disjoint from the pages of the first and the free list, exactly as it was: the same
  page-table entries and the same content of every page.
\<close>

theorem address_spaces_isolated:
  assumes "space_ok s pt {..<pages_of sz} xs" and "top_kernel (mem s) pt" and "sz \<le> TRAPFRAME" and "newsz \<le> TRAPFRAME"
    and "unat len \<le> length bs" and "foreign s pt' K' (owned s pt {..<pages_of sz} xs)"
    and "uvmalloc pt sz newsz s = Ok r t \<or> uvmdealloc pt sz newsz s = Ok r t \<or> copyout pt va bs len s = Ok q t"
  shows "(\<forall>a. pte_of (mem t) pt' a = pte_of (mem s) pt' a) \<and> (\<forall>k\<in>K'. umem (mem t) pt' k = umem (mem s) pt' k)"
proof -
  let ?K = "{..<pages_of sz}"
  have kept: ?thesis if "same_off (owned s pt ?K xs) (mem s) (mem t)"
    using foreign_kept [OF assms(6) that] owned_aligned [OF assms(1)] by blast
  from assms(7) consider "uvmalloc pt sz newsz s = Ok r t" | "uvmdealloc pt sz newsz s = Ok r t" | "copyout pt va bs len s = Ok q t"
    by blast
  then show ?thesis
  proof cases
    case 1
    show ?thesis
    proof (cases "newsz < sz")
      case True
      with 1 show ?thesis by (simp add: uvmalloc_def)
    next
      case False
      note po = pages_of_facts [OF assms(3)]
      have "uvmalloc_loop pt (vpage (pages_of sz)) (vpage (pages_of sz)) newsz s = Ok r t"
        using 1 False po(1) by (simp add: uvmalloc_def)
      with uvmalloc_loop_spec [OF assms(1) order_refl po(2) assms(4)] show ?thesis
        by (intro kept) (auto simp: space_step_def)
    qed
  next
    case 2
    with uvmdealloc_spec [OF assms(1,3), of newsz] show ?thesis by (intro kept) (auto simp: space_step_def)
  next
    case 3
    with copyout_spec [OF assms(1,2,5), of va] have "same_off (upage (mem s) pt ` ?K) (mem s) (mem t)" by auto
    then show ?thesis by (intro kept, elim same_off_mono) (auto simp: owned_def)
  qed
qed

lemma address_spaces_isolated_witness:
  "\<exists>t. copyout root_page 5 [1, 2, 3] 3 small = Ok (-1) t \<and> pte_of (mem t) 0x86000000 0 = 0"
proof -
  let ?new = "0x86000000 :: addr"
  have al: "aligned ?new" by (simp add: aligned_def PGSIZE_def)
  have "region ?new 4096 \<inter> region p 4096 = {}" if "p \<in> set free_pages" for p
    using that al by (intro page_disjoint) (auto simp: free_pages_def small_aligned)
  then have "zero_page (mem small) ?new"
    using store64_outside_page by (simp add: zero_page_def small_def free_pages_def disjoint_iff)
  note z = zero_table [OF this al, of 2]
  have r: "tp 2 (mem small) root_page = {root_page}" "\<forall>va. pte_of (mem small) root_page va = 0"
    using zero_table [OF zero_root_small, of 2] by (simp_all add: root_page_def small_aligned)
  have ok: "space_ok small root_page {..<pages_of 0} free_pages" using space_ok_small by (simp add: pages_of_def)
  have fo: "foreign small ?new {} (owned small root_page {..<pages_of 0} free_pages)"
    using z r by (simp add: foreign_def owned_def pages_of_def root_page_def free_pages_def)
  have "\<not> acc (mem small) root_page 5" using r(2) by (simp add: acc_def)
  then have "acc_prefix (mem small) root_page 5 (Suc n) = 0" for n by simp
  from this [of 2] have "acc_prefix (mem small) root_page 5 3 = 0" by (simp del: acc_prefix.simps)
  then obtain t where t: "copyout root_page 5 [1, 2, 3] 3 small = Ok (-1) t"
    using copyout_spec [OF ok top_kernel_small, of 3 "[1, 2, 3]" 5] by auto
  moreover have "(0 :: u64) \<le> TRAPFRAME" by simp
  ultimately have "\<forall>a. pte_of (mem t) ?new a = pte_of (mem small) ?new a"
    using address_spaces_isolated [OF ok top_kernel_small _ _ _ fo, of 0 3 "[1, 2, 3]" 0 t 5 "-1"] by simp
  then show ?thesis using t z by auto
qed

end
