(* ===== verification/Vm_Frame.thy ===== *)
theory Vm_Frame
  imports Vm_Props
begin

text \<open>
  The allocator and the page-table code change nothing of the kernel state but memory and the free list, on every
  path and from any state. The components above rest on this for their own part of the state.
\<close>

interpretation km: step_rel kstep
  by unfold_locales (auto intro: kstep_trans)

lemma kstep_collapse [simp]:
  "kstep s (t\<lparr>mem := m\<rparr>) = kstep s t" "kstep s (t\<lparr>freelist := f\<rparr>) = kstep s t"
  by (cases s; cases t; simp add: kstep_def)+

lemma kstep_start [simp]: "kstep (s\<lparr>mem := m\<rparr>) t = kstep s t"
  by (cases s; cases t) (simp add: kstep_def)

lemma kalloc_frame [frame]: "within kstep s (kalloc s)"
  by (simp add: kalloc_def acquire_def release_def Let_def)

lemma kfree_frame [frame]: "within kstep s (kfree pa s)"
  by (simp add: kfree_def acquire_def release_def Let_def)

lemma within_mem [simp]: "within kstep (s\<lparr>mem := m\<rparr>) r = within kstep s r"
  by (cases r) simp_all

lemma walk_loop_frame [frame]: "within kstep s (walk_loop l pt va alloc s)" for s :: "'z kalloc_state_scheme"
proof (induction l arbitrary: pt s alloc)
  case (Suc l)
  have more: "within kstep s (walk_loop l q va b (s\<lparr>mem := m\<rparr>))" for q m b and s :: "'z kalloc_state_scheme"
    using Suc [where s = "s\<lparr>mem := m\<rparr>"] by simp
  show ?case by (auto simp: Let_def Suc intro!: km.within_rules frame more)
qed simp

lemma walk_frame [frame]: "within kstep s (walk pt va alloc s)"
  by (simp add: walk_def frame)

lemma walkaddr_frame [frame]: "within kstep s (walkaddr pt va s)"
  by (auto simp: walkaddr_def intro!: km.within_rules frame)

lemma mappages_loop_frame [frame]: "within kstep s (mappages_loop pt a l pa perm s)"
proof (induction pt a l pa perm s rule: mappages_loop.induct)
  case (1 pt a l pa perm s)
  show ?case by (subst mappages_loop.simps, intro km.within_rules frame) (use 1 in auto)
qed

lemma mappages_frame [frame]: "within kstep s (mappages pt va sz pa perm s)"
  by (simp add: mappages_def frame)

lemmas mappages_mem_frame [frame] = mappages_frame [of "s\<lparr>mem := m\<rparr>" for s m, simplified within_mem]

lemma uvmunmap_loop_frame [frame]: "within kstep s (uvmunmap_loop pt a b d s)"
proof (induction pt a b d s rule: uvmunmap_loop.induct)
  case (1 pt a b d s)
  show ?case by (subst uvmunmap_loop.simps, intro km.within_rules frame) (use 1 in auto)
qed

lemma uvmunmap_frame [frame]: "within kstep s (uvmunmap pt va n d s)"
  by (simp add: uvmunmap_def frame)

lemma uvmcreate_frame [frame]: "within kstep s (uvmcreate s)"
  by (auto simp: uvmcreate_def intro!: km.within_rules frame)

lemma uvminit_frame [frame]: "within kstep s (uvminit pt src sz s)"
  unfolding uvminit_def by (intro km.within_rules frame) (auto intro!: km.within_rules frame)

lemma uvmdealloc_frame [frame]: "within kstep s (uvmdealloc pt a b s)"
  by (auto simp: uvmdealloc_def Let_def intro!: km.within_rules frame)

lemma uvmalloc_loop_frame [frame]: "within kstep s (uvmalloc_loop pt a old new s)"
proof (induction pt a old new s rule: uvmalloc_loop.induct)
  case (1 pt a old new s)
  show ?case by (subst uvmalloc_loop.simps, intro km.within_rules frame) (use 1 in auto)
qed

lemma uvmalloc_frame [frame]: "within kstep s (uvmalloc pt old new s)"
  by (simp add: uvmalloc_def frame)

lemma freewalk_frame [frame]: "within kstep s (freewalk d pt s)"
proof (induction d arbitrary: pt s)
  case (Suc d)
  show ?case by (simp only: freewalk.simps, intro km.within_rules frame Suc) auto
qed simp

lemma uvmfree_frame [frame]: "within kstep s (uvmfree pt sz s)"
  by (auto simp: uvmfree_def intro!: km.within_rules frame)

lemma uvmcopy_loop_frame [frame]: "within kstep s (uvmcopy_loop old new i sz s)"
proof (induction old new i sz s rule: uvmcopy_loop.induct)
  case (1 old new i sz s)
  show ?case by (subst uvmcopy_loop.simps, intro km.within_rules frame) (use 1 in auto)
qed

lemma uvmcopy_frame [frame]: "within kstep s (uvmcopy old new sz s)"
  by (simp add: uvmcopy_def frame)

lemma uvmclear_frame [frame]: "within kstep s (uvmclear pt va s)"
  by (auto simp: uvmclear_def Let_def intro!: km.within_rules frame)

lemma copyout_frame [frame]: "within kstep s (copyout pt va src len s)"
proof (induction pt va src len s rule: copyout.induct)
  case (1 pt va src len s)
  show ?case by (subst copyout.simps, intro km.within_rules frame) (use 1 in auto)
qed

lemma copyin_frame [frame]: "within kstep s (copyin pt va len s)"
proof (induction pt va len s rule: copyin.induct)
  case (1 pt va len s)
  show ?case by (subst copyin.simps, intro km.within_rules frame) (use 1 in auto)
qed

end
