(* ===== verification/Proc.thy ===== *)
theory Proc
  imports Vm_Frame
begin

text \<open>
  Processes and scheduling (\<^verbatim>\<open>kernel/proc.c\<close>): the process table, allocation and release of slots,
  sleeping and waking, waiting for children, signals, tracing and priorities, and the four scheduling
  policies. \<^verbatim>\<open>fork\<close>, \<^verbatim>\<open>exit\<close>, \<^verbatim>\<open>userinit\<close> and \<^verbatim>\<open>forkret\<close>, which reach into the file system, are in theory
  Proc_Files.

  Process \<^verbatim>\<open>p\<close> is named by its index in the table \<^verbatim>\<open>proc\<close>, a \<^verbatim>\<open>struct proc *\<close> is a \<^typ>\<open>nat option\<close>. Open files
  and the current directory are indices into \<^verbatim>\<open>ftable\<close> and \<^verbatim>\<open>itable\<close>.
\<close>

section \<open>State\<close>

datatype procstate = UNUSED | USED | SLEEPING | RUNNABLE | RUNNING | ZOMBIE

record kcontext =
  ctx_ra :: u64
  ctx_sp :: u64
  ctx_s :: "u64 list"

record proc =
  p_state :: procstate
  p_chan :: chan
  p_killed :: i32
  p_xstate :: i32
  p_pid :: i32
  p_maskid :: i32
  p_ctime :: i32
  p_ttime :: i32
  p_stime :: i32
  p_retime :: i32
  p_rutime :: i32
  p_average_bursttime :: i32
  p_queue_location :: u64
  p_priority :: i32
  p_run_time_ratio :: i32
  p_parent :: "nat option"
  p_kstack :: u64
  p_sz :: u64
  p_pagetable :: addr
  p_trapframe :: addr
  p_context :: kcontext
  p_ofile :: "nat option list"
  p_cwd :: "nat option"
  p_name :: "u8 list"

text \<open>
  \<^verbatim>\<open>curproc\<close> is \<^verbatim>\<open>mycpu()->proc\<close>, the process this hart runs. \<^verbatim>\<open>k_proc\<close> is the address of the table (it is
  visible where \<^verbatim>\<open>wait_stat\<close> copies raw bytes of a \<^verbatim>\<open>struct proc\<close>), \<^verbatim>\<open>k_forkret\<close> that of \<^verbatim>\<open>forkret\<close>; both are
  chosen by the linker.
\<close>

record proc_state = vm_state +
  procs :: "proc list"
  nextpid :: i32
  queue_counter :: u64
  ticks :: u32
  initproc :: "nat option"
  curproc :: "nat option"
  k_proc :: addr
  k_forkret :: addr

abbreviation pr :: "'z proc_state_scheme \<Rightarrow> nat \<Rightarrow> proc" where
  "pr s i \<equiv> procs s ! i"

definition upd_proc :: "nat \<Rightarrow> (proc \<Rightarrow> proc) \<Rightarrow> 'z proc_state_scheme \<Rightarrow> 'z proc_state_scheme" where
  "upd_proc i f s = s\<lparr>procs := (procs s)[i := f (procs s ! i)]\<rparr>"

text \<open>
  \<^verbatim>\<open>myproc()\<close> reads the current process between \<^verbatim>\<open>push_off\<close> and \<^verbatim>\<open>pop_off\<close>, which restore the interrupt state.
  A caller that dereferences a null result takes a page fault in the kernel, where \<^verbatim>\<open>kerneltrap\<close> panics.
\<close>

definition myproc :: "'z proc_state_scheme \<Rightarrow> nat option" where
  "myproc s = curproc s"

definition with_proc :: "'z proc_state_scheme \<Rightarrow> (nat \<Rightarrow> ('a, 'z proc_state_scheme) res) \<Rightarrow> ('a, 'z proc_state_scheme) res" where
  "with_proc s f = (case myproc s of None \<Rightarrow> Panic ''kerneltrap'' | Some p \<Rightarrow> f p)"

section \<open>Allocation and release of process slots\<close>

definition procinit :: "'z proc_state_scheme \<Rightarrow> (unit, 'z proc_state_scheme) res" where
  "procinit s = kfor 0 NPROC (\<lambda>i s. Ok () (upd_proc i (\<lambda>p. p\<lparr>p_kstack := KSTACK i\<rparr>) s)) s"

definition allocpid :: "'z proc_state_scheme \<Rightarrow> (i32, 'z proc_state_scheme) res" where
  "allocpid s =
     kbind (acquire Pid_lock s) (\<lambda>_ s.
     let pid = nextpid s; s = s\<lparr>nextpid := nextpid s + 1\<rparr> in
     kbind (release Pid_lock s) (\<lambda>_ s. Ok pid s))"

definition alloc_queue_counter :: "'z proc_state_scheme \<Rightarrow> (u64, 'z proc_state_scheme) res" where
  "alloc_queue_counter s =
     kbind (acquire Queue_lock s) (\<lambda>_ s.
     let next_queue_counter = queue_counter s; s = s\<lparr>queue_counter := queue_counter s + 1\<rparr> in
     kbind (release Queue_lock s) (\<lambda>_ s. Ok next_queue_counter s))"

text \<open>A division by zero yields -1 on RISC-V and does not trap.\<close>

definition div32 :: "i32 \<Rightarrow> i32 \<Rightarrow> i32" where
  "div32 a b = (if b = 0 then -1 else sdiv32 a b)"

definition ratio :: "nat \<Rightarrow> 'z proc_state_scheme \<Rightarrow> (i32, 'z proc_state_scheme) res" where
  "ratio i s =
     kbind (acquire (Proc_lock i) s) (\<lambda>_ s.
     let r = div32 (p_rutime (pr s i) * p_priority (pr s i)) (p_rutime (pr s i) + p_stime (pr s i)) in
     kbind (release (Proc_lock i) s) (\<lambda>_ s. Ok r s))"

definition proc_pagetable :: "nat \<Rightarrow> 'z proc_state_scheme \<Rightarrow> (addr, 'z proc_state_scheme) res" where
  "proc_pagetable p s =
     kbind (uvmcreate s) (\<lambda>pagetable s.
     if pagetable = 0 then Ok 0 s
     else kbind (mappages pagetable TRAMPOLINE PGSIZE (k_trampoline s) (ucast (PTE_R OR PTE_X)) s) (\<lambda>r s.
     if r < 0 then kbind (uvmfree pagetable 0 s) (\<lambda>_ s. Ok 0 s)
     else kbind (mappages pagetable TRAPFRAME PGSIZE (p_trapframe (pr s p)) (ucast (PTE_R OR PTE_W)) s) (\<lambda>r s.
     if r < 0 then
       kbind (uvmunmap pagetable TRAMPOLINE 1 False s) (\<lambda>_ s.
       kbind (uvmfree pagetable 0 s) (\<lambda>_ s. Ok 0 s))
     else Ok pagetable s)))"

definition proc_freepagetable :: "addr \<Rightarrow> u64 \<Rightarrow> 'z kalloc_state_scheme \<Rightarrow> (unit, 'z kalloc_state_scheme) res" where
  "proc_freepagetable pagetable sz s =
     kbind (uvmunmap pagetable TRAMPOLINE 1 False s) (\<lambda>_ s.
     kbind (uvmunmap pagetable TRAPFRAME 1 False s) (\<lambda>_ s.
     uvmfree pagetable sz s))"

definition freeproc :: "nat \<Rightarrow> 'z proc_state_scheme \<Rightarrow> (unit, 'z proc_state_scheme) res" where
  "freeproc p s =
     kbind (if p_trapframe (pr s p) \<noteq> 0 then kfree (p_trapframe (pr s p)) s else Ok () s) (\<lambda>_ s.
     let s = upd_proc p (\<lambda>x. x\<lparr>p_trapframe := 0\<rparr>) s in
     kbind (if p_pagetable (pr s p) \<noteq> 0 then proc_freepagetable (p_pagetable (pr s p)) (p_sz (pr s p)) s
            else Ok () s) (\<lambda>_ s.
     Ok () (upd_proc p (\<lambda>x. x\<lparr>p_pagetable := 0, p_sz := 0, p_pid := 0, p_parent := None,
       p_name := (p_name x)[0 := 0], p_chan := Ch_none, p_killed := 0, p_xstate := 0,
       p_state := UNUSED, p_maskid := 0\<rparr>) s)))"

definition read_ticks :: "'z proc_state_scheme \<Rightarrow> (u32, 'z proc_state_scheme) res" where
  "read_ticks s =
     kbind (acquire Tickslock s) (\<lambda>_ s.
     let t = ticks s in
     kbind (release Tickslock s) (\<lambda>_ s. Ok t s))"

definition allocproc_find :: "'z proc_state_scheme \<Rightarrow> (nat option, 'z proc_state_scheme) res" where
  "allocproc_find s = kscan 0 NPROC (\<lambda>p s.
     kbind (acquire (Proc_lock p) s) (\<lambda>_ s.
     if p_state (pr s p) = UNUSED then Ok (Some p) s
     else kbind (release (Proc_lock p) s) (\<lambda>_ s. Ok None s))) s"

definition allocproc_init :: "nat \<Rightarrow> 'z proc_state_scheme \<Rightarrow> (unit, 'z proc_state_scheme) res" where
  "allocproc_init p s =
     kbind (allocpid s) (\<lambda>pid s.
     let s = upd_proc p (\<lambda>x. x\<lparr>p_pid := pid, p_state := USED\<rparr>) s in
     kbind (read_ticks s) (\<lambda>t s.
     Ok () (upd_proc p (\<lambda>x. x\<lparr>p_ctime := t, p_stime := 0, p_retime := 0, p_rutime := 0, p_ttime := 0,
       p_average_bursttime := of_nat (QUANTUM * 100), p_priority := 5\<rparr>) s)))"

definition allocproc_fail :: "nat \<Rightarrow> 'z proc_state_scheme \<Rightarrow> (nat option, 'z proc_state_scheme) res" where
  "allocproc_fail p s =
     kbind (freeproc p s) (\<lambda>_ s.
     kbind (release (Proc_lock p) s) (\<lambda>_ s. Ok None s))"

definition allocproc :: "'z proc_state_scheme \<Rightarrow> (nat option, 'z proc_state_scheme) res" where
  "allocproc s =
     kbind (allocproc_find s) (\<lambda>found s.
     case found of None \<Rightarrow> Ok None s
     | Some p \<Rightarrow>
       kbind (allocproc_init p s) (\<lambda>_ s.
       kbind (kalloc s) (\<lambda>tf s.
       let s = upd_proc p (\<lambda>x. x\<lparr>p_trapframe := tf\<rparr>) s in
       if tf = 0 then allocproc_fail p s
       else kbind (proc_pagetable p s) (\<lambda>pt s.
       let s = upd_proc p (\<lambda>x. x\<lparr>p_pagetable := pt\<rparr>) s in
       if pt = 0 then allocproc_fail p s
       else Ok (Some p) (upd_proc p (\<lambda>x. x\<lparr>p_context :=
         \<lparr>ctx_ra = k_forkret s, ctx_sp = p_kstack x + PGSIZE, ctx_s = replicate 12 0\<rparr>\<rparr>) s)))))"

text \<open>
  \<^verbatim>\<open>growproc\<close> computes with the 32-bit unsigned \<^verbatim>\<open>uint sz\<close>.
\<close>

definition growproc :: "i32 \<Rightarrow> 'z proc_state_scheme \<Rightarrow> (int, 'z proc_state_scheme) res" where
  "growproc n s = with_proc s (\<lambda>p.
     let sz = ucast (p_sz (pr s p)) :: u32; pt = p_pagetable (pr s p) in
     if sint n > 0 then
       kbind (uvmalloc pt (ucast sz) (ucast (sz + n)) s) (\<lambda>r s.
       let sz = ucast r :: u32 in
       if sz = 0 then Ok (-1) s
       else Ok 0 (upd_proc p (\<lambda>x. x\<lparr>p_sz := ucast sz\<rparr>) s))
     else if sint n < 0 then
       kbind (uvmdealloc pt (ucast sz) (ucast (sz + n)) s) (\<lambda>r s.
       Ok 0 (upd_proc p (\<lambda>x. x\<lparr>p_sz := ucast (ucast r :: u32)\<rparr>) s))
     else Ok 0 (upd_proc p (\<lambda>x. x\<lparr>p_sz := ucast sz\<rparr>) s))"

section \<open>Giving up the CPU\<close>

text \<open>
  \<^verbatim>\<open>sched\<close> checks its preconditions and switches to the scheduler's context; the result is \<^term>\<open>Sleeps\<close> with
  the state at the switch. The hart holds \<^verbatim>\<open>noff\<close> = 1 locks, so interrupts are off (theory Spinlock). What a
  process does once it is switched back to is a definition of its own: \<^verbatim>\<open>yield_return\<close>, \<^verbatim>\<open>sleep_return\<close>.
\<close>

definition sched :: "'z proc_state_scheme \<Rightarrow> ('a, 'z proc_state_scheme) res" where
  "sched s = with_proc s (\<lambda>p.
     if Proc_lock p \<notin> set (held s) then Panic ''sched p->lock''
     else if length (held s) \<noteq> 1 then Panic ''sched locks''
     else if p_state (pr s p) = RUNNING then Panic ''sched running''
     else Sleeps (p_chan (pr s p)) s)"

definition yield :: "'z proc_state_scheme \<Rightarrow> (unit, 'z proc_state_scheme) res" where
  "yield s = with_proc s (\<lambda>p.
     kbind (acquire (Proc_lock p) s) (\<lambda>_ s.
     kbind (alloc_queue_counter s) (\<lambda>q s.
     sched (upd_proc p (\<lambda>x. x\<lparr>p_queue_location := q, p_state := RUNNABLE\<rparr>) s))))"

definition yield_return :: "'z proc_state_scheme \<Rightarrow> (unit, 'z proc_state_scheme) res" where
  "yield_return s = with_proc s (\<lambda>p. release (Proc_lock p) s)"

definition sleep :: "chan \<Rightarrow> lockid \<Rightarrow> 'z proc_state_scheme \<Rightarrow> ('a, 'z proc_state_scheme) res" where
  "sleep ch lk s = with_proc s (\<lambda>p.
     kbind (acquire (Proc_lock p) s) (\<lambda>_ s.
     kbind (release lk s) (\<lambda>_ s.
     sched (upd_proc p (\<lambda>x. x\<lparr>p_chan := ch, p_state := SLEEPING\<rparr>) s))))"

definition sleep_return :: "lockid \<Rightarrow> 'z proc_state_scheme \<Rightarrow> (unit, 'z proc_state_scheme) res" where
  "sleep_return lk s = with_proc s (\<lambda>p.
     let s = upd_proc p (\<lambda>x. x\<lparr>p_chan := Ch_none\<rparr>) s in
     kbind (release (Proc_lock p) s) (\<lambda>_ s. acquire lk s))"

section \<open>Waking, killing, tracing\<close>

definition wakeup :: "chan \<Rightarrow> 'z proc_state_scheme \<Rightarrow> (unit, 'z proc_state_scheme) res" where
  "wakeup ch s = kfor 0 NPROC (\<lambda>p s.
     if Some p \<noteq> myproc s then
       kbind (acquire (Proc_lock p) s) (\<lambda>_ s.
       kbind (if p_state (pr s p) = SLEEPING \<and> p_chan (pr s p) = ch
              then kbind (alloc_queue_counter s) (\<lambda>q s.
                Ok () (upd_proc p (\<lambda>x. x\<lparr>p_queue_location := q, p_state := RUNNABLE\<rparr>) s))
              else Ok () s) (\<lambda>_ s.
       release (Proc_lock p) s))
     else Ok () s) s"

definition found_or_fail :: "'a option \<Rightarrow> int" where
  "found_or_fail r = (case r of Some _ \<Rightarrow> 0 | None \<Rightarrow> -1)"

definition kill :: "i32 \<Rightarrow> 'z proc_state_scheme \<Rightarrow> (int, 'z proc_state_scheme) res" where
  "kill pid s = kbind (kscan 0 NPROC (\<lambda>p s.
     kbind (acquire (Proc_lock p) s) (\<lambda>_ s.
     if p_pid (pr s p) = pid then
       let s = upd_proc p (\<lambda>x. x\<lparr>p_killed := 1\<rparr>) s in
       kbind (if p_state (pr s p) = SLEEPING then
                let s = upd_proc p (\<lambda>x. x\<lparr>p_state := RUNNABLE\<rparr>) s in
                kbind (alloc_queue_counter s) (\<lambda>q s. Ok () (upd_proc p (\<lambda>x. x\<lparr>p_queue_location := q\<rparr>) s))
              else Ok () s) (\<lambda>_ s.
       kbind (release (Proc_lock p) s) (\<lambda>_ s. Ok (Some ()) s))
     else kbind (release (Proc_lock p) s) (\<lambda>_ s. Ok None s))) s) (\<lambda>r s. Ok (found_or_fail r) s)"

definition trace :: "i32 \<Rightarrow> i32 \<Rightarrow> 'z proc_state_scheme \<Rightarrow> (int, 'z proc_state_scheme) res" where
  "trace msk pid s = kbind (kscan 0 NPROC (\<lambda>p s.
     kbind (acquire (Proc_lock p) s) (\<lambda>_ s.
     if p_pid (pr s p) = pid then
       let s = upd_proc p (\<lambda>x. x\<lparr>p_maskid := msk\<rparr>) s in
       kbind (release (Proc_lock p) s) (\<lambda>_ s. Ok (Some ()) s)
     else kbind (release (Proc_lock p) s) (\<lambda>_ s. Ok None s))) s) (\<lambda>r s. Ok (found_or_fail r) s)"

definition set_priority :: "i32 \<Rightarrow> 'z proc_state_scheme \<Rightarrow> (int, 'z proc_state_scheme) res" where
  "set_priority priority s = with_proc s (\<lambda>p.
     kbind (acquire (Proc_lock p) s) (\<lambda>_ s.
     let s = upd_proc p (\<lambda>x. x\<lparr>p_priority := priority\<rparr>) s in
     kbind (release (Proc_lock p) s) (\<lambda>_ s. Ok 0 s)))"

section \<open>Children\<close>

definition reparent :: "nat \<Rightarrow> 'z proc_state_scheme \<Rightarrow> (unit, 'z proc_state_scheme) res" where
  "reparent p s = kfor 0 NPROC (\<lambda>pp s.
     if p_parent (pr s pp) = Some p then
       let s = upd_proc pp (\<lambda>x. x\<lparr>p_parent := initproc s\<rparr>) s in
       wakeup (case initproc s of Some i \<Rightarrow> Ch_proc i | None \<Rightarrow> Ch_none) s
     else Ok () s) s"

text \<open>
  One scan of \<^verbatim>\<open>wait\<close> over the table; \<^verbatim>\<open>report\<close> copies the result out. It leaves the loop with the value to
  return, or ends it with the flag \<^verbatim>\<open>havekids\<close>.
\<close>

fun wait_scan ::
  "(nat \<Rightarrow> 'z proc_state_scheme \<Rightarrow> (int, 'z proc_state_scheme) res) \<Rightarrow> nat \<Rightarrow> nat \<Rightarrow> nat \<Rightarrow> bool \<Rightarrow> 'z proc_state_scheme
     \<Rightarrow> (int option \<times> bool, 'z proc_state_scheme) res" where
  "wait_scan report p np 0 havekids s = Ok (None, havekids) s"
| "wait_scan report p np (Suc n) havekids s =
     (if p_parent (pr s np) = Some p then
        kbind (acquire (Proc_lock np) s) (\<lambda>_ s.
        if p_state (pr s np) = ZOMBIE then
          let pid = p_pid (pr s np) in
          kbind (report np s) (\<lambda>r s.
          if r < 0 then
            kbind (release (Proc_lock np) s) (\<lambda>_ s.
            kbind (release Wait_lock s) (\<lambda>_ s. Ok (Some (-1), True) s))
          else
            kbind (freeproc np s) (\<lambda>_ s.
            kbind (release (Proc_lock np) s) (\<lambda>_ s.
            kbind (release Wait_lock s) (\<lambda>_ s. Ok (Some (sint pid), True) s))))
        else kbind (release (Proc_lock np) s) (\<lambda>_ s. wait_scan report p (Suc np) n True s))
      else wait_scan report p (Suc np) n havekids s)"

text \<open>One turn of the \<^verbatim>\<open>for(;;)\<close> loop: it ends in \<^verbatim>\<open>sleep\<close> when there is a child, but no zombie, to wait for.\<close>

definition wait_turn ::
  "(nat \<Rightarrow> 'z proc_state_scheme \<Rightarrow> (int, 'z proc_state_scheme) res) \<Rightarrow> nat \<Rightarrow> 'z proc_state_scheme
     \<Rightarrow> (int, 'z proc_state_scheme) res" where
  "wait_turn report p s =
     kbind (wait_scan report p 0 NPROC False s) (\<lambda>(r, havekids) s.
     case r of Some v \<Rightarrow> Ok v s
     | None \<Rightarrow>
       if \<not> havekids \<or> p_killed (pr s p) \<noteq> 0 then kbind (release Wait_lock s) (\<lambda>_ s. Ok (-1) s)
       else sleep (Ch_proc p) Wait_lock s)"

definition wait_report :: "nat \<Rightarrow> u64 \<Rightarrow> nat \<Rightarrow> 'z proc_state_scheme \<Rightarrow> (int, 'z proc_state_scheme) res" where
  "wait_report p uaddr np s =
     (if uaddr \<noteq> 0 then copyout (p_pagetable (pr s p)) uaddr (to_le 4 (p_xstate (pr s np))) 4 s else Ok 0 s)"

definition wait :: "u64 \<Rightarrow> 'z proc_state_scheme \<Rightarrow> (int, 'z proc_state_scheme) res" where
  "wait uaddr s = with_proc s (\<lambda>p.
     kbind (acquire Wait_lock s) (\<lambda>_ s. wait_turn (wait_report p uaddr) p s))"

text \<open>
  \<^verbatim>\<open>wait_stat\<close> copies 24 bytes starting at each of the six \<^verbatim>\<open>int\<close> fields \<^verbatim>\<open>ctime\<close>, ..., \<^verbatim>\<open>average_bursttime\<close> of the
  child's \<^verbatim>\<open>struct proc\<close>. \<^verbatim>\<open>proc_tail\<close> lays the structure out from \<^verbatim>\<open>ctime\<close> to \<^verbatim>\<open>parent\<close> as the compiler does:
  \<^verbatim>\<open>ctime\<close> is at offset 56 of the structure, the 8-byte aligned \<^verbatim>\<open>queue_location\<close> at 80, \<^verbatim>\<open>parent\<close> at 96.
  \<^verbatim>\<open>SIZEOF_PROC\<close> is the size of a slot.
\<close>

definition SIZEOF_PROC :: u64 where "SIZEOF_PROC = 400"

definition proc_ptr :: "'z proc_state_scheme \<Rightarrow> nat option \<Rightarrow> u64" where
  "proc_ptr s p = (case p of None \<Rightarrow> 0 | Some i \<Rightarrow> k_proc s + SIZEOF_PROC * of_nat i)"

definition proc_tail :: "'z proc_state_scheme \<Rightarrow> nat \<Rightarrow> u8 list" where
  "proc_tail s i =
     to_le 4 (p_ctime (pr s i)) @ to_le 4 (p_ttime (pr s i)) @ to_le 4 (p_stime (pr s i))
     @ to_le 4 (p_retime (pr s i)) @ to_le 4 (p_rutime (pr s i)) @ to_le 4 (p_average_bursttime (pr s i))
     @ to_le 8 (p_queue_location (pr s i)) @ to_le 4 (p_priority (pr s i)) @ to_le 4 (p_run_time_ratio (pr s i))
     @ to_le 8 (proc_ptr s (p_parent (pr s i)))"

fun copy_fields :: "addr \<Rightarrow> u64 \<Rightarrow> u8 list \<Rightarrow> nat \<Rightarrow> nat \<Rightarrow> 'z kalloc_state_scheme \<Rightarrow> (int, 'z kalloc_state_scheme) res" where
  "copy_fields pt performance bs i 0 s = Ok 0 s"
| "copy_fields pt performance bs i (Suc n) s =
     kbind (copyout pt (performance + 4 * of_nat i) (take 24 (drop (4 * i) bs)) 24 s) (\<lambda>r s.
     if r < 0 then Ok (-1) s else copy_fields pt performance bs (Suc i) n s)"

definition stat_report :: "nat \<Rightarrow> u64 \<Rightarrow> u64 \<Rightarrow> nat \<Rightarrow> 'z proc_state_scheme \<Rightarrow> (int, 'z proc_state_scheme) res" where
  "stat_report p status performance np s =
     kbind (copy_fields (p_pagetable (pr s p)) performance (proc_tail s np) 0 6 s) (\<lambda>r s.
     if r < 0 then Ok (-1) s
     else if status \<noteq> 0 then copyout (p_pagetable (pr s p)) status (to_le 4 (p_xstate (pr s np))) 4 s
     else Ok 0 s)"

definition wait_stat :: "u64 \<Rightarrow> u64 \<Rightarrow> 'z proc_state_scheme \<Rightarrow> (int, 'z proc_state_scheme) res" where
  "wait_stat status performance s = with_proc s (\<lambda>p.
     kbind (acquire Wait_lock s) (\<lambda>_ s. wait_turn (stat_report p status performance) p s))"

section \<open>Copying to and from user or kernel addresses\<close>

text \<open>
  A kernel object on the other side is a byte list: \<^verbatim>\<open>either_copyout\<close> returns the bytes it stores at a kernel
  destination, \<^verbatim>\<open>either_copyin\<close> takes the content of a kernel source.
\<close>

definition either_copyout ::
  "bool \<Rightarrow> u64 \<Rightarrow> u8 list \<Rightarrow> u64 \<Rightarrow> 'z proc_state_scheme \<Rightarrow> (int \<times> u8 list, 'z proc_state_scheme) res" where
  "either_copyout user_dst dst src len s =
     (if user_dst then with_proc s (\<lambda>p.
        kbind (copyout (p_pagetable (pr s p)) dst src len s) (\<lambda>r s. Ok (r, []) s))
      else Ok (0, take (unat len) src) s)"

definition either_copyin ::
  "bool \<Rightarrow> u64 \<Rightarrow> u8 list \<Rightarrow> u64 \<Rightarrow> 'z proc_state_scheme \<Rightarrow> (int \<times> u8 list, 'z proc_state_scheme) res" where
  "either_copyin user_src src ksrc len s =
     (if user_src then with_proc s (\<lambda>p. copyin (p_pagetable (pr s p)) src len s)
      else Ok (0, take (unat len) ksrc) s)"

section \<open>The schedulers\<close>

text \<open>
  One turn of \<^verbatim>\<open>for(;;)\<close> under each policy. \<^verbatim>\<open>swtch p\<close> is what happens between the two halves of \<^verbatim>\<open>swtch()\<close>: the
  process runs, in user and in kernel mode, until it switches back, holding its own lock.
\<close>

type_synonym 's running = "nat \<Rightarrow> 's \<Rightarrow> (unit, 's) res"

definition run_default :: "'z proc_state_scheme running \<Rightarrow> nat \<Rightarrow> 'z proc_state_scheme \<Rightarrow> (unit, 'z proc_state_scheme) res" where
  "run_default swtch p s =
     (let s = (upd_proc p (\<lambda>x. x\<lparr>p_state := RUNNING\<rparr>) s)\<lparr>curproc := Some p\<rparr> in
      kbind (swtch p s) (\<lambda>_ s. Ok () (s\<lparr>curproc := None\<rparr>)))"

definition scheduler_default :: "'z proc_state_scheme running \<Rightarrow> 'z proc_state_scheme \<Rightarrow> (unit, 'z proc_state_scheme) res" where
  "scheduler_default swtch s = kfor 0 NPROC (\<lambda>p s.
     kbind (acquire (Proc_lock p) s) (\<lambda>_ s.
     kbind (if p_state (pr s p) = RUNNABLE then run_default swtch p s else Ok () s) (\<lambda>_ s.
     release (Proc_lock p) s))) s"

text \<open>The loop over the table that looks for the best runnable process; \<^verbatim>\<open>better p best\<close> compares with the best so far.\<close>

fun select_loop ::
  "(nat \<Rightarrow> nat option \<Rightarrow> 'z proc_state_scheme \<Rightarrow> bool) \<Rightarrow> nat \<Rightarrow> nat \<Rightarrow> nat option \<Rightarrow> 'z proc_state_scheme
     \<Rightarrow> (nat option, 'z proc_state_scheme) res" where
  "select_loop better p 0 best s = Ok best s"
| "select_loop better p (Suc n) best s =
     kbind (acquire (Proc_lock p) s) (\<lambda>_ s.
     let best = (if p_state (pr s p) = RUNNABLE \<and> better p best s then Some p else best) in
     kbind (release (Proc_lock p) s) (\<lambda>_ s. select_loop better (Suc p) n best s))"

definition fcfs_better :: "nat \<Rightarrow> nat option \<Rightarrow> 'z proc_state_scheme \<Rightarrow> bool" where
  "fcfs_better p best s = (case best of None \<Rightarrow> True
     | Some q \<Rightarrow> p_queue_location (pr s p) < p_queue_location (pr s q))"

definition run_chosen :: "'z proc_state_scheme running \<Rightarrow> nat option \<Rightarrow> 'z proc_state_scheme \<Rightarrow> (unit, 'z proc_state_scheme) res" where
  "run_chosen body chosen s =
     (case chosen of None \<Rightarrow> Ok () s
      | Some p \<Rightarrow>
        kbind (acquire (Proc_lock p) s) (\<lambda>_ s.
        kbind (if p_state (pr s p) = RUNNABLE then body p s else Ok () s) (\<lambda>_ s.
        release (Proc_lock p) s)))"

definition scheduler_fcfs :: "'z proc_state_scheme running \<Rightarrow> 'z proc_state_scheme \<Rightarrow> (unit, 'z proc_state_scheme) res" where
  "scheduler_fcfs swtch s =
     kbind (select_loop fcfs_better 0 NPROC None s) (\<lambda>proc_for_exec s.
     run_chosen (run_default swtch) proc_for_exec s)"

definition srt_better :: "nat \<Rightarrow> nat option \<Rightarrow> 'z proc_state_scheme \<Rightarrow> bool" where
  "srt_better p best s = (case best of None \<Rightarrow> True
     | Some q \<Rightarrow> sint (p_average_bursttime (pr s p)) < sint (p_average_bursttime (pr s q)))"

definition burst_average :: "i32 \<Rightarrow> i32 \<Rightarrow> i32" where
  "burst_average bursttime average =
     of_nat ALPHA * bursttime + sdiv32 ((100 - of_nat ALPHA) * average) 100"

definition run_timed :: "'z proc_state_scheme running \<Rightarrow> nat \<Rightarrow> 'z proc_state_scheme \<Rightarrow> (unit, 'z proc_state_scheme) res" where
  "run_timed swtch p s =
     (let s = (upd_proc p (\<lambda>x. x\<lparr>p_state := RUNNING\<rparr>) s)\<lparr>curproc := Some p\<rparr> in
      kbind (read_ticks s) (\<lambda>currcputime s.
      kbind (swtch p s) (\<lambda>_ s.
      kbind (read_ticks s) (\<lambda>now s.
      let bursttime = now - currcputime;
          s = upd_proc p (\<lambda>x. x\<lparr>p_average_bursttime := burst_average bursttime (p_average_bursttime x)\<rparr>) s in
      Ok () (s\<lparr>curproc := None\<rparr>)))))"

definition scheduler_srt :: "'z proc_state_scheme running \<Rightarrow> 'z proc_state_scheme \<Rightarrow> (unit, 'z proc_state_scheme) res" where
  "scheduler_srt swtch s =
     kbind (select_loop srt_better 0 NPROC None s) (\<lambda>min_burst_time_proc s.
     run_chosen (run_timed swtch) min_burst_time_proc s)"

definition cfsd_ratio :: "proc \<Rightarrow> i32" where
  "cfsd_ratio x = (if p_rutime x + p_stime x = 0 then 0
     else div32 (p_rutime x * p_priority x) (p_rutime x + p_stime x))"

fun cfsd_loop :: "nat \<Rightarrow> nat \<Rightarrow> nat option \<Rightarrow> i32 \<Rightarrow> 'z proc_state_scheme \<Rightarrow> (nat option, 'z proc_state_scheme) res" where
  "cfsd_loop p 0 proc_for_exec min_rt_ratio s = Ok proc_for_exec s"
| "cfsd_loop p (Suc n) proc_for_exec min_rt_ratio s =
     kbind (acquire (Proc_lock p) s) (\<lambda>_ s.
     let r = cfsd_ratio (pr s p); take = p_state (pr s p) = RUNNABLE \<and> sint r < sint min_rt_ratio in
     kbind (release (Proc_lock p) s) (\<lambda>_ s.
     cfsd_loop (Suc p) n (if take then Some p else proc_for_exec) (if take then r else min_rt_ratio) s))"

definition INT_MAX :: i32 where "INT_MAX = 0x7fffffff"

definition scheduler_cfsd :: "'z proc_state_scheme running \<Rightarrow> 'z proc_state_scheme \<Rightarrow> (unit, 'z proc_state_scheme) res" where
  "scheduler_cfsd swtch s =
     kbind (cfsd_loop 0 NPROC None INT_MAX s) (\<lambda>proc_for_exec s.
     run_chosen (run_timed swtch) proc_for_exec s)"

section \<open>The clock\<close>

definition clockintr :: "'z proc_state_scheme \<Rightarrow> (unit, 'z proc_state_scheme) res" where
  "clockintr s =
     kbind (acquire Tickslock s) (\<lambda>_ s.
     let s = s\<lparr>ticks := ticks s + 1\<rparr> in
     kbind (kfor 0 NPROC (\<lambda>p s.
       kbind (acquire (Proc_lock p) s) (\<lambda>_ s.
       let s = (case p_state (pr s p) of
           RUNNING \<Rightarrow> upd_proc p (\<lambda>x. x\<lparr>p_rutime := p_rutime x + 1\<rparr>) s
         | RUNNABLE \<Rightarrow> upd_proc p (\<lambda>x. x\<lparr>p_retime := p_retime x + 1\<rparr>) s
         | SLEEPING \<Rightarrow> upd_proc p (\<lambda>x. x\<lparr>p_stime := p_stime x + 1\<rparr>) s
         | _ \<Rightarrow> s) in
       release (Proc_lock p) s)) s) (\<lambda>_ s.
     kbind (wakeup Ch_ticks s) (\<lambda>_ s.
     release Tickslock s)))"

end
