(* ===== verification/Proc_Sched.thy ===== *)
theory Proc_Sched
  imports Proc
begin

text \<open>
  Scheduling: what each policy chooses, the order in which first-come-first-served dispatches, that it starves
  no process, the estimate of burst times, and the exact effect of sleeping, waking and killing on the table.
\<close>

section \<open>Sequential reading of the locking code\<close>

lemma upd_proc_simps [simp]:
  "held (upd_proc i f s) = held s"
  "curproc (upd_proc i f s) = curproc s"
  "queue_counter (upd_proc i f s) = queue_counter s"
  "initproc (upd_proc i f s) = initproc s"
  "ticks (upd_proc i f s) = ticks s"
  "nextpid (upd_proc i f s) = nextpid s"
  "mem (upd_proc i f s) = mem s"
  "freelist (upd_proc i f s) = freelist s"
  "k_end (upd_proc i f s) = k_end s"
  "k_trampoline (upd_proc i f s) = k_trampoline s"
  "length (procs (upd_proc i f s)) = length (procs s)"
  by (simp_all add: upd_proc_def)

lemma pr_upd_proc:
  "i < length (procs s) \<Longrightarrow> pr (upd_proc i f s) j = (if j = i then f (pr s i) else pr s j)"
  by (simp add: upd_proc_def)

text \<open>The hart is outside every critical section and the table has its \<^verbatim>\<open>NPROC\<close> slots.\<close>

definition quiet :: "'z proc_state_scheme \<Rightarrow> bool" where
  "quiet s \<longleftrightarrow> held s = [] \<and> length (procs s) = NPROC"

lemma alloc_queue_counter_Ok [simp]:
  "Queue_lock \<notin> set (held s) \<Longrightarrow>
     alloc_queue_counter s = Ok (queue_counter s) (s\<lparr>queue_counter := queue_counter s + 1\<rparr>)"
  by (simp add: alloc_queue_counter_def)

lemma read_ticks_Ok [simp]: "Tickslock \<notin> set (held s) \<Longrightarrow> read_ticks s = Ok (ticks s) s"
  by (simp add: read_ticks_def)

section \<open>The selection loops compute a minimum\<close>

definition keep_best :: "(nat \<Rightarrow> bool) \<Rightarrow> (nat \<Rightarrow> nat option \<Rightarrow> bool) \<Rightarrow> nat option \<Rightarrow> nat \<Rightarrow> nat option" where
  "keep_best run better best p = (if run p \<and> better p best then Some p else best)"

definition key_better :: "(nat \<Rightarrow> 'a::linorder) \<Rightarrow> nat \<Rightarrow> nat option \<Rightarrow> bool" where
  "key_better key p best = (case best of None \<Rightarrow> True | Some q \<Rightarrow> key p < key q)"

definition first_min :: "(nat \<Rightarrow> bool) \<Rightarrow> (nat \<Rightarrow> 'a::linorder) \<Rightarrow> nat \<Rightarrow> nat option \<Rightarrow> bool" where
  "first_min run key n c \<longleftrightarrow>
     (case c of None \<Rightarrow> \<forall>q<n. \<not> run q
      | Some p \<Rightarrow> p < n \<and> run p \<and> (\<forall>q<n. run q \<longrightarrow> key p \<le> key q) \<and> (\<forall>q<p. run q \<longrightarrow> key p < key q))"

lemma first_min_step:
  "first_min run key n c \<Longrightarrow> first_min run key (Suc n) (keep_best run (key_better key) c n)"
  by (cases c) (fastforce simp: first_min_def keep_best_def key_better_def less_Suc_eq)+

lemma keep_best_min: "first_min run key n (foldl (keep_best run (key_better key)) None [0..<n])"
proof (induction n)
  case 0
  then show ?case by (simp add: first_min_def)
next
  case (Suc n)
  then show ?case by (simp add: first_min_step)
qed

definition runnable :: "'z proc_state_scheme \<Rightarrow> nat \<Rightarrow> bool" where
  "runnable s p \<longleftrightarrow> p_state (pr s p) = RUNNABLE"

lemma select_loop_foldl:
  assumes "\<And>j h b. better j b (s\<lparr>held := h\<rparr>) = better j b s" and "\<forall>j. Proc_lock j \<notin> set (held s)"
  shows "select_loop better p n best s
     = Ok (foldl (keep_best (runnable s) (\<lambda>j b. better j b s)) best [p..<p + n]) s"
proof (induction n arbitrary: p best)
  case (Suc n)
  show ?case using assms by (simp add: Let_def Suc upt_conv_Cons keep_best_def runnable_def del: upt_Suc)
qed simp

lemma cfsd_loop_foldl:
  assumes "\<forall>j. Proc_lock j \<notin> set (held s)"
    and "case best of None \<Rightarrow> mr = INT_MAX | Some q \<Rightarrow> mr = cfsd_ratio (pr s q) \<and> sint mr < sint INT_MAX"
  shows "cfsd_loop p n best mr s
     = Ok (foldl (keep_best (\<lambda>j. runnable s j \<and> sint (cfsd_ratio (pr s j)) < sint INT_MAX)
             (key_better (\<lambda>j. sint (cfsd_ratio (pr s j))))) best [p..<p + n]) s"
  using assms(2)
proof (induction n arbitrary: p best mr)
  case (Suc n)
  let ?r = "cfsd_ratio (pr s p)"
  have step: "keep_best (\<lambda>j. runnable s j \<and> sint (cfsd_ratio (pr s j)) < sint INT_MAX)
      (key_better (\<lambda>j. sint (cfsd_ratio (pr s j)))) best p
      = (if p_state (pr s p) = RUNNABLE \<and> sint ?r < sint mr then Some p else best)"
    using Suc.prems by (auto simp: keep_best_def key_better_def runnable_def split: option.splits)
  have "cfsd_loop p (Suc n) best mr s
      = cfsd_loop (Suc p) n (if p_state (pr s p) = RUNNABLE \<and> sint ?r < sint mr then Some p else best)
          (if p_state (pr s p) = RUNNABLE \<and> sint ?r < sint mr then ?r else mr) s"
    using assms(1) by (simp add: Let_def)
  also have "\<dots> = Ok (foldl (keep_best (\<lambda>j. runnable s j \<and> sint (cfsd_ratio (pr s j)) < sint INT_MAX)
             (key_better (\<lambda>j. sint (cfsd_ratio (pr s j)))))
             (if p_state (pr s p) = RUNNABLE \<and> sint ?r < sint mr then Some p else best) [Suc p..<Suc p + n]) s"
    using Suc.prems by (intro Suc.IH) (auto split: option.splits)
  finally show ?case by (simp add: upt_conv_Cons step del: upt_Suc cfsd_loop.simps)
qed simp

lemma fcfs_choice:
  assumes "quiet s"
  shows "\<exists>c. select_loop fcfs_better 0 NPROC None s = Ok c s
     \<and> first_min (runnable s) (\<lambda>p. p_queue_location (pr s p)) NPROC c"
proof -
  have "(\<lambda>j b. fcfs_better j b s) = key_better (\<lambda>p. p_queue_location (pr s p))"
    by (intro ext) (simp add: fcfs_better_def key_better_def)
  then show ?thesis
    using assms keep_best_min [of "runnable s"]
    by (subst select_loop_foldl)
      (auto simp: quiet_def fcfs_better_def split: option.splits)
qed

lemma srt_choice:
  assumes "quiet s"
  shows "\<exists>c. select_loop srt_better 0 NPROC None s = Ok c s
     \<and> first_min (runnable s) (\<lambda>p. sint (p_average_bursttime (pr s p))) NPROC c"
proof -
  have "(\<lambda>j b. srt_better j b s) = key_better (\<lambda>p. sint (p_average_bursttime (pr s p)))"
    by (intro ext) (simp add: srt_better_def key_better_def)
  then show ?thesis
    using assms keep_best_min [of "runnable s"]
    by (subst select_loop_foldl)
      (auto simp: quiet_def srt_better_def split: option.splits)
qed

lemma cfsd_choice:
  assumes "quiet s"
  shows "\<exists>c. cfsd_loop 0 NPROC None INT_MAX s = Ok c s
     \<and> first_min (\<lambda>p. runnable s p \<and> sint (cfsd_ratio (pr s p)) < sint INT_MAX)
         (\<lambda>p. sint (cfsd_ratio (pr s p))) NPROC c"
  using assms keep_best_min [of "\<lambda>p. runnable s p \<and> sint (cfsd_ratio (pr s p)) < sint INT_MAX"]
  by (subst cfsd_loop_foldl) (auto simp: quiet_def)

section \<open>Queue positions\<close>

abbreviation qloc :: "'z proc_state_scheme \<Rightarrow> nat \<Rightarrow> nat" where
  "qloc s p \<equiv> unat (p_queue_location (pr s p))"

text \<open>Runnable processes have distinct positions, all handed out already.\<close>

definition queue_ok :: "'z proc_state_scheme \<Rightarrow> bool" where
  "queue_ok s \<longleftrightarrow>
     (\<forall>p<NPROC. runnable s p \<longrightarrow> qloc s p < unat (queue_counter s))
     \<and> (\<forall>p<NPROC. \<forall>q<NPROC. runnable s p \<and> runnable s q \<and> p \<noteq> q \<longrightarrow> qloc s p \<noteq> qloc s q)"

text \<open>
  What kernel code that runs a process may do to the queue: runnable processes stay where they are; those that
  become runnable get distinct positions not handed out before. At most \<^verbatim>\<open>n\<close> positions are used.
\<close>

definition queue_step :: "nat \<Rightarrow> 'z proc_state_scheme \<Rightarrow> 'z proc_state_scheme \<Rightarrow> bool" where
  "queue_step n s t \<longleftrightarrow> length (procs t) = length (procs s)
     \<and> unat (queue_counter s) \<le> unat (queue_counter t) \<and> unat (queue_counter t) \<le> unat (queue_counter s) + n
     \<and> (\<forall>q<NPROC. runnable s q \<longrightarrow> runnable t q \<and> qloc t q = qloc s q)
     \<and> (\<forall>q<NPROC. runnable t q \<and> \<not> runnable s q \<longrightarrow>
           unat (queue_counter s) \<le> qloc t q \<and> qloc t q < unat (queue_counter t))
     \<and> (\<forall>p<NPROC. \<forall>q<NPROC. runnable t p \<and> \<not> runnable s p \<and> runnable t q \<and> \<not> runnable s q \<and> p \<noteq> q
           \<longrightarrow> qloc t p \<noteq> qloc t q)"

lemma queue_step_ok:
  assumes "queue_step n s t" and "queue_ok s"
  shows "queue_ok t"
proof -
  have "qloc t p < unat (queue_counter t)" if "p < NPROC" "runnable t p" for p
  proof (cases "runnable s p")
    case True
    then have "qloc t p = qloc s p" "qloc s p < unat (queue_counter s)" "unat (queue_counter s) \<le> unat (queue_counter t)"
      using assms that by (auto simp: queue_step_def queue_ok_def)
    then show ?thesis by linarith
  qed (use assms that in \<open>simp add: queue_step_def\<close>)
  moreover have "qloc t p \<noteq> qloc t q" if "p < NPROC" "q < NPROC" "runnable t p" "runnable t q" "p \<noteq> q" for p q
  proof (cases "runnable s p"; cases "runnable s q")
    assume "runnable s p" "\<not> runnable s q"
    then have "qloc t p < unat (queue_counter s)" "unat (queue_counter s) \<le> qloc t q"
      using assms that by (auto simp: queue_step_def queue_ok_def)
    then show ?thesis by linarith
  next
    assume "\<not> runnable s p" "runnable s q"
    then have "qloc t q < unat (queue_counter s)" "unat (queue_counter s) \<le> qloc t p"
      using assms that by (auto simp: queue_step_def queue_ok_def)
    then show ?thesis by linarith
  qed (use assms that in \<open>auto simp: queue_step_def queue_ok_def\<close>)
  ultimately show ?thesis by (simp add: queue_ok_def)
qed

lemma queue_step_trans:
  assumes "queue_step n s t" and "queue_step m t u"
  shows "queue_step (n + m) s u"
proof -
  note st = assms(1) [unfolded queue_step_def] and tu = assms(2) [unfolded queue_step_def]
  have new: "unat (queue_counter s) \<le> qloc u q \<and> qloc u q < unat (queue_counter u)"
    if "q < NPROC" "runnable u q" "\<not> runnable s q" for q
  proof (cases "runnable t q")
    case True
    then have "qloc u q = qloc t q" "unat (queue_counter s) \<le> qloc t q" "qloc t q < unat (queue_counter t)"
      "unat (queue_counter t) \<le> unat (queue_counter u)" using st tu that by auto
    then show ?thesis by linarith
  next
    case False
    then have "unat (queue_counter t) \<le> qloc u q" "qloc u q < unat (queue_counter u)"
      "unat (queue_counter s) \<le> unat (queue_counter t)" using st tu that by auto
    then show ?thesis by linarith
  qed
  have sep: "qloc u p < qloc u q" if "p < NPROC" "q < NPROC" "runnable t p" "\<not> runnable s p" "runnable u q" "\<not> runnable t q" for p q
  proof -
    have "qloc u p = qloc t p" "qloc t p < unat (queue_counter t)" using st tu that by auto
    moreover have "unat (queue_counter t) \<le> qloc u q" using tu that by auto
    ultimately show ?thesis by linarith
  qed
  have "qloc u p \<noteq> qloc u q"
    if "p < NPROC" "q < NPROC" "runnable u p" "\<not> runnable s p" "runnable u q" "\<not> runnable s q" "p \<noteq> q" for p q
  proof (cases "runnable t p"; cases "runnable t q")
    assume "runnable t p" "runnable t q"
    then show ?thesis using st tu that by auto
  next
    assume "runnable t p" "\<not> runnable t q"
    then show ?thesis using sep [of p q] that by auto
  next
    assume "\<not> runnable t p" "runnable t q"
    then show ?thesis using sep [of q p] that by auto
  next
    assume "\<not> runnable t p" "\<not> runnable t q"
    then show ?thesis using tu that by auto
  qed
  then have distinct: "\<forall>p<NPROC. \<forall>q<NPROC. runnable u p \<and> \<not> runnable s p \<and> runnable u q \<and> \<not> runnable s q \<and> p \<noteq> q
      \<longrightarrow> qloc u p \<noteq> qloc u q" by blast
  have "\<forall>q<NPROC. runnable s q \<longrightarrow> runnable u q \<and> qloc u q = qloc s q" using st tu by simp
  moreover have "unat (queue_counter s) \<le> unat (queue_counter u)" "unat (queue_counter u) \<le> unat (queue_counter s) + (n + m)"
    "length (procs u) = length (procs s)" using st tu by linarith+
  ultimately show ?thesis unfolding queue_step_def using new distinct by blast
qed

lemma queue_step_refl: "queue_step n s s"
  by (auto simp: queue_step_def)

lemma queue_step_view:
  "procs s' = procs s \<Longrightarrow> queue_counter s' = queue_counter s \<Longrightarrow> procs t' = procs t \<Longrightarrow>
     queue_counter t' = queue_counter t \<Longrightarrow> queue_step n s' t' = queue_step n s t"
  by (simp add: queue_step_def runnable_def)

lemma enqueue_step:
  assumes "p < NPROC" and "length (procs s) = NPROC" and "\<not> runnable s p" and "unat (queue_counter s) + 1 < 2 ^ 64"
    and "pr t = (pr s)(p := f (pr s p))" and "length (procs t) = NPROC" and "queue_counter t = queue_counter s + 1"
    and "p_queue_location (f (pr s p)) = queue_counter s"
  shows "queue_step 1 s t"
proof -
  have q: "unat (queue_counter t) = unat (queue_counter s) + 1"
    using assms(4,7) by (simp add: unat_word_ariths)
  have r: "runnable t j = (if j = p then p_state (f (pr s p)) = RUNNABLE else runnable s j)" for j
    by (simp add: runnable_def assms(5))
  show ?thesis
    using assms(1-3,6,8) q by (auto simp: queue_step_def r assms(5))
qed

section \<open>Waking\<close>

definition sleeping_on :: "chan \<Rightarrow> 'z proc_state_scheme \<Rightarrow> nat \<Rightarrow> bool" where
  "sleeping_on ch s p \<longleftrightarrow> Some p \<noteq> curproc s \<and> p_state (pr s p) = SLEEPING \<and> p_chan (pr s p) = ch"

definition wake_rank :: "chan \<Rightarrow> 'z proc_state_scheme \<Rightarrow> nat \<Rightarrow> nat" where
  "wake_rank ch s p = length (filter (sleeping_on ch s) [0..<p])"

definition woken :: "chan \<Rightarrow> 'z proc_state_scheme \<Rightarrow> nat \<Rightarrow> proc list" where
  "woken ch s n = map (\<lambda>p. if p < n \<and> sleeping_on ch s p
     then (pr s p)\<lparr>p_queue_location := queue_counter s + of_nat (wake_rank ch s p), p_state := RUNNABLE\<rparr>
     else pr s p) [0..<NPROC]"

lemma wake_rank_Suc: "wake_rank ch s (Suc p) = wake_rank ch s p + (if sleeping_on ch s p then 1 else 0)"
  by (simp add: wake_rank_def)

lemma wake_rank_le: "wake_rank ch s p \<le> p"
  by (simp add: wake_rank_def order_trans [OF length_filter_le])

lemma wake_rank_mono: "p \<le> q \<Longrightarrow> wake_rank ch s p \<le> wake_rank ch s q"
  by (induction rule: dec_induct) (simp_all add: wake_rank_Suc)

lemma wake_rank_less: "p < q \<Longrightarrow> sleeping_on ch s p \<Longrightarrow> wake_rank ch s p < wake_rank ch s q"
  using wake_rank_mono [of "Suc p" q ch s] by (simp add: wake_rank_Suc)

lemma woken_Suc:
  "n < NPROC \<Longrightarrow> woken ch s (Suc n) = (if sleeping_on ch s n then (woken ch s n)[n := (pr s n)\<lparr>p_queue_location :=
     queue_counter s + of_nat (wake_rank ch s n), p_state := RUNNABLE\<rparr>] else woken ch s n)"
  by (rule nth_equalityI) (auto simp: woken_def nth_list_update less_Suc_eq)

lemma nth_woken: "p < NPROC \<Longrightarrow> woken ch s n ! p = (if p < n \<and> sleeping_on ch s p
     then (pr s p)\<lparr>p_queue_location := queue_counter s + of_nat (wake_rank ch s p), p_state := RUNNABLE\<rparr> else pr s p)"
  by (simp add: woken_def)

lemma length_woken [simp]: "length (woken ch s n) = NPROC"
  by (simp add: woken_def)

lemma wakeup_spec:
  assumes "length (procs s) = NPROC" and "\<forall>p. Some p \<noteq> curproc s \<longrightarrow> Proc_lock p \<notin> set (held s)"
    and "Queue_lock \<notin> set (held s)"
  shows "wakeup ch s = Ok () (s\<lparr>procs := woken ch s NPROC, queue_counter := queue_counter s + of_nat (wake_rank ch s NPROC)\<rparr>)"
proof -
  let ?at = "\<lambda>n. s\<lparr>procs := woken ch s n, queue_counter := queue_counter s + of_nat (wake_rank ch s n)\<rparr>"
  have "\<exists>t. wakeup ch s = Ok () t \<and> t = ?at NPROC"
    unfolding wakeup_def
  proof (rule kfor_inv [where I = "\<lambda>n t. t = ?at n"])
    have "woken ch s 0 = procs s"
      using assms(1) by (intro nth_equalityI) (simp_all add: woken_def)
    then show "s = ?at 0" by (simp add: wake_rank_def)
    fix n t
    assume n: "0 \<le> n" "n < NPROC" and t: "t = ?at n"
    show "\<exists>t'. (if Some n \<noteq> myproc t then
         kbind (acquire (Proc_lock n) t) (\<lambda>_ s.
         kbind (if p_state (pr s n) = SLEEPING \<and> p_chan (pr s n) = ch
                then kbind (alloc_queue_counter s) (\<lambda>q s.
                  Ok () (upd_proc n (\<lambda>x. x\<lparr>p_queue_location := q, p_state := RUNNABLE\<rparr>) s))
                else Ok () s) (\<lambda>_ s.
         release (Proc_lock n) s))
       else Ok () t) = Ok () t' \<and> t' = ?at (Suc n)"
    proof (cases "sleeping_on ch s n")
      case True
      then show ?thesis
        using n t assms by (simp add: sleeping_on_def myproc_def nth_woken upd_proc_def woken_Suc wake_rank_Suc add.commute add.left_commute)
    next
      case False
      then show ?thesis
        using n t assms by (auto simp: sleeping_on_def myproc_def nth_woken woken_Suc wake_rank_Suc)
    qed
  qed simp
  then show ?thesis by simp
qed

lemma wakeup_queue_step:
  assumes "length (procs s) = NPROC" and "unat (queue_counter s) + NPROC < 2 ^ 64"
    and "procs t = woken ch s NPROC" and "queue_counter t = queue_counter s + of_nat (wake_rank ch s NPROC)"
  shows "queue_step NPROC s t"
proof -
  have small: "unat (queue_counter s + of_nat (wake_rank ch s p)) = unat (queue_counter s) + wake_rank ch s p" if "p \<le> NPROC" for p
  proof -
    have "unat (queue_counter s) + wake_rank ch s p < 2 ^ 64"
      using assms(2) wake_rank_le [of ch s p] that by linarith
    then show ?thesis by (simp add: unat_word_ariths unat_of_nat)
  qed
  have r: "runnable t q = (runnable s q \<or> sleeping_on ch s q)" if "q < NPROC" for q
    using that by (simp add: runnable_def assms(3) nth_woken)
  have l: "qloc t q = (if sleeping_on ch s q then unat (queue_counter s) + wake_rank ch s q else qloc s q)" if "q < NPROC" for q
    using that by (simp add: assms(3) nth_woken small)
  have notboth: "\<not> (runnable s q \<and> sleeping_on ch s q)" for q by (simp add: runnable_def sleeping_on_def)
  have ranks: "wake_rank ch s p \<noteq> wake_rank ch s q" if "p \<noteq> q" "sleeping_on ch s p" "sleeping_on ch s q" for p q
    using wake_rank_less [of p q ch s] wake_rank_less [of q p ch s] that by (cases p q rule: linorder_cases) auto
  have "qloc t q < unat (queue_counter t)" if "q < NPROC" "sleeping_on ch s q" for q
    using wake_rank_less [OF that] that small [of NPROC] by (simp add: l assms(4))
  then show ?thesis
    using r l notboth ranks small [of NPROC] wake_rank_le [of ch s NPROC]
    unfolding queue_step_def by (simp add: assms) blast
qed

section \<open>First come, first served\<close>

fun sched_turns :: "('s \<Rightarrow> (unit, 's) res) \<Rightarrow> nat \<Rightarrow> 's \<Rightarrow> (unit, 's) res" where
  "sched_turns turn 0 s = Ok () s"
| "sched_turns turn (Suc n) s = kbind (turn s) (\<lambda>_ s. sched_turns turn n s)"

text \<open>
  A process that is switched to comes back holding its own lock and no other, not \<^verbatim>\<open>RUNNING\<close>, having made at most
  \<^verbatim>\<open>b\<close> processes runnable.
\<close>

definition comes_back :: "nat \<Rightarrow> 'z proc_state_scheme running \<Rightarrow> bool" where
  "comes_back b swtch \<longleftrightarrow> (\<forall>p s. p < NPROC \<and> length (procs s) = NPROC \<and> held s = [Proc_lock p] \<and> curproc s = Some p
       \<and> p_state (pr s p) = RUNNING \<and> unat (queue_counter s) + b < 2 ^ 64 \<longrightarrow>
     (\<exists>t. swtch p s = Ok () t \<and> held t = [Proc_lock p] \<and> p_state (pr t p) \<noteq> RUNNING \<and> queue_step b s t))"

definition dispatched :: "nat \<Rightarrow> 'z proc_state_scheme \<Rightarrow> 'z proc_state_scheme" where
  "dispatched p s = (upd_proc p (\<lambda>x. x\<lparr>p_state := RUNNING\<rparr>) s)\<lparr>held := [Proc_lock p], curproc := Some p\<rparr>"

lemma run_chosen_default:
  assumes "quiet s" and "comes_back b swtch" and "p < NPROC" and "runnable s p" and "unat (queue_counter s) + b < 2 ^ 64"
  shows "\<exists>t. run_chosen (run_default swtch) (Some p) s = Ok () t \<and> quiet t \<and> queue_step b (dispatched p s) t"
proof -
  have d: "dispatched p s = (upd_proc p (\<lambda>x. x\<lparr>p_state := RUNNING\<rparr>) (s\<lparr>held := [Proc_lock p]\<rparr>))\<lparr>curproc := Some p\<rparr>"
    by (simp add: dispatched_def upd_proc_def)
  have st: "procs (dispatched p s) = (procs s)[p := (pr s p)\<lparr>p_state := RUNNING\<rparr>]" "queue_counter (dispatched p s) = queue_counter s"
    "held (dispatched p s) = [Proc_lock p]" "curproc (dispatched p s) = Some p"
    by (simp_all add: dispatched_def upd_proc_def)
  have "\<exists>t. swtch p (dispatched p s) = Ok () t \<and> held t = [Proc_lock p] \<and> p_state (pr t p) \<noteq> RUNNING
      \<and> queue_step b (dispatched p s) t"
    using assms st by (intro assms(2) [unfolded comes_back_def, rule_format]) (simp add: quiet_def)
  then obtain t where t: "swtch p (dispatched p s) = Ok () t" "held t = [Proc_lock p]" "queue_step b (dispatched p s) t"
    by blast
  have "queue_step b (dispatched p s) (t\<lparr>held := [], curproc := None\<rparr>)"
    using t(3) by (simp add: queue_step_view [where t' = "t\<lparr>held := [], curproc := None\<rparr>" and t = t])
  moreover have "length (procs t) = NPROC"
    using t(3) assms(1) by (simp add: queue_step_def quiet_def st)
  moreover have "run_chosen (run_default swtch) (Some p) s = Ok () (t\<lparr>held := [], curproc := None\<rparr>)"
    using assms(1,4) t(1,2) by (simp add: run_chosen_def run_default_def quiet_def runnable_def Let_def flip: d)
  ultimately show ?thesis by (simp add: quiet_def)
qed

definition ahead :: "'z proc_state_scheme \<Rightarrow> nat \<Rightarrow> nat set" where
  "ahead s p = {q. q < NPROC \<and> runnable s q \<and> qloc s q < qloc s p}"

lemma fcfs_turn:
  assumes s: "quiet s" "queue_ok s" and cb: "comes_back b swtch" and p: "p < NPROC" "runnable s p"
    and room: "unat (queue_counter s) + b < 2 ^ 64"
  shows "select_loop fcfs_better 0 NPROC None s = Ok (Some p) s
     \<or> (\<exists>t. scheduler_fcfs swtch s = Ok () t \<and> quiet t \<and> queue_ok t \<and> runnable t p
          \<and> ahead t p \<subset> ahead s p \<and> unat (queue_counter t) \<le> unat (queue_counter s) + b)"
proof -
  from fcfs_choice [OF s(1)] p obtain c where c: "select_loop fcfs_better 0 NPROC None s = Ok (Some c) s"
    "c < NPROC" "runnable s c" "qloc s c \<le> qloc s p"
    by (fastforce simp: first_min_def word_le_nat_alt split: option.splits)
  show ?thesis
  proof (cases "c = p")
    case False
    let ?d = "dispatched c s"
    have d: "runnable ?d q \<longleftrightarrow> runnable s q \<and> q \<noteq> c" "qloc ?d q = qloc s q" "queue_counter ?d = queue_counter s" for q
      using s(1) c(2) by (auto simp: dispatched_def upd_proc_def quiet_def runnable_def nth_list_update)
    from run_chosen_default [OF s(1) cb c(2,3) room] obtain t where t: "scheduler_fcfs swtch s = Ok () t" "quiet t" "queue_step b ?d t"
      using c(1) by (auto simp: scheduler_fcfs_def)
    have "queue_ok ?d" using s(2) d by (simp add: queue_ok_def)
    then have ok: "queue_ok t" by (rule queue_step_ok [OF t(3)])
    note st = t(3) [unfolded queue_step_def d]
    have pt: "runnable t p" "qloc t p = qloc s p" using st p False by auto
    have lt: "qloc s p < unat (queue_counter s)" using s(2) p by (simp add: queue_ok_def)
    have "qloc s c < qloc s p" using s(2) c p False by (fastforce simp: queue_ok_def le_less)
    then have cin: "c \<in> ahead s p" using c by (simp add: ahead_def)
    have "q \<in> ahead s p \<and> q \<noteq> c" if "q \<in> ahead t p" for q
    proof -
      have q: "q < NPROC" "runnable t q" "qloc t q < qloc s p" using that pt by (simp_all add: ahead_def)
      then have "runnable s q \<and> q \<noteq> c" using st lt by fastforce
      moreover from this q have "qloc t q = qloc s q" using st by auto
      ultimately show ?thesis using q by (simp add: ahead_def)
    qed
    then have "ahead t p \<subset> ahead s p" using cin by blast
    moreover have "unat (queue_counter t) \<le> unat (queue_counter s) + b" using st by blast
    ultimately show ?thesis using t(1,2) ok pt(1) by blast
  qed (use c in simp)
qed

text \<open>A process that does nothing but give up the CPU.\<close>

definition yielding :: "'z proc_state_scheme running" where
  "yielding p s = (case kbind (release (Proc_lock p) s) (\<lambda>_ s. yield s) of Sleeps c t \<Rightarrow> Ok () t | r \<Rightarrow> r)"

lemma yield_spec:
  assumes "curproc s = Some p" and "p < length (procs s)" and "held s = []"
  shows "yield s = Sleeps (p_chan (pr s p))
     (upd_proc p (\<lambda>x. x\<lparr>p_queue_location := queue_counter s, p_state := RUNNABLE\<rparr>)
       (s\<lparr>held := [Proc_lock p], queue_counter := queue_counter s + 1\<rparr>))"
  using assms by (simp add: yield_def with_proc_def myproc_def sched_def pr_upd_proc)

lemma yielding_comes_back: "comes_back 1 yielding"
  unfolding comes_back_def
proof (intro allI impI)
  fix p and s :: "'z proc_state_scheme"
  assume a: "p < NPROC \<and> length (procs s) = NPROC \<and> held s = [Proc_lock p] \<and> curproc s = Some p
       \<and> p_state (pr s p) = RUNNING \<and> unat (queue_counter s) + 1 < 2 ^ 64"
  let ?t = "upd_proc p (\<lambda>x. x\<lparr>p_queue_location := queue_counter s, p_state := RUNNABLE\<rparr>)
       (s\<lparr>held := [Proc_lock p], queue_counter := queue_counter s + 1\<rparr>)"
  have "yielding p s = Ok () ?t"
    using a yield_spec [of "s\<lparr>held := []\<rparr>" p] by (simp add: yielding_def)
  moreover have "queue_step 1 s ?t"
    using a by (intro enqueue_step [where p = p and f = "\<lambda>x. x\<lparr>p_queue_location := queue_counter s, p_state := RUNNABLE\<rparr>"])
      (auto simp: runnable_def pr_upd_proc fun_eq_iff)
  ultimately show "\<exists>t. yielding p s = Ok () t \<and> held t = [Proc_lock p] \<and> p_state (pr t p) \<noteq> RUNNING \<and> queue_step 1 s t"
    using a by (auto simp: pr_upd_proc)
qed

section \<open>Sleeping\<close>

lemma sleep_spec:
  assumes "curproc s = Some p" and "p < length (procs s)" and "lk \<in> set (held s)" and "Proc_lock p \<notin> set (held s)"
  shows "sleep ch lk s = (if remove1 lk (held s) = []
     then Sleeps ch (upd_proc p (\<lambda>x. x\<lparr>p_chan := ch, p_state := SLEEPING\<rparr>) (s\<lparr>held := [Proc_lock p]\<rparr>))
     else Panic ''sched locks'')"
proof -
  have "lk \<noteq> Proc_lock p" using assms(3,4) by auto
  then show ?thesis
    using assms by (auto simp: sleep_def with_proc_def myproc_def sched_def pr_upd_proc)
qed

section \<open>Killing\<close>

lemma kill_miss:
  assumes "\<forall>p<NPROC. p_pid (pr s p) \<noteq> pid" and "quiet s"
  shows "kill pid s = Ok (-1) s"
  using assms by (simp add: kill_def kscan_None quiet_def found_or_fail_def)

definition killed_proc :: "'z proc_state_scheme \<Rightarrow> proc \<Rightarrow> proc" where
  "killed_proc s x = (if p_state x = SLEEPING
     then x\<lparr>p_killed := 1, p_state := RUNNABLE, p_queue_location := queue_counter s\<rparr> else x\<lparr>p_killed := 1\<rparr>)"

lemma kill_hit:
  assumes "p < NPROC" and "p_pid (pr s p) = pid" and "\<forall>q<p. p_pid (pr s q) \<noteq> pid" and "quiet s"
  shows "kill pid s = Ok 0 ((upd_proc p (killed_proc s) s)\<lparr>queue_counter :=
     queue_counter s + (if p_state (pr s p) = SLEEPING then 1 else 0)\<rparr>)"
proof -
  have len: "p < length (procs s)" using assms by (simp add: quiet_def)
  show ?thesis
    unfolding kill_def
    using assms len
    by (subst kscan_Some [where i = p and a = "()" and t = "(upd_proc p (killed_proc s) s)\<lparr>queue_counter :=
        queue_counter s + (if p_state (pr s p) = SLEEPING then 1 else 0)\<rparr>"])
      (auto simp: quiet_def upd_proc_def killed_proc_def found_or_fail_def)
qed

section \<open>Allocation keeps the kill flag\<close>

lemma kstep_proc:
  assumes "kstep s t"
  shows "procs t = procs s" "curproc t = curproc s" "held t = held s" "queue_counter t = queue_counter s"
    "initproc t = initproc s" "nextpid t = nextpid s" "ticks t = ticks s"
proof -
  have t: "f t = f (s\<lparr>mem := mem t, freelist := freelist t\<rparr>)" for f :: "'a proc_state_scheme \<Rightarrow> 'b"
    using assms unfolding kstep_def by (rule arg_cong)
  show "procs t = procs s" by (subst t) simp
  show "curproc t = curproc s" by (subst t) simp
  show "held t = held s" by (subst t) simp
  show "queue_counter t = queue_counter s" by (subst t) simp
  show "initproc t = initproc s" by (subst t) simp
  show "nextpid t = nextpid s" by (subst t) simp
  show "ticks t = ticks s" by (subst t) simp
qed

lemma proc_pagetable_frame [frame]: "within kstep s (proc_pagetable p s)"
  unfolding proc_pagetable_def by (intro km.within_rules frame) auto

lemma proc_freepagetable_frame [frame]: "within kstep s (proc_freepagetable pt sz s)"
  unfolding proc_freepagetable_def by (intro km.within_rules frame)

lemma allocproc_find_first:
  assumes "p < NPROC" and "p_state (pr s p) = UNUSED" and "\<forall>q<p. p_state (pr s q) \<noteq> UNUSED" and "held s = []"
  shows "allocproc_find s = Ok (Some p) (s\<lparr>held := [Proc_lock p]\<rparr>)"
  using assms by (simp add: allocproc_find_def kscan_Some [where i = p])

lemma allocproc_keeps_killed:
  assumes "allocproc_find s = Ok (Some p) s'" and "procs s' = procs s" and "p < length (procs s)" and "allocproc s = Ok (Some q) u"
  shows "q = p \<and> p_killed (pr u p) = p_killed (pr s p)"
proof -
  have keep: "pr v i = pr t i" if "within kstep t r" "r = Ok a v" for t v :: "'a proc_state_scheme" and r :: "('b, 'a proc_state_scheme) res" and a i
    using that kstep_proc(1) [of t v] by simp
  have fail: "allocproc_fail p t = Ok r v \<Longrightarrow> r = None" for t v r
    by (auto simp: allocproc_fail_def kbind_Ok_iff)
  from assms obtain s1 s2 tf s3 pt where
    s1: "allocproc_init p s' = Ok () s1" and s2: "kalloc s1 = Ok tf s2"
    and s3: "proc_pagetable p (upd_proc p (\<lambda>x. x\<lparr>p_trapframe := tf\<rparr>) s2) = Ok pt s3"
    and u: "q = p" "u = upd_proc p (\<lambda>x. x\<lparr>p_context := \<lparr>ctx_ra = k_forkret (upd_proc p (\<lambda>x. x\<lparr>p_pagetable := pt\<rparr>) s3),
         ctx_sp = p_kstack x + PGSIZE, ctx_s = replicate 12 0\<rparr>\<rparr>) (upd_proc p (\<lambda>x. x\<lparr>p_pagetable := pt\<rparr>) s3)"
    by (auto simp: allocproc_def kbind_Ok_iff Let_def split: if_splits dest: fail)
  have len1: "p_killed (pr s1 p) = p_killed (pr s p)" "length (procs s1) = length (procs s)"
    using s1 assms(2,3) by (auto simp: allocproc_init_def allocpid_def read_ticks_def kbind_Ok_iff Let_def acquire_eq_Ok release_eq_Ok upd_proc_def)
  have p2: "procs s2 = procs s1" using kalloc_frame [of s1] s2 kstep_proc(1) by simp
  have p3: "procs s3 = (procs s2)[p := (pr s2 p)\<lparr>p_trapframe := tf\<rparr>]"
    using proc_pagetable_frame [of "upd_proc p (\<lambda>x. x\<lparr>p_trapframe := tf\<rparr>) s2" p] s3 kstep_proc(1) by (fastforce simp: upd_proc_def)
  show ?thesis using u len1 p2 p3 assms(3) by (simp add: upd_proc_def)
qed

section \<open>Clock ticks\<close>

definition tick_proc :: "proc \<Rightarrow> proc" where
  "tick_proc x = (case p_state x of RUNNING \<Rightarrow> x\<lparr>p_rutime := p_rutime x + 1\<rparr> | RUNNABLE \<Rightarrow> x\<lparr>p_retime := p_retime x + 1\<rparr>
     | SLEEPING \<Rightarrow> x\<lparr>p_stime := p_stime x + 1\<rparr> | _ \<Rightarrow> x)"

lemma tick_proc_keeps [simp]:
  "p_state (tick_proc x) = p_state x" "p_chan (tick_proc x) = p_chan x" "p_queue_location (tick_proc x) = p_queue_location x"
  "p_pid (tick_proc x) = p_pid x"
  by (simp_all add: tick_proc_def split: procstate.splits)

lemma clockintr_spec:
  assumes "quiet s"
  shows "\<exists>t. clockintr s = Ok () t \<and> ticks t = ticks s + 1 \<and> quiet t
     \<and> (\<forall>p<NPROC. pr t p = (if sleeping_on Ch_ticks s p
          then (tick_proc (pr s p))\<lparr>p_queue_location := queue_counter s + of_nat (wake_rank Ch_ticks s p), p_state := RUNNABLE\<rparr>
          else tick_proc (pr s p)))"
proof -
  let ?s = "s\<lparr>held := [Tickslock], ticks := ticks s + 1\<rparr>"
  let ?at = "\<lambda>n. ?s\<lparr>procs := map (\<lambda>p. if p < n then tick_proc (pr s p) else pr s p) [0..<NPROC]\<rparr>"
  let ?body = "\<lambda>p s. kbind (acquire (Proc_lock p) s) (\<lambda>_ s.
       let s = (case p_state (pr s p) of
           RUNNING \<Rightarrow> upd_proc p (\<lambda>x. x\<lparr>p_rutime := p_rutime x + 1\<rparr>) s
         | RUNNABLE \<Rightarrow> upd_proc p (\<lambda>x. x\<lparr>p_retime := p_retime x + 1\<rparr>) s
         | SLEEPING \<Rightarrow> upd_proc p (\<lambda>x. x\<lparr>p_stime := p_stime x + 1\<rparr>) s
         | _ \<Rightarrow> s) in
       release (Proc_lock p) s)"
  have len: "length (procs s) = NPROC" "held s = []" using assms by (simp_all add: quiet_def)
  have "\<exists>t. kfor 0 NPROC ?body ?s = Ok () t \<and> t = ?at NPROC"
  proof (rule kfor_inv [where I = "\<lambda>n t. t = ?at n"])
    have "map (pr s) [0..<NPROC] = procs s" using len by (metis map_nth)
    then show "?s = ?at 0" by simp
    fix n t
    assume n: "0 \<le> n" "n < NPROC" and t: "t = ?at n"
    have upd: "(map (\<lambda>p. if p < n then tick_proc (pr s p) else pr s p) [0..<NPROC])[n := tick_proc (pr s n)]
        = map (\<lambda>p. if p < Suc n then tick_proc (pr s p) else pr s p) [0..<NPROC]"
      using n by (intro nth_equalityI) (auto simp: nth_list_update less_Suc_eq)
    have "?body n t = Ok () (upd_proc n tick_proc t)"
      using t by (cases "p_state (pr t n)") (simp_all add: upd_proc_def tick_proc_def)
    moreover have "upd_proc n tick_proc t = ?at (Suc n)"
      using n t upd by (simp add: upd_proc_def)
    ultimately show "\<exists>t'. ?body n t = Ok () t' \<and> t' = ?at (Suc n)" by blast
  qed simp
  then have loop: "kfor 0 NPROC ?body ?s = Ok () (?at NPROC)" by blast
  have sl: "sleeping_on Ch_ticks (?at NPROC) p = sleeping_on Ch_ticks s p" if "p < NPROC" for p
    using that by (simp add: sleeping_on_def)
  then have rank: "wake_rank Ch_ticks (?at NPROC) p = wake_rank Ch_ticks s p" if "p \<le> NPROC" for p
    using that unfolding wake_rank_def by (intro arg_cong [where f = length] filter_cong) auto
  have "wakeup Ch_ticks (?at NPROC) = Ok () ((?at NPROC)\<lparr>procs := woken Ch_ticks (?at NPROC) NPROC,
      queue_counter := queue_counter s + of_nat (wake_rank Ch_ticks s NPROC)\<rparr>)"
    by (subst wakeup_spec) (simp_all add: rank)
  then have "clockintr s = Ok () ((?at NPROC)\<lparr>held := [], procs := woken Ch_ticks (?at NPROC) NPROC,
      queue_counter := queue_counter s + of_nat (wake_rank Ch_ticks s NPROC)\<rparr>)"
    using len loop by (simp add: clockintr_def)
  then show ?thesis by (auto simp: quiet_def nth_woken sl rank)
qed

end
