(* ===== verification/Sleeplock.thy ===== *)
theory Sleeplock
  imports Proc_Sched
begin

text \<open>
  Sleeplocks (\<^verbatim>\<open>kernel/sleeplock.c\<close>). A sleeplock is named by the identity of the spinlock inside it; processes
  that wait for it sleep on a channel of its own.
\<close>

record sleeplock =
  sl_locked :: u32
  sl_pid :: i32

record sleep_state = proc_state +
  sleeplocks :: "lockid \<Rightarrow> sleeplock"

fun sl_chan :: "lockid \<Rightarrow> chan" where
  "sl_chan (Buf_lk i) = Ch_buf_lock i"
| "sl_chan (Inode_lk i) = Ch_inode_lock i"
| "sl_chan _ = Ch_none"

definition set_sleeplock :: "lockid \<Rightarrow> sleeplock \<Rightarrow> 'z sleep_state_scheme \<Rightarrow> 'z sleep_state_scheme" where
  "set_sleeplock l x s = s\<lparr>sleeplocks := (sleeplocks s)(l := x)\<rparr>"

definition initsleeplock :: "lockid \<Rightarrow> 'z sleep_state_scheme \<Rightarrow> 'z sleep_state_scheme" where
  "initsleeplock l s = set_sleeplock l \<lparr>sl_locked = 0, sl_pid = 0\<rparr> s"

text \<open>The loop of \<^verbatim>\<open>acquiresleep\<close>: a process that finds the lock taken sleeps, and tests again when it has been woken.\<close>

definition acquiresleep :: "lockid \<Rightarrow> 'z sleep_state_scheme \<Rightarrow> (unit, 'z sleep_state_scheme) res" where
  "acquiresleep l s =
     kbind (acquire l s) (\<lambda>_ s.
     if sl_locked (sleeplocks s l) \<noteq> 0 then sleep (sl_chan l) l s
     else with_proc s (\<lambda>p.
       release l (set_sleeplock l \<lparr>sl_locked = 1, sl_pid = p_pid (pr s p)\<rparr> s)))"

definition releasesleep :: "lockid \<Rightarrow> 'z sleep_state_scheme \<Rightarrow> (unit, 'z sleep_state_scheme) res" where
  "releasesleep l s =
     kbind (acquire l s) (\<lambda>_ s.
     let s = set_sleeplock l \<lparr>sl_locked = 0, sl_pid = 0\<rparr> s in
     kbind (wakeup (sl_chan l) s) (\<lambda>_ s.
     release l s))"

definition holdingsleep :: "lockid \<Rightarrow> 'z sleep_state_scheme \<Rightarrow> (bool, 'z sleep_state_scheme) res" where
  "holdingsleep l s =
     kbind (acquire l s) (\<lambda>_ s.
     with_proc s (\<lambda>p.
       let r = sl_locked (sleeplocks s l) \<noteq> 0 \<and> sl_pid (sleeplocks s l) = p_pid (pr s p) in
       kbind (release l s) (\<lambda>_ s. Ok r s)))"

section \<open>Sequential behaviour\<close>

text \<open>
  The process table as the sleeplock code needs it: the hart runs process \<^verbatim>\<open>p\<close> and holds no spinlock but those in
  \<^verbatim>\<open>hs\<close>, none of which protects a process or the queue counter.
\<close>

definition in_proc :: "nat \<Rightarrow> 'z proc_state_scheme \<Rightarrow> bool" where
  "in_proc p s \<longleftrightarrow> curproc s = Some p \<and> p < NPROC \<and> length (procs s) = NPROC
     \<and> (\<forall>q. Proc_lock q \<notin> set (held s)) \<and> Queue_lock \<notin> set (held s)"

text \<open>Waking processes changes nothing but their state and queue position.\<close>

definition woken_only :: "'z proc_state_scheme \<Rightarrow> 'z proc_state_scheme \<Rightarrow> bool" where
  "woken_only s t \<longleftrightarrow> t = s\<lparr>procs := procs t, queue_counter := queue_counter t\<rparr> \<and> length (procs t) = length (procs s)
     \<and> (\<forall>q<NPROC. pr t q = (pr s q)\<lparr>p_queue_location := p_queue_location (pr t q), p_state := p_state (pr t q)\<rparr>)
     \<and> (\<forall>q<NPROC. p_state (pr t q) \<noteq> p_state (pr s q) \<longrightarrow> p_state (pr s q) = SLEEPING \<and> p_state (pr t q) = RUNNABLE)"

lemma wakeup_woken:
  assumes "in_proc p s"
  shows "\<exists>t. wakeup ch s = Ok () t \<and> woken_only s t \<and> in_proc p t"
proof -
  let ?t = "s\<lparr>procs := woken ch s NPROC, queue_counter := queue_counter s + of_nat (wake_rank ch s NPROC)\<rparr>"
  have "wakeup ch s = Ok () ?t"
    using assms by (intro wakeup_spec) (simp_all add: in_proc_def)
  moreover have "woken_only s ?t"
    using assms by (auto simp: woken_only_def nth_woken in_proc_def sleeping_on_def)
  moreover have "in_proc p ?t" using assms by (simp add: in_proc_def)
  ultimately show ?thesis by blast
qed

lemma woken_onlyD:
  assumes "woken_only s t"
  shows "held t = held s" "curproc t = curproc s" "length (procs t) = length (procs s)" "q < NPROC \<Longrightarrow> p_pid (pr t q) = p_pid (pr s q)"
    "mem t = mem s" "freelist t = freelist s" "k_end t = k_end s"
proof -
  have t: "f t = f (s\<lparr>procs := procs t, queue_counter := queue_counter t\<rparr>)" for f :: "'a proc_state_scheme \<Rightarrow> 'b"
    using assms unfolding woken_only_def by (metis (no_types))
  show "held t = held s" by (subst t) simp
  show "curproc t = curproc s" by (subst t) simp
  show "mem t = mem s" by (subst t) simp
  show "freelist t = freelist s" by (subst t) simp
  show "k_end t = k_end s" by (subst t) simp
  show "length (procs t) = length (procs s)" using assms by (simp add: woken_only_def)
  show "p_pid (pr t q) = p_pid (pr s q)" if "q < NPROC"
  proof -
    have "pr t q = (pr s q)\<lparr>p_queue_location := p_queue_location (pr t q), p_state := p_state (pr t q)\<rparr>"
      using assms that by (simp add: woken_only_def)
    then have "p_pid (pr t q) = p_pid ((pr s q)\<lparr>p_queue_location := p_queue_location (pr t q), p_state := p_state (pr t q)\<rparr>)"
      by (rule arg_cong)
    then show ?thesis by simp
  qed
qed

end
