(* ===== verification/Bio.thy ===== *)
theory Bio
  imports Sleeplock
begin

text \<open>
  The buffer cache (\<^verbatim>\<open>kernel/bio.c\<close>). A buffer is named by its index in \<^verbatim>\<open>bcache.buf\<close>; index \<^verbatim>\<open>NBUF\<close> is the list head
  \<^verbatim>\<open>bcache.head\<close>, so that \<^verbatim>\<open>prev\<close> and \<^verbatim>\<open>next\<close> are indices too. The sleeplock of buffer \<^verbatim>\<open>i\<close> is \<^term>\<open>Buf_lk i\<close>.

  \<^verbatim>\<open>disk_rw\<close> is what a call of \<^verbatim>\<open>virtio_disk_rw\<close> has done when it returns (theory Virtio_Props derives it from the driver
  and the device): it transfers the block, atomically. \<^verbatim>\<open>dwrites\<close> is a history variable: the block writes the disk
  has performed, in order; no code reads it.
\<close>

definition BSIZE :: nat where "BSIZE = 1024"

record buf =
  b_valid :: bool
  b_dev :: u32
  b_blockno :: u32
  b_refcnt :: u32
  b_prev :: nat
  b_next :: nat
  b_data :: "u8 list"

record bio_state = sleep_state +
  bufs :: "buf list"
  disk :: "u32 \<Rightarrow> u8 list"
  dwrites :: "(u32 \<times> u8 list) list"

abbreviation bu :: "'z bio_state_scheme \<Rightarrow> nat \<Rightarrow> buf" where
  "bu s b \<equiv> bufs s ! b"

definition upd_buf :: "nat \<Rightarrow> (buf \<Rightarrow> buf) \<Rightarrow> 'z bio_state_scheme \<Rightarrow> 'z bio_state_scheme" where
  "upd_buf b f s = s\<lparr>bufs := (bufs s)[b := f (bufs s ! b)]\<rparr>"

definition disk_rw :: "nat \<Rightarrow> bool \<Rightarrow> 'z bio_state_scheme \<Rightarrow> (unit, 'z bio_state_scheme) res" where
  "disk_rw b write s =
     (if write then Ok () (s\<lparr>disk := (disk s)(b_blockno (bu s b) := b_data (bu s b)),
                            dwrites := dwrites s @ [(b_blockno (bu s b), b_data (bu s b))]\<rparr>)
      else Ok () (upd_buf b (\<lambda>x. x\<lparr>b_data := disk s (b_blockno x)\<rparr>) s))"

definition push_front :: "nat \<Rightarrow> 'z bio_state_scheme \<Rightarrow> 'z bio_state_scheme" where
  "push_front b s =
     (let s = upd_buf b (\<lambda>x. x\<lparr>b_next := b_next (bu s NBUF)\<rparr>) s;
          s = upd_buf b (\<lambda>x. x\<lparr>b_prev := NBUF\<rparr>) s;
          s = upd_buf (b_next (bu s NBUF)) (\<lambda>x. x\<lparr>b_prev := b\<rparr>) s
      in upd_buf NBUF (\<lambda>x. x\<lparr>b_next := b\<rparr>) s)"

definition binit :: "'z bio_state_scheme \<Rightarrow> (unit, 'z bio_state_scheme) res" where
  "binit s =
     (let s = upd_buf NBUF (\<lambda>x. x\<lparr>b_prev := NBUF, b_next := NBUF\<rparr>) s in
      kfor 0 NBUF (\<lambda>b s. Ok () (push_front b (initsleeplock (Buf_lk b) s))) s)"

text \<open>
  The two loops of \<^verbatim>\<open>bget\<close> follow \<^verbatim>\<open>next\<close> or \<^verbatim>\<open>prev\<close> until they meet the head. The bound \<^verbatim>\<open>NBUF + 1\<close> is enough for any list that
  leads back to the head; without one the loop goes on forever with the lock held.
\<close>

fun walk_list :: "nat \<Rightarrow> (buf \<Rightarrow> nat) \<Rightarrow> (buf \<Rightarrow> bool) \<Rightarrow> buf list \<Rightarrow> nat \<Rightarrow> nat option option" where
  "walk_list 0 adv P bs b = None"
| "walk_list (Suc n) adv P bs b =
     (if b = NBUF then Some None else if P (bs ! b) then Some (Some b) else walk_list n adv P bs (adv (bs ! b)))"

definition bget_lock :: "nat \<Rightarrow> 'z bio_state_scheme \<Rightarrow> (nat, 'z bio_state_scheme) res" where
  "bget_lock b s =
     kbind (release Bcache_lock s) (\<lambda>_ s.
     kbind (acquiresleep (Buf_lk b) s) (\<lambda>_ s. Ok b s))"

definition bget :: "u32 \<Rightarrow> u32 \<Rightarrow> 'z bio_state_scheme \<Rightarrow> (nat, 'z bio_state_scheme) res" where
  "bget dev blockno s =
     kbind (acquire Bcache_lock s) (\<lambda>_ s.
     case walk_list (NBUF + 1) b_next (\<lambda>x. b_dev x = dev \<and> b_blockno x = blockno) (bufs s) (b_next (bu s NBUF)) of
       None \<Rightarrow> Spins Bcache_lock
     | Some (Some b) \<Rightarrow> bget_lock b (upd_buf b (\<lambda>x. x\<lparr>b_refcnt := b_refcnt x + 1\<rparr>) s)
     | Some None \<Rightarrow>
       (case walk_list (NBUF + 1) b_prev (\<lambda>x. b_refcnt x = 0) (bufs s) (b_prev (bu s NBUF)) of
          None \<Rightarrow> Spins Bcache_lock
        | Some (Some b) \<Rightarrow> bget_lock b (upd_buf b (\<lambda>x. x\<lparr>b_dev := dev, b_blockno := blockno, b_valid := False, b_refcnt := 1\<rparr>) s)
        | Some None \<Rightarrow> Panic ''bget: no buffers''))"

definition bread :: "u32 \<Rightarrow> u32 \<Rightarrow> 'z bio_state_scheme \<Rightarrow> (nat, 'z bio_state_scheme) res" where
  "bread dev blockno s =
     kbind (bget dev blockno s) (\<lambda>b s.
     if \<not> b_valid (bu s b) then
       kbind (disk_rw b False s) (\<lambda>_ s. Ok b (upd_buf b (\<lambda>x. x\<lparr>b_valid := True\<rparr>) s))
     else Ok b s)"

definition bwrite :: "nat \<Rightarrow> 'z bio_state_scheme \<Rightarrow> (unit, 'z bio_state_scheme) res" where
  "bwrite b s =
     kbind (holdingsleep (Buf_lk b) s) (\<lambda>h s.
     if \<not> h then Panic ''bwrite'' else disk_rw b True s)"

definition brelse :: "nat \<Rightarrow> 'z bio_state_scheme \<Rightarrow> (unit, 'z bio_state_scheme) res" where
  "brelse b s =
     kbind (holdingsleep (Buf_lk b) s) (\<lambda>h s.
     if \<not> h then Panic ''brelse''
     else kbind (releasesleep (Buf_lk b) s) (\<lambda>_ s.
     kbind (acquire Bcache_lock s) (\<lambda>_ s.
     let s = upd_buf b (\<lambda>x. x\<lparr>b_refcnt := b_refcnt x - 1\<rparr>) s;
         s = (if b_refcnt (bu s b) = 0 then
                let s = upd_buf (b_next (bu s b)) (\<lambda>x. x\<lparr>b_prev := b_prev (bu s b)\<rparr>) s;
                    s = upd_buf (b_prev (bu s b)) (\<lambda>x. x\<lparr>b_next := b_next (bu s b)\<rparr>) s
                in push_front b s
              else s) in
     release Bcache_lock s)))"

definition bpin :: "nat \<Rightarrow> 'z bio_state_scheme \<Rightarrow> (unit, 'z bio_state_scheme) res" where
  "bpin b s =
     kbind (acquire Bcache_lock s) (\<lambda>_ s.
     release Bcache_lock (upd_buf b (\<lambda>x. x\<lparr>b_refcnt := b_refcnt x + 1\<rparr>) s))"

definition bunpin :: "nat \<Rightarrow> 'z bio_state_scheme \<Rightarrow> (unit, 'z bio_state_scheme) res" where
  "bunpin b s =
     kbind (acquire Bcache_lock s) (\<lambda>_ s.
     release Bcache_lock (upd_buf b (\<lambda>x. x\<lparr>b_refcnt := b_refcnt x - 1\<rparr>) s))"

text \<open>The kernel code that holds a buffer reads and writes its data in place.\<close>

definition set_data :: "nat \<Rightarrow> u8 list \<Rightarrow> 'z bio_state_scheme \<Rightarrow> 'z bio_state_scheme" where
  "set_data b bs s = upd_buf b (\<lambda>x. x\<lparr>b_data := bs\<rparr>) s"

end
