(* ===== verification/Bio_Cache.thy ===== *)
theory Bio_Cache
  imports Bio
begin

text \<open>
  The buffer cache refines an abstract cache: the pointer structure is a circular doubly linked list of all buffers
  in order of last use, and the blocks that cached buffers and the disk hold together are one array of blocks,
  which reading, releasing and recycling buffers do not change.
\<close>

section \<open>The list of buffers\<close>

fun linked :: "buf list \<Rightarrow> nat list \<Rightarrow> bool" where
  "linked bs (a # b # r) = (b_next (bs ! a) = b \<and> b_prev (bs ! b) = a \<and> linked bs (b # r))"
| "linked bs _ = True"

definition lru :: "buf list \<Rightarrow> nat list \<Rightarrow> bool" where
  "lru bs xs \<longleftrightarrow> length bs = NBUF + 1 \<and> distinct xs \<and> set xs = {..<NBUF} \<and> linked bs (NBUF # xs @ [NBUF])"

lemma linked_append: "linked bs (xs @ a # ys) \<longleftrightarrow> linked bs (xs @ [a]) \<and> linked bs (a # ys)"
proof (induction xs)
  case (Cons x xs)
  then show ?case by (cases xs; cases ys) auto
qed simp

lemma linked_upd:
  assumes "c < length bs" and "c \<in> set (butlast xs) \<Longrightarrow> b_next x = b_next (bs ! c)"
    and "c \<in> set (tl xs) \<Longrightarrow> b_prev x = b_prev (bs ! c)"
  shows "linked (bs[c := x]) xs = linked bs xs"
  using assms
proof (induction bs xs rule: linked.induct)
  case (1 bs a b r)
  have "linked (bs[c := x]) (b # r) = linked bs (b # r)"
    using 1 by (cases r) auto
  with 1 show ?case by (auto simp: nth_list_update)
qed simp_all

lemma linked_same:
  assumes "\<And>i. i \<in> set xs \<Longrightarrow> b_next (cs ! i) = b_next (bs ! i) \<and> b_prev (cs ! i) = b_prev (bs ! i)"
  shows "linked cs xs = linked bs xs"
  using assms by (induction bs xs rule: linked.induct) auto

lemma walk_next:
  assumes "linked bs (a # xs @ [NBUF])" and "NBUF \<notin> set xs" and "length xs < n"
  shows "walk_list n b_next P bs (b_next (bs ! a)) = Some (List.find (\<lambda>i. P (bs ! i)) xs)"
  using assms
proof (induction xs arbitrary: a n)
  case Nil
  then show ?case by (cases n) auto
next
  case (Cons x xs)
  then obtain m where n: "n = Suc m" by (cases n) auto
  from Cons.prems have "linked bs (x # xs @ [NBUF])" "b_next (bs ! a) = x" "x \<noteq> NBUF" by auto
  with Cons show ?case by (simp add: n)
qed

lemma walk_prev:
  assumes "linked bs (NBUF # xs @ [a])" and "NBUF \<notin> set xs" and "length xs < n"
  shows "walk_list n b_prev P bs (b_prev (bs ! a)) = Some (List.find (\<lambda>i. P (bs ! i)) (rev xs))"
  using assms
proof (induction xs arbitrary: a n rule: rev_induct)
  case Nil
  then show ?case by (cases n) auto
next
  case (snoc x xs)
  then obtain m where n: "n = Suc m" by (cases n) auto
  from snoc.prems(1) linked_append [of bs "NBUF # xs" x "[a]"]
  have "linked bs (NBUF # xs @ [x])" "b_prev (bs ! a) = x" by auto
  with snoc show ?case by (simp add: n)
qed

lemma length_upd_buf [simp]: "length (bufs (upd_buf b f s)) = length (bufs s)"
  by (simp add: upd_buf_def)

lemma bu_upd_buf: "b < length (bufs s) \<Longrightarrow> bu (upd_buf b f s) i = (if i = b then f (bu s b) else bu s i)"
  by (simp add: upd_buf_def)

definition push_bufs :: "nat \<Rightarrow> buf list \<Rightarrow> buf list" where
  "push_bufs b bs =
     (let bs = bs[b := (bs ! b)\<lparr>b_next := b_next (bs ! NBUF)\<rparr>];
          bs = bs[b := (bs ! b)\<lparr>b_prev := NBUF\<rparr>];
          bs = bs[b_next (bs ! NBUF) := (bs ! b_next (bs ! NBUF))\<lparr>b_prev := b\<rparr>]
      in bs[NBUF := (bs ! NBUF)\<lparr>b_next := b\<rparr>])"

lemma push_front_bufs: "push_front b s = s\<lparr>bufs := push_bufs b (bufs s)\<rparr>"
  by (simp add: push_front_def push_bufs_def upd_buf_def Let_def)

definition same_content :: "buf list \<Rightarrow> buf list \<Rightarrow> bool" where
  "same_content bs cs \<longleftrightarrow> length cs = length bs
     \<and> (\<forall>i<length bs. cs ! i = (bs ! i)\<lparr>b_prev := b_prev (cs ! i), b_next := b_next (cs ! i)\<rparr>)"

lemma same_content_refl [simp]: "same_content bs bs"
  by (simp add: same_content_def)

lemma same_content_trans: "same_content as bs \<Longrightarrow> same_content bs cs \<Longrightarrow> same_content as cs"
proof -
  have "x = (y :: buf)\<lparr>b_prev := p, b_next := n\<rparr> \<Longrightarrow> y = z\<lparr>b_prev := p', b_next := n'\<rparr> \<Longrightarrow> x = z\<lparr>b_prev := p, b_next := n\<rparr>"
    for x y z p n p' n' by simp
  then show "same_content as bs \<Longrightarrow> same_content bs cs \<Longrightarrow> same_content as cs"
    unfolding same_content_def by (metis (no_types))
qed

lemma same_content_upd:
  assumes "x = (bs ! c)\<lparr>b_prev := b_prev x, b_next := b_next x\<rparr>"
  shows "same_content bs (bs[c := x])"
proof -
  have "bs[c := x] ! i = (bs ! i)\<lparr>b_prev := b_prev (bs[c := x] ! i), b_next := b_next (bs[c := x] ! i)\<rparr>" if "i < length bs" for i
    using assms that by (cases "c = i") simp_all
  then show ?thesis by (simp add: same_content_def)
qed

lemma push_bufs_content: "same_content bs (push_bufs b bs)"
  unfolding push_bufs_def Let_def by (intro same_content_trans [OF same_content_upd same_content_trans
    [OF same_content_upd same_content_trans [OF same_content_upd same_content_upd]]]) simp_all

lemma push_bufs_linked:
  assumes "linked bs (NBUF # xs @ [NBUF])" and "distinct xs" and "set xs \<subseteq> {..<NBUF}" and "b < NBUF" and "b \<notin> set xs"
    and "length bs = NBUF + 1"
  shows "linked (push_bufs b bs) (NBUF # b # xs @ [NBUF])"
proof -
  obtain f r where fr: "xs @ [NBUF] = f # r" by (cases xs) auto
  have f: "b_next (bs ! NBUF) = f" "linked bs (f # r)" using assms(1) fr by auto
  have fin: "f < length bs" "f \<noteq> b"
  proof -
    have "f \<in> set (xs @ [NBUF])" unfolding fr by simp
    then show "f < length bs" "f \<noteq> b" using assms by auto
  qed
  have nb: "b \<notin> set (f # r)" using assms(4,5) unfolding fr [symmetric] by auto
  have nf: "f \<notin> set r" using assms(2,3) fr by (cases xs) auto
  have nN: "NBUF \<notin> set (butlast (f # r))" using assms(3) unfolding fr [symmetric] by auto
  define b1 where "b1 = bs[b := (bs ! b)\<lparr>b_next := f\<rparr>]"
  define b2 where "b2 = b1[b := (b1 ! b)\<lparr>b_prev := NBUF\<rparr>]"
  define b3 where "b3 = b2[f := (b2 ! f)\<lparr>b_prev := b\<rparr>]"
  define b4 where "b4 = b3[NBUF := (b3 ! NBUF)\<lparr>b_next := b\<rparr>]"
  have p: "push_bufs b bs = b4"
    using f assms(4,6) by (simp add: push_bufs_def Let_def b1_def b2_def b3_def b4_def)
  have l1: "linked b1 (f # r)" unfolding b1_def using f(2) nb assms(4,6)
    by (subst linked_upd) (auto dest: in_set_butlastD simp del: linked.simps butlast.simps)
  have l2: "linked b2 (f # r)" unfolding b2_def using l1 nb assms(4,6)
    by (subst linked_upd) (auto dest: in_set_butlastD simp: b1_def simp del: linked.simps butlast.simps)
  have l3: "linked b3 (f # r)" unfolding b3_def using l2 nf fin(1)
    by (subst linked_upd) (auto simp: b1_def b2_def simp del: linked.simps)
  have l4: "linked b4 (f # r)" unfolding b4_def using l3 nN assms(6)
    by (subst linked_upd) (auto simp: b1_def b2_def b3_def simp del: linked.simps)
  have "b_next (b4 ! NBUF) = b" "b_prev (b4 ! b) = NBUF" "b_next (b4 ! b) = f" "b_prev (b4 ! f) = b"
    using assms(4,6) fin by (auto simp: b4_def b3_def b2_def b1_def nth_list_update)
  then show ?thesis using l4 fr p by simp
qed

definition unlink_bufs :: "nat \<Rightarrow> buf list \<Rightarrow> buf list" where
  "unlink_bufs b bs =
     (let bs = bs[b_next (bs ! b) := (bs ! b_next (bs ! b))\<lparr>b_prev := b_prev (bs ! b)\<rparr>]
      in bs[b_prev (bs ! b) := (bs ! b_prev (bs ! b))\<lparr>b_next := b_next (bs ! b)\<rparr>])"

lemma unlink_bufs_content: "same_content bs (unlink_bufs b bs)"
  unfolding unlink_bufs_def Let_def by (intro same_content_trans [OF same_content_upd same_content_upd]) simp_all

lemma unlink_bufs_linked:
  assumes "linked bs (NBUF # us @ b # vs @ [NBUF])" and "distinct (us @ b # vs)" and "set (us @ b # vs) \<subseteq> {..<NBUF}"
    and "length bs = NBUF + 1"
  shows "linked (unlink_bufs b bs) (NBUF # us @ vs @ [NBUF])"
proof -
  obtain as p where p: "NBUF # us = as @ [p]" by (cases "NBUF # us" rule: rev_cases) auto
  obtain n cs where n: "vs @ [NBUF] = n # cs" by (cases vs) auto
  have "NBUF # us @ b # vs @ [NBUF] = as @ p # b # n # cs" using p n by (metis append.assoc append_Cons append_Nil)
  then have L: "linked bs (as @ [p])" "b_next (bs ! p) = b" "b_prev (bs ! b) = p" "b_next (bs ! b) = n" "b_prev (bs ! n) = b"
    "linked bs (n # cs)"
    using assms(1) linked_append [of bs as p "b # n # cs"] by auto
  have b: "b < NBUF" "b \<notin> set us" "b \<notin> set vs" using assms(2,3) by auto
  have inp: "p \<in> set (NBUF # us)" "set as \<subseteq> set (NBUF # us)" unfolding p by auto
  have inn: "n \<in> set (vs @ [NBUF])" "set cs \<subseteq> set (vs @ [NBUF])" unfolding n by auto
  have nb: "n \<noteq> b" "p \<noteq> b" using inp inn b by auto
  have lt: "n < length bs" "p < length bs" using inp inn assms(3,4) by auto
  define b1 where "b1 = bs[n := (bs ! n)\<lparr>b_prev := p\<rparr>]"
  define b2 where "b2 = b1[p := (b1 ! p)\<lparr>b_next := n\<rparr>]"
  have e: "unlink_bufs b bs = b2"
    using L nb by (simp add: unlink_bufs_def Let_def b1_def b2_def)
  have "distinct (NBUF # us)" "distinct (vs @ [NBUF])" using assms(2,3) by auto
  then have d: "p \<notin> set as" "n \<notin> set cs" unfolding p n by auto
  have ntl: "n \<notin> set (tl (as @ [p]))"
    unfolding p [symmetric] using inn assms(2,3) by auto
  have pbl: "p \<notin> set (butlast (n # cs))"
    unfolding n [symmetric] using inp assms(2,3) by auto
  have "linked b1 (as @ [p])" unfolding b1_def using L(1) lt ntl by (subst linked_upd) auto
  then have l1: "linked b2 (as @ [p])" unfolding b2_def using lt d by (subst linked_upd) (auto simp: b1_def)
  have "linked b1 (n # cs)" unfolding b1_def using L(6) lt d by (subst linked_upd) (auto simp del: linked.simps)
  then have l2: "linked b2 (n # cs)" unfolding b2_def using lt pbl
    by (subst linked_upd) (auto simp: b1_def simp del: linked.simps butlast.simps)
  have "b_next (b2 ! p) = n" "b_prev (b2 ! n) = p" using lt by (auto simp: b2_def b1_def nth_list_update)
  then have "linked b2 (as @ p # n # cs)" using l1 l2 linked_append [of b2 as p "n # cs"] by simp
  moreover have "NBUF # us @ vs @ [NBUF] = as @ p # n # cs" using p n by (metis append.assoc append_Cons append_Nil)
  ultimately show ?thesis using e by metis
qed

lemma move_to_front:
  assumes "lru bs xs" and "b < NBUF"
  shows "lru (push_bufs b (unlink_bufs b bs)) (b # remove1 b xs)"
proof -
  have "b \<in> set xs" using assms by (simp add: lru_def)
  then obtain us vs where x: "xs = us @ b # vs" "b \<notin> set us" by (meson split_list_first)
  then have r: "remove1 b xs = us @ vs" by (simp add: remove1_append)
  have d: "distinct (us @ b # vs)" "set (us @ b # vs) = {..<NBUF}" "linked bs (NBUF # us @ b # vs @ [NBUF])"
    "length bs = NBUF + 1" using assms x by (simp_all add: lru_def)
  have "length (unlink_bufs b bs) = NBUF + 1" "length (push_bufs b (unlink_bufs b bs)) = NBUF + 1"
    using unlink_bufs_content [of bs b] push_bufs_content [of "unlink_bufs b bs" b] d(4) by (simp_all add: same_content_def)
  moreover have "linked (push_bufs b (unlink_bufs b bs)) (NBUF # b # (us @ vs) @ [NBUF])"
    using d calculation(1) by (intro push_bufs_linked) (auto intro: unlink_bufs_linked)
  moreover have "set (b # us @ vs) = {..<NBUF}" "distinct (b # us @ vs)" using d by auto
  ultimately show ?thesis unfolding lru_def r by simp
qed

section \<open>Sleeplocks that nobody else holds\<close>

lemma acquiresleep_free:
  assumes "in_proc p s" and "l \<notin> set (held s)" and "sl_locked (sleeplocks s l) = 0"
  shows "acquiresleep l s = Ok () (set_sleeplock l \<lparr>sl_locked = 1, sl_pid = p_pid (pr s p)\<rparr> s)"
  using assms by (simp add: acquiresleep_def in_proc_def with_proc_def myproc_def set_sleeplock_def)

lemma holdingsleep_eq:
  assumes "in_proc p s" and "l \<notin> set (held s)"
  shows "holdingsleep l s = Ok (sl_locked (sleeplocks s l) \<noteq> 0 \<and> sl_pid (sleeplocks s l) = p_pid (pr s p)) s"
  using assms by (simp add: holdingsleep_def in_proc_def with_proc_def myproc_def)

lemma woken_only_release:
  assumes "woken_only (s\<lparr>held := l # held s\<rparr>) t"
  shows "woken_only s (t\<lparr>held := held s\<rparr>)"
proof -
  have "t = s\<lparr>held := l # held s, procs := procs t, queue_counter := queue_counter t\<rparr>"
    using assms by (simp add: woken_only_def)
  then have "t\<lparr>held := held s\<rparr> = s\<lparr>held := l # held s, procs := procs t, queue_counter := queue_counter t\<rparr>\<lparr>held := held s\<rparr>"
    by (rule arg_cong)
  then show ?thesis using assms by (simp add: woken_only_def)
qed

lemma releasesleep_spec:
  assumes "in_proc p s" and "l \<notin> set (held s)" and "\<forall>q. l \<noteq> Proc_lock q" and "l \<noteq> Queue_lock"
  shows "\<exists>t. releasesleep l s = Ok () t \<and> woken_only (set_sleeplock l \<lparr>sl_locked = 0, sl_pid = 0\<rparr> s) t \<and> in_proc p t"
proof -
  let ?s = "set_sleeplock l \<lparr>sl_locked = 0, sl_pid = 0\<rparr> s"
  have "in_proc p (?s\<lparr>held := l # held ?s\<rparr>)" using assms by (auto simp: in_proc_def set_sleeplock_def)
  from wakeup_woken [OF this, of "sl_chan l"] obtain t where
    t: "wakeup (sl_chan l) (?s\<lparr>held := l # held ?s\<rparr>) = Ok () t" "woken_only (?s\<lparr>held := l # held ?s\<rparr>) t" "in_proc p t" by blast
  have h: "held t = l # held s" using woken_onlyD(1) [OF t(2)] by (simp add: set_sleeplock_def)
  have "set_sleeplock l \<lparr>sl_locked = 0, sl_pid = 0\<rparr> (s\<lparr>held := l # held s\<rparr>) = ?s\<lparr>held := l # held ?s\<rparr>"
    by (simp add: set_sleeplock_def)
  then have "releasesleep l s = Ok () (t\<lparr>held := held s\<rparr>)"
    using assms(2) t(1) h by (simp add: releasesleep_def)
  moreover have "woken_only ?s (t\<lparr>held := held s\<rparr>)"
    using woken_only_release [OF t(2)] by (simp add: set_sleeplock_def)
  moreover have "in_proc p (t\<lparr>held := held s\<rparr>)" using t(3) assms(1) by (simp add: in_proc_def)
  ultimately show ?thesis by blast
qed

section \<open>The cache as an array of blocks\<close>

definition bcontent :: "buf \<Rightarrow> bool \<times> u32 \<times> u32 \<times> u8 list" where
  "bcontent x = (b_valid x, b_dev x, b_blockno x, b_data x)"

definition bview :: "'z bio_state_scheme \<Rightarrow> u32 \<Rightarrow> u8 list" where
  "bview s n = (case List.find (\<lambda>i. b_valid (bu s i) \<and> b_dev (bu s i) = ROOTDEV \<and> b_blockno (bu s i) = n) [0..<NBUF] of
     Some i \<Rightarrow> b_data (bu s i) | None \<Rightarrow> disk s n)"

text \<open>
  The state of the cache while process \<^verbatim>\<open>p\<close> holds the buffers in \<^verbatim>\<open>L\<close> and nobody else holds one; \<^verbatim>\<open>pins i\<close> is the part of the
  reference count that \<^verbatim>\<open>bpin\<close> has added. Every block has at most one buffer, and a buffer that is neither held nor
  pinned has the content of its disk block, so that it may be recycled.
\<close>

definition cache_inv :: "nat \<Rightarrow> nat set \<Rightarrow> (nat \<Rightarrow> nat) \<Rightarrow> 'z bio_state_scheme \<Rightarrow> bool" where
  "cache_inv p L pins s \<longleftrightarrow>
     in_proc p s \<and> Bcache_lock \<notin> set (held s) \<and> (\<forall>i. Buf_lk i \<notin> set (held s)) \<and> (\<exists>xs. lru (bufs s) xs) \<and> L \<subseteq> {..<NBUF}
     \<and> (\<forall>i<NBUF. \<forall>j<NBUF. b_dev (bu s i) = ROOTDEV \<and> b_dev (bu s j) = ROOTDEV \<and> b_blockno (bu s i) = b_blockno (bu s j) \<longrightarrow> i = j)
     \<and> (\<forall>i<NBUF. b_refcnt (bu s i) = of_nat (pins i + (if i \<in> L then 1 else 0)) \<and> pins i < 1000)
     \<and> (\<forall>i<NBUF. sl_locked (sleeplocks s (Buf_lk i)) \<noteq> 0 \<longleftrightarrow> i \<in> L)
     \<and> (\<forall>i\<in>L. sl_pid (sleeplocks s (Buf_lk i)) = p_pid (pr s p))
     \<and> (\<forall>i<NBUF. i \<in> L \<or> 0 < pins i \<longrightarrow> b_valid (bu s i) \<and> b_dev (bu s i) = ROOTDEV)
     \<and> (\<forall>i<NBUF. b_valid (bu s i) \<longrightarrow> length (b_data (bu s i)) = BSIZE) \<and> (\<forall>n. length (disk s n) = BSIZE)
     \<and> (\<forall>i<NBUF. b_valid (bu s i) \<and> b_dev (bu s i) = ROOTDEV \<and> i \<notin> L \<and> pins i = 0 \<longrightarrow> b_data (bu s i) = disk s (b_blockno (bu s i)))"

text \<open>What the operations on buffers leave alone.\<close>

definition bio_frame :: "'z bio_state_scheme \<Rightarrow> 'z bio_state_scheme \<Rightarrow> bool" where
  "bio_frame s t \<longleftrightarrow> held t = held s \<and> curproc t = curproc s \<and> length (procs t) = length (procs s)
     \<and> (\<forall>q<NPROC. pr t q = (pr s q)\<lparr>p_queue_location := p_queue_location (pr t q), p_state := p_state (pr t q)\<rparr>)
     \<and> (\<forall>j. sleeplocks t (Inode_lk j) = sleeplocks s (Inode_lk j))
     \<and> mem t = mem s \<and> freelist t = freelist s \<and> k_end t = k_end s \<and> bio_state.more t = bio_state.more s"

lemma bio_frame_refl [simp]: "bio_frame s s"
  by (simp add: bio_frame_def)

lemma proc_upd2_trans:
  "x = (y :: proc)\<lparr>p_queue_location := a, p_state := b\<rparr> \<Longrightarrow> y = z\<lparr>p_queue_location := a', p_state := b'\<rparr> \<Longrightarrow>
     x = z\<lparr>p_queue_location := a, p_state := b\<rparr>"
  by simp

lemma bio_frame_trans: "bio_frame s t \<Longrightarrow> bio_frame t u \<Longrightarrow> bio_frame s u"
  unfolding bio_frame_def by (auto intro: proc_upd2_trans)

interpretation bf: step_rel bio_frame
  by unfold_locales (auto intro: bio_frame_trans)

lemma bio_frame_pid: "bio_frame s t \<Longrightarrow> q < NPROC \<Longrightarrow> p_pid (pr t q) = p_pid (pr s q)"
proof -
  assume "bio_frame s t" "q < NPROC"
  then have "pr t q = (pr s q)\<lparr>p_queue_location := p_queue_location (pr t q), p_state := p_state (pr t q)\<rparr>"
    by (simp add: bio_frame_def)
  then have "p_pid (pr t q) = p_pid ((pr s q)\<lparr>p_queue_location := p_queue_location (pr t q), p_state := p_state (pr t q)\<rparr>)"
    by (rule arg_cong)
  then show ?thesis by simp
qed

lemma bview_cong:
  assumes "\<forall>i<NBUF. bcontent (bu t i) = bcontent (bu s i)" and "disk t = disk s"
  shows "bview t = bview s"
proof
  fix n
  have c: "b_valid (bu t i) = b_valid (bu s i)" "b_dev (bu t i) = b_dev (bu s i)" "b_blockno (bu t i) = b_blockno (bu s i)"
    "b_data (bu t i) = b_data (bu s i)" if "i < NBUF" for i
    using assms(1) that by (simp_all add: bcontent_def)
  let ?f = "List.find (\<lambda>i. b_valid (bu s i) \<and> b_dev (bu s i) = ROOTDEV \<and> b_blockno (bu s i) = n) [0..<NBUF]"
  have f: "List.find (\<lambda>i. b_valid (bu t i) \<and> b_dev (bu t i) = ROOTDEV \<and> b_blockno (bu t i) = n) [0..<NBUF] = ?f"
    using c by (intro find_cong) auto
  show "bview t n = bview s n"
  proof (cases ?f)
    case None
    then show ?thesis by (simp add: bview_def f assms(2))
  next
    case (Some i)
    moreover from Some have "i < NBUF" by (auto simp: find_Some_iff)
    ultimately show ?thesis using c by (simp add: bview_def f)
  qed
qed

lemma bview_cached:
  assumes "i < NBUF" and "b_valid (bu s i)" and "b_dev (bu s i) = ROOTDEV"
    and "\<forall>i<NBUF. \<forall>j<NBUF. b_dev (bu s i) = ROOTDEV \<and> b_dev (bu s j) = ROOTDEV \<and> b_blockno (bu s i) = b_blockno (bu s j) \<longrightarrow> i = j"
  shows "bview s (b_blockno (bu s i)) = b_data (bu s i)"
proof (cases "List.find (\<lambda>j. b_valid (bu s j) \<and> b_dev (bu s j) = ROOTDEV \<and> b_blockno (bu s j) = b_blockno (bu s i)) [0..<NBUF]")
  case None
  then show ?thesis using assms(1-3) by (auto simp: find_None_iff)
next
  case (Some j)
  then have "j < NBUF" "b_dev (bu s j) = ROOTDEV" "b_blockno (bu s j) = b_blockno (bu s i)"
    by (auto simp: find_Some_iff)
  then have "j = i" using assms by blast
  then show ?thesis using Some by (simp add: bview_def)
qed

lemma bview_uncached:
  assumes "\<forall>i<NBUF. b_valid (bu s i) \<and> b_dev (bu s i) = ROOTDEV \<longrightarrow> b_blockno (bu s i) \<noteq> n"
  shows "bview s n = disk s n"
proof -
  have "List.find (\<lambda>i. b_valid (bu s i) \<and> b_dev (bu s i) = ROOTDEV \<and> b_blockno (bu s i) = n) [0..<NBUF] = None"
    using assms by (auto simp: find_None_iff)
  then show ?thesis by (simp add: bview_def)
qed

section \<open>Reading a block\<close>

lemma cache_invD:
  assumes "cache_inv p L pins s"
  shows "in_proc p s" "Bcache_lock \<notin> set (held s)" "Buf_lk i \<notin> set (held s)" "\<exists>xs. lru (bufs s) xs" "L \<subseteq> {..<NBUF}"
    "\<forall>i<NBUF. \<forall>j<NBUF. b_dev (bu s i) = ROOTDEV \<and> b_dev (bu s j) = ROOTDEV \<and> b_blockno (bu s i) = b_blockno (bu s j) \<longrightarrow> i = j"
    "i < NBUF \<Longrightarrow> b_refcnt (bu s i) = of_nat (pins i + (if i \<in> L then 1 else 0))" "i < NBUF \<Longrightarrow> pins i < 1000"
    "i < NBUF \<Longrightarrow> sl_locked (sleeplocks s (Buf_lk i)) \<noteq> 0 \<longleftrightarrow> i \<in> L"
    "i \<in> L \<Longrightarrow> sl_pid (sleeplocks s (Buf_lk i)) = p_pid (pr s p)"
    "i < NBUF \<Longrightarrow> i \<in> L \<or> 0 < pins i \<Longrightarrow> b_valid (bu s i) \<and> b_dev (bu s i) = ROOTDEV"
    "i < NBUF \<Longrightarrow> b_valid (bu s i) \<Longrightarrow> length (b_data (bu s i)) = BSIZE" "length (disk s n) = BSIZE"
    "i < NBUF \<Longrightarrow> b_valid (bu s i) \<Longrightarrow> b_dev (bu s i) = ROOTDEV \<Longrightarrow> i \<notin> L \<Longrightarrow> pins i = 0 \<Longrightarrow> b_data (bu s i) = disk s (b_blockno (bu s i))"
  using assms unfolding cache_inv_def by (simp_all, auto)

lemma refcnt_zero:
  assumes "cache_inv p L pins s" and "i < NBUF"
  shows "b_refcnt (bu s i) = 0 \<longleftrightarrow> i \<notin> L \<and> pins i = 0"
proof -
  have "pins i + (if i \<in> L then 1 else 0) < 2 ^ 32" using cache_invD(8) [OF assms] by (simp split: if_splits)
  then have "unat (b_refcnt (bu s i)) = pins i + (if i \<in> L then 1 else 0)"
    using cache_invD(7) [OF assms] by (simp add: unat_of_nat take_bit_nat_eq_self del: of_nat_add)
  then show ?thesis by (auto simp: word_unat_eq_iff split: if_splits)
qed

lemma find_SomeD: "List.find P xs = Some x \<Longrightarrow> x \<in> set xs \<and> P x"
  by (induction xs) (auto split: if_splits)

lemma bget_lock_free:
  assumes "in_proc p (s\<lparr>held := h\<rparr>)" and "held s = Bcache_lock # h" and "Buf_lk b \<notin> set h" and "sl_locked (sleeplocks s (Buf_lk b)) = 0"
  shows "bget_lock b s = Ok b (set_sleeplock (Buf_lk b) \<lparr>sl_locked = 1, sl_pid = p_pid (pr s p)\<rparr> (s\<lparr>held := h\<rparr>))"
  using assms acquiresleep_free [OF assms(1), of "Buf_lk b"] by (simp add: bget_lock_def)

text \<open>The state in which \<^verbatim>\<open>bread\<close> returns buffer \<^verbatim>\<open>b\<close> for block \<^verbatim>\<open>n\<close>.\<close>

definition bread_state :: "nat \<Rightarrow> nat \<Rightarrow> u32 \<Rightarrow> nat \<Rightarrow> 'z bio_state_scheme \<Rightarrow> 'z bio_state_scheme" where
  "bread_state p b n r s = set_sleeplock (Buf_lk b) \<lparr>sl_locked = 1, sl_pid = p_pid (pr s p)\<rparr>
     (upd_buf b (\<lambda>x. x\<lparr>b_valid := True, b_dev := ROOTDEV, b_blockno := n, b_refcnt := of_nat r, b_data := bview s n\<rparr>) s)"

definition is_cached :: "'z bio_state_scheme \<Rightarrow> u32 \<Rightarrow> bool" where
  "is_cached s n \<longleftrightarrow> (\<exists>i<NBUF. b_dev (bu s i) = ROOTDEV \<and> b_blockno (bu s i) = n)"

lemma bget_spec:
  assumes ci: "cache_inv p L pins s" and fresh: "\<forall>i\<in>L. b_blockno (bu s i) \<noteq> n"
    and room: "is_cached s n \<or> (\<exists>i<NBUF. i \<notin> L \<and> pins i = 0)"
  shows "\<exists>b f. bget ROOTDEV n s = Ok b (set_sleeplock (Buf_lk b) \<lparr>sl_locked = 1, sl_pid = p_pid (pr s p)\<rparr> (upd_buf b f s))
     \<and> b < NBUF \<and> b \<notin> L
     \<and> (if is_cached s n then b_dev (bu s b) = ROOTDEV \<and> b_blockno (bu s b) = n \<and> f = (\<lambda>x. x\<lparr>b_refcnt := b_refcnt x + 1\<rparr>)
        else pins b = 0 \<and> f = (\<lambda>x. x\<lparr>b_dev := ROOTDEV, b_blockno := n, b_valid := False, b_refcnt := 1\<rparr>))"
proof -
  note D = cache_invD [OF ci]
  from D(4) obtain xs where xs: "lru (bufs s) xs" by blast
  then have x: "linked (bufs s) (NBUF # xs @ [NBUF])" "NBUF \<notin> set xs" "set xs = {..<NBUF}" "length xs = NBUF" "length (bufs s) = NBUF + 1"
    using distinct_card [of xs] by (auto simp: lru_def)
  let ?find = "List.find (\<lambda>i. b_dev (bu s i) = ROOTDEV \<and> b_blockno (bu s i) = n) xs"
  have wn: "walk_list (NBUF + 1) b_next (\<lambda>x. b_dev x = ROOTDEV \<and> b_blockno x = n) (bufs s) (b_next (bu s NBUF)) = Some ?find"
    by (rule walk_next [OF x(1,2)]) (simp add: x(4))
  have wp: "walk_list (NBUF + 1) b_prev (\<lambda>x. b_refcnt x = 0) (bufs s) (b_prev (bu s NBUF))
      = Some (List.find (\<lambda>i. b_refcnt (bu s i) = 0) (rev xs))"
    by (rule walk_prev [OF x(1,2)]) (simp add: x(4))
  have lock: "bget_lock b (upd_buf b f (s\<lparr>held := Bcache_lock # held s\<rparr>))
      = Ok b (set_sleeplock (Buf_lk b) \<lparr>sl_locked = 1, sl_pid = p_pid (pr s p)\<rparr> (upd_buf b f s))" if "b < NBUF" "b \<notin> L" for b f
    using that D(1,3,9) by (subst bget_lock_free [where p = p and h = "held s"]) (auto simp: in_proc_def upd_buf_def)
  show ?thesis
  proof (cases "is_cached s n")
    case True
    then obtain b where f: "?find = Some b"
      using x(3) by (cases ?find) (auto simp: is_cached_def find_None_iff)
    from find_SomeD [OF f] have b: "b < NBUF" "b_dev (bu s b) = ROOTDEV" "b_blockno (bu s b) = n" using x(3) by auto
    have "b \<notin> L" using fresh b by auto
    then have "bget ROOTDEV n s = Ok b (set_sleeplock (Buf_lk b) \<lparr>sl_locked = 1, sl_pid = p_pid (pr s p)\<rparr>
        (upd_buf b (\<lambda>x. x\<lparr>b_refcnt := b_refcnt x + 1\<rparr>) s))"
      using D(2) lock [OF b(1)] by (simp add: bget_def wn f del: walk_list.simps One_nat_def add_Suc_right)
    with True b \<open>b \<notin> L\<close> show ?thesis by (intro exI [of _ b] exI) simp
  next
    case False
    then have f: "?find = None" using x(3) by (auto simp: is_cached_def find_None_iff)
    from False room obtain i where i: "i < NBUF" "b_refcnt (bu s i) = 0" using refcnt_zero [OF ci] by auto
    let ?g = "List.find (\<lambda>i. b_refcnt (bu s i) = 0) (rev xs)"
    obtain b where g: "?g = Some b" using i x(3) by (cases ?g) (auto simp: find_None_iff)
    from find_SomeD [OF g] have b: "b < NBUF" "b_refcnt (bu s b) = 0" using x(3) by auto
    then have "b \<notin> L" "pins b = 0" using refcnt_zero [OF ci] by auto
    then have "bget ROOTDEV n s = Ok b (set_sleeplock (Buf_lk b) \<lparr>sl_locked = 1, sl_pid = p_pid (pr s p)\<rparr>
        (upd_buf b (\<lambda>x. x\<lparr>b_dev := ROOTDEV, b_blockno := n, b_valid := False, b_refcnt := 1\<rparr>) s))"
      using D(2) lock [OF b(1)] by (simp add: bget_def wn wp f g del: walk_list.simps One_nat_def add_Suc_right)
    with False b \<open>b \<notin> L\<close> \<open>pins b = 0\<close> show ?thesis by (intro exI [of _ b] exI) simp
  qed
qed

lemma bread_eq:
  assumes ci: "cache_inv p L pins s" and fresh: "\<forall>i\<in>L. b_blockno (bu s i) \<noteq> n"
    and room: "is_cached s n \<or> (\<exists>i<NBUF. i \<notin> L \<and> pins i = 0)"
  shows "\<exists>b. bread ROOTDEV n s = Ok b (bread_state p b n (pins b + 1) s) \<and> b < NBUF \<and> b \<notin> L
     \<and> (if is_cached s n then b_dev (bu s b) = ROOTDEV \<and> b_blockno (bu s b) = n else pins b = 0)"
proof -
  note D = cache_invD [OF ci]
  from D(4) have len: "length (bufs s) = NBUF + 1" by (auto simp: lru_def)
  from bget_spec [OF ci fresh room] obtain b f where
    g: "bget ROOTDEV n s = Ok b (set_sleeplock (Buf_lk b) \<lparr>sl_locked = 1, sl_pid = p_pid (pr s p)\<rparr> (upd_buf b f s))"
    "b < NBUF" "b \<notin> L"
    "if is_cached s n then b_dev (bu s b) = ROOTDEV \<and> b_blockno (bu s b) = n \<and> f = (\<lambda>x. x\<lparr>b_refcnt := b_refcnt x + 1\<rparr>)
        else pins b = 0 \<and> f = (\<lambda>x. x\<lparr>b_dev := ROOTDEV, b_blockno := n, b_valid := False, b_refcnt := 1\<rparr>)" by blast
  have r: "b_refcnt (bu s b) = of_nat (pins b)" using D(7) [OF g(2)] g(3) by simp
  have lt: "b < length (bufs s)" using g(2) len by simp
  show ?thesis
  proof (cases "is_cached s n")
    case True
    then have b: "b_dev (bu s b) = ROOTDEV" "b_blockno (bu s b) = n" "f = (\<lambda>x. x\<lparr>b_refcnt := b_refcnt x + 1\<rparr>)" using g(4) by auto
    show ?thesis
    proof (cases "b_valid (bu s b)")
      case True
      then have "bview s n = b_data (bu s b)" using bview_cached [OF g(2) True b(1) D(6)] b(2) by simp
      then have "f (bu s b) = (bu s b)\<lparr>b_valid := True, b_dev := ROOTDEV, b_blockno := n,
          b_refcnt := of_nat (pins b + 1), b_data := bview s n\<rparr>"
        using True b r by (cases "bu s b") (simp add: add.commute)
      then have "upd_buf b f s = upd_buf b (\<lambda>x. x\<lparr>b_valid := True, b_dev := ROOTDEV, b_blockno := n,
          b_refcnt := of_nat (pins b + 1), b_data := bview s n\<rparr>) s"
        by (simp add: upd_buf_def)
      then show ?thesis
        using g b True lt \<open>is_cached s n\<close> by (auto simp: bread_def bread_state_def set_sleeplock_def bu_upd_buf)
    next
      case False
      have "bview s n = disk s n"
        using D(6) b(1,2) g(2) False by (intro bview_uncached) metis
      then have "(bu s b)\<lparr>b_valid := True, b_dev := ROOTDEV, b_blockno := n, b_refcnt := of_nat (pins b + 1), b_data := bview s n\<rparr>
          = (bu s b)\<lparr>b_refcnt := b_refcnt (bu s b) + 1, b_data := disk s n, b_valid := True\<rparr>"
        using b(1,2) r by (cases "bu s b") (simp add: add.commute)
      then have st: "bread_state p b n (pins b + 1) s = set_sleeplock (Buf_lk b) \<lparr>sl_locked = 1, sl_pid = p_pid (pr s p)\<rparr>
          (upd_buf b (\<lambda>x. x\<lparr>b_refcnt := b_refcnt x + 1, b_data := disk s n, b_valid := True\<rparr>) s)"
        by (simp only: bread_state_def upd_buf_def)
      have "bread ROOTDEV n s = Ok b (bread_state p b n (pins b + 1) s)"
        unfolding st using g(1) b False lt
        by (simp add: bread_def set_sleeplock_def disk_rw_def upd_buf_def)
      then show ?thesis using g(2,3) b \<open>is_cached s n\<close> by auto
    qed
  next
    case False
    have "bview s n = disk s n" using False by (intro bview_uncached) (auto simp: is_cached_def)
    moreover from False g(4) have f: "pins b = 0" "f = (\<lambda>x. x\<lparr>b_dev := ROOTDEV, b_blockno := n, b_valid := False, b_refcnt := 1\<rparr>)" by auto
    ultimately have "(bu s b)\<lparr>b_valid := True, b_dev := ROOTDEV, b_blockno := n, b_refcnt := of_nat (pins b + 1), b_data := bview s n\<rparr>
        = (f (bu s b))\<lparr>b_data := disk s n, b_valid := True\<rparr>"
      by (cases "bu s b") simp
    then have st: "bread_state p b n (pins b + 1) s = set_sleeplock (Buf_lk b) \<lparr>sl_locked = 1, sl_pid = p_pid (pr s p)\<rparr>
        (upd_buf b (\<lambda>x. (f x)\<lparr>b_data := disk s n, b_valid := True\<rparr>) s)"
      by (simp only: bread_state_def upd_buf_def)
    have "bread ROOTDEV n s = Ok b (bread_state p b n (pins b + 1) s)"
      unfolding st using g(1) f lt by (simp add: bread_def set_sleeplock_def disk_rw_def upd_buf_def)
    then show ?thesis using g(2-4) False by auto
  qed
qed

text \<open>
  The contract of \<^verbatim>\<open>bread\<close>: the buffer it returns holds the block and is locked; no block and no other buffer changes.
\<close>

lemma bread_spec:
  assumes ci: "cache_inv p L pins s" and fresh: "\<forall>i\<in>L. b_blockno (bu s i) \<noteq> n"
    and room: "is_cached s n \<or> (\<exists>i<NBUF. i \<notin> L \<and> pins i = 0)"
  shows "\<exists>b t. bread ROOTDEV n s = Ok b t \<and> b < NBUF \<and> b \<notin> L \<and> cache_inv p (insert b L) pins t
     \<and> b_blockno (bu t b) = n \<and> b_data (bu t b) = bview s n \<and> bview t = bview s \<and> disk t = disk s \<and> dwrites t = dwrites s
     \<and> (\<forall>i<NBUF. i \<noteq> b \<longrightarrow> bu t i = bu s i) \<and> bio_frame s t
     \<and> (if is_cached s n then b_dev (bu s b) = ROOTDEV \<and> b_blockno (bu s b) = n else pins b = 0)"
proof -
  note D = cache_invD [OF ci]
  from bread_eq [OF assms] obtain b where
    b: "bread ROOTDEV n s = Ok b (bread_state p b n (pins b + 1) s)" "b < NBUF" "b \<notin> L"
      "if is_cached s n then b_dev (bu s b) = ROOTDEV \<and> b_blockno (bu s b) = n else pins b = 0" by blast
  define t where t: "t = bread_state p b n (pins b + 1) s"
  from D(4) obtain xs where xs: "lru (bufs s) xs" by blast
  then have len: "length (bufs s) = NBUF + 1" by (simp add: lru_def)
  have bt: "bu t i = (if i = b then (bu s b)\<lparr>b_valid := True, b_dev := ROOTDEV, b_blockno := n,
      b_refcnt := of_nat (pins b + 1), b_data := bview s n\<rparr> else bu s i)" for i
    using b(2) len by (simp add: t bread_state_def set_sleeplock_def upd_buf_def)
  have ft: "held t = held s" "curproc t = curproc s" "procs t = procs s" "disk t = disk s" "dwrites t = dwrites s"
    "sleeplocks t = (sleeplocks s)(Buf_lk b := \<lparr>sl_locked = 1, sl_pid = p_pid (pr s p)\<rparr>)" "mem t = mem s"
    "freelist t = freelist s" "k_end t = k_end s" "bio_state.more t = bio_state.more s" "length (bufs t) = length (bufs s)"
    by (simp_all add: t bread_state_def set_sleeplock_def upd_buf_def)
  have other: "b_blockno (bu s i) \<noteq> n" if "i < NBUF" "i \<noteq> b" "b_dev (bu s i) = ROOTDEV" for i
    using that b(4) D(6) b(2) by (auto simp: is_cached_def split: if_splits)
  have "lru (bufs t) xs"
    using xs unfolding lru_def ft(11) by (subst linked_same [where bs = "bufs s"]) (auto simp: bt)
  then have lru: "\<exists>xs. lru (bufs t) xs" ..
  have lv: "length (bview s n) = BSIZE"
    using D(12,13) by (auto simp: bview_def split: option.splits dest: find_SomeD)
  have uniq: "\<forall>i<NBUF. \<forall>j<NBUF. b_dev (bu t i) = ROOTDEV \<and> b_dev (bu t j) = ROOTDEV \<and> b_blockno (bu t i) = b_blockno (bu t j) \<longrightarrow> i = j"
  proof (intro allI impI)
    fix i j assume "i < NBUF" "j < NBUF"
      "b_dev (bu t i) = ROOTDEV \<and> b_dev (bu t j) = ROOTDEV \<and> b_blockno (bu t i) = b_blockno (bu t j)"
    then show "i = j" using D(6) other [of i] other [of j] by (cases "i = b"; cases "j = b") (auto simp: bt)
  qed
  have cnt: "b_refcnt (bu t i) = of_nat (pins i + (if i \<in> insert b L then 1 else 0)) \<and> pins i < 1000" if "i < NBUF" for i
    using D(7,8) [OF that] by (auto simp: bt)
  have lck: "sl_locked (sleeplocks t (Buf_lk i)) \<noteq> 0 \<longleftrightarrow> i \<in> insert b L" if "i < NBUF" for i
    using D(9) [OF that] by (simp add: ft)
  have pid: "sl_pid (sleeplocks t (Buf_lk i)) = p_pid (pr t p)" if "i \<in> insert b L" for i
    using D(10) that by (auto simp: ft)
  have val: "b_valid (bu t i) \<and> b_dev (bu t i) = ROOTDEV" if "i < NBUF" "i \<in> insert b L \<or> 0 < pins i" for i
    using D(11) that by (auto simp: bt)
  have lens: "length (b_data (bu t i)) = BSIZE" if "i < NBUF" "b_valid (bu t i)" for i
    using D(12) that lv by (auto simp: bt split: if_splits)
  have clean: "b_data (bu t i) = disk t (b_blockno (bu t i))"
    if "i < NBUF" "b_valid (bu t i)" "b_dev (bu t i) = ROOTDEV" "i \<notin> insert b L" "pins i = 0" for i
    using D(14) that by (auto simp: bt ft)
  have ci': "cache_inv p (insert b L) pins t"
    unfolding cache_inv_def
  proof (intro conjI)
    show "in_proc p t" using D(1) by (simp add: in_proc_def ft)
    show "insert b L \<subseteq> {..<NBUF}" using D(5) b(2) by simp
  qed (use D(2,3,13) lru uniq cnt lck pid val lens clean in \<open>simp_all add: ft\<close>)
  have view: "bview t = bview s"
  proof
    fix m
    show "bview t m = bview s m"
    proof (cases "m = n")
      case True
      have "\<forall>i<NBUF. \<forall>j<NBUF. b_dev (bu t i) = ROOTDEV \<and> b_dev (bu t j) = ROOTDEV \<and> b_blockno (bu t i) = b_blockno (bu t j) \<longrightarrow> i = j"
        using cache_invD(6) [OF ci'] .
      from bview_cached [OF b(2) _ _ this] show ?thesis using True by (simp add: bt)
    next
      case False
      note u = cache_invD(6) [OF ci']
      show ?thesis
      proof (cases "\<exists>i<NBUF. i \<noteq> b \<and> b_valid (bu s i) \<and> b_dev (bu s i) = ROOTDEV \<and> b_blockno (bu s i) = m")
        case True
        then obtain i where i: "i < NBUF" "i \<noteq> b" "b_valid (bu s i)" "b_dev (bu s i) = ROOTDEV" "b_blockno (bu s i) = m" by blast
        have "bview t m = b_data (bu s i)" using bview_cached [OF i(1) _ _ u] i by (simp add: bt)
        moreover have "bview s m = b_data (bu s i)" using bview_cached [OF i(1,3,4) D(6)] i(5) by simp
        ultimately show ?thesis by simp
      next
        case none: False
        then have "bview t m = disk s m" using False ft(4) by (subst bview_uncached) (auto simp: bt)
        moreover have "bview s m = disk s m"
        proof (cases "b_valid (bu s b) \<and> b_dev (bu s b) = ROOTDEV \<and> b_blockno (bu s b) = m")
          case True
          then have "pins b = 0" using b(4) False by (auto split: if_splits)
          then have "b_data (bu s b) = disk s m" using True D(14) [OF b(2)] b(3) by simp
          then show ?thesis using bview_cached [OF b(2) _ _ D(6)] True by simp
        next
          case False
          then show ?thesis using none by (intro bview_uncached) blast
        qed
        ultimately show ?thesis by simp
      qed
    qed
  qed
  have "bread ROOTDEV n s = Ok b t" using b(1) by (simp only: t)
  moreover have "b_blockno (bu t b) = n" "b_data (bu t b) = bview s n" "\<forall>i<NBUF. i \<noteq> b \<longrightarrow> bu t i = bu s i" by (simp_all add: bt)
  moreover have "bio_frame s t" by (simp add: bio_frame_def ft)
  ultimately show ?thesis using b(2-4) ci' view ft(4,5) by blast
qed

section \<open>Writing, pinning and releasing\<close>

lemma cache_inv_bufs:
  assumes "cache_inv p L pins s"
  shows "length (bufs s) = NBUF + 1" "i \<in> L \<Longrightarrow> i < NBUF" "i \<in> L \<Longrightarrow> b_valid (bu s i) \<and> b_dev (bu s i) = ROOTDEV"
    "i < NBUF \<Longrightarrow> b_valid (bu s i) \<Longrightarrow> b_dev (bu s i) = ROOTDEV \<Longrightarrow> bview s (b_blockno (bu s i)) = b_data (bu s i)"
proof -
  note D = cache_invD [OF assms]
  show "length (bufs s) = NBUF + 1" using D(4) by (auto simp: lru_def)
  show lt: "i < NBUF" if "i \<in> L" using D(5) that by auto
  show "b_valid (bu s i) \<and> b_dev (bu s i) = ROOTDEV" if "i \<in> L" using D(11) [OF lt [OF that]] that by simp
  show "bview s (b_blockno (bu s i)) = b_data (bu s i)" if "i < NBUF" "b_valid (bu s i)" "b_dev (bu s i) = ROOTDEV"
    by (rule bview_cached [OF that D(6)])
qed

lemma bview_update:
  assumes ci: "cache_inv p L pins s" and b: "b < NBUF" "b_valid (bu s b)" "b_dev (bu s b) = ROOTDEV"
    and c: "\<forall>i<NBUF. bcontent (bu t i) = (if i = b then (True, ROOTDEV, b_blockno (bu s b), d) else bcontent (bu s i))"
    and k: "\<forall>n. n \<noteq> b_blockno (bu s b) \<longrightarrow> disk t n = disk s n"
  shows "bview t = (bview s)(b_blockno (bu s b) := d)"
proof
  fix m
  note u = cache_invD(6) [OF ci]
  have ct: "b_valid (bu t b)" "b_dev (bu t b) = ROOTDEV" "b_blockno (bu t b) = b_blockno (bu s b)" "b_data (bu t b) = d"
    using c b(1) by (auto simp: bcontent_def)
  have co: "b_valid (bu t i) = b_valid (bu s i)" "b_dev (bu t i) = b_dev (bu s i)" "b_blockno (bu t i) = b_blockno (bu s i)"
    "b_data (bu t i) = b_data (bu s i)" if "i < NBUF" "i \<noteq> b" for i
    using c that by (auto simp: bcontent_def)
  have ut: "\<forall>i<NBUF. \<forall>j<NBUF. b_dev (bu t i) = ROOTDEV \<and> b_dev (bu t j) = ROOTDEV \<and> b_blockno (bu t i) = b_blockno (bu t j) \<longrightarrow> i = j"
  proof (intro allI impI)
    fix i j assume "i < NBUF" "j < NBUF"
      "b_dev (bu t i) = ROOTDEV \<and> b_dev (bu t j) = ROOTDEV \<and> b_blockno (bu t i) = b_blockno (bu t j)"
    then show "i = j" using u b ct co [of i] co [of j] by (cases "i = b"; cases "j = b") auto
  qed
  show "bview t m = ((bview s)(b_blockno (bu s b) := d)) m"
  proof (cases "m = b_blockno (bu s b)")
    case True
    then show ?thesis using bview_cached [OF b(1) ct(1,2) ut] ct by simp
  next
    case ne: False
    show ?thesis
    proof (cases "\<exists>i<NBUF. b_valid (bu s i) \<and> b_dev (bu s i) = ROOTDEV \<and> b_blockno (bu s i) = m")
      case True
      then obtain i where i: "i < NBUF" "b_valid (bu s i)" "b_dev (bu s i) = ROOTDEV" "b_blockno (bu s i) = m" by blast
      then have "i \<noteq> b" using ne by auto
      then have "bview t m = b_data (bu s i)" using bview_cached [OF i(1) _ _ ut] co [OF i(1)] i by simp
      moreover have "bview s m = b_data (bu s i)" using bview_cached [OF i(1-3) u] i(4) by simp
      ultimately show ?thesis using ne by simp
    next
      case False
      then have "bview s m = disk s m" by (intro bview_uncached) blast
      moreover have "bview t m = disk t m"
      proof (intro bview_uncached allI impI)
        fix i assume "i < NBUF" "b_valid (bu t i) \<and> b_dev (bu t i) = ROOTDEV"
        then show "b_blockno (bu t i) \<noteq> m" using False ne ct co [of i] by (cases "i = b") auto
      qed
      moreover have "disk t m = disk s m" using k ne by blast
      ultimately show ?thesis using ne by (simp only: fun_upd_apply if_False)
    qed
  qed
qed

text \<open>The invariant after an update of one buffer that keeps its identity.\<close>

lemma cache_inv_update:
  assumes ci: "cache_inv p L pins s" and b: "b < NBUF" "b_valid x" "b_dev x = ROOTDEV" "b_blockno x = b_blockno (bu s b)"
    "b_dev (bu s b) = ROOTDEV" "b_next x = b_next (bu s b)" "b_prev x = b_prev (bu s b)" "length (b_data x) = BSIZE"
    and r: "b_refcnt x = of_nat (pins' b + (if b \<in> L then 1 else 0))" "pins' b < 1000" "\<forall>i. i \<noteq> b \<longrightarrow> pins' i = pins i"
    and clean: "b \<notin> L \<and> pins' b = 0 \<longrightarrow> b_data x = disk t (b_blockno x)"
    and t: "bufs t = (bufs s)[b := x]" "in_proc p t" "held t = held s" "sleeplocks t = sleeplocks s" "p_pid (pr t p) = p_pid (pr s p)"
      "\<forall>n. n \<noteq> b_blockno (bu s b) \<longrightarrow> disk t n = disk s n" "length (disk t (b_blockno (bu s b))) = BSIZE"
  shows "cache_inv p L pins' t"
proof -
  note D = cache_invD [OF ci]
  have len: "length (bufs s) = NBUF + 1" by (rule cache_inv_bufs [OF ci])
  have bt: "bu t i = (if i = b then x else bu s i)" for i using t(1) b(1) len by simp
  have other: "b_blockno (bu s i) \<noteq> b_blockno (bu s b)" if "i < NBUF" "i \<noteq> b" "b_dev (bu s i) = ROOTDEV" for i
    using D(6) that b(1,5) by blast
  from D(4) obtain xs where xs: "lru (bufs s) xs" by blast
  have "linked (bufs t) (NBUF # xs @ [NBUF]) = linked (bufs s) (NBUF # xs @ [NBUF])"
    by (rule linked_same) (simp add: bt b(6,7))
  then have "lru (bufs t) xs" using xs t(1) by (simp add: lru_def)
  then have lru: "\<exists>xs. lru (bufs t) xs" ..
  show ?thesis
    unfolding cache_inv_def
  proof (intro conjI)
    show "\<forall>i<NBUF. \<forall>j<NBUF. b_dev (bu t i) = ROOTDEV \<and> b_dev (bu t j) = ROOTDEV \<and> b_blockno (bu t i) = b_blockno (bu t j) \<longrightarrow> i = j"
    proof (intro allI impI)
      fix i j assume "i < NBUF" "j < NBUF"
        "b_dev (bu t i) = ROOTDEV \<and> b_dev (bu t j) = ROOTDEV \<and> b_blockno (bu t i) = b_blockno (bu t j)"
      then show "i = j"
        using D(6) [rule_format, of i j] other [of i] other [of j] b(3-5) by (cases "i = b"; cases "j = b") (simp_all add: bt)
    qed
    show "\<forall>i<NBUF. b_refcnt (bu t i) = of_nat (pins' i + (if i \<in> L then 1 else 0)) \<and> pins' i < 1000"
      using D(7,8) r by (simp add: bt)
    show "\<forall>i<NBUF. i \<in> L \<or> 0 < pins' i \<longrightarrow> b_valid (bu t i) \<and> b_dev (bu t i) = ROOTDEV"
      using D(11) r(3) b(2,3) by (auto simp: bt)
    show "\<forall>i<NBUF. b_valid (bu t i) \<longrightarrow> length (b_data (bu t i)) = BSIZE" using D(12) b(8) by (simp add: bt)
    show "\<forall>n. length (disk t n) = BSIZE" using D(13) t(6,7) by metis
    show "\<forall>i<NBUF. b_valid (bu t i) \<and> b_dev (bu t i) = ROOTDEV \<and> i \<notin> L \<and> pins' i = 0 \<longrightarrow> b_data (bu t i) = disk t (b_blockno (bu t i))"
      using D(14) clean r(3) t(6) other by (auto simp: bt)
  qed (use D(2,3,5,9,10) lru t in auto)
qed

lemma set_data_spec:
  assumes ci: "cache_inv p L pins s" and b: "b \<in> L" and d: "length d = BSIZE"
  shows "cache_inv p L pins (set_data b d s)" "bview (set_data b d s) = (bview s)(b_blockno (bu s b) := d)"
    "disk (set_data b d s) = disk s" "dwrites (set_data b d s) = dwrites s" "bio_frame s (set_data b d s)"
    "bu (set_data b d s) i = (if i = b then (bu s b)\<lparr>b_data := d\<rparr> else bu s i)"
proof -
  note B = cache_inv_bufs [OF ci] and D = cache_invD [OF ci]
  have lt: "b < NBUF" by (rule B(2) [OF b])
  have v: "b_valid (bu s b)" "b_dev (bu s b) = ROOTDEV" using B(3) [OF b] by simp_all
  show bt: "bu (set_data b d s) i = (if i = b then (bu s b)\<lparr>b_data := d\<rparr> else bu s i)" for i
    using lt B(1) by (simp add: set_data_def upd_buf_def)
  show "cache_inv p L pins (set_data b d s)"
    by (rule cache_inv_update [OF ci lt, where x = "(bu s b)\<lparr>b_data := d\<rparr>"])
      (use D(1) D(7,8) [OF lt] D(13) b d v in \<open>simp_all add: set_data_def upd_buf_def in_proc_def\<close>)
  show "bview (set_data b d s) = (bview s)(b_blockno (bu s b) := d)"
    using v lt B(1) by (intro bview_update [OF ci lt]) (auto simp: bcontent_def set_data_def upd_buf_def)
  show "disk (set_data b d s) = disk s" "dwrites (set_data b d s) = dwrites s" "bio_frame s (set_data b d s)"
    by (simp_all add: set_data_def upd_buf_def bio_frame_def)
qed

lemma holdingsleep_buf:
  assumes ci: "cache_inv p L pins s" and b: "b \<in> L"
  shows "holdingsleep (Buf_lk b) s = Ok True s"
  using holdingsleep_eq [OF cache_invD(1,3) [OF ci]] cache_invD(9) [OF ci cache_inv_bufs(2) [OF ci b]] cache_invD(10) [OF ci b] b
  by simp

lemma bwrite_spec:
  assumes ci: "cache_inv p L pins s" and b: "b \<in> L"
  shows "\<exists>t. bwrite b s = Ok () t \<and> cache_inv p L pins t \<and> bview t = bview s
     \<and> disk t = (disk s)(b_blockno (bu s b) := b_data (bu s b)) \<and> dwrites t = dwrites s @ [(b_blockno (bu s b), b_data (bu s b))]
     \<and> bufs t = bufs s \<and> bio_frame s t"
proof -
  note B = cache_inv_bufs [OF ci] and D = cache_invD [OF ci]
  have lt: "b < NBUF" by (rule B(2) [OF b])
  have v: "b_valid (bu s b)" "b_dev (bu s b) = ROOTDEV" using B(3) [OF b] by simp_all
  let ?t = "s\<lparr>disk := (disk s)(b_blockno (bu s b) := b_data (bu s b)), dwrites := dwrites s @ [(b_blockno (bu s b), b_data (bu s b))]\<rparr>"
  have "bwrite b s = Ok () ?t"
    using holdingsleep_buf [OF ci b] by (simp add: bwrite_def disk_rw_def)
  moreover have "cache_inv p L pins ?t"
    by (rule cache_inv_update [OF ci lt, where x = "bu s b"])
      (use D(1) D(7,8,12) [OF lt] b v in \<open>simp_all add: in_proc_def\<close>)
  moreover have "bview ?t = (bview s)(b_blockno (bu s b) := b_data (bu s b))"
    using v by (intro bview_update [OF ci lt]) (auto simp: bcontent_def)
  moreover have "(bview s)(b_blockno (bu s b) := b_data (bu s b)) = bview s"
    using B(4) [OF lt v] by (intro fun_upd_idem)
  moreover have "bio_frame s ?t" by (simp add: bio_frame_def)
  ultimately show ?thesis by (intro exI [of _ ?t]) simp
qed

lemma bpin_spec:
  assumes ci: "cache_inv p L pins s" and b: "b \<in> L \<or> 0 < pins b" "b < NBUF" "pins b < 999"
  shows "\<exists>t. bpin b s = Ok () t \<and> cache_inv p L (pins(b := pins b + 1)) t \<and> bview t = bview s \<and> disk t = disk s
     \<and> dwrites t = dwrites s \<and> (\<forall>i<NBUF. bcontent (bu t i) = bcontent (bu s i)) \<and> bio_frame s t"
proof -
  note B = cache_inv_bufs [OF ci] and D = cache_invD [OF ci]
  have v: "b_valid (bu s b)" "b_dev (bu s b) = ROOTDEV" using D(11) [OF b(2,1)] by simp_all
  let ?t = "upd_buf b (\<lambda>x. x\<lparr>b_refcnt := b_refcnt x + 1\<rparr>) s"
  have bt: "bu ?t i = (if i = b then (bu s b)\<lparr>b_refcnt := b_refcnt (bu s b) + 1\<rparr> else bu s i)" for i
    using b(2) B(1) by (simp add: upd_buf_def)
  have "bpin b s = Ok () ?t" using D(2) by (simp add: bpin_def upd_buf_def)
  moreover have "cache_inv p L (pins(b := pins b + 1)) ?t"
    by (rule cache_inv_update [OF ci b(2), where x = "(bu s b)\<lparr>b_refcnt := b_refcnt (bu s b) + 1\<rparr>"])
      (use D(1,13) D(7,12) [OF b(2)] b v in \<open>simp_all add: in_proc_def upd_buf_def\<close>)
  moreover have c: "\<forall>i<NBUF. bcontent (bu ?t i) = bcontent (bu s i)" by (simp add: bt bcontent_def)
  moreover have "bview ?t = bview s" by (rule bview_cong [OF c]) (simp add: upd_buf_def)
  moreover have "bio_frame s ?t" by (simp add: bio_frame_def upd_buf_def)
  ultimately show ?thesis by (intro exI [of _ ?t]) (simp add: upd_buf_def)
qed

lemma bunpin_spec:
  assumes ci: "cache_inv p L pins s" and b: "b < NBUF" "0 < pins b"
    and clean: "b \<notin> L \<and> pins b = 1 \<Longrightarrow> b_data (bu s b) = disk s (b_blockno (bu s b))"
  shows "\<exists>t. bunpin b s = Ok () t \<and> cache_inv p L (pins(b := pins b - 1)) t \<and> bview t = bview s \<and> disk t = disk s
     \<and> dwrites t = dwrites s \<and> (\<forall>i<NBUF. bcontent (bu t i) = bcontent (bu s i)) \<and> bio_frame s t"
proof -
  note B = cache_inv_bufs [OF ci] and D = cache_invD [OF ci]
  have v: "b_valid (bu s b)" "b_dev (bu s b) = ROOTDEV" using D(11) [OF b(1)] b(2) by simp_all
  let ?t = "upd_buf b (\<lambda>x. x\<lparr>b_refcnt := b_refcnt x - 1\<rparr>) s"
  have bt: "bu ?t i = (if i = b then (bu s b)\<lparr>b_refcnt := b_refcnt (bu s b) - 1\<rparr> else bu s i)" for i
    using b(1) B(1) by (simp add: upd_buf_def)
  have "bunpin b s = Ok () ?t" using D(2) by (simp add: bunpin_def upd_buf_def)
  moreover have "cache_inv p L (pins(b := pins b - 1)) ?t"
  proof (rule cache_inv_update [OF ci b(1), where x = "(bu s b)\<lparr>b_refcnt := b_refcnt (bu s b) - 1\<rparr>"])
    show "b_refcnt ((bu s b)\<lparr>b_refcnt := b_refcnt (bu s b) - 1\<rparr>) = of_nat ((pins(b := pins b - 1)) b + (if b \<in> L then 1 else 0))"
      using D(7) [OF b(1)] b(2) by (simp add: of_nat_diff)
    show "b \<notin> L \<and> (pins(b := pins b - 1)) b = 0 \<longrightarrow> b_data ((bu s b)\<lparr>b_refcnt := b_refcnt (bu s b) - 1\<rparr>)
        = disk ?t (b_blockno ((bu s b)\<lparr>b_refcnt := b_refcnt (bu s b) - 1\<rparr>))"
      using clean b(2) by (auto simp: upd_buf_def)
  qed (use D(1,13) D(8,12) [OF b(1)] v in \<open>simp_all add: in_proc_def upd_buf_def\<close>)
  moreover have c: "\<forall>i<NBUF. bcontent (bu ?t i) = bcontent (bu s i)" by (simp add: bt bcontent_def)
  moreover have "bview ?t = bview s" by (rule bview_cong [OF c]) (simp add: upd_buf_def)
  moreover have "bio_frame s ?t" by (simp add: bio_frame_def upd_buf_def)
  ultimately show ?thesis by (intro exI [of _ ?t]) (simp add: upd_buf_def)
qed

lemma woken_field: "woken_only s t \<Longrightarrow> f t = f (s\<lparr>procs := procs t, queue_counter := queue_counter t\<rparr>)"
  unfolding woken_only_def by (rule arg_cong) blast

definition released :: "nat \<Rightarrow> buf list \<Rightarrow> buf list" where
  "released b bs = (let cs = bs[b := (bs ! b)\<lparr>b_refcnt := b_refcnt (bs ! b) - 1\<rparr>]
     in if b_refcnt (cs ! b) = 0 then push_bufs b (unlink_bufs b cs) else cs)"

lemma released_facts:
  assumes "lru bs xs" and "b < NBUF"
  shows "\<exists>ys. lru (released b bs) ys" "i < NBUF \<Longrightarrow> bcontent (released b bs ! i) = bcontent (bs ! i)"
    "i < NBUF \<Longrightarrow> b_refcnt (released b bs ! i) = b_refcnt (bs ! i) - (if i = b then 1 else 0)"
proof -
  let ?cs = "bs[b := (bs ! b)\<lparr>b_refcnt := b_refcnt (bs ! b) - 1\<rparr>]"
  have len: "length bs = NBUF + 1" using assms(1) by (simp add: lru_def)
  have "linked ?cs (NBUF # xs @ [NBUF]) = linked bs (NBUF # xs @ [NBUF])"
    using assms(2) len by (intro linked_upd) auto
  then have l: "lru ?cs xs" using assms(1) by (simp add: lru_def)
  show "\<exists>ys. lru (released b bs) ys"
    using l move_to_front [OF l assms(2)] by (auto simp: released_def Let_def)
  have "same_content ?cs (released b bs)"
    using same_content_trans [OF unlink_bufs_content push_bufs_content] by (simp add: released_def Let_def)
  then have e: "released b bs ! i = (?cs ! i)\<lparr>b_prev := b_prev (released b bs ! i), b_next := b_next (released b bs ! i)\<rparr>" if "i < NBUF"
    using that len by (simp add: same_content_def)
  have c: "f (released b bs ! i) = f ((?cs ! i)\<lparr>b_prev := b_prev (released b bs ! i), b_next := b_next (released b bs ! i)\<rparr>)"
    if "i < NBUF" for f :: "buf \<Rightarrow> 'x" by (rule arg_cong [OF e [OF that]])
  show "bcontent (released b bs ! i) = bcontent (bs ! i)" if "i < NBUF"
    by (subst c [OF that]) (use assms(2) len in \<open>auto simp: bcontent_def nth_list_update\<close>)
  show "b_refcnt (released b bs ! i) = b_refcnt (bs ! i) - (if i = b then 1 else 0)" if "i < NBUF"
    by (subst c [OF that]) (use assms(2) len in \<open>auto simp: nth_list_update\<close>)
qed

lemma brelse_eq:
  assumes ci: "cache_inv p L pins s" and b: "b \<in> L"
  shows "\<exists>t. releasesleep (Buf_lk b) s = Ok () t \<and> brelse b s = Ok () (t\<lparr>bufs := released b (bufs s)\<rparr>)
     \<and> woken_only (set_sleeplock (Buf_lk b) \<lparr>sl_locked = 0, sl_pid = 0\<rparr> s) t \<and> in_proc p t \<and> bufs t = bufs s"
proof -
  note D = cache_invD [OF ci]
  have lt: "b < length (bufs s)" using cache_inv_bufs [OF ci] b by fastforce
  from releasesleep_spec [OF D(1,3), of b] obtain t where
    t: "releasesleep (Buf_lk b) s = Ok () t" "woken_only (set_sleeplock (Buf_lk b) \<lparr>sl_locked = 0, sl_pid = 0\<rparr> s) t" "in_proc p t" by auto
  have h: "held t = held s" using woken_onlyD(1) [OF t(2)] by (simp add: set_sleeplock_def)
  have bt: "bufs t = bufs s" by (subst woken_field [OF t(2)]) (simp add: set_sleeplock_def)
  have "brelse b s = Ok () (t\<lparr>bufs := released b (bufs s)\<rparr>)"
    using holdingsleep_buf [OF ci b] t(1) h D(2) lt bt
    by (simp add: brelse_def released_def unlink_bufs_def push_front_bufs upd_buf_def Let_def)
  then show ?thesis using t bt by blast
qed

lemma brelse_spec:
  assumes ci: "cache_inv p L pins s" and b: "b \<in> L" and clean: "pins b = 0 \<Longrightarrow> b_data (bu s b) = disk s (b_blockno (bu s b))"
  shows "\<exists>t. brelse b s = Ok () t \<and> cache_inv p (L - {b}) pins t \<and> bview t = bview s \<and> disk t = disk s \<and> dwrites t = dwrites s
     \<and> (\<forall>i<NBUF. bcontent (bu t i) = bcontent (bu s i)) \<and> bio_frame s t"
proof -
  note B = cache_inv_bufs [OF ci] and D = cache_invD [OF ci]
  have lt: "b < NBUF" by (rule B(2) [OF b])
  let ?w = "set_sleeplock (Buf_lk b) \<lparr>sl_locked = 0, sl_pid = 0\<rparr> s"
  from brelse_eq [OF ci b] obtain u where u: "brelse b s = Ok () (u\<lparr>bufs := released b (bufs s)\<rparr>)" "woken_only ?w u" "in_proc p u" by blast
  define t where t: "t = u\<lparr>bufs := released b (bufs s)\<rparr>"
  from D(4) obtain xs where xs: "lru (bufs s) xs" by blast
  note R = released_facts [OF xs lt]
  have ft: "bufs t = released b (bufs s)" "held t = held s" "curproc t = curproc s" "disk t = disk s" "dwrites t = dwrites s"
    "sleeplocks t = (sleeplocks s)(Buf_lk b := \<lparr>sl_locked = 0, sl_pid = 0\<rparr>)" "mem t = mem s" "freelist t = freelist s"
    "k_end t = k_end s" "bio_state.more t = bio_state.more s"
    unfolding t by (simp, (simp, subst woken_field [OF u(2)], simp add: set_sleeplock_def)+)
  have pt: "length (procs t) = length (procs s)"
    "\<forall>q<NPROC. pr t q = (pr s q)\<lparr>p_queue_location := p_queue_location (pr t q), p_state := p_state (pr t q)\<rparr>"
    using u(2) by (simp_all add: woken_only_def t set_sleeplock_def)
  have fr: "bio_frame s t" using ft pt by (simp add: bio_frame_def)
  have ip: "in_proc p t" using u(3) by (simp add: t in_proc_def)
  have c: "b_valid (bu t i) = b_valid (bu s i)" "b_dev (bu t i) = b_dev (bu s i)" "b_blockno (bu t i) = b_blockno (bu s i)"
    "b_data (bu t i) = b_data (bu s i)" if "i < NBUF" for i
    using R(2) [OF that] by (simp_all add: ft(1) bcontent_def)
  have pid: "p_pid (pr t p) = p_pid (pr s p)" using bio_frame_pid [OF fr] ip by (simp add: in_proc_def)
  have "cache_inv p (L - {b}) pins t"
    unfolding cache_inv_def
  proof (intro conjI)
    show "\<exists>xs. lru (bufs t) xs" using R(1) by (simp add: ft(1))
    show "\<forall>i<NBUF. \<forall>j<NBUF. b_dev (bu t i) = ROOTDEV \<and> b_dev (bu t j) = ROOTDEV \<and> b_blockno (bu t i) = b_blockno (bu t j) \<longrightarrow> i = j"
      using D(6) by (simp add: c)
    show "\<forall>i<NBUF. b_refcnt (bu t i) = of_nat (pins i + (if i \<in> L - {b} then 1 else 0)) \<and> pins i < 1000"
      using R(3) D(7,8) b by (simp add: ft(1))
    show "\<forall>i<NBUF. i \<in> L - {b} \<or> 0 < pins i \<longrightarrow> b_valid (bu t i) \<and> b_dev (bu t i) = ROOTDEV" using D(11) by (simp add: c)
    show "\<forall>i<NBUF. b_valid (bu t i) \<longrightarrow> length (b_data (bu t i)) = BSIZE" using D(12) by (simp add: c)
    show "\<forall>i<NBUF. b_valid (bu t i) \<and> b_dev (bu t i) = ROOTDEV \<and> i \<notin> L - {b} \<and> pins i = 0 \<longrightarrow> b_data (bu t i) = disk t (b_blockno (bu t i))"
      using D(14) clean by (auto simp: c ft(4))
    show "\<forall>i\<in>L - {b}. sl_pid (sleeplocks t (Buf_lk i)) = p_pid (pr t p)" using D(10) pid by (simp add: ft(6))
    show "\<forall>i<NBUF. sl_locked (sleeplocks t (Buf_lk i)) \<noteq> 0 \<longleftrightarrow> i \<in> L - {b}" using D(9) by (simp add: ft(6))
  qed (use D(2,3,5,13) ip ft in auto)
  moreover have "\<forall>i<NBUF. bcontent (bu t i) = bcontent (bu s i)" using R(2) by (simp add: ft(1))
  moreover from this have "bview t = bview s" by (rule bview_cong) (simp add: ft(4))
  ultimately show ?thesis using u(1) fr ft(4,5) t by blast
qed

section \<open>The rest of the kernel state\<close>

text \<open>Whatever the operations on buffers do, they do not touch the state of the components above the cache.\<close>

definition more_same :: "'z bio_state_scheme \<Rightarrow> 'z bio_state_scheme \<Rightarrow> bool" where
  "more_same s t \<longleftrightarrow> bio_state.more t = bio_state.more s"

interpretation bm: step_rel more_same
  by unfold_locales (auto simp: more_same_def)

lemma more_upd [simp]:
  "more_same s (upd_proc p f t) = more_same s t" "more_same s (upd_buf b g t) = more_same s t"
  "more_same s (set_sleeplock l x t) = more_same s t" "more_same s s" "more_same s (set_data b d t) = more_same s t"
  by (simp_all add: more_same_def upd_proc_def upd_buf_def set_sleeplock_def set_data_def)

lemma more_start [simp]:
  "within more_same (upd_proc p f s) r = within more_same s r" "within more_same (upd_buf b g s) r = within more_same s r"
  "within more_same (set_sleeplock l x s) r = within more_same s r" "within more_same (set_data b d s) r = within more_same s r"
  by (cases r; simp add: more_same_def upd_proc_def upd_buf_def set_sleeplock_def set_data_def)+

lemma acquire_more [frame]: "within more_same s (acquire l s)"
  by (simp add: acquire_def more_same_def)

lemma release_more [frame]: "within more_same s (release l s)"
  by (simp add: release_def more_same_def)

lemma with_proc_more: "(\<And>p. within more_same s (f p)) \<Longrightarrow> within more_same s (with_proc s f)"
  by (simp add: with_proc_def split: option.splits)

lemma sched_more: "within more_same s (sched s)"
  unfolding sched_def by (intro with_proc_more within_if) simp_all

lemma alloc_queue_counter_more [frame]: "within more_same s (alloc_queue_counter s)"
  by (simp add: alloc_queue_counter_def acquire_def release_def more_same_def Let_def)

lemma sleep_more [frame]: "within more_same s (sleep ch lk s)"
  unfolding sleep_def
proof (intro with_proc_more bm.within_bind frame)
  fix p and t :: "'a bio_state_scheme"
  show "within more_same t (sched (upd_proc p (\<lambda>x. x\<lparr>p_chan := ch, p_state := SLEEPING\<rparr>) t))"
    using sched_more [of "upd_proc p (\<lambda>x. x\<lparr>p_chan := ch, p_state := SLEEPING\<rparr>) t"] by simp
qed

lemma wakeup_more [frame]: "within more_same s (wakeup ch s)"
  unfolding wakeup_def by (intro bm.within_rules frame) simp_all

lemma acquiresleep_more [frame]: "within more_same s (acquiresleep l s)"
  unfolding acquiresleep_def
proof (intro bm.within_rules with_proc_more frame)
  fix p and t :: "'a bio_state_scheme"
  show "within more_same t (release l (set_sleeplock l \<lparr>sl_locked = 1, sl_pid = p_pid (pr t p)\<rparr> t))"
    using release_more [of "set_sleeplock l \<lparr>sl_locked = 1, sl_pid = p_pid (pr t p)\<rparr> t" l] by simp
qed

lemma releasesleep_more [frame]: "within more_same s (releasesleep l s)"
proof -
  have "within more_same t (wakeup ch (set_sleeplock l x t))" for t :: "'a bio_state_scheme" and ch x
    using wakeup_more [of "set_sleeplock l x t" ch] by simp
  then show ?thesis unfolding releasesleep_def by (intro bm.within_rules frame) simp_all
qed

lemma holdingsleep_more [frame]: "within more_same s (holdingsleep l s)"
  unfolding holdingsleep_def by (intro bm.within_rules with_proc_more frame) simp

lemma disk_rw_more [frame]: "within more_same s (disk_rw b w s)"
  by (simp add: disk_rw_def) (simp add: more_same_def)

lemma bget_lock_more [frame]: "within more_same s (bget_lock b (upd_buf b f s))"
proof -
  have "within more_same (upd_buf b f s) (bget_lock b (upd_buf b f s))"
    unfolding bget_lock_def by (intro bm.within_rules frame) simp
  then show ?thesis by simp
qed

lemma bread_more [frame]: "within more_same s (bread d n s)"
proof -
  have "within more_same t (bget d n t)" for t :: "'a bio_state_scheme"
    unfolding bget_def by (intro bm.within_rules frame) simp_all
  then show ?thesis unfolding bread_def by (intro bm.within_rules frame) simp_all
qed

lemma bwrite_more [frame]: "within more_same s (bwrite b s)"
  unfolding bwrite_def by (intro bm.within_rules frame) simp

lemma brelse_more [frame]: "within more_same s (brelse b s)"
proof -
  have "within more_same t (release l (push_front b u))" if "more_same t u" for t u :: "'a bio_state_scheme" and l
    using that release_more [of "push_front b u" l] by (simp add: push_front_bufs more_same_def release_def)
  moreover have "within more_same t (release l u)" if "more_same t u" for t u :: "'a bio_state_scheme" and l
    using that by (simp add: more_same_def release_def)
  ultimately show ?thesis unfolding brelse_def by (intro bm.within_rules frame) (auto simp: Let_def)
qed

end
