(* ===== verification/Log.thy ===== *)
theory Log
  imports Bio_Cache
begin

text \<open>
  The write-ahead log (\<^verbatim>\<open>kernel/log.c\<close>). \<^verbatim>\<open>lh_n\<close> and \<^verbatim>\<open>lh_block\<close> are \<^verbatim>\<open>log.lh\<close>, the header in memory; on disk it is a block
  with the 32-bit little-endian words \<^verbatim>\<open>n\<close>, \<^verbatim>\<open>block[0]\<close>, \<^verbatim>\<open>block[1]\<close>, ... Waiting processes sleep on \<^term>\<open>Ch_log\<close>.

  \<^verbatim>\<open>block\<close> has \<^verbatim>\<open>LOGSIZE\<close> elements. Where the C code would run past them (a corrupt header on disk), the model stops with
  the result \<^term>\<open>Panic ''log.lh.block''\<close>.
\<close>

record log_st =
  l_start :: u32
  l_size :: i32
  l_outstanding :: i32
  l_committing :: bool
  l_dev :: u32
  lh_n :: i32
  lh_block :: "u32 list"

record log_state = bio_state +
  lg :: log_st

definition get32 :: "u8 list \<Rightarrow> nat \<Rightarrow> u32" where
  "get32 bs off = from_le (take 4 (drop off bs))"

definition put_bytes :: "u8 list \<Rightarrow> nat \<Rightarrow> u8 list \<Rightarrow> u8 list" where
  "put_bytes bs off w = take off bs @ w @ drop (off + length w) bs"

definition put32 :: "u8 list \<Rightarrow> nat \<Rightarrow> u32 \<Rightarrow> u8 list" where
  "put32 bs off v = put_bytes bs off (to_le 4 v)"

abbreviation logged :: "'z log_state_scheme \<Rightarrow> nat" where
  "logged s \<equiv> nat (sint (lh_n (lg s)))"

definition upd_log :: "(log_st \<Rightarrow> log_st) \<Rightarrow> 'z log_state_scheme \<Rightarrow> 'z log_state_scheme" where
  "upd_log f s = s\<lparr>lg := f (lg s)\<rparr>"

definition read_head :: "'z log_state_scheme \<Rightarrow> (unit, 'z log_state_scheme) res" where
  "read_head s =
     kbind (bread (l_dev (lg s)) (l_start (lg s)) s) (\<lambda>b s.
     let s = upd_log (\<lambda>l. l\<lparr>lh_n := get32 (b_data (bu s b)) 0\<rparr>) s in
     kbind (kfor 0 (logged s) (\<lambda>i s.
       if i \<ge> LOGSIZE then Panic ''log.lh.block''
       else Ok () (upd_log (\<lambda>l. l\<lparr>lh_block := (lh_block l)[i := get32 (b_data (bu s b)) (4 + 4 * i)]\<rparr>) s)) s) (\<lambda>_ s.
     brelse b s))"

definition write_head :: "'z log_state_scheme \<Rightarrow> (unit, 'z log_state_scheme) res" where
  "write_head s =
     kbind (bread (l_dev (lg s)) (l_start (lg s)) s) (\<lambda>b s.
     let s = set_data b (put32 (b_data (bu s b)) 0 (lh_n (lg s))) s in
     kbind (kfor 0 (logged s) (\<lambda>i s.
       if i \<ge> LOGSIZE then Panic ''log.lh.block''
       else Ok () (set_data b (put32 (b_data (bu s b)) (4 + 4 * i) (lh_block (lg s) ! i)) s)) s) (\<lambda>_ s.
     kbind (bwrite b s) (\<lambda>_ s.
     brelse b s)))"

definition install_trans :: "bool \<Rightarrow> 'z log_state_scheme \<Rightarrow> (unit, 'z log_state_scheme) res" where
  "install_trans recovering s = kfor 0 (logged s) (\<lambda>tail s.
     if tail \<ge> LOGSIZE then Panic ''log.lh.block''
     else
       kbind (bread (l_dev (lg s)) (l_start (lg s) + of_nat tail + 1) s) (\<lambda>lbuf s.
       kbind (bread (l_dev (lg s)) (lh_block (lg s) ! tail) s) (\<lambda>dbuf s.
       let s = set_data dbuf (b_data (bu s lbuf)) s in
       kbind (bwrite dbuf s) (\<lambda>_ s.
       kbind (if \<not> recovering then bunpin dbuf s else Ok () s) (\<lambda>_ s.
       kbind (brelse lbuf s) (\<lambda>_ s.
       brelse dbuf s)))))) s"

definition recover_from_log :: "'z log_state_scheme \<Rightarrow> (unit, 'z log_state_scheme) res" where
  "recover_from_log s =
     kbind (read_head s) (\<lambda>_ s.
     kbind (install_trans True s) (\<lambda>_ s.
     write_head (upd_log (\<lambda>l. l\<lparr>lh_n := 0\<rparr>) s)))"

text \<open>The header has \<^verbatim>\<open>4 + 4 * LOGSIZE\<close> bytes.\<close>

definition initlog :: "u32 \<Rightarrow> u32 \<Rightarrow> u32 \<Rightarrow> 'z log_state_scheme \<Rightarrow> (unit, 'z log_state_scheme) res" where
  "initlog dev sb_logstart sb_nlog s =
     (if 4 + 4 * LOGSIZE \<ge> BSIZE then Panic ''initlog: too big logheader''
      else recover_from_log (upd_log (\<lambda>l. l\<lparr>l_start := sb_logstart, l_size := sb_nlog, l_dev := dev\<rparr>) s))"

definition begin_op :: "'z log_state_scheme \<Rightarrow> (unit, 'z log_state_scheme) res" where
  "begin_op s =
     kbind (acquire Log_lock s) (\<lambda>_ s.
     if l_committing (lg s) then sleep Ch_log Log_lock s
     else if sint (lh_n (lg s) + (l_outstanding (lg s) + 1) * of_nat MAXOPBLOCKS) > int LOGSIZE then sleep Ch_log Log_lock s
     else release Log_lock (upd_log (\<lambda>l. l\<lparr>l_outstanding := l_outstanding l + 1\<rparr>) s))"

definition write_log :: "'z log_state_scheme \<Rightarrow> (unit, 'z log_state_scheme) res" where
  "write_log s = kfor 0 (logged s) (\<lambda>tail s.
     if tail \<ge> LOGSIZE then Panic ''log.lh.block''
     else
       kbind (bread (l_dev (lg s)) (l_start (lg s) + of_nat tail + 1) s) (\<lambda>to s.
       kbind (bread (l_dev (lg s)) (lh_block (lg s) ! tail) s) (\<lambda>from s.
       let s = set_data to (b_data (bu s from)) s in
       kbind (bwrite to s) (\<lambda>_ s.
       kbind (brelse from s) (\<lambda>_ s.
       brelse to s))))) s"

definition commit :: "'z log_state_scheme \<Rightarrow> (unit, 'z log_state_scheme) res" where
  "commit s =
     (if sint (lh_n (lg s)) > 0 then
        kbind (write_log s) (\<lambda>_ s.
        kbind (write_head s) (\<lambda>_ s.
        kbind (install_trans False s) (\<lambda>_ s.
        write_head (upd_log (\<lambda>l. l\<lparr>lh_n := 0\<rparr>) s))))
      else Ok () s)"

definition end_op :: "'z log_state_scheme \<Rightarrow> (unit, 'z log_state_scheme) res" where
  "end_op s =
     kbind (acquire Log_lock s) (\<lambda>_ s.
     let s = upd_log (\<lambda>l. l\<lparr>l_outstanding := l_outstanding l - 1\<rparr>) s in
     if l_committing (lg s) then Panic ''log.committing''
     else
       let do_commit = (l_outstanding (lg s) = 0) in
       kbind (if do_commit then Ok () (upd_log (\<lambda>l. l\<lparr>l_committing := True\<rparr>) s) else wakeup Ch_log s) (\<lambda>_ s.
       kbind (release Log_lock s) (\<lambda>_ s.
       if do_commit then
         kbind (commit s) (\<lambda>_ s.
         kbind (acquire Log_lock s) (\<lambda>_ s.
         kbind (wakeup Ch_log (upd_log (\<lambda>l. l\<lparr>l_committing := False\<rparr>) s)) (\<lambda>_ s.
         release Log_lock s)))
       else Ok () s)))"

text \<open>The first index at which the block is logged already, or \<^verbatim>\<open>log.lh.n\<close>.\<close>

fun absorb_index :: "u32 list \<Rightarrow> u32 \<Rightarrow> nat \<Rightarrow> nat \<Rightarrow> nat" where
  "absorb_index blk b i 0 = i"
| "absorb_index blk b i (Suc k) = (if blk ! i = b then i else absorb_index blk b (Suc i) k)"

definition log_write :: "nat \<Rightarrow> 'z log_state_scheme \<Rightarrow> (unit, 'z log_state_scheme) res" where
  "log_write b s =
     kbind (acquire Log_lock s) (\<lambda>_ s.
     if sint (lh_n (lg s)) \<ge> int LOGSIZE \<or> sint (lh_n (lg s)) \<ge> sint (l_size (lg s)) - 1 then Panic ''too big a transaction''
     else if sint (l_outstanding (lg s)) < 1 then Panic ''log_write outside of trans''
     else
       let i = absorb_index (lh_block (lg s)) (b_blockno (bu s b)) 0 (logged s);
           s = upd_log (\<lambda>l. l\<lparr>lh_block := (lh_block l)[i := b_blockno (bu s b)]\<rparr>) s in
       kbind (if i = logged s then
                kbind (bpin b s) (\<lambda>_ s. Ok () (upd_log (\<lambda>l. l\<lparr>lh_n := lh_n l + 1\<rparr>) s))
              else Ok () s) (\<lambda>_ s.
       release Log_lock s))"

end
