(* ===== verification/Log_Commit.thy ===== *)
theory Log_Commit
  imports Log
begin

text \<open>
  Committing and recovering: the block writes a commit performs, in order, and what recovery makes of the disk that
  any prefix of them leaves behind.
\<close>

section \<open>The header on disk\<close>

lemma length_put_bytes [simp]: "off + length w \<le> length bs \<Longrightarrow> length (put_bytes bs off w) = length bs"
  by (simp add: put_bytes_def)

lemma length_put32 [simp]: "off + 4 \<le> length bs \<Longrightarrow> length (put32 bs off v) = length bs"
  by (simp add: put32_def)

lemma get32_put32: "off + 4 \<le> length bs \<Longrightarrow> get32 (put32 bs off v) off = v"
  by (simp add: get32_def put32_def put_bytes_def from_le_to_le take_bit_word_eq_self)

lemma get32_put32_other:
  assumes "off + 4 \<le> length bs" and "off' + 4 \<le> off \<or> off + 4 \<le> off'"
  shows "get32 (put32 bs off v) off' = get32 bs off'"
proof -
  have "take 4 (drop off' (take off bs @ to_le 4 v @ drop (off + 4) bs)) = take 4 (drop off' bs)"
  proof (cases "off' + 4 \<le> off")
    case True
    then show ?thesis using assms(1) by (simp add: drop_take)
  next
    case False
    with assms(2) obtain k where "off' = off + 4 + k" by (auto simp: le_iff_add)
    then show ?thesis using assms(1) by (simp add: add.commute add.left_commute)
  qed
  then show ?thesis by (simp add: get32_def put32_def put_bytes_def)
qed

definition is_header :: "u8 list \<Rightarrow> u32 list \<Rightarrow> bool" where
  "is_header d bns \<longleftrightarrow> length d = BSIZE \<and> get32 d 0 = of_nat (length bns) \<and> (\<forall>i<length bns. get32 d (4 + 4 * i) = bns ! i)"

section \<open>Spare buffers\<close>

definition spare :: "(nat \<Rightarrow> nat) \<Rightarrow> nat \<Rightarrow> bool" where
  "spare pins k \<longleftrightarrow> k \<le> card {i. i < NBUF \<and> pins i = 0}"

lemma spare_room:
  assumes "spare pins (card L + 1)" and "finite L"
  shows "\<exists>i<NBUF. i \<notin> L \<and> pins i = 0"
proof (rule ccontr)
  assume "\<not> ?thesis"
  then have "{i. i < NBUF \<and> pins i = 0} \<subseteq> L" by blast
  then have "card {i. i < NBUF \<and> pins i = 0} \<le> card L" using assms(2) by (rule card_mono [rotated])
  with assms(1) show False by (simp add: spare_def)
qed

definition keeps_pinned :: "(nat \<Rightarrow> nat) \<Rightarrow> 'z bio_state_scheme \<Rightarrow> 'z bio_state_scheme \<Rightarrow> bool" where
  "keeps_pinned pins s t \<longleftrightarrow> (\<forall>i<NBUF. 0 < pins i \<longrightarrow> b_blockno (bu t i) = b_blockno (bu s i))"

lemma keeps_pinned_trans: "keeps_pinned pins s t \<Longrightarrow> keeps_pinned pins t u \<Longrightarrow> keeps_pinned pins s u"
  by (simp add: keeps_pinned_def)

lemma keeps_pinned_content: "\<forall>i<NBUF. bcontent (bu t i) = bcontent (bu s i) \<Longrightarrow> keeps_pinned pins s t"
  by (simp add: keeps_pinned_def bcontent_def)

section \<open>Copying one block\<close>

lemma bread2_spec:
  assumes ci: "cache_inv p {} pins s" and ac: "a \<noteq> c" and sp: "spare pins 1"
    and rc: "spare pins 2 \<or> (\<exists>i<NBUF. 0 < pins i \<and> b_blockno (bu s i) = c)"
  shows "\<exists>x y t u. bread ROOTDEV a s = Ok x t \<and> bread ROOTDEV c t = Ok y u \<and> cache_inv p {x, y} pins u \<and> x \<noteq> y \<and> x < NBUF \<and> y < NBUF
     \<and> b_blockno (bu u x) = a \<and> b_data (bu u x) = bview s a \<and> b_blockno (bu u y) = c \<and> b_data (bu u y) = bview s c
     \<and> bview u = bview s \<and> disk u = disk s \<and> dwrites u = dwrites s \<and> bio_frame s u \<and> bio_frame s t \<and> keeps_pinned pins s u"
proof -
  have "is_cached s a \<or> (\<exists>i<NBUF. i \<notin> {} \<and> pins i = 0)" using spare_room [of pins "{}"] sp by simp
  from bread_spec [OF ci _ this] obtain x t where
    t: "bread ROOTDEV a s = Ok x t" "x < NBUF" "cache_inv p (insert x {}) pins t" "b_blockno (bu t x) = a" "b_data (bu t x) = bview s a"
      "bview t = bview s" "disk t = disk s" "dwrites t = dwrites s" "\<forall>i<NBUF. i \<noteq> x \<longrightarrow> bu t i = bu s i" "bio_frame s t"
      "if is_cached s a then b_dev (bu s x) = ROOTDEV \<and> b_blockno (bu s x) = a else pins x = 0" by auto
  have k1: "keeps_pinned pins s t"
    using t(4,9,11) by (auto simp: keeps_pinned_def split: if_splits)
  have "is_cached t c \<or> (\<exists>i<NBUF. i \<notin> {x} \<and> pins i = 0)"
  proof (cases "spare pins 2")
    case True
    then show ?thesis using spare_room [of pins "{x}"] by (simp add: numeral_2_eq_2)
  next
    case False
    then obtain i where i: "i < NBUF" "0 < pins i" "b_blockno (bu s i) = c" using rc by blast
    then have "b_blockno (bu t i) = c" "b_dev (bu t i) = ROOTDEV"
      using k1 cache_invD(11) [OF t(3) i(1)] by (simp_all add: keeps_pinned_def)
    then show ?thesis using i(1) by (auto simp: is_cached_def)
  qed
  moreover have "\<forall>i\<in>{x}. b_blockno (bu t i) \<noteq> c" using t(4) ac by simp
  ultimately obtain y u where
    u: "bread ROOTDEV c t = Ok y u" "y < NBUF" "y \<notin> {x}" "cache_inv p (insert y {x}) pins u" "b_blockno (bu u y) = c" "b_data (bu u y) = bview t c"
      "bview u = bview t" "disk u = disk t" "dwrites u = dwrites t" "\<forall>i<NBUF. i \<noteq> y \<longrightarrow> bu u i = bu t i" "bio_frame t u"
      "if is_cached t c then b_dev (bu t y) = ROOTDEV \<and> b_blockno (bu t y) = c else pins y = 0"
    using bread_spec [OF t(3)] by blast
  have k2: "keeps_pinned pins t u"
    using u(5,10,12) by (auto simp: keeps_pinned_def split: if_splits)
  have "cache_inv p {x, y} pins u" using u(4) by (simp add: insert_commute)
  moreover have "bu u x = bu t x" using u(3,10) t(2) by auto
  ultimately show ?thesis
    using t u bio_frame_trans [OF t(10) u(11)] keeps_pinned_trans [OF k1 k2] by (intro exI [of _ x] exI [of _ y] exI [of _ t] exI [of _ u]) simp
qed

lemma more_same_log: "more_same s t \<Longrightarrow> lg t = lg s"
  unfolding more_same_def by (cases s; cases t) simp

lemma bio_frame_log: "bio_frame s t \<Longrightarrow> lg t = lg s"
proof -
  assume "bio_frame s t"
  then have "more_same s t" by (simp add: bio_frame_def more_same_def)
  then show ?thesis by (rule more_same_log)
qed

text \<open>The body of the loop of \<^verbatim>\<open>write_log\<close>: block \<^verbatim>\<open>c\<close>, which is pinned, is copied to block \<^verbatim>\<open>a\<close> of the log.\<close>

lemma write_log_body:
  assumes ci: "cache_inv p {} pins s" and ac: "a \<noteq> c" and sp: "spare pins 1"
    and c: "i < NBUF" "0 < pins i" "b_blockno (bu s i) = c"
  shows "\<exists>t. kbind (bread ROOTDEV a s) (\<lambda>to s. kbind (bread ROOTDEV c s) (\<lambda>from s.
       let s = set_data to (b_data (bu s from)) s in
       kbind (bwrite to s) (\<lambda>_ s. kbind (brelse from s) (\<lambda>_ s. brelse to s)))) = Ok () t
     \<and> cache_inv p {} pins t \<and> bview t = (bview s)(a := bview s c) \<and> disk t = (disk s)(a := bview s c)
     \<and> dwrites t = dwrites s @ [(a, bview s c)] \<and> bio_frame s t \<and> keeps_pinned pins s t"
proof -
  from bread2_spec [OF ci ac sp] c obtain x y t u where
    r: "bread ROOTDEV a s = Ok x t" "bread ROOTDEV c t = Ok y u" "cache_inv p {x, y} pins u" "x \<noteq> y" "x < NBUF" "y < NBUF"
      "b_blockno (bu u x) = a" "b_data (bu u x) = bview s a" "b_blockno (bu u y) = c" "b_data (bu u y) = bview s c"
      "bview u = bview s" "disk u = disk s" "dwrites u = dwrites s" "bio_frame s u" "bio_frame s t" "keeps_pinned pins s u" by blast
  have ld: "length (bview s c) = BSIZE" using cache_invD(12) [OF r(3,6)] cache_inv_bufs(3) [OF r(3), of y] r(10) by simp
  define v where "v = set_data x (b_data (bu u y)) u"
  note sd = set_data_spec [OF r(3), of x "b_data (bu u y)", unfolded r(10)]
  have v: "cache_inv p {x, y} pins v" "bview v = (bview s)(a := bview s c)" "disk v = disk s" "dwrites v = dwrites s" "bio_frame u v"
    "b_blockno (bu v x) = a" "b_data (bu v x) = bview s c" "b_blockno (bu v y) = c"
    using sd ld r by (simp_all add: v_def)
  from bwrite_spec [OF v(1), of x] obtain w where
    w: "bwrite x v = Ok () w" "cache_inv p {x, y} pins w" "bview w = bview v" "disk w = (disk s)(a := bview s c)"
      "dwrites w = dwrites s @ [(a, bview s c)]" "bufs w = bufs v" "bio_frame v w" using v by auto
  have py: "0 < pins y"
  proof -
    have "b_blockno (bu u i) = c" using r(16) c by (simp add: keeps_pinned_def)
    moreover have "b_dev (bu u i) = ROOTDEV" "b_dev (bu u y) = ROOTDEV"
      using cache_invD(11) [OF r(3) c(1)] c(2) cache_inv_bufs(3) [OF r(3), of y] by simp_all
    ultimately have "i = y" using cache_invD(6) [OF r(3)] c(1) r(6,9) by simp
    then show ?thesis using c(2) by simp
  qed
  from brelse_spec [OF w(2), of y] py obtain q where
    q: "brelse y w = Ok () q" "cache_inv p ({x, y} - {y}) pins q" "bview q = bview w" "disk q = disk w" "dwrites q = dwrites w"
      "\<forall>i<NBUF. bcontent (bu q i) = bcontent (bu w i)" "bio_frame w q" by auto
  have ciq: "cache_inv p {x} pins q" using q(2) r(4) by (simp add: insert_Diff_if)
  have "b_data (bu q x) = disk q (b_blockno (bu q x))"
    using q(4,6) r(5) w(4,6) v(6,7) by (simp add: bcontent_def)
  then obtain z where
    z: "brelse x q = Ok () z" "cache_inv p ({x} - {x}) pins z" "bview z = bview q" "disk z = disk q" "dwrites z = dwrites q"
      "\<forall>i<NBUF. bcontent (bu z i) = bcontent (bu q i)" "bio_frame q z"
    using brelse_spec [OF ciq, of x] by auto
  have kp: "keeps_pinned pins s z"
  proof -
    have uv: "keeps_pinned pins u v" using sd(6) ld r(10) by (simp add: keeps_pinned_def v_def)
    have vw: "keeps_pinned pins v w" using w(6) by (simp add: keeps_pinned_def)
    note wz = keeps_pinned_trans [OF keeps_pinned_content [OF q(6)] keeps_pinned_content [OF z(6)]]
    show ?thesis by (rule keeps_pinned_trans [OF r(16) keeps_pinned_trans [OF uv keeps_pinned_trans [OF vw wz]]])
  qed
  have fr: "bio_frame s z"
    by (rule bio_frame_trans [OF r(14) bio_frame_trans [OF v(5) bio_frame_trans [OF w(7) bio_frame_trans [OF q(7) z(7)]]]])
  show ?thesis
    using r(1,2) w(1) q(1) z kp fr v(2) w(3-5) q(3-5) unfolding v_def by (intro exI [of _ z]) simp
qed

text \<open>
  The body of the loop of \<^verbatim>\<open>install_trans\<close>: log block \<^verbatim>\<open>a\<close> is copied to its home \<^verbatim>\<open>c\<close>, whose buffer is unpinned unless the
  system is recovering.
\<close>

definition install_body :: "bool \<Rightarrow> u32 \<Rightarrow> u32 \<Rightarrow> 'z bio_state_scheme \<Rightarrow> (unit, 'z bio_state_scheme) res" where
  "install_body recovering a c s =
     kbind (bread ROOTDEV a s) (\<lambda>lbuf s. kbind (bread ROOTDEV c s) (\<lambda>dbuf s.
     let s = set_data dbuf (b_data (bu s lbuf)) s in
     kbind (bwrite dbuf s) (\<lambda>_ s.
     kbind (if \<not> recovering then bunpin dbuf s else Ok () s) (\<lambda>_ s.
     kbind (brelse lbuf s) (\<lambda>_ s. brelse dbuf s)))))"

lemma bview_disk:
  assumes "cache_inv p L pins s" and "\<forall>i<NBUF. i \<in> L \<or> 0 < pins i \<longrightarrow> b_blockno (bu s i) \<noteq> n"
  shows "bview s n = disk s n"
proof (cases "\<exists>i<NBUF. b_valid (bu s i) \<and> b_dev (bu s i) = ROOTDEV \<and> b_blockno (bu s i) = n")
  case True
  then obtain i where i: "i < NBUF" "b_valid (bu s i)" "b_dev (bu s i) = ROOTDEV" "b_blockno (bu s i) = n" by blast
  then have "b_data (bu s i) = disk s n" using assms cache_invD(14) [OF assms(1) i(1-3)] by auto
  then show ?thesis using cache_inv_bufs(4) [OF assms(1) i(1-3)] i(4) by simp
qed (intro bview_uncached, blast)

lemma install_body_spec:
  assumes ci: "cache_inv p {} pins s" and ac: "a \<noteq> c" and ad: "bview s a = disk s a"
    and rc: "if recovering then spare pins 2 \<and> (\<forall>i<NBUF. pins i = 0)
             else spare pins 1 \<and> i < NBUF \<and> pins i = 1 \<and> b_blockno (bu s i) = c"
  shows "\<exists>t. install_body recovering a c s = Ok () t
     \<and> cache_inv p {} (if recovering then pins else pins(i := 0)) t
     \<and> bview t = (bview s)(c := bview s a) \<and> disk t = (disk s)(c := bview s a)
     \<and> dwrites t = dwrites s @ [(c, bview s a)] \<and> bio_frame s t \<and> keeps_pinned pins s t"
proof -
  have sp: "spare pins 1" "spare pins 2 \<or> (\<exists>i<NBUF. 0 < pins i \<and> b_blockno (bu s i) = c)"
    using rc by (auto simp: spare_def split: if_splits)
  from bread2_spec [OF ci ac sp] obtain x y t u where
    r: "bread ROOTDEV a s = Ok x t" "bread ROOTDEV c t = Ok y u" "cache_inv p {x, y} pins u" "x \<noteq> y" "x < NBUF" "y < NBUF"
      "b_blockno (bu u x) = a" "b_data (bu u x) = bview s a" "b_blockno (bu u y) = c" "b_data (bu u y) = bview s c"
      "bview u = bview s" "disk u = disk s" "dwrites u = dwrites s" "bio_frame s u" "bio_frame s t" "keeps_pinned pins s u" by blast
  have ld: "length (bview s a) = BSIZE" using cache_invD(12) [OF r(3,5)] cache_inv_bufs(3) [OF r(3), of x] r(8) by simp
  define v where "v = set_data y (b_data (bu u x)) u"
  note sd = set_data_spec [OF r(3), of y "b_data (bu u x)", unfolded r(8)]
  have v: "cache_inv p {x, y} pins v" "bview v = (bview s)(c := bview s a)" "disk v = disk s" "dwrites v = dwrites s" "bio_frame u v"
    "b_blockno (bu v y) = c" "b_data (bu v y) = bview s a" "b_blockno (bu v x) = a" "b_data (bu v x) = bview s a"
    using sd ld r by (simp_all add: v_def)
  from bwrite_spec [OF v(1), of y] obtain w where
    w: "bwrite y v = Ok () w" "cache_inv p {x, y} pins w" "bview w = bview v" "disk w = (disk s)(c := bview s a)"
      "dwrites w = dwrites s @ [(c, bview s a)]" "bufs w = bufs v" "bio_frame v w" using v by auto
  let ?pins = "if recovering then pins else pins(y := 0)"
  have iy: "recovering \<or> i = y \<and> pins y = 1"
  proof (cases recovering)
    case False
    then have i: "i < NBUF" "pins i = 1" "b_blockno (bu s i) = c" using rc by auto
    then have "b_blockno (bu u i) = c" using r(16) by (simp add: keeps_pinned_def)
    moreover have "b_dev (bu u i) = ROOTDEV" "b_dev (bu u y) = ROOTDEV"
      using cache_invD(11) [OF r(3) i(1)] i(2) cache_inv_bufs(3) [OF r(3), of y] by simp_all
    ultimately have "i = y" using cache_invD(6) [OF r(3)] i(1) r(6,9) by simp
    then show ?thesis using i(2) by simp
  qed simp
  have "\<exists>w'. (if \<not> recovering then bunpin y w else Ok () w) = Ok () w' \<and> cache_inv p {x, y} ?pins w' \<and> bview w' = bview w
      \<and> disk w' = disk w \<and> dwrites w' = dwrites w \<and> (\<forall>i<NBUF. bcontent (bu w' i) = bcontent (bu w i)) \<and> bio_frame w w'"
  proof (cases recovering)
    case True
    then show ?thesis using w(2) by simp
  next
    case False
    then have py: "0 < pins y" "pins(y := pins y - 1) = pins(y := 0)" using iy by auto
    show ?thesis using bunpin_spec [OF w(2) r(6) py(1)] False py(2) by simp
  qed
  then obtain w' where w': "(if \<not> recovering then bunpin y w else Ok () w) = Ok () w'" "cache_inv p {x, y} ?pins w'" "bview w' = bview w"
    "disk w' = disk w" "dwrites w' = dwrites w" "\<forall>i<NBUF. bcontent (bu w' i) = bcontent (bu w i)" "bio_frame w w'" by blast
  have "b_data (bu w' x) = disk w' (b_blockno (bu w' x))"
    using w'(4,6) r(5) w(4,6) v(8,9) ad ac by (simp add: bcontent_def)
  from brelse_spec [OF w'(2) _ this] obtain q where
    q: "brelse x w' = Ok () q" "cache_inv p ({x, y} - {x}) ?pins q" "bview q = bview w'" "disk q = disk w'" "dwrites q = dwrites w'"
      "\<forall>i<NBUF. bcontent (bu q i) = bcontent (bu w' i)" "bio_frame w' q" by blast
  have ciq: "cache_inv p {y} ?pins q" using q(2) r(4) by (simp add: insert_Diff_if)
  have "b_data (bu q y) = disk q (b_blockno (bu q y))"
    using q(4,6) w'(4,6) r(6) w(4,6) v(6,7) by (simp add: bcontent_def)
  from brelse_spec [OF ciq _ this] obtain z where
    z: "brelse y q = Ok () z" "cache_inv p ({y} - {y}) ?pins z" "bview z = bview q" "disk z = disk q" "dwrites z = dwrites q"
      "\<forall>i<NBUF. bcontent (bu z i) = bcontent (bu q i)" "bio_frame q z" by blast
  have kp: "keeps_pinned pins s z"
  proof -
    have uv: "keeps_pinned pins u v" using sd(6) ld r(8) by (simp add: keeps_pinned_def v_def)
    have vw: "keeps_pinned pins v w" using w(6) by (simp add: keeps_pinned_def)
    note wz = keeps_pinned_trans [OF keeps_pinned_content [OF w'(6)]
      keeps_pinned_trans [OF keeps_pinned_content [OF q(6)] keeps_pinned_content [OF z(6)]]]
    show ?thesis by (rule keeps_pinned_trans [OF r(16) keeps_pinned_trans [OF uv keeps_pinned_trans [OF vw wz]]])
  qed
  have fr: "bio_frame s z"
    by (rule bio_frame_trans [OF r(14) bio_frame_trans [OF v(5) bio_frame_trans [OF w(7)
        bio_frame_trans [OF w'(7) bio_frame_trans [OF q(7) z(7)]]]]])
  have "install_body recovering a c s = Ok () z"
    using r(1,2) w(1) w'(1) q(1) z(1) unfolding install_body_def v_def by (simp only: kbind_simps Let_def)
  moreover have "?pins = (if recovering then pins else pins(i := 0))" using iy by auto
  moreover have "bview z = (bview s)(c := bview s a)" "disk z = (disk s)(c := bview s a)" "dwrites z = dwrites s @ [(c, bview s a)]"
    using z(3-5) q(3-5) w'(3-5) w(3-5) v(2) by simp_all
  ultimately show ?thesis using z(2) fr kp by auto
qed

section \<open>Sequences of block writes\<close>

definition apply_writes :: "(u32 \<times> u8 list) list \<Rightarrow> (u32 \<Rightarrow> u8 list) \<Rightarrow> (u32 \<Rightarrow> u8 list)" where
  "apply_writes ws f = foldl (\<lambda>f (a, d). f(a := d)) f ws"

lemma apply_writes_simps [simp]:
  "apply_writes [] f = f" "apply_writes (ws @ vs) f = apply_writes vs (apply_writes ws f)"
  "apply_writes [(a, d)] f = f(a := d)" "apply_writes ((a, d) # ws) f = apply_writes ws (f(a := d))"
  by (simp_all add: apply_writes_def)

lemma apply_writes_other: "a \<notin> fst ` set ws \<Longrightarrow> apply_writes ws f a = f a"
  by (induction ws arbitrary: f) auto

lemma apply_writes_in: "distinct (map fst ws) \<Longrightarrow> (a, d) \<in> set ws \<Longrightarrow> apply_writes ws f a = d"
proof (induction ws arbitrary: f)
  case (Cons w ws)
  then show ?case using apply_writes_other [of a ws "f(a := d)"] by (cases w) force
qed simp

section \<open>The log area\<close>

definition slot :: "u32 \<Rightarrow> nat \<Rightarrow> u32" where
  "slot start i = start + of_nat i + 1"

definition log_area :: "u32 \<Rightarrow> u32 set" where
  "log_area start = (\<lambda>i. start + of_nat i) ` {..<LOGSIZE}"

definition good_log :: "u32 \<Rightarrow> u32 list \<Rightarrow> bool" where
  "good_log start bns \<longleftrightarrow> distinct bns \<and> length bns < LOGSIZE \<and> set bns \<inter> log_area start = {}"

lemma of_nat_inj32: "i < LOGSIZE \<Longrightarrow> j < LOGSIZE \<Longrightarrow> (of_nat i :: u32) = of_nat j \<longleftrightarrow> i = j"
  by (auto simp: param_defs word_unat_eq_iff unat_of_nat)

lemma slot_facts:
  assumes "Suc i < LOGSIZE"
  shows "slot start i \<in> log_area start" "slot start i \<noteq> start" "start \<in> log_area start"
    "Suc j < LOGSIZE \<Longrightarrow> slot start i = slot start j \<longleftrightarrow> i = j"
proof -
  have s: "slot start k = start + of_nat (Suc k)" for k by (simp add: slot_def)
  show "slot start i \<in> log_area start" unfolding s log_area_def using assms by blast
  show "start \<in> log_area start" unfolding log_area_def by (rule image_eqI [of _ _ 0]) (simp_all add: param_defs)
  show "slot start i \<noteq> start"
    using of_nat_inj32 [OF assms, of 0] by (simp add: s param_defs del: of_nat_Suc)
  show "slot start i = slot start j \<longleftrightarrow> i = j" if "Suc j < LOGSIZE"
    unfolding s using of_nat_inj32 [OF assms that] by simp
qed

definition log_at :: "u32 \<Rightarrow> u32 list \<Rightarrow> log_st \<Rightarrow> bool" where
  "log_at start bns l \<longleftrightarrow> l_dev l = ROOTDEV \<and> l_start l = start \<and> lh_n l = of_nat (length bns)
     \<and> length (lh_block l) = LOGSIZE \<and> take (length bns) (lh_block l) = bns"

lemma log_atD:
  assumes "log_at start bns l" and "length bns \<le> LOGSIZE"
  shows "l_dev l = ROOTDEV" "l_start l = start" "nat (sint (lh_n l)) = length bns" "i < length bns \<Longrightarrow> lh_block l ! i = bns ! i"
    "sint (lh_n l) = int (length bns)"
proof -
  show "l_dev l = ROOTDEV" "l_start l = start" using assms by (simp_all add: log_at_def)
  have "length bns < 2 ^ 31" using assms(2) by (simp add: param_defs)
  then show n: "sint (lh_n l) = int (length bns)" using assms(1) by (simp add: log_at_def sint_of_nat32)
  then show "nat (sint (lh_n l)) = length bns" by simp
  show "lh_block l ! i = bns ! i" if "i < length bns"
  proof -
    have "take (length bns) (lh_block l) ! i = bns ! i" using assms(1) by (simp add: log_at_def)
    then show ?thesis using that by simp
  qed
qed

text \<open>\<^verbatim>\<open>g j\<close> is the buffer of the \<^verbatim>\<open>j\<close>-th logged block; exactly the buffers from the \<^verbatim>\<open>k\<close>-th on are pinned, once.\<close>

definition pins_from :: "(nat \<Rightarrow> nat) \<Rightarrow> nat \<Rightarrow> nat \<Rightarrow> nat \<Rightarrow> nat" where
  "pins_from g k n i = (if \<exists>j. k \<le> j \<and> j < n \<and> i = g j then 1 else 0)"

definition home_bufs :: "(nat \<Rightarrow> nat) \<Rightarrow> u32 list \<Rightarrow> 'z bio_state_scheme \<Rightarrow> bool" where
  "home_bufs g bns s \<longleftrightarrow> inj_on g {..<length bns} \<and> (\<forall>j<length bns. g j < NBUF \<and> b_blockno (bu s (g j)) = bns ! j)"

lemma pins_from_spare: "n < LOGSIZE \<Longrightarrow> spare (pins_from g k n) 1"
proof -
  assume n: "n < LOGSIZE"
  have "{..<NBUF} - g ` {..<n} \<subseteq> {i. i < NBUF \<and> pins_from g k n i = 0}" by (auto simp: pins_from_def)
  then have "card ({..<NBUF} - g ` {..<n}) \<le> card {i. i < NBUF \<and> pins_from g k n i = 0}" by (intro card_mono) auto
  moreover have "card (g ` {..<n}) \<le> n" using card_image_le [of "{..<n}" g] by simp
  then have "NBUF - n \<le> card ({..<NBUF} - g ` {..<n})"
    using diff_card_le_card_Diff [of "g ` {..<n}" "{..<NBUF}"] by simp
  ultimately show ?thesis using n by (simp add: spare_def param_defs)
qed

lemma pins_from_Suc:
  assumes "inj_on g {..<n}" and "k < n"
  shows "(pins_from g k n)(g k := 0) = pins_from g (Suc k) n"
proof
  fix i
  have "g j = g k \<longleftrightarrow> j = k" if "j < n" for j using inj_on_eq_iff [OF assms(1)] that assms(2) by simp
  then have "(\<exists>j. Suc k \<le> j \<and> j < n \<and> i = g j) \<longleftrightarrow> i \<noteq> g k \<and> (\<exists>j. k \<le> j \<and> j < n \<and> i = g j)"
    by (metis Suc_leD Suc_leI le_neq_implies_less not_less_eq_eq order_refl)
  then show "((pins_from g k n)(g k := 0)) i = pins_from g (Suc k) n i" by (simp add: pins_from_def) blast
qed

lemma pins_from_all: "pins_from g n n = (\<lambda>_. 0)"
  by (rule ext) (auto simp: pins_from_def)

section \<open>Writing the log\<close>

definition log_writes :: "u32 \<Rightarrow> u32 list \<Rightarrow> (u32 \<Rightarrow> u8 list) \<Rightarrow> nat \<Rightarrow> (u32 \<times> u8 list) list" where
  "log_writes start bns f k = map (\<lambda>j. (slot start j, f (bns ! j))) [0..<k]"

lemma log_writes_Suc: "log_writes start bns f (Suc k) = log_writes start bns f k @ [(slot start k, f (bns ! k))]"
  by (simp add: log_writes_def)

lemma log_writes_home:
  assumes "good_log start bns" and "k \<le> length bns" and "c \<notin> log_area start"
  shows "apply_writes (log_writes start bns f k) h c = h c"
proof (rule apply_writes_other)
  have "slot start j \<in> log_area start" if "j < k" for j
    using slot_facts(1) [of j start] assms that by (auto simp: good_log_def)
  then show "c \<notin> fst ` set (log_writes start bns f k)" using assms(3) by (auto simp: log_writes_def)
qed

lemma good_log_home: "good_log start bns \<Longrightarrow> j < length bns \<Longrightarrow> bns ! j \<notin> log_area start"
  by (auto simp: good_log_def disjoint_iff)

lemma write_log_spec:
  assumes ci: "cache_inv p {} (pins_from g 0 (length bns)) s" and la: "log_at start bns (lg s)" and gl: "good_log start bns"
    and hb: "home_bufs g bns s"
  shows "\<exists>t. write_log s = Ok () t \<and> cache_inv p {} (pins_from g 0 (length bns)) t \<and> home_bufs g bns t
     \<and> bview t = apply_writes (log_writes start bns (bview s) (length bns)) (bview s)
     \<and> disk t = apply_writes (log_writes start bns (bview s) (length bns)) (disk s)
     \<and> dwrites t = dwrites s @ log_writes start bns (bview s) (length bns) \<and> bio_frame s t"
proof -
  let ?n = "length bns" and ?W = "log_writes start bns (bview s)" and ?pins = "pins_from g 0 (length bns)"
  have n: "?n < LOGSIZE" using gl by (simp add: good_log_def)
  note L = log_atD [OF la less_imp_le [OF n]]
  let ?I = "\<lambda>k t. cache_inv p {} ?pins t \<and> home_bufs g bns t \<and> bview t = apply_writes (?W k) (bview s)
     \<and> disk t = apply_writes (?W k) (disk s) \<and> dwrites t = dwrites s @ ?W k \<and> bio_frame s t"
  have "\<exists>t. write_log s = Ok () t \<and> ?I (logged s) t"
    unfolding write_log_def
  proof (rule kfor_inv [where I = ?I])
    show "?I 0 s" using ci hb by (simp add: log_writes_def)
    fix k t
    assume k: "0 \<le> k" "k < logged s" and I: "?I k t"
    have k': "k < ?n" "\<not> LOGSIZE \<le> k" using k n by (simp_all add: L(3))
    have lgt: "lg t = lg s" using I bio_frame_log by blast
    have view: "bview t (bns ! k) = bview s (bns ! k)"
      using I log_writes_home [OF gl less_imp_le [OF k'(1)] good_log_home [OF gl k'(1)]] by simp
    have ne: "slot start k \<noteq> bns ! k"
      using good_log_home [OF gl k'(1)] slot_facts(1) [of k start] n k' by auto
    have gk: "g k < NBUF" "b_blockno (bu t (g k)) = bns ! k" using I k'(1) by (auto simp: home_bufs_def)
    have pk: "0 < ?pins (g k)" using k'(1) by (auto simp: pins_from_def)
    from write_log_body [OF _ ne pins_from_spare [OF n] gk(1) pk gk(2)] I obtain u where
      u: "kbind (bread ROOTDEV (slot start k) t) (\<lambda>to s. kbind (bread ROOTDEV (bns ! k) s) (\<lambda>from s.
           let s = set_data to (b_data (bu s from)) s in
           kbind (bwrite to s) (\<lambda>_ s. kbind (brelse from s) (\<lambda>_ s. brelse to s)))) = Ok () u"
        "cache_inv p {} ?pins u" "bview u = (bview t)(slot start k := bview s (bns ! k))"
        "disk u = (disk t)(slot start k := bview s (bns ! k))"
        "dwrites u = dwrites t @ [(slot start k, bview s (bns ! k))]" "bio_frame t u" "keeps_pinned ?pins t u"
      using view by auto
    have "b_blockno (bu u (g j)) = bns ! j" if "j < ?n" for j
    proof -
      have "0 < ?pins (g j)" using that by (auto simp: pins_from_def)
      then show ?thesis using I u(7) that by (simp add: home_bufs_def keeps_pinned_def)
    qed
    then have hu: "home_bufs g bns u" using I by (simp add: home_bufs_def)
    have inner: "bread (l_dev (lg t')) (lh_block (lg t') ! k) t' = bread ROOTDEV (bns ! k) t'" if "bread ROOTDEV a t = Ok x t'" for a x t'
      using more_same_log [OF within_Ok [OF bread_more that]] lgt L k'(1) by simp
    show "\<exists>u. (if LOGSIZE \<le> k then Panic ''log.lh.block''
        else kbind (bread (l_dev (lg t)) (l_start (lg t) + of_nat k + 1) t) (\<lambda>to s.
          kbind (bread (l_dev (lg s)) (lh_block (lg s) ! k) s) (\<lambda>from s.
          let s = set_data to (b_data (bu s from)) s in
          kbind (bwrite to s) (\<lambda>_ s. kbind (brelse from s) (\<lambda>_ s. brelse to s))))) = Ok () u \<and> ?I (Suc k) u"
    proof (intro exI conjI)
      show "(if LOGSIZE \<le> k then Panic ''log.lh.block''
        else kbind (bread (l_dev (lg t)) (l_start (lg t) + of_nat k + 1) t) (\<lambda>to s.
          kbind (bread (l_dev (lg s)) (lh_block (lg s) ! k) s) (\<lambda>from s.
          let s = set_data to (b_data (bu s from)) s in
          kbind (bwrite to s) (\<lambda>_ s. kbind (brelse from s) (\<lambda>_ s. brelse to s))))) = Ok () u"
        unfolding u(1) [symmetric] using k'(2) lgt L(1,2) by (simp add: slot_def inner cong: kbind_cong)
      show "bio_frame s u" using I u(6) bio_frame_trans by blast
    qed (use I u hu in \<open>simp_all add: log_writes_Suc\<close>)
  qed simp
  then show ?thesis by (simp only: L(3))
qed

section \<open>Writing and reading the header\<close>

lemma head_bounds: "i < LOGSIZE \<Longrightarrow> 4 + 4 * i + 4 \<le> BSIZE"
  by (simp add: param_defs BSIZE_def)

lemma write_head_spec:
  assumes ci: "cache_inv p {} pins s" and la: "log_at start bns (lg s)" and n: "length bns < LOGSIZE" and sp: "spare pins 1"
    and np: "\<forall>i<NBUF. 0 < pins i \<longrightarrow> b_blockno (bu s i) \<noteq> start"
  shows "\<exists>t d. write_head s = Ok () t \<and> is_header d bns \<and> cache_inv p {} pins t \<and> bview t = (bview s)(start := d)
     \<and> disk t = (disk s)(start := d) \<and> dwrites t = dwrites s @ [(start, d)] \<and> bio_frame s t \<and> keeps_pinned pins s t"
proof -
  let ?n = "length bns"
  note L = log_atD [OF la less_imp_le [OF n]]
  have "is_cached s start \<or> (\<exists>i<NBUF. i \<notin> {} \<and> pins i = 0)" using spare_room [of pins "{}"] sp by simp
  from bread_spec [OF ci _ this] obtain b t where
    t: "bread ROOTDEV start s = Ok b t" "b < NBUF" "cache_inv p (insert b {}) pins t" "b_blockno (bu t b) = start" "b_data (bu t b) = bview s start"
      "bview t = bview s" "disk t = disk s" "dwrites t = dwrites s" "\<forall>i<NBUF. i \<noteq> b \<longrightarrow> bu t i = bu s i" "bio_frame s t"
      "if is_cached s start then b_dev (bu s b) = ROOTDEV \<and> b_blockno (bu s b) = start else pins b = 0" by auto
  have pb: "pins b = 0" using t(11) np t(2) by (auto split: if_splits)
  have lent: "length (b_data (bu t b)) = BSIZE"
    using cache_invD(12) [OF t(3,2)] cache_inv_bufs(3) [OF t(3), of b] by simp
  define u where "u = set_data b (put32 (b_data (bu t b)) 0 (lh_n (lg t))) t"
  have lgt: "lg t = lg s" by (rule bio_frame_log [OF t(10)])
  let ?I = "\<lambda>k v. cache_inv p {b} pins v \<and> b_blockno (bu v b) = start \<and> length (b_data (bu v b)) = BSIZE
     \<and> get32 (b_data (bu v b)) 0 = of_nat ?n \<and> (\<forall>i<k. get32 (b_data (bu v b)) (4 + 4 * i) = bns ! i)
     \<and> bview v = (bview s)(start := b_data (bu v b)) \<and> disk v = disk s \<and> dwrites v = dwrites s \<and> bio_frame s v
     \<and> (\<forall>i<NBUF. i \<noteq> b \<longrightarrow> bu v i = bu s i)"
  have step: "?I k (set_data b d v)" if v: "cache_inv p {b} pins v" "b_blockno (bu v b) = start"
      "bview v = (bview s)(start := e)" "disk v = disk s" "dwrites v = dwrites s" "bio_frame s v" "\<forall>i<NBUF. i \<noteq> b \<longrightarrow> bu v i = bu s i"
      and d: "length d = BSIZE" "get32 d 0 = of_nat ?n" "\<forall>i<k. get32 d (4 + 4 * i) = bns ! i" for k v d e
    using set_data_spec [OF v(1), of b d] v d bio_frame_trans [OF v(6)] by simp
  have I0: "?I 0 u"
    unfolding u_def lgt using t lent la by (intro step [where e = "bview s start"])
      (simp_all add: get32_put32 BSIZE_def log_at_def)
  have "\<exists>v. kfor 0 (logged u) (\<lambda>i s. if LOGSIZE \<le> i then Panic ''log.lh.block''
       else Ok () (set_data b (put32 (b_data (bu s b)) (4 + 4 * i) (lh_block (lg s) ! i)) s)) u = Ok () v \<and> ?I (logged u) v"
  proof (rule kfor_inv [where I = ?I, OF I0])
    fix k v assume k: "0 \<le> k" "k < logged u" and I: "?I k v"
    have lgv: "lg v = lg s" and lgu: "lg u = lg s" using I I0 bio_frame_log by blast+
    then have k': "k < ?n" using k(2) L(3) by simp
    let ?d = "put32 (b_data (bu v b)) (4 + 4 * k) (bns ! k)"
    have hb: "4 + 4 * k + 4 \<le> length (b_data (bu v b))" using I head_bounds [of k] k' n by simp
    have "get32 ?d (4 + 4 * i) = bns ! i" if "i < Suc k" for i
      using I that hb by (cases "i = k") (simp_all add: get32_put32 get32_put32_other)
    then have "?I (Suc k) (set_data b ?d v)"
      using I hb by (intro step [where e = "b_data (bu v b)"]) (simp_all add: get32_put32_other)
    then show "\<exists>t'. (if LOGSIZE \<le> k then Panic ''log.lh.block''
       else Ok () (set_data b (put32 (b_data (bu v b)) (4 + 4 * k) (lh_block (lg v) ! k)) v)) = Ok () t' \<and> ?I (Suc k) t'"
      using k' n L(4) lgv by simp
  qed simp
  then obtain v where v: "kfor 0 (logged u) (\<lambda>i s. if LOGSIZE \<le> i then Panic ''log.lh.block''
       else Ok () (set_data b (put32 (b_data (bu s b)) (4 + 4 * i) (lh_block (lg s) ! i)) s)) u = Ok () v" "?I (logged u) v" by blast
  have lu: "logged u = ?n" using I0 bio_frame_log [of s u] L(3) by simp
  let ?d = "b_data (bu v b)"
  have h: "is_header ?d bns" using v(2) lu by (simp add: is_header_def)
  from bwrite_spec [of p "{b}" pins v b] v(2) obtain w where
    w: "bwrite b v = Ok () w" "cache_inv p {b} pins w" "bview w = bview v" "disk w = (disk s)(start := ?d)"
      "dwrites w = dwrites s @ [(start, ?d)]" "bufs w = bufs v" "bio_frame v w" by auto
  have "b_data (bu w b) = disk w (b_blockno (bu w b))" using w(4,6) v(2) by simp
  from brelse_spec [OF w(2) _ this] obtain z where
    z: "brelse b w = Ok () z" "cache_inv p ({b} - {b}) pins z" "bview z = bview w" "disk z = disk w" "dwrites z = dwrites w"
      "\<forall>i<NBUF. bcontent (bu z i) = bcontent (bu w i)" "bio_frame w z" by blast
  have "keeps_pinned pins s z"
    using z(6) w(6) v(2) pb by (auto simp: keeps_pinned_def bcontent_def)
  moreover have "bio_frame s z" using v(2) bio_frame_trans [OF _ bio_frame_trans [OF w(7) z(7)]] by blast
  moreover have "write_head s = Ok () z"
    using t(1) v(1) w(1) z(1) L(1,2) unfolding write_head_def u_def by (simp only: kbind_simps Let_def)
  ultimately show ?thesis using h z w(3-5) v(2) by (intro exI [of _ z] exI [of _ ?d]) simp
qed

section \<open>Installing the log\<close>

definition home_writes :: "u32 \<Rightarrow> u32 list \<Rightarrow> (u32 \<Rightarrow> u8 list) \<Rightarrow> nat \<Rightarrow> (u32 \<times> u8 list) list" where
  "home_writes start bns f k = map (\<lambda>j. (bns ! j, f (slot start j))) [0..<k]"

lemma home_writes_Suc: "home_writes start bns f (Suc k) = home_writes start bns f k @ [(bns ! k, f (slot start k))]"
  by (simp add: home_writes_def)

lemma home_writes_log:
  assumes "good_log start bns" and "k \<le> length bns" and "a \<in> log_area start"
  shows "apply_writes (home_writes start bns f k) h a = h a"
  using good_log_home [OF assms(1)] assms(2,3) by (intro apply_writes_other) (force simp: home_writes_def)

lemma spare_none: "spare (\<lambda>_. 0) 2"
  by (simp add: spare_def param_defs)

lemma install_loop_body:
  assumes "lg t = lg s" and "log_at start bns (lg s)" and "k < length bns" and "length bns < LOGSIZE"
  shows "(if LOGSIZE \<le> k then Panic ''log.lh.block''
     else kbind (bread (l_dev (lg t)) (l_start (lg t) + of_nat k + 1) t) (\<lambda>lbuf s.
       kbind (bread (l_dev (lg s)) (lh_block (lg s) ! k) s) (\<lambda>dbuf s.
       let s = set_data dbuf (b_data (bu s lbuf)) s in
       kbind (bwrite dbuf s) (\<lambda>_ s.
       kbind (if \<not> recovering then bunpin dbuf s else Ok () s) (\<lambda>_ s.
       kbind (brelse lbuf s) (\<lambda>_ s.
       brelse dbuf s)))))) = install_body recovering (slot start k) (bns ! k) t"
proof -
  note L = log_atD [OF assms(2) less_imp_le [OF assms(4)]]
  have "bread (l_dev (lg t')) (lh_block (lg t') ! k) t' = bread ROOTDEV (bns ! k) t'" if "bread ROOTDEV a t = Ok x t'" for a x t'
    using more_same_log [OF within_Ok [OF bread_more that]] assms(1,3) L by simp
  then show ?thesis
    using assms(1,3,4) L(1,2) by (simp add: install_body_def slot_def cong: kbind_cong)
qed

lemma install_trans_spec:
  assumes ci: "cache_inv p {} (if recovering then (\<lambda>_. 0) else pins_from g 0 (length bns)) s"
    and la: "log_at start bns (lg s)" and gl: "good_log start bns" and hb: "recovering \<or> home_bufs g bns s"
  shows "\<exists>t. install_trans recovering s = Ok () t \<and> cache_inv p {} (\<lambda>_. 0) t
     \<and> bview t = apply_writes (home_writes start bns (bview s) (length bns)) (bview s)
     \<and> disk t = apply_writes (home_writes start bns (bview s) (length bns)) (disk s)
     \<and> dwrites t = dwrites s @ home_writes start bns (bview s) (length bns) \<and> bio_frame s t"
proof -
  let ?n = "length bns" and ?W = "home_writes start bns (bview s)"
  let ?pins = "\<lambda>k. if recovering then (\<lambda>_. 0) else pins_from g k ?n"
  have n: "?n < LOGSIZE" using gl by (simp add: good_log_def)
  note L = log_atD [OF la less_imp_le [OF n]]
  let ?I = "\<lambda>k t. cache_inv p {} (?pins k) t \<and> (recovering \<or> (\<forall>j<?n. k \<le> j \<longrightarrow> b_blockno (bu t (g j)) = bns ! j))
     \<and> bview t = apply_writes (?W k) (bview s) \<and> disk t = apply_writes (?W k) (disk s) \<and> dwrites t = dwrites s @ ?W k \<and> bio_frame s t"
  have "\<exists>t. install_trans recovering s = Ok () t \<and> ?I (logged s) t"
    unfolding install_trans_def
  proof (rule kfor_inv [where I = ?I])
    show "?I 0 s" using ci hb by (auto simp: home_writes_def home_bufs_def)
    fix k t
    assume k: "0 \<le> k" "k < logged s" and I: "?I k t"
    have k': "k < ?n" using k L(3) by simp
    let ?a = "slot start k" and ?c = "bns ! k"
    have ar: "?a \<in> log_area start" using slot_facts(1) [of k start] n k' by simp
    have ne: "?a \<noteq> ?c" using good_log_home [OF gl k'] ar by auto
    have view: "bview t ?a = bview s ?a" using I home_writes_log [OF gl less_imp_le [OF k'] ar] by simp
    have np: "\<forall>i<NBUF. i \<in> {} \<or> 0 < ?pins k i \<longrightarrow> b_blockno (bu t i) \<noteq> ?a"
    proof (intro allI impI)
      fix i assume i: "i < NBUF" "i \<in> {} \<or> 0 < ?pins k i"
      then obtain j where "\<not> recovering" "j < ?n" "k \<le> j" "i = g j" by (auto simp: pins_from_def split: if_splits)
      then have "b_blockno (bu t i) = bns ! j" "j < ?n" using I by auto
      then show "b_blockno (bu t i) \<noteq> ?a" using good_log_home [OF gl, of j] ar by auto
    qed
    have ad: "bview t ?a = disk t ?a" using I np by (intro bview_disk [where p = p and L = "{}" and pins = "?pins k"]) auto
    have gk: "recovering \<or> g k < NBUF \<and> b_blockno (bu t (g k)) = ?c" using I hb k' by (auto simp: home_bufs_def)
    have inj: "recovering \<or> inj_on g {..<?n}" using hb by (auto simp: home_bufs_def)
    have rc: "if recovering then spare (?pins k) 2 \<and> (\<forall>i<NBUF. ?pins k i = 0)
        else spare (?pins k) 1 \<and> g k < NBUF \<and> ?pins k (g k) = 1 \<and> b_blockno (bu t (g k)) = ?c"
      using gk spare_none pins_from_spare [OF n] k' by (auto simp: pins_from_def)
    from install_body_spec [OF _ ne ad rc] I obtain u where
      u: "install_body recovering ?a ?c t = Ok () u"
        "cache_inv p {} (if recovering then ?pins k else (?pins k)(g k := 0)) u"
        "bview u = (bview t)(?c := bview s ?a)" "disk u = (disk t)(?c := bview s ?a)" "dwrites u = dwrites t @ [(?c, bview s ?a)]"
        "bio_frame t u" "keeps_pinned (?pins k) t u" using view by auto
    have pins: "(if recovering then ?pins k else (?pins k)(g k := 0)) = ?pins (Suc k)"
      using inj k' by (auto simp: pins_from_Suc)
    have bl: "b_blockno (bu u (g j)) = bns ! j" if "j < ?n" "Suc k \<le> j" "\<not> recovering" for j
    proof -
      have "0 < ?pins k (g j)" "g j < NBUF" using that hb by (auto simp: pins_from_def home_bufs_def)
      then show ?thesis using I u(7) that by (simp add: keeps_pinned_def)
    qed
    have "bio_frame s u" using I u(6) bio_frame_trans by blast
    moreover note install_loop_body [OF bio_frame_log la k' n, of t recovering]
    ultimately show "\<exists>u. (if LOGSIZE \<le> k then Panic ''log.lh.block''
     else kbind (bread (l_dev (lg t)) (l_start (lg t) + of_nat k + 1) t) (\<lambda>lbuf s.
       kbind (bread (l_dev (lg s)) (lh_block (lg s) ! k) s) (\<lambda>dbuf s.
       let s = set_data dbuf (b_data (bu s lbuf)) s in
       kbind (bwrite dbuf s) (\<lambda>_ s.
       kbind (if \<not> recovering then bunpin dbuf s else Ok () s) (\<lambda>_ s.
       kbind (brelse lbuf s) (\<lambda>_ s.
       brelse dbuf s)))))) = Ok () u \<and> ?I (Suc k) u"
      using u(1-5) pins bl I by (intro exI [of _ u]) (auto simp: home_writes_Suc)
  qed simp
  then obtain t where t: "install_trans recovering s = Ok () t" "?I ?n t" by (simp only: L(3)) blast
  have "?pins ?n = (\<lambda>_. 0)" by (simp add: pins_from_all)
  then show ?thesis using t by auto
qed

section \<open>Recovery\<close>

lemma upd_log_simps [simp]:
  "bufs (upd_log f s) = bufs s" "disk (upd_log f s) = disk s" "dwrites (upd_log f s) = dwrites s" "lg (upd_log f s) = f (lg s)"
  "held (upd_log f s) = held s" "sleeplocks (upd_log f s) = sleeplocks s" "procs (upd_log f s) = procs s"
  "curproc (upd_log f s) = curproc s" "mem (upd_log f s) = mem s" "freelist (upd_log f s) = freelist s" "k_end (upd_log f s) = k_end s"
  by (simp_all add: upd_log_def)

lemma cache_inv_upd_log [simp]: "cache_inv p L pins (upd_log f s) = cache_inv p L pins s"
  by (simp add: cache_inv_def in_proc_def)

lemma bview_upd_log [simp]: "bview (upd_log f s) = bview s"
  by (rule bview_cong) simp_all

lemma read_head_spec:
  assumes ci: "cache_inv p {} (\<lambda>_. 0) s" and h: "is_header (disk s start) bns" and n: "length bns < LOGSIZE"
    and l: "l_dev (lg s) = ROOTDEV" "l_start (lg s) = start" "length (lh_block (lg s)) = LOGSIZE"
  shows "\<exists>t. read_head s = Ok () t \<and> log_at start bns (lg t) \<and> cache_inv p {} (\<lambda>_. 0) t \<and> bview t = bview s \<and> disk t = disk s \<and> dwrites t = dwrites s"
proof -
  let ?n = "length bns"
  have v0: "bview s start = disk s start" by (rule bview_disk [OF ci]) simp
  have "is_cached s start \<or> (\<exists>i<NBUF. i \<notin> {} \<and> (0 :: nat) = 0)" by (intro disjI2 exI [of _ 0]) (simp add: param_defs)
  from bread_spec [OF ci _ this] obtain b t where
    t: "bread ROOTDEV start s = Ok b t" "b < NBUF" "cache_inv p (insert b {}) (\<lambda>_. 0) t" "b_blockno (bu t b) = start" "b_data (bu t b) = disk s start"
      "bview t = bview s" "disk t = disk s" "dwrites t = dwrites s" "bio_frame s t" using v0 by auto
  have lgt: "lg t = lg s" by (rule bio_frame_log [OF t(9)])
  define u where "u = upd_log (\<lambda>l. l\<lparr>lh_n := get32 (b_data (bu t b)) 0\<rparr>) t"
  have lu: "logged u = ?n"
    using h n by (simp add: u_def t(5) is_header_def sint_of_nat32 param_defs)
  let ?I = "\<lambda>k v. cache_inv p {b} (\<lambda>_. 0) v \<and> bufs v = bufs t \<and> bview v = bview s \<and> disk v = disk s \<and> dwrites v = dwrites s
     \<and> l_dev (lg v) = ROOTDEV \<and> l_start (lg v) = start \<and> lh_n (lg v) = of_nat ?n \<and> length (lh_block (lg v)) = LOGSIZE
     \<and> (\<forall>i<k. lh_block (lg v) ! i = bns ! i)"
  have "\<exists>v. kfor 0 (logged u) (\<lambda>i s. if i \<ge> LOGSIZE then Panic ''log.lh.block''
       else Ok () (upd_log (\<lambda>l. l\<lparr>lh_block := (lh_block l)[i := get32 (b_data (bu s b)) (4 + 4 * i)]\<rparr>) s)) u = Ok () v \<and> ?I (logged u) v"
  proof (rule kfor_inv [where I = ?I])
    show "?I 0 u" using t l h by (simp add: u_def lgt is_header_def)
    fix k v assume k: "0 \<le> k" "k < logged u" and I: "?I k v"
    have k': "k < ?n" using k lu by simp
    have g: "get32 (b_data (bu t b)) (4 + 4 * k) = bns ! k" using t(5) h k' by (simp add: is_header_def)
    show "\<exists>t'. (if k \<ge> LOGSIZE then Panic ''log.lh.block''
       else Ok () (upd_log (\<lambda>l. l\<lparr>lh_block := (lh_block l)[k := get32 (b_data (bu v b)) (4 + 4 * k)]\<rparr>) v)) = Ok () t' \<and> ?I (Suc k) t'"
      using k' n I by (simp add: g nth_list_update less_Suc_eq)
  qed simp
  then obtain v where v: "kfor 0 (logged u) (\<lambda>i s. if i \<ge> LOGSIZE then Panic ''log.lh.block''
       else Ok () (upd_log (\<lambda>l. l\<lparr>lh_block := (lh_block l)[i := get32 (b_data (bu s b)) (4 + 4 * i)]\<rparr>) s)) u = Ok () v" "?I ?n v"
    by (simp only: lu) blast
  have "b_data (bu v b) = disk v (b_blockno (bu v b))" using v(2) t(4,5) by simp
  then obtain z where z: "brelse b v = Ok () z" "cache_inv p ({b} - {b}) (\<lambda>_. 0) z" "bview z = bview v" "disk z = disk v" "dwrites z = dwrites v" "bio_frame v z"
    using brelse_spec [of p "{b}" "\<lambda>_. 0" v b] v(2) by blast
  have "lg z = lg v" by (rule bio_frame_log [OF z(6)])
  moreover have "take ?n (lh_block (lg v)) = bns" using v(2) n by (intro nth_equalityI) simp_all
  ultimately have "log_at start bns (lg z)" using v(2) by (simp add: log_at_def)
  moreover have "read_head s = Ok () z"
    using t(1) l(1,2) v(1) z(1) unfolding read_head_def u_def by (simp only: kbind_simps Let_def)
  ultimately show ?thesis using z(2-5) v(2) by auto
qed

lemma recover_spec:
  assumes ci: "cache_inv p {} (\<lambda>_. 0) s" and h: "is_header (disk s start) bns" and gl: "good_log start bns"
    and l: "l_dev (lg s) = ROOTDEV" "l_start (lg s) = start" "length (lh_block (lg s)) = LOGSIZE"
  shows "\<exists>t d. recover_from_log s = Ok () t \<and> cache_inv p {} (\<lambda>_. 0) t \<and> log_at start [] (lg t) \<and> is_header d []
     \<and> disk t = (apply_writes (home_writes start bns (disk s) (length bns)) (disk s))(start := d)"
proof -
  have n: "length bns < LOGSIZE" using gl by (simp add: good_log_def)
  have vd: "bview s = disk s" by (rule ext, rule bview_disk [OF ci]) simp
  from read_head_spec [OF ci h n l] obtain t where
    t: "read_head s = Ok () t" "log_at start bns (lg t)" "cache_inv p {} (\<lambda>_. 0) t" "bview t = disk s" "disk t = disk s" using vd by auto
  from install_trans_spec [of p True g bns t start for g] t gl obtain u where
    u: "install_trans True t = Ok () u" "cache_inv p {} (\<lambda>_. 0) u"
      "disk u = apply_writes (home_writes start bns (disk s) (length bns)) (disk s)" "bio_frame t u" by auto
  let ?u = "upd_log (\<lambda>l. l\<lparr>lh_n := 0\<rparr>) u"
  have "log_at start [] (lg ?u)" using bio_frame_log [OF u(4)] t(2) by (simp add: log_at_def)
  from write_head_spec [of p "\<lambda>_. 0" ?u, OF _ this] u(2) spare_none obtain v d where
    v: "write_head ?u = Ok () v" "is_header d []" "cache_inv p {} (\<lambda>_. 0) v" "disk v = (disk u)(start := d)" "bio_frame ?u v"
    by (auto simp: spare_def param_defs)
  have "log_at start [] (lg v)" using bio_frame_log [OF v(5)] \<open>log_at start [] (lg ?u)\<close> by simp
  then show ?thesis using t(1) u(1,3) v by (auto simp: recover_from_log_def)
qed

section \<open>Committing\<close>

definition new_writes :: "u32 list \<Rightarrow> (u32 \<Rightarrow> u8 list) \<Rightarrow> (u32 \<times> u8 list) list" where
  "new_writes bns f = map (\<lambda>b. (b, f b)) bns"

lemma log_writes_slot:
  assumes "good_log start bns" and "j < length bns"
  shows "apply_writes (log_writes start bns f (length bns)) h (slot start j) = f (bns ! j)"
proof (rule apply_writes_in)
  have "inj_on (slot start) {..<length bns}"
    using slot_facts(4) assms(1) by (intro inj_onI) (auto simp: good_log_def)
  then show "distinct (map fst (log_writes start bns f (length bns)))"
    by (simp add: log_writes_def distinct_map o_def atLeast0LessThan)
  show "(slot start j, f (bns ! j)) \<in> set (log_writes start bns f (length bns))" using assms(2) by (auto simp: log_writes_def)
qed

lemma home_writes_new:
  assumes "\<forall>j<length bns. h (slot start j) = f (bns ! j)"
  shows "home_writes start bns h (length bns) = new_writes bns f"
  using assms unfolding home_writes_def new_writes_def by (intro nth_equalityI) simp_all

definition commit_writes :: "u32 \<Rightarrow> u32 list \<Rightarrow> (u32 \<Rightarrow> u8 list) \<Rightarrow> u8 list \<Rightarrow> u8 list \<Rightarrow> (u32 \<times> u8 list) list" where
  "commit_writes start bns f h1 h0 =
     log_writes start bns f (length bns) @ [(start, h1)] @ new_writes bns f @ [(start, h0)]"

text \<open>A transaction that is ready to be committed: the logged blocks are pinned and lie outside the log.\<close>

definition committable :: "nat \<Rightarrow> u32 \<Rightarrow> u32 list \<Rightarrow> 'z log_state_scheme \<Rightarrow> bool" where
  "committable p start bns s \<longleftrightarrow> (\<exists>g. cache_inv p {} (pins_from g 0 (length bns)) s \<and> home_bufs g bns s)
     \<and> log_at start bns (lg s) \<and> good_log start bns"

lemma commit_spec:
  assumes "committable p start bns s" and "bns \<noteq> []"
  shows "\<exists>t h1 h0. commit s = Ok () t \<and> is_header h1 bns \<and> is_header h0 [] \<and> cache_inv p {} (\<lambda>_. 0) t \<and> log_at start [] (lg t)
     \<and> lg t = (lg s)\<lparr>lh_n := 0\<rparr> \<and> held t = held s
     \<and> dwrites t = dwrites s @ commit_writes start bns (bview s) h1 h0
     \<and> disk t = apply_writes (commit_writes start bns (bview s) h1 h0) (disk s)"
proof -
  from assms(1) obtain g where ci: "cache_inv p {} (pins_from g 0 (length bns)) s" and hb: "home_bufs g bns s"
    and la: "log_at start bns (lg s)" and gl: "good_log start bns" by (auto simp: committable_def)
  have n: "length bns < LOGSIZE" using gl by (simp add: good_log_def)
  let ?W = "log_writes start bns (bview s) (length bns)"
  from write_log_spec [OF ci la gl hb] obtain t where
    t: "write_log s = Ok () t" "cache_inv p {} (pins_from g 0 (length bns)) t" "home_bufs g bns t" "bview t = apply_writes ?W (bview s)"
      "disk t = apply_writes ?W (disk s)" "dwrites t = dwrites s @ ?W" "bio_frame s t" by blast
  have lat: "log_at start bns (lg t)" using la bio_frame_log [OF t(7)] by simp
  have sa: "start \<in> log_area start" using slot_facts(3) [of 0] by (simp add: param_defs)
  have "\<forall>i<NBUF. 0 < pins_from g 0 (length bns) i \<longrightarrow> b_blockno (bu t i) \<noteq> start"
    using t(3) good_log_home [OF gl] sa by (auto simp: pins_from_def home_bufs_def)
  from write_head_spec [OF t(2) lat n pins_from_spare [OF n] this] obtain u h1 where
    u: "write_head t = Ok () u" "is_header h1 bns" "cache_inv p {} (pins_from g 0 (length bns)) u" "bview u = (bview t)(start := h1)"
      "disk u = (disk t)(start := h1)" "dwrites u = dwrites t @ [(start, h1)]" "bio_frame t u" "keeps_pinned (pins_from g 0 (length bns)) t u" by blast
  have lau: "log_at start bns (lg u)" using lat bio_frame_log [OF u(7)] by simp
  have "0 < pins_from g 0 (length bns) (g j)" if "j < length bns" for j using that by (auto simp: pins_from_def)
  then have hbu: "home_bufs g bns u" using t(3) u(8) by (auto simp: home_bufs_def keeps_pinned_def)
  have "bview u (slot start j) = bview s (bns ! j)" if "j < length bns" for j
    using log_writes_slot [OF gl that] slot_facts(2) [of j start] n that by (simp add: u(4) t(4))
  then have hw: "home_writes start bns (bview u) (length bns) = new_writes bns (bview s)" by (intro home_writes_new) blast
  from install_trans_spec [of p False g bns u start] u(3) lau gl hbu hw obtain v where
    v: "install_trans False u = Ok () v" "cache_inv p {} (\<lambda>_. 0) v" "disk v = apply_writes (new_writes bns (bview s)) (disk u)"
      "dwrites v = dwrites u @ new_writes bns (bview s)" "bio_frame u v" by auto
  let ?v = "upd_log (\<lambda>l. l\<lparr>lh_n := 0\<rparr>) v"
  have lav: "log_at start [] (lg ?v)" using bio_frame_log [OF v(5)] lau by (simp add: log_at_def)
  from write_head_spec [of p "\<lambda>_. 0" ?v, OF _ this] v(2) spare_none obtain z h0 where
    z: "write_head ?v = Ok () z" "is_header h0 []" "cache_inv p {} (\<lambda>_. 0) z" "disk z = (disk v)(start := h0)"
      "dwrites z = dwrites v @ [(start, h0)]" "bio_frame ?v z"
    by (auto simp: spare_def param_defs)
  have "sint (lh_n (lg s)) > 0" using log_atD(5) [OF la less_imp_le [OF n]] assms(2) by simp
  then have "commit s = Ok () z" using t(1) u(1) v(1) z(1) by (simp add: commit_def)
  moreover have "log_at start [] (lg z)" using bio_frame_log [OF z(6)] lav by simp
  moreover have "lg z = (lg s)\<lparr>lh_n := 0\<rparr>" using bio_frame_log [OF z(6)] bio_frame_log [OF v(5)] bio_frame_log [OF u(7)] bio_frame_log [OF t(7)] by simp
  moreover have "held z = held s" using z(6) v(5) u(7) t(7) by (simp add: bio_frame_def)
  ultimately show ?thesis
    using u(2) z(2,3) z(4,5) v(3,4) u(5,6) t(5,6) by (auto simp: commit_writes_def)
qed

lemma new_writes_apply:
  assumes "distinct bns"
  shows "apply_writes (new_writes bns f) h c = (if c \<in> set bns then f c else h c)"
proof (cases "c \<in> set bns")
  case True
  then show ?thesis using assms by (simp add: apply_writes_in new_writes_def o_def image_iff)
next
  case False
  then show ?thesis by (simp add: new_writes_def apply_writes_other image_image)
qed

end
