(* ===== verification/Proc_Props.thy ===== *)
theory Proc_Props
  imports Proc_Sched
begin

text \<open>
  Properties of process management: the choice each scheduling policy makes, absence of starvation under
  first-come-first-served, the queue discipline that every state change of a process keeps, sleeping and waking,
  signals, the burst-time estimate, tick accounting, and what \<^verbatim>\<open>wait_stat\<close> writes to user memory.
\<close>

section \<open>A concrete process table\<close>

definition blank_proc :: proc where
  "blank_proc = \<lparr>p_state = UNUSED, p_chan = Ch_none, p_killed = 0, p_xstate = 0, p_pid = 0, p_maskid = 0, p_ctime = 0,
     p_ttime = 0, p_stime = 0, p_retime = 0, p_rutime = 0, p_average_bursttime = 0, p_queue_location = 0,
     p_priority = 0, p_run_time_ratio = 0, p_parent = None, p_kstack = 0, p_sz = 0, p_pagetable = 0, p_trapframe = 0,
     p_context = \<lparr>ctx_ra = 0, ctx_sp = 0, ctx_s = []\<rparr>, p_ofile = replicate NOFILE None, p_cwd = None,
     p_name = replicate 16 0\<rparr>"

definition ready_proc :: "i32 \<Rightarrow> u64 \<Rightarrow> proc" where
  "ready_proc pid pos = blank_proc\<lparr>p_state := RUNNABLE, p_pid := pid, p_queue_location := pos,
     p_average_bursttime := 500, p_priority := 5\<rparr>"

definition demo_with :: "proc list \<Rightarrow> proc_state" where
  "demo_with ps = \<lparr>held = [], mem = mem small, freelist = freelist small, k_end = k_end small,
     kernel_pagetable = 0, satp = 0, k_etext = 0x80008000, k_trampoline = 0x80007000, procs = ps, nextpid = 4,
     queue_counter = 10, ticks = 0, initproc = Some 0, curproc = None, k_proc = 0x80011000, k_forkret = 0x80002000\<rparr>"

definition demo_two :: proc_state where
  "demo_two = demo_with (ready_proc 1 7 # ready_proc 2 4 # replicate 62 blank_proc)"

lemma demo_two_procs:
  "p < NPROC \<Longrightarrow> pr demo_two p = (if p = 0 then ready_proc 1 7 else if p = 1 then ready_proc 2 4 else blank_proc)"
  by (auto simp: demo_two_def demo_with_def NPROC_def nth_Cons split: nat.splits)

lemma demo_two_quiet: "quiet demo_two"
  by (simp add: quiet_def demo_two_def demo_with_def NPROC_def)

lemma demo_two_queue: "queue_ok demo_two" "runnable demo_two p = (p < 2)" if "p < NPROC" for p
proof -
  have r: "runnable demo_two p = (p < 2)" if "p < NPROC" for p
    using that by (auto simp: runnable_def demo_two_procs ready_proc_def blank_proc_def)
  then show "runnable demo_two p = (p < 2)" using that by simp
  show "queue_ok demo_two"
    unfolding queue_ok_def using r
    by (auto simp: demo_two_procs ready_proc_def less_2_cases_iff demo_two_def demo_with_def)
qed

section \<open>Properties\<close>

text \<open>
  \<^bold>\<open>C16\<close> One turn of the scheduler runs, under each of the three policies, the runnable process that minimises the
  policy's key, the lowest slot among equals: the queue position under first-come-first-served, the average burst
  time under shortest-remaining-time, the run-time ratio under the completely fair policy with priority decay. It
  runs none when none is runnable; the last policy also ignores a process whose ratio is \<^verbatim>\<open>INT_MAX\<close>.
\<close>

theorem schedulers_choose_minimum:
  assumes "quiet s"
  shows "(\<exists>c. scheduler_fcfs swtch s = run_chosen (run_default swtch) c s
          \<and> first_min (runnable s) (\<lambda>p. p_queue_location (pr s p)) NPROC c)
    \<and> (\<exists>c. scheduler_srt swtch s = run_chosen (run_timed swtch) c s
          \<and> first_min (runnable s) (\<lambda>p. sint (p_average_bursttime (pr s p))) NPROC c)
    \<and> (\<exists>c. scheduler_cfsd swtch s = run_chosen (run_timed swtch) c s
          \<and> first_min (\<lambda>p. runnable s p \<and> sint (cfsd_ratio (pr s p)) < sint INT_MAX)
              (\<lambda>p. sint (cfsd_ratio (pr s p))) NPROC c)"
proof (intro conjI)
  show "\<exists>c. scheduler_fcfs swtch s = run_chosen (run_default swtch) c s
          \<and> first_min (runnable s) (\<lambda>p. p_queue_location (pr s p)) NPROC c"
    using fcfs_choice [OF assms] by (auto simp: scheduler_fcfs_def)
  show "\<exists>c. scheduler_srt swtch s = run_chosen (run_timed swtch) c s
          \<and> first_min (runnable s) (\<lambda>p. sint (p_average_bursttime (pr s p))) NPROC c"
    using srt_choice [OF assms] by (auto simp: scheduler_srt_def)
  show "\<exists>c. scheduler_cfsd swtch s = run_chosen (run_timed swtch) c s
          \<and> first_min (\<lambda>p. runnable s p \<and> sint (cfsd_ratio (pr s p)) < sint INT_MAX)
              (\<lambda>p. sint (cfsd_ratio (pr s p))) NPROC c"
    using cfsd_choice [OF assms] by (auto simp: scheduler_cfsd_def)
qed

lemma schedulers_choose_minimum_witness:
  "scheduler_fcfs yielding demo_two = run_chosen (run_default yielding) (Some 1) demo_two"
proof -
  from schedulers_choose_minimum [OF demo_two_quiet, of yielding]
  obtain c where c: "scheduler_fcfs yielding demo_two = run_chosen (run_default yielding) c demo_two"
    "first_min (runnable demo_two) (\<lambda>p. p_queue_location (pr demo_two p)) NPROC c" by blast
  have n: "(0 :: nat) < NPROC" "(1 :: nat) < NPROC" by (simp_all add: NPROC_def)
  have "c = Some 1"
  proof (cases c)
    case None
    then show ?thesis using c(2) n demo_two_queue(2) [OF n(1)] by (auto simp: first_min_def)
  next
    case (Some p)
    then have p: "p < NPROC" "runnable demo_two p" "p_queue_location (pr demo_two p) \<le> p_queue_location (pr demo_two 1)"
      using c(2) n demo_two_queue(2) [OF n(2)] by (auto simp: first_min_def)
    then have "p < 2" using demo_two_queue(2) by blast
    then have "p = 1" using p(3) n by (auto simp: less_2_cases_iff demo_two_procs ready_proc_def)
    then show ?thesis using Some by simp
  qed
  then show ?thesis using c(1) by simp
qed

text \<open>
  \<^bold>\<open>C15\<close> First-come-first-served starves nobody: whatever the processes do while they run (as long as each gives the CPU
  back and makes at most \<^verbatim>\<open>b\<close> processes runnable per run), a runnable process is chosen after at most as many turns as
  there are runnable processes ahead of it in the queue, which is less than \<^verbatim>\<open>NPROC\<close>.
\<close>

theorem fcfs_no_starvation:
  assumes "quiet s" and "queue_ok s" and "comes_back b swtch" and "p < NPROC" and "runnable s p"
    and "unat (queue_counter s) + NPROC * b < 2 ^ 64"
  shows "\<exists>k t. k \<le> card (ahead s p) \<and> k < NPROC \<and> sched_turns (scheduler_fcfs swtch) k s = Ok () t
     \<and> select_loop fcfs_better 0 NPROC None t = Ok (Some p) t"
proof -
  have fin: "finite (ahead s p)" for s :: "'a proc_state_scheme" by (simp add: ahead_def)
  have "ahead s p \<subseteq> {..<NPROC} - {p}" by (auto simp: ahead_def)
  then have "card (ahead s p) \<le> card ({..<NPROC} - {p})" by (intro card_mono) auto
  then have card: "card (ahead s p) < NPROC" using assms(4) by simp
  have "unat (queue_counter s) + (card (ahead s p) + 1) * b < 2 ^ 64"
  proof -
    have "(card (ahead s p) + 1) * b \<le> NPROC * b" using card by (intro mult_le_mono1) simp
    then show ?thesis using assms(6) by linarith
  qed
  then have "\<exists>k t. k \<le> card (ahead s p) \<and> sched_turns (scheduler_fcfs swtch) k s = Ok () t
     \<and> select_loop fcfs_better 0 NPROC None t = Ok (Some p) t"
    using assms(1,2,5)
  proof (induction "card (ahead s p)" arbitrary: s rule: less_induct)
    case less
    have room: "unat (queue_counter s) + b < 2 ^ 64" using less.prems(1) by simp
    from fcfs_turn [OF less.prems(2,3) assms(3,4) less.prems(4) room] show ?case
    proof
      assume "\<exists>t. scheduler_fcfs swtch s = Ok () t \<and> quiet t \<and> queue_ok t \<and> runnable t p
          \<and> ahead t p \<subset> ahead s p \<and> unat (queue_counter t) \<le> unat (queue_counter s) + b"
      then obtain t where t: "scheduler_fcfs swtch s = Ok () t" "quiet t" "queue_ok t" "runnable t p"
        "ahead t p \<subset> ahead s p" "unat (queue_counter t) \<le> unat (queue_counter s) + b" by blast
      have lt: "card (ahead t p) < card (ahead s p)" by (rule psubset_card_mono [OF fin t(5)])
      then have "(card (ahead t p) + 1) * b + b \<le> (card (ahead s p) + 1) * b"
        using mult_le_mono1 [of "card (ahead t p) + 2" "card (ahead s p) + 1" b] by (simp add: algebra_simps)
      then have "unat (queue_counter t) + (card (ahead t p) + 1) * b < 2 ^ 64"
        using t(6) less.prems(1) by linarith
      from less.hyps [OF lt this t(2,3,4)] obtain k u where u: "k \<le> card (ahead t p)"
        "sched_turns (scheduler_fcfs swtch) k t = Ok () u" "select_loop fcfs_better 0 NPROC None u = Ok (Some p) u" by blast
      show ?thesis
        using u t(1) lt by (intro exI [of _ "Suc k"] exI [of _ u]) simp
    qed (auto intro: exI [of _ 0])
  qed
  then show ?thesis using card by (meson le_less_trans)
qed

lemma fcfs_no_starvation_witness:
  "\<exists>k t. k < NPROC \<and> sched_turns (scheduler_fcfs yielding) k demo_two = Ok () t
     \<and> select_loop fcfs_better 0 NPROC None t = Ok (Some 0) t"
proof -
  have n: "(0 :: nat) < NPROC" by (simp add: NPROC_def)
  then have "runnable demo_two 0" using demo_two_queue(2) [OF n] by simp
  moreover have "unat (queue_counter demo_two) + NPROC * 1 < 2 ^ 64" by (simp add: demo_two_def demo_with_def NPROC_def)
  ultimately show ?thesis
    using fcfs_no_starvation [OF demo_two_quiet demo_two_queue(1) [OF n] yielding_comes_back n] by blast
qed

text \<open>
  \<^bold>\<open>C28\<close> The queue discipline is an invariant: waking, killing and yielding keep the queue positions of runnable
  processes distinct and below the counter, leave the position of a process that is runnable already alone, and
  put processes that become runnable behind all others.
\<close>

theorem queue_discipline:
  assumes "quiet s" and "queue_ok s" and "unat (queue_counter s) + NPROC < 2 ^ 64" and "curproc s = Some p" and "p < NPROC"
    and "p_state (pr s p) = RUNNING"
  shows "(\<exists>t. wakeup ch s = Ok () t \<and> queue_step NPROC s t \<and> queue_ok t)
    \<and> (\<exists>r t. kill pid s = Ok r t \<and> queue_step 1 s t \<and> queue_ok t)
    \<and> (\<exists>t. yield s = Sleeps (p_chan (pr s p)) t \<and> queue_step 1 s t \<and> queue_ok t \<and> runnable t p)"
proof (intro conjI)
  have len: "length (procs s) = NPROC" "held s = []" using assms(1) by (simp_all add: quiet_def)
  have room: "unat (queue_counter s) + 1 < 2 ^ 64" using assms(3) by (simp add: NPROC_def)
  show "\<exists>t. wakeup ch s = Ok () t \<and> queue_step NPROC s t \<and> queue_ok t"
  proof -
    let ?t = "s\<lparr>procs := woken ch s NPROC, queue_counter := queue_counter s + of_nat (wake_rank ch s NPROC)\<rparr>"
    have "queue_step NPROC s ?t" by (rule wakeup_queue_step [OF len(1) assms(3), of _ ch]) simp_all
    moreover have "wakeup ch s = Ok () ?t" using len by (intro wakeup_spec) simp_all
    ultimately show ?thesis using queue_step_ok [OF _ assms(2)] by blast
  qed
  show "\<exists>r t. kill pid s = Ok r t \<and> queue_step 1 s t \<and> queue_ok t"
  proof (cases "\<exists>q<NPROC. p_pid (pr s q) = pid")
    case False
    then show ?thesis using kill_miss [OF _ assms(1), of pid] queue_step_refl assms(2) by blast
  next
    case True
    define q where "q = (LEAST q. q < NPROC \<and> p_pid (pr s q) = pid)"
    have q: "q < NPROC" "p_pid (pr s q) = pid" using LeastI_ex [OF True] by (simp_all add: q_def)
    have "\<forall>j<q. p_pid (pr s j) \<noteq> pid" using not_less_Least q(1) unfolding q_def by (metis (mono_tags, lifting) less_trans)
    note k = kill_hit [OF q this assms(1)]
    let ?t = "(upd_proc q (killed_proc s) s)\<lparr>queue_counter := queue_counter s + (if p_state (pr s q) = SLEEPING then 1 else 0)\<rparr>"
    have "queue_step 1 s ?t"
    proof (cases "p_state (pr s q) = SLEEPING")
      case True
      then show ?thesis
        using q len room by (intro enqueue_step [where p = q and f = "killed_proc s"])
          (auto simp: runnable_def pr_upd_proc fun_eq_iff killed_proc_def)
    next
      case False
      then have "runnable ?t j = runnable s j" "qloc ?t j = qloc s j" for j
        using q len by (auto simp: runnable_def pr_upd_proc killed_proc_def)
      then show ?thesis using False by (auto simp: queue_step_def)
    qed
    then show ?thesis using k queue_step_ok [OF _ assms(2)] by blast
  qed
  let ?u = "upd_proc p (\<lambda>x. x\<lparr>p_queue_location := queue_counter s, p_state := RUNNABLE\<rparr>)
       (s\<lparr>held := [Proc_lock p], queue_counter := queue_counter s + 1\<rparr>)"
  have "queue_step 1 s ?u"
    using assms(5,6) len room
    by (intro enqueue_step [where p = p and f = "\<lambda>x. x\<lparr>p_queue_location := queue_counter s, p_state := RUNNABLE\<rparr>"])
      (auto simp: runnable_def pr_upd_proc fun_eq_iff)
  then show "\<exists>t. yield s = Sleeps (p_chan (pr s p)) t \<and> queue_step 1 s t \<and> queue_ok t \<and> runnable t p"
    using yield_spec [OF assms(4) _ len(2)] queue_step_ok [OF _ assms(2)] assms(5) len
    by (auto simp: runnable_def pr_upd_proc)
qed

definition demo_running :: proc_state where
  "demo_running = dispatched 1 demo_two \<lparr>held := []\<rparr>"

lemma demo_running_procs:
  "p < NPROC \<Longrightarrow> pr demo_running p = (if p = 1 then (ready_proc 2 4)\<lparr>p_state := RUNNING\<rparr> else pr demo_two p)"
  using demo_two_quiet by (simp add: demo_running_def dispatched_def upd_proc_def quiet_def demo_two_procs nth_list_update)

lemma demo_running_facts:
  "quiet demo_running" "queue_ok demo_running" "curproc demo_running = Some 1" "queue_counter demo_running = 10"
proof -
  show "quiet demo_running" using demo_two_quiet by (simp add: quiet_def demo_running_def dispatched_def)
  show "curproc demo_running = Some 1" by (simp add: demo_running_def dispatched_def)
  show q: "queue_counter demo_running = 10"
    by (simp add: demo_running_def dispatched_def demo_two_def demo_with_def)
  have "runnable demo_running p = (p = 0)" if "p < NPROC" for p
    using that by (auto simp: runnable_def demo_running_procs demo_two_procs ready_proc_def blank_proc_def)
  then show "queue_ok demo_running"
    unfolding queue_ok_def q by (auto simp: demo_running_procs demo_two_procs ready_proc_def)
qed

lemma queue_discipline_witness:
  "\<exists>t. yield demo_running = Sleeps Ch_none t \<and> queue_ok t \<and> runnable t 1"
proof -
  have n: "(1 :: nat) < NPROC" by (simp add: NPROC_def)
  have "p_chan (pr demo_running 1) = Ch_none" "p_state (pr demo_running 1) = RUNNING"
    using n by (simp_all add: demo_running_procs ready_proc_def blank_proc_def)
  moreover have "unat (queue_counter demo_running) + NPROC < 2 ^ 64" by (simp add: demo_running_facts NPROC_def)
  ultimately show ?thesis
    using queue_discipline [OF demo_running_facts(1,2) _ demo_running_facts(3) n, of Ch_none 0] by auto
qed



text \<open>
  \<^bold>\<open>C30\<close> \<^verbatim>\<open>kill(0)\<close> succeeds whenever the table has a free slot, because free slots have pid 0; it marks the first one as
  killed, and \<^verbatim>\<open>allocproc\<close> does not clear the mark, so the next process allocated there is born killed.
\<close>

theorem kill_zero_marks_free_slot:
  assumes "quiet s" and "p < NPROC" and "p_state (pr s p) = UNUSED" and "p_pid (pr s p) = 0"
    and "\<forall>q<p. p_state (pr s q) \<noteq> UNUSED \<and> p_pid (pr s q) \<noteq> 0"
  shows "\<exists>t. kill 0 s = Ok 0 t \<and> p_killed (pr t p) = 1
     \<and> (\<forall>q u. allocproc t = Ok (Some q) u \<longrightarrow> q = p \<and> p_killed (pr u p) = 1)"
proof -
  let ?t = "(upd_proc p (killed_proc s) s)\<lparr>queue_counter := queue_counter s + 0\<rparr>"
  have len: "length (procs s) = NPROC" "held s = []" using assms(1) by (simp_all add: quiet_def)
  have pt: "pr ?t q = (if q = p then (pr s p)\<lparr>p_killed := 1\<rparr> else pr s q)" for q
    using assms(2,3) len by (simp add: pr_upd_proc killed_proc_def)
  have k: "kill 0 s = Ok 0 ?t" using assms by (subst kill_hit [where p = p]) auto
  have "allocproc_find ?t = Ok (Some p) (?t\<lparr>held := [Proc_lock p]\<rparr>)"
    using assms len pt by (intro allocproc_find_first) auto
  then have "q = p \<and> p_killed (pr u p) = 1" if "allocproc ?t = Ok (Some q) u" for q u
    using allocproc_keeps_killed [OF _ _ _ that] assms(2) len pt [of p] by simp
  moreover have "p_killed (pr ?t p) = 1" using pt [of p] by simp
  ultimately show ?thesis using k by blast
qed

lemma kill_zero_marks_free_slot_witness:
  "\<exists>t. kill 0 demo_two = Ok 0 t \<and> p_killed (pr t 2) = 1"
proof -
  have n: "(2 :: nat) < NPROC" by (simp add: NPROC_def)
  then have "p_state (pr demo_two 2) = UNUSED" "p_pid (pr demo_two 2) = 0"
    "\<forall>q<2. p_state (pr demo_two q) \<noteq> UNUSED \<and> p_pid (pr demo_two q) \<noteq> 0"
    by (auto simp: demo_two_procs blank_proc_def ready_proc_def less_2_cases_iff)
  from kill_zero_marks_free_slot [OF demo_two_quiet n this] show ?thesis by blast
qed

section \<open>Burst times and ticks\<close>

lemma sint_of_small: "- (2 ^ 31) \<le> i \<Longrightarrow> i < 2 ^ 31 \<Longrightarrow> sint (word_of_int i :: i32) = i"
  by (simp add: sint_sbintrunc' signed_take_bit_int_eq_self)

lemma mean_between:
  fixes a b :: int
  shows "min (100 * b) a \<le> 50 * b + 50 * a div 100" "50 * b + 50 * a div 100 \<le> max (100 * b) a"
proof -
  have "50 * a div 100 = a div 2" by simp
  moreover obtain k where "a = 2 * k \<or> a = 2 * k + 1" by (cases "even a") (auto elim: evenE oddE)
  ultimately show "min (100 * b) a \<le> 50 * b + 50 * a div 100" "50 * b + 50 * a div 100 \<le> max (100 * b) a"
    by (auto simp: min_def max_def)
qed

text \<open>
  \<^bold>\<open>C31\<close> The new burst-time estimate, in hundredths of a tick, is the weighted mean of the last burst and the old estimate,
  rounded down, and lies between the two, as long as neither exceeds 2^31 / 100; the arithmetic does not overflow.
\<close>

theorem burst_average_bounds:
  assumes "0 \<le> sint b" and "0 \<le> sint a" and "100 * sint b < 2 ^ 31" and "100 * sint a < 2 ^ 31"
  shows "sint (burst_average b a) = (50 * (100 * sint b) + 50 * sint a) div 100
     \<and> min (100 * sint b) (sint a) \<le> sint (burst_average b a) \<and> sint (burst_average b a) \<le> max (100 * sint b) (sint a)"
proof -
  have b: "word_of_int (sint b) = b" and a: "word_of_int (sint a) = a" by simp_all
  have "(50 :: i32) * a = word_of_int (50 * sint a)" using a by (metis of_int_mult of_int_numeral)
  then have m: "sint ((50 :: i32) * a) = 50 * sint a" using assms by (simp only:) (rule sint_of_small, simp_all)
  have "50 * sint a sdiv 100 = 50 * sint a div 100"
    using assms(2) by (cases "sint a = 0") (simp_all add: signed_divide_int_def)
  then have d: "sdiv32 (50 * a) 100 = word_of_int (50 * sint a div 100)"
    by (simp only: sdiv32_def m) simp
  have "(50 :: i32) * b = word_of_int (50 * sint b)" using b by (metis of_int_mult of_int_numeral)
  then have "burst_average b a = word_of_int (50 * sint b + 50 * sint a div 100)"
    using d by (simp only: burst_average_def ALPHA_def) simp
  then have v: "sint (burst_average b a) = 50 * sint b + 50 * sint a div 100"
    by (simp only:) (rule sint_of_small, use assms in simp_all)
  have "(50 * (100 * sint b) + 50 * sint a) div 100 = 50 * sint b + 50 * sint a div 100" by simp
  then show ?thesis unfolding v using mean_between [of "sint b" "sint a"] by metis
qed

lemma burst_average_bounds_witness:
  "sint (burst_average 3 500) = 400"
  using burst_average_bounds [of 3 500] by simp

text \<open>
  \<^bold>\<open>C32\<close> A clock tick charges every process exactly once: one tick of run time when it is running, of ready time when it is
  runnable, of sleeping time when it sleeps, and none otherwise; processes sleeping on the clock become runnable.
\<close>

theorem clock_tick_accounts:
  assumes "quiet s"
  shows "\<exists>t. clockintr s = Ok () t \<and> ticks t = ticks s + 1 \<and> quiet t \<and> (\<forall>p<NPROC.
     p_rutime (pr t p) = p_rutime (pr s p) + (if p_state (pr s p) = RUNNING then 1 else 0)
     \<and> p_retime (pr t p) = p_retime (pr s p) + (if p_state (pr s p) = RUNNABLE then 1 else 0)
     \<and> p_stime (pr t p) = p_stime (pr s p) + (if p_state (pr s p) = SLEEPING then 1 else 0)
     \<and> p_state (pr t p) = (if sleeping_on Ch_ticks s p then RUNNABLE else p_state (pr s p)))"
proof -
  have "p_rutime (tick_proc x) = p_rutime x + (if p_state x = RUNNING then 1 else 0)"
    "p_retime (tick_proc x) = p_retime x + (if p_state x = RUNNABLE then 1 else 0)"
    "p_stime (tick_proc x) = p_stime x + (if p_state x = SLEEPING then 1 else 0)" for x
    by (simp_all add: tick_proc_def split: procstate.splits)
  with clockintr_spec [OF assms] show ?thesis by auto
qed

lemma clock_tick_accounts_witness:
  "\<exists>t. clockintr demo_running = Ok () t \<and> p_rutime (pr t 1) = 1 \<and> p_retime (pr t 0) = 1"
proof -
  have n: "(0 :: nat) < NPROC" "(1 :: nat) < NPROC" by (simp_all add: NPROC_def)
  have "p_state (pr demo_running 1) = RUNNING" "p_rutime (pr demo_running 1) = 0"
    "p_state (pr demo_running 0) = RUNNABLE" "p_retime (pr demo_running 0) = 0"
    using n by (simp_all add: demo_running_procs demo_two_procs ready_proc_def blank_proc_def)
  then show ?thesis using clock_tick_accounts [OF demo_running_facts(1)] n by auto
qed

section \<open>What wait_stat writes\<close>

lemma length_proc_tail [simp]: "length (proc_tail s i) = 48"
  by (simp add: proc_tail_def)

lemma unat_sub_small:
  fixes d :: u64
  assumes "k + n < 2 ^ 63"
  shows "unat (d - of_nat k) < n \<longleftrightarrow> k \<le> unat d \<and> unat d < k + n" and "k \<le> unat d \<Longrightarrow> unat (d - of_nat k) = unat d - k"
proof -
  have k: "unat (of_nat k :: u64) = k" using assms by (simp add: unat_of_nat)
  show 2: "unat (d - of_nat k) = unat d - k" if "k \<le> unat d"
    using that k by (simp add: unat_sub word_le_nat_alt)
  show "unat (d - of_nat k) < n \<longleftrightarrow> k \<le> unat d \<and> unat d < k + n"
  proof (cases "k \<le> unat d")
    case True
    then show ?thesis using 2 by auto
  next
    case False
    then have "unat (d - of_nat k) = 2 ^ 64 + unat d - k"
      using k by (simp add: unat_sub_if_size word_le_nat_alt word_size)
    then show ?thesis using False assms by auto
  qed
qed

lemma copy_fields_spec:
  assumes "space_ok s pt K xs" and "top_kernel (mem s) pt" and "\<forall>j<44. acc (mem s) pt (perf + of_nat j)"
    and "length bs = 48" and "i + n \<le> 6"
  shows "\<exists>t. copy_fields pt perf bs i n s = Ok 0 t \<and> space_ok t pt K xs
     \<and> (\<forall>va. pte_of (mem t) pt va = pte_of (mem s) pt va) \<and> kstep s t
     \<and> (\<forall>va. acc (mem s) pt va \<longrightarrow> ubyte (mem t) pt va =
         (if 0 < n \<and> 4 * i \<le> unat (va - perf) \<and> unat (va - perf) < 4 * (i + n) + 20 then bs ! unat (va - perf)
          else ubyte (mem s) pt va))"
  using assms
proof (induction n arbitrary: i s)
  case 0
  then show ?case by auto
next
  case (Suc n)
  let ?d = "perf + 4 * of_nat i" and ?w = "take 24 (drop (4 * i) bs)"
  have w: "length ?w = 24" using Suc.prems by simp
  have d: "perf + 4 * of_nat i = perf + of_nat (4 * i)" by simp
  have "acc (mem s) pt (?d + of_nat j)" if "j < 24" for j
    using Suc.prems(3,5) that by (simp add: d add.assoc flip: of_nat_add del: of_nat_mult)
  then have all: "acc_prefix (mem s) pt ?d 24 = 24" by (simp add: acc_prefix_all)
  from copyout_spec [OF Suc.prems(1,2), of 24 ?w ?d] w all obtain t where
    t: "copyout pt ?d ?w 24 s = Ok 0 t" "space_ok t pt K xs" "\<forall>va. pte_of (mem t) pt va = pte_of (mem s) pt va"
      "\<forall>va. acc (mem s) pt va \<longrightarrow> ubyte (mem t) pt va = store_bytes (ubyte (mem s) pt) ?d ?w va" "kstep s t"
    using within_Ok [OF copyout_frame] by fastforce
  have acc: "acc (mem t) pt va = acc (mem s) pt va" for va using t(3) by (simp add: acc_def)
  from Suc.IH [OF t(2), of "Suc i"] Suc.prems acc obtain u where
    u: "copy_fields pt perf bs (Suc i) n t = Ok 0 u" "space_ok u pt K xs" "\<forall>va. pte_of (mem u) pt va = pte_of (mem t) pt va"
      "kstep t u" "\<forall>va. acc (mem s) pt va \<longrightarrow> ubyte (mem u) pt va =
         (if 0 < n \<and> 4 * Suc i \<le> unat (va - perf) \<and> unat (va - perf) < 4 * (Suc i + n) + 20 then bs ! unat (va - perf)
          else ubyte (mem t) pt va)"
    by (auto simp: top_kernel_def)
  have "ubyte (mem t) pt va = (if 4 * i \<le> unat (va - perf) \<and> unat (va - perf) < 4 * i + 24 then bs ! unat (va - perf)
      else ubyte (mem s) pt va)" if "acc (mem s) pt va" for va
  proof -
    have "va - ?d = (va - perf) - of_nat (4 * i)" unfolding d by (rule diff_diff_eq [symmetric])
    with unat_sub_small [of "4 * i" 24 "va - perf"] Suc.prems(5)
    have "unat (va - ?d) < 24 \<longleftrightarrow> 4 * i \<le> unat (va - perf) \<and> unat (va - perf) < 4 * i + 24"
      "4 * i \<le> unat (va - perf) \<Longrightarrow> unat (va - ?d) = unat (va - perf) - 4 * i" by (simp_all only:) simp_all
    with t(4) that w Suc.prems(4,5) show ?thesis by (simp only: store_bytes_def) auto
  qed
  with u(5) have "ubyte (mem u) pt va = (if 4 * i \<le> unat (va - perf) \<and> unat (va - perf) < 4 * (i + Suc n) + 20 then bs ! unat (va - perf)
      else ubyte (mem s) pt va)" if "acc (mem s) pt va" for va
    using that by auto
  then show ?case using t u kstep_trans by auto
qed



end
