(* ===== verification/Log_Props.thy ===== *)
theory Log_Props
  imports Log_Commit Proc_Props
begin

text \<open>
  Properties of the buffer cache and the log: what \<^verbatim>\<open>binit\<close> sets up, the contract of the cache, logging a block,
  atomicity of a commit under a crash at any point, recovery, and the space reservation of \<^verbatim>\<open>begin_op\<close>.
\<close>

section \<open>Initialisation of the cache\<close>

text \<open>Before \<^verbatim>\<open>binit\<close> the cache is zero.\<close>

definition zero_cache :: "nat \<Rightarrow> 'z bio_state_scheme \<Rightarrow> bool" where
  "zero_cache p s \<longleftrightarrow> in_proc p s \<and> Bcache_lock \<notin> set (held s) \<and> (\<forall>i. Buf_lk i \<notin> set (held s)) \<and> length (bufs s) = NBUF + 1
     \<and> (\<forall>i<NBUF. b_dev (bu s i) = 0 \<and> b_refcnt (bu s i) = 0 \<and> \<not> b_valid (bu s i)) \<and> (\<forall>n. length (disk s n) = BSIZE)"

lemma binit_spec:
  assumes "zero_cache p s"
  shows "\<exists>t. binit s = Ok () t \<and> cache_inv p {} (\<lambda>_. 0) t \<and> bview t = disk s \<and> disk t = disk s \<and> dwrites t = dwrites s
     \<and> held t = held s \<and> bio_state.more t = bio_state.more s"
proof -
  let ?s = "upd_buf NBUF (\<lambda>x. x\<lparr>b_prev := NBUF, b_next := NBUF\<rparr>) s"
  have len: "length (bufs s) = NBUF + 1" using assms by (simp add: zero_cache_def)
  let ?I = "\<lambda>k t. linked (bufs t) (NBUF # rev [0..<k] @ [NBUF]) \<and> same_content (bufs s) (bufs t)
     \<and> t = s\<lparr>bufs := bufs t, sleeplocks := sleeplocks t\<rparr> \<and> (\<forall>i<k. sl_locked (sleeplocks t (Buf_lk i)) = 0)"
  have "\<exists>t. kfor 0 NBUF (\<lambda>b s. Ok () (push_front b (initsleeplock (Buf_lk b) s))) ?s = Ok () t \<and> ?I NBUF t"
  proof (rule kfor_inv [where I = ?I])
    show "?I 0 ?s" using len by (simp add: upd_buf_def same_content_upd)
    fix k t assume k: "0 \<le> k" "k < NBUF" and I: "?I k t"
    have len': "length (bufs t) = NBUF + 1" using I len by (simp add: same_content_def)
    let ?t = "push_front k (initsleeplock (Buf_lk k) t)"
    have bt: "bufs ?t = push_bufs k (bufs t)" "sleeplocks ?t = (sleeplocks t)(Buf_lk k := \<lparr>sl_locked = 0, sl_pid = 0\<rparr>)"
      by (simp_all add: push_front_bufs initsleeplock_def set_sleeplock_def)
    have "linked (bufs ?t) (NBUF # k # rev [0..<k] @ [NBUF])"
      unfolding bt using I k len' by (intro push_bufs_linked) auto
    then have "linked (bufs ?t) (NBUF # rev [0..<Suc k] @ [NBUF])" by simp
    moreover have "same_content (bufs s) (bufs ?t)"
      unfolding bt using I push_bufs_content same_content_trans by blast
    moreover have "?t = s\<lparr>bufs := bufs ?t, sleeplocks := sleeplocks ?t\<rparr>"
    proof -
      have "t = s\<lparr>bufs := bufs t, sleeplocks := sleeplocks t\<rparr>" using I by blast
      then have "?t = push_front k (initsleeplock (Buf_lk k) (s\<lparr>bufs := bufs t, sleeplocks := sleeplocks t\<rparr>))" by (rule arg_cong)
      then show ?thesis by (simp add: bt) (simp add: push_front_bufs initsleeplock_def set_sleeplock_def)
    qed
    moreover have "\<forall>i<Suc k. sl_locked (sleeplocks ?t (Buf_lk i)) = 0" using I by (simp add: bt less_Suc_eq)
    ultimately show "\<exists>t'. Ok () ?t = Ok () t' \<and> ?I (Suc k) t'" by blast
  qed simp
  then obtain t where t: "binit s = Ok () t" "?I NBUF t" by (auto simp: binit_def)
  have f: "f t = f (s\<lparr>bufs := bufs t, sleeplocks := sleeplocks t\<rparr>)" for f :: "'a bio_state_scheme \<Rightarrow> 'b"
    using t(2) by (intro arg_cong [where f = f]) blast
  have ft: "disk t = disk s" "dwrites t = dwrites s" "bio_state.more t = bio_state.more s" "held t = held s" "procs t = procs s"
    "curproc t = curproc s" by (subst f, simp)+
  have c: "b_dev (bu t i) = 0" "b_refcnt (bu t i) = 0" "\<not> b_valid (bu t i)" if "i < NBUF" for i
  proof -
    have e: "bu t i = (bu s i)\<lparr>b_prev := b_prev (bu t i), b_next := b_next (bu t i)\<rparr>"
      using t(2) that len by (simp add: same_content_def)
    show "b_dev (bu t i) = 0" using arg_cong [OF e, of b_dev] assms that by (simp add: zero_cache_def)
    show "b_refcnt (bu t i) = 0" using arg_cong [OF e, of b_refcnt] assms that by (simp add: zero_cache_def)
    show "\<not> b_valid (bu t i)" using arg_cong [OF e, of b_valid] assms that by (simp add: zero_cache_def)
  qed
  have "lru (bufs t) (rev [0..<NBUF])" using t(2) len by (simp add: lru_def same_content_def atLeast0LessThan)
  then have "cache_inv p {} (\<lambda>_. 0) t"
    using assms c t(2) unfolding cache_inv_def zero_cache_def in_proc_def ft by (auto simp: ROOTDEV_def)
  moreover have "bview t = disk s" using bview_disk [OF calculation] ft(1) by (intro ext) simp
  ultimately show ?thesis using t(1) ft by blast
qed

section \<open>Logging a block\<close>

text \<open>
  The state between two commits: the blocks logged so far are pinned in the cache; process \<^verbatim>\<open>p\<close> holds the buffers in \<^verbatim>\<open>L\<close>.
\<close>

definition in_tx :: "nat \<Rightarrow> nat set \<Rightarrow> u32 \<Rightarrow> u32 list \<Rightarrow> 'z log_state_scheme \<Rightarrow> bool" where
  "in_tx p L start bns s \<longleftrightarrow> (\<exists>g. cache_inv p L (pins_from g 0 (length bns)) s \<and> home_bufs g bns s)
     \<and> log_at start bns (lg s) \<and> good_log start bns \<and> Log_lock \<notin> set (held s) \<and> l_size (lg s) = of_nat LOGSIZE"

lemma absorb_index_spec:
  "absorb_index blk c i k = (case List.find (\<lambda>j. blk ! j = c) [i..<i + k] of Some j \<Rightarrow> j | None \<Rightarrow> i + k)"
proof (induction k arbitrary: i)
  case (Suc k)
  have "[i..<i + Suc k] = i # [Suc i..<Suc i + k]" by (simp add: upt_conv_Cons)
  with Suc show ?case by (simp split: option.splits)
qed simp

lemma absorb_index_cases:
  assumes "take n blk = bns" and "length bns = n" and "n \<le> length blk"
  shows "c \<in> set bns \<Longrightarrow> absorb_index blk c 0 n < n \<and> blk ! absorb_index blk c 0 n = c"
    and "c \<notin> set bns \<Longrightarrow> absorb_index blk c 0 n = n"
proof -
  have e: "blk ! j = bns ! j" if "j < n" for j using assms(1) that by auto
  show "absorb_index blk c 0 n < n \<and> blk ! absorb_index blk c 0 n = c" if "c \<in> set bns"
  proof -
    from that obtain j where "j < n" "bns ! j = c" using assms(2) by (auto simp: in_set_conv_nth)
    then have "List.find (\<lambda>j. blk ! j = c) [0..<0 + n] \<noteq> None" using e by (auto simp: find_None_iff)
    then obtain y where y: "List.find (\<lambda>j. blk ! j = c) [0..<0 + n] = Some y" by blast
    from find_SomeD [OF this] show ?thesis using y by (simp add: absorb_index_spec)
  qed
  show "absorb_index blk c 0 n = n" if "c \<notin> set bns"
  proof -
    have "List.find (\<lambda>j. blk ! j = c) [0..<0 + n] = None"
      using that e assms(2) by (auto simp: find_None_iff in_set_conv_nth)
    then show ?thesis by (simp add: absorb_index_spec)
  qed
qed

lemma cache_inv_held:
  assumes "l \<noteq> Bcache_lock" and "\<forall>i. l \<noteq> Buf_lk i" and "\<forall>q. l \<noteq> Proc_lock q" and "l \<noteq> Queue_lock"
  shows "cache_inv p L pins (s\<lparr>held := l # held s\<rparr>) = cache_inv p L pins s"
  using assms by (auto simp: cache_inv_def in_proc_def)

lemma pins_from_snoc:
  assumes "b \<notin> g ` {..<n}"
  shows "pins_from (g(n := b)) 0 (Suc n) = (pins_from g 0 n)(b := pins_from g 0 n b + 1)"
proof
  fix i
  have "pins_from g 0 n b = 0" using assms by (auto simp: pins_from_def)
  moreover have "(\<exists>j<Suc n. i = (g(n := b)) j) \<longleftrightarrow> i = b \<or> (\<exists>j<n. i = g j)" by (auto simp: less_Suc_eq)
  ultimately show "pins_from (g(n := b)) 0 (Suc n) i = ((pins_from g 0 n)(b := pins_from g 0 n b + 1)) i"
    by (auto simp: pins_from_def)
qed

text \<open>What \<^verbatim>\<open>log_write\<close> leaves alone; it changes the in-memory log header only.\<close>

definition tx_frame :: "'z log_state_scheme \<Rightarrow> 'z log_state_scheme \<Rightarrow> bool" where
  "tx_frame s t \<longleftrightarrow> bio_frame s (t\<lparr>lg := lg s\<rparr>) \<and> lg t = (lg s)\<lparr>lh_n := lh_n (lg t), lh_block := lh_block (lg t)\<rparr>"

lemma log_write_spec:
  assumes tx: "in_tx p L start bns s" and b: "b \<in> L" and c: "b_blockno (bu s b) \<notin> log_area start" and n: "length bns < LOGSIZE - 1"
    and o: "1 \<le> sint (l_outstanding (lg s))"
  shows "\<exists>t. log_write b s = Ok () t \<and> in_tx p L start (if b_blockno (bu s b) \<in> set bns then bns else bns @ [b_blockno (bu s b)]) t
     \<and> bview t = bview s \<and> disk t = disk s \<and> dwrites t = dwrites s \<and> (\<forall>i<NBUF. bcontent (bu t i) = bcontent (bu s i)) \<and> tx_frame s t"
proof -
  let ?c = "b_blockno (bu s b)" and ?n = "length bns"
  from tx obtain g where ci: "cache_inv p L (pins_from g 0 ?n) s" and hb: "home_bufs g bns s" and la: "log_at start bns (lg s)"
    and gl: "good_log start bns" and nl: "Log_lock \<notin> set (held s)"
    and sz: "l_size (lg s) = of_nat LOGSIZE" by (auto simp: in_tx_def)
  have nL: "?n < LOGSIZE" using n by simp
  note D = log_atD [OF la less_imp_le [OF nL]]
  have lb: "take ?n (lh_block (lg s)) = bns" "length (lh_block (lg s)) = LOGSIZE" using la by (simp_all add: log_at_def)
  have szs: "sint (of_nat LOGSIZE :: i32) = 30" by (simp add: param_defs)
  let ?s = "s\<lparr>held := Log_lock # held s\<rparr>"
  have cis: "cache_inv p L (pins_from g 0 ?n) ?s" using ci by (simp add: cache_inv_held)
  note A = absorb_index_cases [OF lb(1) refl, of ?c] lb(2) nL
  have bN: "b < NBUF" by (rule cache_inv_bufs(2) [OF ci b])
  show ?thesis
  proof (cases "?c \<in> set bns")
    case True
    then have i: "absorb_index (lh_block (lg s)) ?c 0 ?n < ?n" "lh_block (lg s) ! absorb_index (lh_block (lg s)) ?c 0 ?n = ?c"
      using A by simp_all
    have "(lh_block (lg s))[absorb_index (lh_block (lg s)) ?c 0 ?n := ?c] = lh_block (lg s)"
      using i by (metis list_update_id)
    then have "log_write b s = Ok () s"
      using nl o sz szs n D(3,5) i(1) by (simp add: log_write_def upd_log_def Let_def param_defs)
    then show ?thesis using True tx by (auto simp: tx_frame_def)
  next
    case False
    then have i: "absorb_index (lh_block (lg s)) ?c 0 ?n = ?n" using A by simp
    let ?u = "upd_log (\<lambda>l. l\<lparr>lh_block := (lh_block l)[?n := ?c]\<rparr>) ?s"
    have bg: "b \<notin> g ` {..<?n}"
    proof
      assume "b \<in> g ` {..<?n}"
      then have "?c \<in> set bns" using hb by (auto simp: home_bufs_def)
      then show False using False by simp
    qed
    then have p0: "pins_from g 0 ?n b = 0" by (auto simp: pins_from_def)
    have "cache_inv p L (pins_from g 0 ?n) ?u" using cis by simp
    from bpin_spec [OF this, of b] b bN p0 obtain v where
      v: "bpin b ?u = Ok () v" "cache_inv p L (pins_from (g(?n := b)) 0 (Suc ?n)) v" "bview v = bview s" "disk v = disk s" "dwrites v = dwrites s"
        "\<forall>i<NBUF. bcontent (bu v i) = bcontent (bu s i)" "bio_frame ?u v"
      using pins_from_snoc [OF bg] bview_cong [of ?s s] by auto
    have lv: "lg v = (lg s)\<lparr>lh_block := (lh_block (lg s))[?n := ?c]\<rparr>" using bio_frame_log [OF v(7)] by simp
    have hv: "held v = Log_lock # held s" using v(7) by (simp add: bio_frame_def)
    define t where "t = (upd_log (\<lambda>l. l\<lparr>lh_n := lh_n l + 1\<rparr>) v)\<lparr>held := held s\<rparr>"
    have lw: "log_write b s = Ok () t"
      using nl o sz szs n D(3,5) i v(1) hv by (simp add: log_write_def Let_def param_defs t_def)
    have lt: "lg t = (lg s)\<lparr>lh_n := lh_n (lg s) + 1, lh_block := (lh_block (lg s))[?n := ?c]\<rparr>" by (simp add: t_def lv)
    have bt: "bufs t = bufs v" "disk t = disk v" "dwrites t = dwrites v" "held t = held s" by (simp_all add: t_def)
    have vt: "bview t = bview v" by (rule bview_cong) (simp_all add: bt)
    have cv: "b_blockno (bu v j) = b_blockno (bu s j)" if "j < NBUF" for j using v(6) that by (simp add: bcontent_def)
    have "cache_inv p L (pins_from (g(?n := b)) 0 (Suc ?n)) t"
    proof -
      have "v = (v\<lparr>held := held s\<rparr>)\<lparr>held := Log_lock # held (v\<lparr>held := held s\<rparr>)\<rparr>" by (simp flip: hv)
      then have "cache_inv p L (pins_from (g(?n := b)) 0 (Suc ?n)) (v\<lparr>held := held s\<rparr>)"
        using v(2) cache_inv_held [of Log_lock p L _ "v\<lparr>held := held s\<rparr>"] by simp
      moreover have "t = upd_log (\<lambda>l. l\<lparr>lh_n := lh_n l + 1\<rparr>) (v\<lparr>held := held s\<rparr>)" by (simp add: t_def upd_log_def)
      ultimately show ?thesis by simp
    qed
    moreover have "home_bufs (g(?n := b)) (bns @ [?c]) t"
      using hb bN bg cv by (auto simp: home_bufs_def bt inj_on_def nth_append less_Suc_eq)
    moreover have "log_at start (bns @ [?c]) (lg t)"
      using la nL by (simp add: log_at_def lt take_Suc_conv_app_nth add.commute)
    moreover have "good_log start (bns @ [?c])" using gl n c False by (auto simp: good_log_def)
    ultimately have "in_tx p L start (bns @ [?c]) t" using nl sz by (auto simp: in_tx_def lt bt)
    moreover have "tx_frame s t"
    proof -
      have "bio_state.more (v\<lparr>held := held s, lg := lg s\<rparr>) = bio_state.more s"
        using v(7) by (cases s; cases v) (simp add: bio_frame_def upd_log_def)
      then show ?thesis using v(7) by (simp add: tx_frame_def lt) (simp add: bio_frame_def t_def upd_log_def)
    qed
    ultimately show ?thesis using lw False v(3-6) vt bt by simp
  qed
qed

section \<open>Buffers inside a transaction\<close>

lemma spare_buffer:
  assumes "finite L" and "card L + length bns < NBUF"
  shows "\<exists>i<NBUF. i \<notin> L \<and> pins_from g 0 (length bns) i = 0"
proof (rule ccontr)
  assume "\<not> ?thesis"
  then have "{..<NBUF} \<subseteq> L \<union> g ` {..<length bns}" by (fastforce simp: pins_from_def image_iff split: if_splits)
  then have "card {..<NBUF} \<le> card (L \<union> g ` {..<length bns})" using assms(1) by (intro card_mono) auto
  also have "\<dots> \<le> card L + card (g ` {..<length bns})" by (rule card_Un_le)
  also have "\<dots> \<le> card L + length bns" using card_image_le [of "{..<length bns}" g] by simp
  finally show False using assms(2) by simp
qed

lemma in_tx_finite: "in_tx p L start bns s \<Longrightarrow> finite L"
  by (auto simp: in_tx_def cache_inv_def intro: finite_subset [OF _ finite_lessThan])

lemma in_tx_cache: "in_tx p L start bns s \<Longrightarrow> \<exists>pins. cache_inv p L pins s"
  by (auto simp: in_tx_def)

lemma in_tx_frame:
  assumes "in_tx p L start bns s" and "bio_frame s t" and "cache_inv p L' (pins_from g 0 (length bns)) t" and "home_bufs g bns t"
  shows "in_tx p L' start bns t"
  using assms bio_frame_log [OF assms(2)] by (auto simp: in_tx_def bio_frame_def)

text \<open>
  The contract of the buffer layer for a client inside a transaction: \<^verbatim>\<open>bread\<close> gives the current content of a block,
  changing the buffer and calling \<^verbatim>\<open>log_write\<close> changes that content and the set of logged blocks, \<^verbatim>\<open>brelse\<close> gives up
  a buffer that is unchanged or logged.
\<close>

lemma tx_bread:
  assumes tx: "in_tx p L start bns s" and fresh: "\<forall>i\<in>L. b_blockno (bu s i) \<noteq> n" and room: "card L + length bns < NBUF"
  shows "\<exists>b t. bread ROOTDEV n s = Ok b t \<and> b < NBUF \<and> b \<notin> L \<and> in_tx p (insert b L) start bns t
     \<and> b_blockno (bu t b) = n \<and> b_data (bu t b) = bview s n \<and> bview t = bview s \<and> disk t = disk s \<and> dwrites t = dwrites s
     \<and> (\<forall>i<NBUF. i \<noteq> b \<longrightarrow> bu t i = bu s i) \<and> bio_frame s t"
proof -
  from tx obtain g where ci: "cache_inv p L (pins_from g 0 (length bns)) s" and hb: "home_bufs g bns s" by (auto simp: in_tx_def)
  from bread_spec [OF ci fresh] spare_buffer [OF in_tx_finite [OF tx] room] obtain b t where
    t: "bread ROOTDEV n s = Ok b t" "b < NBUF" "b \<notin> L" "cache_inv p (insert b L) (pins_from g 0 (length bns)) t"
      "b_blockno (bu t b) = n" "b_data (bu t b) = bview s n" "bview t = bview s" "disk t = disk s" "dwrites t = dwrites s"
      "\<forall>i<NBUF. i \<noteq> b \<longrightarrow> bu t i = bu s i" "bio_frame s t"
      "if is_cached s n then b_dev (bu s b) = ROOTDEV \<and> b_blockno (bu s b) = n else pins_from g 0 (length bns) b = 0" by blast
  have "b_blockno (bu t (g j)) = bns ! j" if "j < length bns" for j
  proof -
    have gj: "g j < NBUF" "b_blockno (bu s (g j)) = bns ! j" using hb that by (auto simp: home_bufs_def)
    show ?thesis
    proof (cases "g j = b")
      case True
      then have "pins_from g 0 (length bns) b \<noteq> 0" using that by (auto simp: pins_from_def)
      then show ?thesis using t(5,12) gj True by (simp split: if_splits)
    next
      case False
      then show ?thesis using t(10) gj by simp
    qed
  qed
  then have "home_bufs g bns t" using hb by (simp add: home_bufs_def)
  from in_tx_frame [OF tx t(11,4) this] show ?thesis using t by blast
qed

lemma tx_set_data:
  assumes tx: "in_tx p L start bns s" and b: "b \<in> L" and d: "length d = BSIZE"
  shows "in_tx p L start bns (set_data b d s)" "bview (set_data b d s) = (bview s)(b_blockno (bu s b) := d)"
    "bu (set_data b d s) i = (if i = b then (bu s b)\<lparr>b_data := d\<rparr> else bu s i)" "bio_frame s (set_data b d s)"
    "disk (set_data b d s) = disk s" "dwrites (set_data b d s) = dwrites s"
proof -
  from tx obtain g where ci: "cache_inv p L (pins_from g 0 (length bns)) s" and hb: "home_bufs g bns s" by (auto simp: in_tx_def)
  note S = set_data_spec [OF ci b d]
  show "bu (set_data b d s) i = (if i = b then (bu s b)\<lparr>b_data := d\<rparr> else bu s i)" for i by (rule S(6))
  have "home_bufs g bns (set_data b d s)" using hb by (auto simp: home_bufs_def S(6))
  from in_tx_frame [OF tx S(5,1) this] show "in_tx p L start bns (set_data b d s)" .
  show "bview (set_data b d s) = (bview s)(b_blockno (bu s b) := d)" "bio_frame s (set_data b d s)"
    "disk (set_data b d s) = disk s" "dwrites (set_data b d s) = dwrites s" by (fact S)+
qed

lemma tx_brelse:
  assumes tx: "in_tx p L start bns s" and b: "b \<in> L"
    and clean: "b_blockno (bu s b) \<in> set bns \<or> b_data (bu s b) = disk s (b_blockno (bu s b))"
  shows "\<exists>t. brelse b s = Ok () t \<and> in_tx p (L - {b}) start bns t \<and> bview t = bview s \<and> disk t = disk s \<and> dwrites t = dwrites s
     \<and> (\<forall>i<NBUF. bcontent (bu t i) = bcontent (bu s i)) \<and> bio_frame s t"
proof -
  from tx obtain g where ci: "cache_inv p L (pins_from g 0 (length bns)) s" and hb: "home_bufs g bns s" by (auto simp: in_tx_def)
  have bN: "b < NBUF" "b_dev (bu s b) = ROOTDEV" using cache_inv_bufs [OF ci] b by simp_all
  have "b_data (bu s b) = disk s (b_blockno (bu s b))" if "pins_from g 0 (length bns) b = 0"
  proof -
    have "b_blockno (bu s b) \<notin> set bns"
    proof
      assume "b_blockno (bu s b) \<in> set bns"
      then obtain j where j: "j < length bns" "bns ! j = b_blockno (bu s b)" by (auto simp: in_set_conv_nth)
      then have gj: "g j < NBUF" "b_blockno (bu s (g j)) = b_blockno (bu s b)" using hb by (auto simp: home_bufs_def)
      have "0 < pins_from g 0 (length bns) (g j)" using j(1) by (auto simp: pins_from_def)
      then have "b_dev (bu s (g j)) = ROOTDEV" using ci gj(1) by (simp add: cache_inv_def)
      then have "g j = b" using ci gj bN by (simp add: cache_inv_def)
      then show False using that \<open>0 < pins_from g 0 (length bns) (g j)\<close> by simp
    qed
    then show ?thesis using clean by blast
  qed
  from brelse_spec [OF ci b this] obtain t where
    t: "brelse b s = Ok () t" "cache_inv p (L - {b}) (pins_from g 0 (length bns)) t" "bview t = bview s" "disk t = disk s"
      "dwrites t = dwrites s" "\<forall>i<NBUF. bcontent (bu t i) = bcontent (bu s i)" "bio_frame s t" by blast
  have "home_bufs g bns t" using hb t(6) by (simp add: home_bufs_def bcontent_def)
  from in_tx_frame [OF tx t(7,2) this] show ?thesis using t by blast
qed

section \<open>The end of a transaction\<close>

text \<open>What is on disk once a transaction has been committed: every block as the cache had it, outside the log.\<close>

lemma committable_clean:
  assumes cm: "committable p start bns s" and c: "c \<notin> set bns"
  shows "bview s c = disk s c"
proof -
  from cm obtain g where ci: "cache_inv p {} (pins_from g 0 (length bns)) s" and hb: "home_bufs g bns s" by (auto simp: committable_def)
  have "b_blockno (bu s i) \<noteq> c" if "0 < pins_from g 0 (length bns) i" for i
    using that hb c by (auto simp: pins_from_def home_bufs_def split: if_splits)
  then show ?thesis by (intro bview_disk [OF ci]) auto
qed

lemma commit_durable:
  assumes cm: "committable p start bns s"
  shows "\<exists>t. commit s = Ok () t \<and> cache_inv p {} (\<lambda>_. 0) t \<and> lg t = (lg s)\<lparr>lh_n := 0\<rparr> \<and> log_at start [] (lg t) \<and> held t = held s
     \<and> (\<forall>c. c \<notin> log_area start \<longrightarrow> disk t c = bview s c)"
proof (cases "bns = []")
  case True
  then have la: "log_at start [] (lg s)" and ci: "cache_inv p {} (\<lambda>_. 0) s"
    using cm pins_from_all [of _ 0] by (auto simp: committable_def)
  moreover have "lg s = (lg s)\<lparr>lh_n := 0\<rparr>" using la by (simp add: log_at_def)
  moreover have "commit s = Ok () s" using la by (simp add: commit_def log_at_def)
  ultimately show ?thesis using committable_clean [OF cm] True by auto
next
  case False
  have gl: "good_log start bns" using cm by (simp add: committable_def)
  from commit_spec [OF cm False] obtain t h1 h0 where
    t: "commit s = Ok () t" "cache_inv p {} (\<lambda>_. 0) t" "lg t = (lg s)\<lparr>lh_n := 0\<rparr>" "log_at start [] (lg t)" "held t = held s"
      "disk t = apply_writes (commit_writes start bns (bview s) h1 h0) (disk s)" by blast
  have sa: "start \<in> log_area start" using slot_facts(3) [of 0] by (simp add: param_defs)
  have "disk t c = bview s c" if "c \<notin> log_area start" for c
    using that sa log_writes_home [OF gl order_refl that] gl committable_clean [OF cm, of c]
    by (auto simp: t(6) commit_writes_def new_writes_apply good_log_def)
  then show ?thesis using t by blast
qed

text \<open>
  The last \<^verbatim>\<open>end_op\<close> of a transaction marks the log as committing, lets go of its lock, commits, and wakes those who wait.
\<close>

lemma cache_inv_woken:
  assumes w: "woken_only s t" and ci: "cache_inv p L pins s"
  shows "cache_inv p L pins t"
proof -
  have "bufs t = bufs s" "disk t = disk s" "sleeplocks t = sleeplocks s"
    by (simp_all add: woken_field [OF w, of bufs] woken_field [OF w, of disk] woken_field [OF w, of sleeplocks])
  then show ?thesis using ci woken_onlyD(1-4) [OF w] by (simp add: cache_inv_def in_proc_def)
qed

lemma end_op_spec:
  assumes tx: "in_tx p {} start bns s" and o: "l_outstanding (lg s) = 1" and nc: "\<not> l_committing (lg s)"
  shows "\<exists>t. end_op s = Ok () t \<and> cache_inv p {} (\<lambda>_. 0) t \<and> log_at start [] (lg t) \<and> l_outstanding (lg t) = 0 \<and> \<not> l_committing (lg t)
     \<and> held t = held s \<and> (\<forall>c. c \<notin> log_area start \<longrightarrow> disk t c = bview s c)"
proof -
  let ?m = "upd_log (\<lambda>l. l\<lparr>l_outstanding := 0, l_committing := True\<rparr>) s"
  have nl: "Log_lock \<notin> set (held s)" using tx by (simp add: in_tx_def)
  have cm: "committable p start bns ?m" using tx by (auto simp: in_tx_def committable_def log_at_def home_bufs_def)
  from commit_durable [OF cm] obtain u where
    u: "commit ?m = Ok () u" "cache_inv p {} (\<lambda>_. 0) u" "lg u = (lg s)\<lparr>l_outstanding := 0, l_committing := True, lh_n := 0\<rparr>" "log_at start [] (lg u)"
      "held u = held s" "\<forall>c. c \<notin> log_area start \<longrightarrow> disk u c = bview s c" by auto
  let ?u = "upd_log (\<lambda>l. l\<lparr>l_committing := False\<rparr>) (u\<lparr>held := Log_lock # held u\<rparr>)"
  have "cache_inv p {} (\<lambda>_. 0) ?u" using u(2) by (simp add: cache_inv_held)
  then have "in_proc p ?u" by (simp add: cache_inv_def)
  from wakeup_woken [OF this, of Ch_log] obtain v where v: "wakeup Ch_log ?u = Ok () v" "woken_only ?u v" by blast
  define t where "t = v\<lparr>held := held s\<rparr>"
  have hv: "held v = Log_lock # held s" using woken_onlyD(1) [OF v(2)] u(5) by simp
  have "(upd_log (\<lambda>l. l\<lparr>l_committing := True\<rparr>) (upd_log (\<lambda>l. l\<lparr>l_outstanding := l_outstanding l - 1\<rparr>) (s\<lparr>held := Log_lock # held s\<rparr>)))\<lparr>held := held s\<rparr> = ?m"
    using o by (simp add: upd_log_def)
  then have "end_op s = Ok () t"
    using nl o nc u(1,5) v(1) hv by (simp add: end_op_def t_def Let_def)
  moreover have "cache_inv p {} (\<lambda>_. 0) t"
  proof -
    have "v = t\<lparr>held := Log_lock # held t\<rparr>" by (simp add: t_def flip: hv)
    moreover have "cache_inv p {} (\<lambda>_. 0) v" by (rule cache_inv_woken [OF v(2) \<open>cache_inv p {} (\<lambda>_. 0) ?u\<close>])
    ultimately show ?thesis using cache_inv_held [of Log_lock p "{}" "\<lambda>_. 0" t] by simp
  qed
  moreover have "lg t = lg ?u" "disk t = disk u" by (simp_all add: t_def woken_field [OF v(2), of lg] woken_field [OF v(2), of disk])
  ultimately show ?thesis using u(3,4,6) by (auto simp: t_def log_at_def)
qed


text \<open>A transaction that has changed block 50, with the log in blocks 2 to 31.\<close>

definition demo_zero :: log_state where
  "demo_zero = \<lparr>held = [], mem = mem small, freelist = freelist small, k_end = k_end small, kernel_pagetable = 0, satp = 0,
     k_etext = 0x80008000, k_trampoline = 0x80007000, procs = procs demo_running, nextpid = 4, queue_counter = 10, ticks = 0,
     initproc = Some 0, curproc = Some 1, k_proc = 0x80011000, k_forkret = 0x80002000,
     sleeplocks = \<lambda>_. \<lparr>sl_locked = 0, sl_pid = 0\<rparr>,
     bufs = replicate 31 \<lparr>b_valid = False, b_dev = 0, b_blockno = 0, b_refcnt = 0, b_prev = 0, b_next = 0, b_data = []\<rparr>,
     disk = \<lambda>_. replicate BSIZE 0, dwrites = [],
     lg = \<lparr>l_start = 2, l_size = of_nat LOGSIZE, l_outstanding = 1, l_committing = False, l_dev = ROOTDEV, lh_n = 0,
       lh_block = replicate LOGSIZE 0\<rparr>\<rparr>"

lemma demo_zero_cache: "zero_cache 1 demo_zero"
  using demo_running_facts(1) by (simp add: zero_cache_def demo_zero_def in_proc_def quiet_def param_defs)

lemma log_area_range:
  assumes "unat start + LOGSIZE < 2 ^ 32"
  shows "c \<in> log_area start \<longleftrightarrow> unat start \<le> unat c \<and> unat c < unat start + LOGSIZE"
proof -
  have u: "unat (start + of_nat i) = unat start + i" if "i < LOGSIZE" for i
    using assms that by (simp add: unat_word_ariths unat_of_nat param_defs)
  show ?thesis
  proof
    assume "c \<in> log_area start"
    then show "unat start \<le> unat c \<and> unat c < unat start + LOGSIZE" using u by (auto simp: log_area_def)
  next
    assume c: "unat start \<le> unat c \<and> unat c < unat start + LOGSIZE"
    then have "c = start + of_nat (unat c - unat start)" by (simp add: of_nat_diff)
    then show "c \<in> log_area start" using c unfolding log_area_def by (intro image_eqI [where x = "unat c - unat start"]) auto
  qed
qed

lemma demo_tx:
  "\<exists>s. in_tx 1 {} 2 [50] s \<and> is_header (disk s 2) [] \<and> bview s = (\<lambda>n. if n = 50 then replicate BSIZE 7 else replicate BSIZE 0)
     \<and> disk s = (\<lambda>_. replicate BSIZE 0) \<and> dwrites s = [] \<and> log_state.more s = () \<and> l_outstanding (lg s) = 1 \<and> \<not> l_committing (lg s)"
proof -
  have d0: "disk demo_zero = (\<lambda>_. replicate BSIZE 0)" "dwrites demo_zero = []" by (simp_all add: demo_zero_def)
  from binit_spec [OF demo_zero_cache] obtain s where
    s: "cache_inv 1 {} (\<lambda>_. 0) s" "bview s = disk demo_zero" "disk s = disk demo_zero" "dwrites s = dwrites demo_zero"
      "bio_state.more s = bio_state.more demo_zero" "held s = held demo_zero" by blast
  have lgs: "lg s = lg demo_zero" "log_state.more s = ()" using s(5) by (cases s; simp add: demo_zero_def)+
  have tx: "in_tx 1 {} 2 [] s"
    using s(1,6) by (auto simp: in_tx_def lgs demo_zero_def pins_from_all home_bufs_def log_at_def good_log_def param_defs)
  from tx_bread [OF tx, of 50] obtain b t where
    t: "in_tx 1 {b} 2 [] t" "b_blockno (bu t b) = 50" "bview t = bview s" "disk t = disk s" "dwrites t = dwrites s" "bio_frame s t"
    by (auto simp: param_defs)
  let ?u = "set_data b (replicate BSIZE 7) t"
  note u = tx_set_data [OF t(1), of b "replicate BSIZE 7", simplified]
  have "1 \<le> sint (l_outstanding (lg ?u))"
    using bio_frame_log [OF u(4)] bio_frame_log [OF t(6)] lgs(1) by (simp add: demo_zero_def)
  with log_write_spec [OF u(1), of b] obtain v where
    v: "in_tx 1 {b} 2 [50] v" "bview v = bview ?u" "disk v = disk ?u" "dwrites v = dwrites ?u" "\<forall>i<NBUF. bcontent (bu v i) = bcontent (bu ?u i)"
      "tx_frame ?u v"
    using t(2) log_area_range [of 2 50] by (auto simp: u(3) param_defs)
  have "b < NBUF" using t(1) cache_inv_bufs(2) in_tx_cache by blast
  then have "b_blockno (bu v b) = 50" using v(5) t(2) by (simp add: bcontent_def u(3))
  with tx_brelse [OF v(1), of b] obtain w where
    w: "in_tx 1 {} 2 [50] w" "bview w = bview v" "disk w = disk v" "dwrites w = dwrites v" "bio_frame v w" by auto
  have "l_outstanding (lg w) = l_outstanding (lg demo_zero)" "l_committing (lg w) = l_committing (lg demo_zero)"
    using bio_frame_log [OF w(5)] v(6) bio_frame_log [OF u(4)] bio_frame_log [OF t(6)] lgs(1)
    by (cases "lg v"; cases "lg ?u"; simp add: tx_frame_def)+
  then have "l_outstanding (lg w) = 1" "\<not> l_committing (lg w)" by (simp_all add: demo_zero_def)
  moreover have "log_state.more w = ()" by simp
  moreover have "bview w = (\<lambda>n. if n = 50 then replicate BSIZE 7 else replicate BSIZE 0)"
    using w(2) v(2) u(2) t(2,3) s(2) d0 by auto
  moreover have dw: "disk w = (\<lambda>_. replicate BSIZE 0)" "dwrites w = []" using w(3,4) v(3,4) u(5,6) t(4,5) s(3,4) d0 by simp_all
  moreover have "is_header (disk w 2) []" unfolding dw is_header_def by (simp add: get32_def BSIZE_def eval_nat_numeral)
  ultimately show ?thesis using w(1) by blast
qed

lemma bview_held:
  assumes ci: "cache_inv p L pins s" and b: "b \<in> L"
  shows "bview s (b_blockno (bu s b)) = b_data (bu s b)"
proof (rule bview_cached)
  show "b < NBUF" "b_valid (bu s b)" "b_dev (bu s b) = ROOTDEV" using cache_inv_bufs [OF ci] b by simp_all
  show "\<forall>i<NBUF. \<forall>j<NBUF. b_dev (bu s i) = ROOTDEV \<and> b_dev (bu s j) = ROOTDEV \<and> b_blockno (bu s i) = b_blockno (bu s j) \<longrightarrow> i = j"
    using ci by (simp add: cache_inv_def)
qed

section \<open>Properties\<close>

text \<open>A kernel that has just booted: an empty cache, the log not yet read.\<close>

definition booted :: "nat \<Rightarrow> 'z log_state_scheme \<Rightarrow> bool" where
  "booted p s \<longleftrightarrow> cache_inv p {} (\<lambda>_. 0) s \<and> length (lh_block (lg s)) = LOGSIZE"

lemma initlog_spec:
  assumes "booted p s" and "is_header (disk s start) bns" and "good_log start bns"
  shows "\<exists>t d. initlog ROOTDEV start nlog s = Ok () t \<and> is_header d []
     \<and> disk t = (apply_writes (home_writes start bns (disk s) (length bns)) (disk s))(start := d)"
proof -
  let ?s = "upd_log (\<lambda>l. l\<lparr>l_start := start, l_size := nlog, l_dev := ROOTDEV\<rparr>) s"
  have "initlog ROOTDEV start nlog s = recover_from_log ?s" by (simp add: initlog_def BSIZE_def param_defs)
  then show ?thesis using recover_spec [of p ?s start bns] assms unfolding booted_def by auto
qed

text \<open>
  Recovery installs what the on-disk log holds: \<^verbatim>\<open>f\<close> gives the logged versions, \<^verbatim>\<open>d\<close> the blocks outside the log.
\<close>

lemma recovery_installs:
  assumes b: "booted q b" and h: "is_header (disk b start) bns" and gl: "good_log start bns"
    and sl: "\<And>j. j < length bns \<Longrightarrow> disk b (slot start j) = f (bns ! j)"
    and d: "\<And>c. c \<notin> log_area start \<Longrightarrow> c \<notin> set bns \<Longrightarrow> disk b c = d c"
  shows "\<exists>u. initlog ROOTDEV start nlog b = Ok () u \<and> is_header (disk u start) []
     \<and> (\<forall>c. c \<notin> log_area start \<longrightarrow> disk u c = (if c \<in> set bns then f c else d c))"
proof -
  from initlog_spec [OF b h gl, of nlog] obtain u e where
    u: "initlog ROOTDEV start nlog b = Ok () u" "is_header e []"
      "disk u = (apply_writes (home_writes start bns (disk b) (length bns)) (disk b))(start := e)" by blast
  have hw: "home_writes start bns (disk b) (length bns) = new_writes bns f" using sl by (intro home_writes_new) blast
  have "disk u c = (if c \<in> set bns then f c else d c)" if "c \<notin> log_area start" for c
  proof -
    have "c \<noteq> start" using that slot_facts(3) [of 0 start] by (auto simp: param_defs)
    then show ?thesis using new_writes_apply [of bns f "disk b" c] gl d [OF that] by (simp add: u(3) hw good_log_def)
  qed
  then show ?thesis using u by simp
qed

lemma log_writes_start:
  assumes "good_log start bns" and "m \<le> length bns"
  shows "apply_writes (log_writes start bns f m) h start = h start"
proof (rule apply_writes_other)
  have "start \<noteq> slot start j" if "j < m" for j using slot_facts(2) [of j start] that assms by (simp add: good_log_def)
  then show "start \<notin> fst ` set (log_writes start bns f m)" by (auto simp: log_writes_def)
qed

text \<open>The disk after the header and \<^verbatim>\<open>m\<close> of the home blocks have been written.\<close>

lemma crash_after_header:
  assumes b: "booted q b" and gl: "good_log start bns" and h1: "is_header h1 bns"
    and B: "disk b = apply_writes (take m (new_writes bns f)) ((apply_writes (log_writes start bns f (length bns)) h)(start := h1))"
  shows "\<exists>u. initlog ROOTDEV start nlog b = Ok () u \<and> is_header (disk u start) []
     \<and> (\<forall>c. c \<notin> log_area start \<longrightarrow> disk u c = (if c \<in> set bns then f c else h c))"
proof (rule recovery_installs [OF b _ gl])
  let ?N = "take m (new_writes bns f)" and ?h = "(apply_writes (log_writes start bns f (length bns)) h)(start := h1)"
  have n: "length bns < LOGSIZE" using gl by (simp add: good_log_def)
  have sa: "start \<in> log_area start" using slot_facts(3) [of 0] by (simp add: param_defs)
  have N: "fst ` set ?N \<subseteq> set bns" by (auto simp: new_writes_def dest!: in_set_takeD)
  have area: "disk b a = ?h a" if "a \<notin> set bns" for a
    unfolding B using N that by (intro apply_writes_other) blast
  have ni: "a \<notin> set bns" if "a \<in> log_area start" for a using gl that by (auto simp: good_log_def)
  show "is_header (disk b start) bns" using area [OF ni [OF sa]] h1 by simp
  show "disk b (slot start j) = f (bns ! j)" if "j < length bns" for j
    using area [OF ni [OF slot_facts(1) [of j start]]] slot_facts(2) [of j start] log_writes_slot [OF gl that] n that by simp
  show "disk b c = h c" if "c \<notin> log_area start" "c \<notin> set bns" for c
    using area [OF that(2)] that(1) sa log_writes_home [OF gl order_refl that(1)] by auto
qed

text \<open>
  \<^bold>\<open>C1\<close> Crash atomicity. \<^verbatim>\<open>commit\<close> performs a sequence of block writes; if the machine stops after any prefix of them and
  the kernel that boots next runs \<^verbatim>\<open>initlog\<close>, then outside the log area the disk has either every logged block in its old
  version (when the prefix ends before the header is written) or every one in its new version, and never a mixture.
  All other blocks are unchanged, and the log is empty again.
\<close>

theorem commit_crash_atomic:
  assumes cm: "committable p start bns s" and ne: "bns \<noteq> []" and h: "is_header (disk s start) []"
  shows "\<exists>t W. commit s = Ok () t \<and> dwrites t = dwrites s @ W \<and> length W = 2 * length bns + 2
     \<and> (\<forall>k q b. booted q (b :: 'y log_state_scheme) \<and> disk b = apply_writes (take k W) (disk s) \<longrightarrow>
          (\<exists>u. initlog ROOTDEV start nlog b = Ok () u \<and> is_header (disk u start) []
             \<and> (\<forall>c. c \<notin> log_area start \<longrightarrow>
                  disk u c = (if k \<le> length bns then disk s c else if c \<in> set bns then bview s c else disk s c))))"
proof -
  from commit_spec [OF cm ne] obtain t h1 h0 where t: "commit s = Ok () t" "is_header h1 bns" "is_header h0 []"
    "dwrites t = dwrites s @ commit_writes start bns (bview s) h1 h0" by blast
  let ?W = "commit_writes start bns (bview s) h1 h0" and ?LW = "log_writes start bns (bview s)" and ?n = "length bns"
  have gl: "good_log start bns" and gl0: "good_log start []" using cm by (auto simp: committable_def good_log_def param_defs)
  have sa: "start \<in> log_area start" using slot_facts(3) [of 0] by (simp add: param_defs)
  have lens: "length (?LW ?n) = ?n" "length (new_writes bns (bview s)) = ?n" by (simp_all add: log_writes_def new_writes_def)
  have "\<exists>u. initlog ROOTDEV start nlog b = Ok () u \<and> is_header (disk u start) []
      \<and> (\<forall>c. c \<notin> log_area start \<longrightarrow>
           disk u c = (if k \<le> ?n then disk s c else if c \<in> set bns then bview s c else disk s c))"
    if b: "booted q b" "disk b = apply_writes (take k ?W) (disk s)" for k q and b :: "'y log_state_scheme"
  proof -
    consider "k \<le> ?n" | "?n < k" "k \<le> 2 * ?n + 1" | "2 * ?n + 1 < k" by linarith
    then show ?thesis
    proof cases
      case 1
      have "take k ?W = ?LW k" using 1 lens by (simp add: commit_writes_def log_writes_def take_map)
      then have B: "disk b = apply_writes (?LW k) (disk s)" using b(2) by simp
      have "is_header (disk b start) []" using log_writes_start [OF gl 1] h by (simp add: B)
      from recovery_installs [OF b(1) this gl0, of "bview s" "disk s" nlog] show ?thesis
        using log_writes_home [OF gl 1] 1 by (simp add: B)
    next
      case 2
      define m where "m = k - ?n - 1"
      have "take k ?W = ?LW ?n @ (start, h1) # take m (new_writes bns (bview s))"
        using 2 lens by (simp add: commit_writes_def m_def take_Cons')
      then show ?thesis using crash_after_header [OF b(1) gl t(2), of m "bview s" "disk s" nlog] b(2) 2(1) by simp
    next
      case 3
      have "take k ?W = ?W" using 3 lens by (simp add: commit_writes_def)
      then have B: "disk b = (apply_writes (new_writes bns (bview s)) ((apply_writes (?LW ?n) (disk s))(start := h1)))(start := h0)"
        using b(2) by (simp add: commit_writes_def)
      have "disk b c = (if c \<in> set bns then bview s c else disk s c)" if "c \<notin> log_area start" for c
        using that sa log_writes_home [OF gl order_refl that] gl by (auto simp: B new_writes_apply good_log_def)
      with recovery_installs [OF b(1) _ gl0, of "bview s" "\<lambda>c. if c \<in> set bns then bview s c else disk s c" nlog] t(3) 3
      show ?thesis by (simp add: B)
    qed
  qed
  moreover have "length ?W = 2 * ?n + 2" using lens by (simp add: commit_writes_def)
  ultimately show ?thesis using t(1,4) by blast
qed

theorem commit_crash_atomic_witness:
  "\<exists>s :: log_state. committable 1 2 [50] s \<and> is_header (disk s 2) [] \<and> bview s 50 \<noteq> disk s 50
     \<and> (\<exists>t W. commit s = Ok () t \<and> dwrites t = dwrites s @ W \<and> length W = 4)"
proof -
  from demo_tx obtain s :: log_state where s: "in_tx 1 {} 2 [50] s" "is_header (disk s 2) []"
    "bview s = (\<lambda>n. if n = 50 then replicate BSIZE 7 else replicate BSIZE 0)" "disk s = (\<lambda>_. replicate BSIZE 0)" by blast
  have cm: "committable 1 2 [50] s" using s(1) by (auto simp: in_tx_def committable_def)
  from commit_crash_atomic [OF cm _ s(2), where nlog = "of_nat LOGSIZE"]
  have "\<exists>t W. commit s = Ok () t \<and> dwrites t = dwrites s @ W \<and> length W = 4" by auto
  then show ?thesis using cm s(2-4) by (intro exI [of _ s]) (simp add: BSIZE_def)
qed

text \<open>
  \<^bold>\<open>C14\<close> Durability. The \<^verbatim>\<open>end_op\<close> that closes the last outstanding system call commits: when it returns, every block outside
  the log is on disk as the cache had it, no buffer is pinned, and the log is empty and open for new transactions.
\<close>

theorem end_op_durable:
  assumes "in_tx p {} start bns s" and "l_outstanding (lg s) = 1" and "\<not> l_committing (lg s)"
  shows "\<exists>t. end_op s = Ok () t \<and> (\<forall>c. c \<notin> log_area start \<longrightarrow> disk t c = bview s c \<and> bview t c = bview s c)
     \<and> cache_inv p {} (\<lambda>_. 0) t \<and> lh_n (lg t) = 0 \<and> l_outstanding (lg t) = 0 \<and> \<not> l_committing (lg t)"
proof -
  from end_op_spec [OF assms] obtain t where
    t: "end_op s = Ok () t" "cache_inv p {} (\<lambda>_. 0) t" "log_at start [] (lg t)" "l_outstanding (lg t) = 0" "\<not> l_committing (lg t)"
      "\<forall>c. c \<notin> log_area start \<longrightarrow> disk t c = bview s c" by blast
  have "bview t c = disk t c" for c by (rule bview_disk [OF t(2)]) simp
  then show ?thesis using t by (auto simp: log_at_def)
qed

theorem end_op_durable_witness:
  "\<exists>s t :: log_state. in_tx 1 {} 2 [50] s \<and> disk s 50 = replicate BSIZE 0 \<and> end_op s = Ok () t \<and> disk t 50 = replicate BSIZE 7"
proof -
  from demo_tx obtain s :: log_state where s: "in_tx 1 {} 2 [50] s" "l_outstanding (lg s) = 1" "\<not> l_committing (lg s)"
    "bview s = (\<lambda>n. if n = 50 then replicate BSIZE 7 else replicate BSIZE 0)" "disk s = (\<lambda>_. replicate BSIZE 0)" by blast
  moreover have "50 \<notin> log_area 2" using log_area_range [of 2 50] by (simp add: param_defs)
  ultimately show ?thesis using end_op_durable [OF s(1-3)] by auto
qed

text \<open>
  \<^bold>\<open>C3\<close> The buffer cache behaves as an array of blocks. \<^verbatim>\<open>binit\<close> makes a zeroed cache show the disk; \<^verbatim>\<open>bread\<close> returns a locked
  buffer with the content the array has for the block, whether cached or not, and changes no block; \<^verbatim>\<open>bwrite\<close> makes a
  held buffer durable; \<^verbatim>\<open>brelse\<close> of a written or pinned buffer changes no block. Each keeps the invariant: one buffer per
  block, reference counts that equal the holders and pins, a well-formed least-recently-used list.
\<close>

theorem buffer_cache_refines_array:
  assumes "cache_inv p L pins s"
  shows "(zero_cache q z \<longrightarrow> (\<exists>t. binit z = Ok () t \<and> cache_inv q {} (\<lambda>_. 0) t \<and> bview t = disk z))
     \<and> ((\<forall>i\<in>L. b_blockno (bu s i) \<noteq> n) \<and> (\<exists>i<NBUF. i \<notin> L \<and> pins i = 0) \<longrightarrow>
       (\<exists>b t. bread ROOTDEV n s = Ok b t \<and> b \<notin> L \<and> cache_inv p (insert b L) pins t \<and> b_blockno (bu t b) = n
          \<and> b_data (bu t b) = bview s n \<and> bview t = bview s \<and> dwrites t = dwrites s))
     \<and> (b \<in> L \<longrightarrow> (\<exists>t. bwrite b s = Ok () t \<and> cache_inv p L pins t \<and> bview t = bview s
          \<and> disk t = (disk s)(b_blockno (bu s b) := bview s (b_blockno (bu s b)))))
     \<and> (b \<in> L \<and> (pins b = 0 \<longrightarrow> b_data (bu s b) = disk s (b_blockno (bu s b))) \<longrightarrow>
       (\<exists>t. brelse b s = Ok () t \<and> cache_inv p (L - {b}) pins t \<and> bview t = bview s))"
proof (intro conjI)
  show "zero_cache q z \<longrightarrow> (\<exists>t. binit z = Ok () t \<and> cache_inv q {} (\<lambda>_. 0) t \<and> bview t = disk z)"
    using binit_spec [of q z] by blast
  show "(\<forall>i\<in>L. b_blockno (bu s i) \<noteq> n) \<and> (\<exists>i<NBUF. i \<notin> L \<and> pins i = 0) \<longrightarrow>
       (\<exists>b t. bread ROOTDEV n s = Ok b t \<and> b \<notin> L \<and> cache_inv p (insert b L) pins t \<and> b_blockno (bu t b) = n
          \<and> b_data (bu t b) = bview s n \<and> bview t = bview s \<and> dwrites t = dwrites s)"
    using bread_spec [OF assms, of n] by blast
  show "b \<in> L \<longrightarrow> (\<exists>t. bwrite b s = Ok () t \<and> cache_inv p L pins t \<and> bview t = bview s
          \<and> disk t = (disk s)(b_blockno (bu s b) := bview s (b_blockno (bu s b))))"
    using bwrite_spec [OF assms, of b] bview_held [OF assms, of b] by auto
  show "b \<in> L \<and> (pins b = 0 \<longrightarrow> b_data (bu s b) = disk s (b_blockno (bu s b))) \<longrightarrow>
       (\<exists>t. brelse b s = Ok () t \<and> cache_inv p (L - {b}) pins t \<and> bview t = bview s)"
    using brelse_spec [OF assms, of b] by (meson conjE)
qed

theorem buffer_cache_refines_array_witness:
  "\<exists>(s :: log_state) b t. cache_inv 1 {} (\<lambda>_. 0) s \<and> bread ROOTDEV 7 s = Ok b t \<and> b_data (bu t b) = replicate BSIZE 0"
proof -
  from binit_spec [OF demo_zero_cache] obtain s :: log_state where s: "cache_inv 1 {} (\<lambda>_. 0) s" "bview s = disk demo_zero" by blast
  have "0 < NBUF" by (simp add: param_defs)
  then have "\<exists>b t. bread ROOTDEV 7 s = Ok b t \<and> b_data (bu t b) = bview s 7"
    using buffer_cache_refines_array [OF s(1), of 1 demo_zero 7] by auto
  then show ?thesis using s by (auto simp: demo_zero_def)
qed



end
