(* ===== verification/Fs.thy ===== *)
theory Fs
  imports Log_Props
begin

text \<open>
  The file system proper (\<^verbatim>\<open>kernel/fs.c\<close>): the superblock, the block allocator, inodes and their table, file content,
  directories and path names.

  An inode pointer is an index into \<^verbatim>\<open>itable\<close>; where the C code tests for a null pointer the model has a
  \<^typ>\<open>nat option\<close>, so that \<^verbatim>\<open>ilock\<close>, \<^verbatim>\<open>iunlock\<close> and \<^verbatim>\<open>iput\<close> take an index that is not null. A path is the
  sequence of its bytes up to the NUL; a name is an array of \<^verbatim>\<open>DIRSIZ\<close> bytes.
\<close>

section \<open>On-disk format\<close>

definition ROOTINO :: u32 where "ROOTINO = 1"
definition FSMAGIC :: u32 where "FSMAGIC = 0x10203040"
definition NDIRECT :: nat where "NDIRECT = 12"
definition NINDIRECT :: nat where "NINDIRECT = BSIZE div 4"
definition MAXFILE :: nat where "MAXFILE = NDIRECT + NINDIRECT"
definition IPB :: nat where "IPB = BSIZE div 64"
definition BPB :: nat where "BPB = BSIZE * 8"
definition DIRSIZ :: nat where "DIRSIZ = 14"
definition T_DIR :: u16 where "T_DIR = 1"
definition T_FILE :: u16 where "T_FILE = 2"
definition T_DEVICE :: u16 where "T_DEVICE = 3"

lemmas fs_consts = ROOTINO_def FSMAGIC_def NDIRECT_def NINDIRECT_def MAXFILE_def IPB_def BPB_def DIRSIZ_def
  T_DIR_def T_FILE_def T_DEVICE_def BSIZE_def

record superblock =
  sb_magic :: u32
  sb_size :: u32
  sb_nblocks :: u32
  sb_ninodes :: u32
  sb_nlog :: u32
  sb_logstart :: u32
  sb_inodestart :: u32
  sb_bmapstart :: u32

record inode =
  i_dev :: u32
  i_inum :: u32
  i_ref :: i32
  i_valid :: bool
  i_type :: u16
  i_major :: u16
  i_minor :: u16
  i_nlink :: u16
  i_size :: u32
  i_addrs :: "u32 list"

record fs_state = log_state +
  sb :: superblock
  itable :: "inode list"

abbreviation ino :: "'z fs_state_scheme \<Rightarrow> nat \<Rightarrow> inode" where
  "ino s ip \<equiv> itable s ! ip"

definition upd_inode :: "nat \<Rightarrow> (inode \<Rightarrow> inode) \<Rightarrow> 'z fs_state_scheme \<Rightarrow> 'z fs_state_scheme" where
  "upd_inode ip f s = s\<lparr>itable := (itable s)[ip := f (itable s ! ip)]\<rparr>"

definition IBLOCK :: "u32 \<Rightarrow> superblock \<Rightarrow> u32" where
  "IBLOCK i sblk = i div of_nat IPB + sb_inodestart sblk"

definition BBLOCK :: "u32 \<Rightarrow> superblock \<Rightarrow> u32" where
  "BBLOCK b sblk = b div of_nat BPB + sb_bmapstart sblk"

definition get16 :: "u8 list \<Rightarrow> nat \<Rightarrow> u16" where
  "get16 bs off = from_le (take 2 (drop off bs))"

text \<open>The structures as they lie in a block: eight words, and an inode of 64 bytes.\<close>

definition superblock_of :: "u8 list \<Rightarrow> superblock" where
  "superblock_of d = \<lparr>sb_magic = get32 d 0, sb_size = get32 d 4, sb_nblocks = get32 d 8, sb_ninodes = get32 d 12,
     sb_nlog = get32 d 16, sb_logstart = get32 d 20, sb_inodestart = get32 d 24, sb_bmapstart = get32 d 28\<rparr>"

definition dinode_off :: "u32 \<Rightarrow> nat" where
  "dinode_off inum = 64 * (unat inum mod IPB)"

definition load_dinode :: "u8 list \<Rightarrow> nat \<Rightarrow> inode \<Rightarrow> inode" where
  "load_dinode d k ip = ip\<lparr>i_type := get16 d k, i_major := get16 d (k + 2), i_minor := get16 d (k + 4), i_nlink := get16 d (k + 6),
     i_size := get32 d (k + 8), i_addrs := map (\<lambda>j. get32 d (k + 12 + 4 * j)) [0..<NDIRECT + 1]\<rparr>"

definition dinode_bytes :: "inode \<Rightarrow> u8 list" where
  "dinode_bytes ip = to_le 2 (i_type ip) @ to_le 2 (i_major ip) @ to_le 2 (i_minor ip) @ to_le 2 (i_nlink ip)
     @ to_le 4 (i_size ip) @ concat (map (to_le 4) (i_addrs ip))"

section \<open>Superblock and block allocation\<close>

definition readsb :: "u32 \<Rightarrow> 'z fs_state_scheme \<Rightarrow> (unit, 'z fs_state_scheme) res" where
  "readsb dev s =
     kbind (bread dev 1 s) (\<lambda>bp s.
     let s = s\<lparr>sb := superblock_of (b_data (bu s bp))\<rparr> in
     brelse bp s)"

definition fsinit :: "u32 \<Rightarrow> 'z fs_state_scheme \<Rightarrow> (unit, 'z fs_state_scheme) res" where
  "fsinit dev s =
     kbind (readsb dev s) (\<lambda>_ s.
     if sb_magic (sb s) \<noteq> FSMAGIC then Panic ''invalid file system''
     else initlog dev (sb_logstart (sb s)) (sb_nlog (sb s)) s)"

definition bzero :: "u32 \<Rightarrow> u32 \<Rightarrow> 'z log_state_scheme \<Rightarrow> (unit, 'z log_state_scheme) res" where
  "bzero dev bno s =
     kbind (bread dev bno s) (\<lambda>bp s.
     let s = set_data bp (replicate BSIZE 0) s in
     kbind (log_write bp s) (\<lambda>_ s.
     brelse bp s))"

text \<open>The inner loop of \<^verbatim>\<open>balloc\<close>: the first clear bit from \<^verbatim>\<open>bi\<close> on, with \<^verbatim>\<open>k\<close> rounds left.\<close>

fun find_free_bit :: "u8 list \<Rightarrow> nat \<Rightarrow> nat \<Rightarrow> nat option" where
  "find_free_bit d bi 0 = None"
| "find_free_bit d bi (Suc k) =
     (if d ! (bi div 8) AND push_bit (bi mod 8) 1 = 0 then Some bi else find_free_bit d (Suc bi) k)"

text \<open>One round of \<^verbatim>\<open>balloc\<close>: the \<^verbatim>\<open>i\<close>-th bitmap block, with the first clear bit, if it has one.\<close>

definition balloc_round :: "u32 \<Rightarrow> nat \<Rightarrow> 'z fs_state_scheme \<Rightarrow> (u32 option, 'z fs_state_scheme) res" where
  "balloc_round dev i s =
     (let b = i * BPB in
      kbind (bread dev (BBLOCK (of_nat b) (sb s)) s) (\<lambda>bp s.
      let d = b_data (bu s bp) in
      case find_free_bit d 0 (min BPB (unat (sb_size (sb s)) - b)) of
        Some bi \<Rightarrow>
          let s = set_data bp (d[bi div 8 := d ! (bi div 8) OR push_bit (bi mod 8) 1]) s in
          kbind (log_write bp s) (\<lambda>_ s.
          kbind (brelse bp s) (\<lambda>_ s.
          kbind (bzero dev (of_nat (b + bi)) s) (\<lambda>_ s.
          Ok (Some (of_nat (b + bi))) s)))
      | None \<Rightarrow> kbind (brelse bp s) (\<lambda>_ s. Ok None s)))"

definition balloc :: "u32 \<Rightarrow> 'z fs_state_scheme \<Rightarrow> (u32, 'z fs_state_scheme) res" where
  "balloc dev s =
     kbind (kscan 0 ((unat (sb_size (sb s)) + BPB - 1) div BPB) (balloc_round dev) s) (\<lambda>r s.
     case r of Some b \<Rightarrow> Ok b s | None \<Rightarrow> Panic ''balloc: out of blocks'')"

definition bfree :: "u32 \<Rightarrow> u32 \<Rightarrow> 'z fs_state_scheme \<Rightarrow> (unit, 'z fs_state_scheme) res" where
  "bfree dev b s =
     kbind (bread dev (BBLOCK b (sb s)) s) (\<lambda>bp s.
     let bi = unat b mod BPB; d = b_data (bu s bp); m = push_bit (bi mod 8) 1 in
     if d ! (bi div 8) AND m = 0 then Panic ''freeing free block''
     else
       let s = set_data bp (d[bi div 8 := d ! (bi div 8) AND NOT m]) s in
       kbind (log_write bp s) (\<lambda>_ s.
       brelse bp s))"

section \<open>Inodes\<close>

definition iinit :: "'z fs_state_scheme \<Rightarrow> (unit, 'z fs_state_scheme) res" where
  "iinit s = kfor 0 NINODE (\<lambda>i s. Ok () (initsleeplock (Inode_lk i) s)) s"

text \<open>
  The loop of \<^verbatim>\<open>iget\<close> over the table: the entry that has the inode, or else the first free entry, if there is one.
\<close>

fun iget_scan :: "u32 \<Rightarrow> u32 \<Rightarrow> inode list \<Rightarrow> nat \<Rightarrow> nat option \<Rightarrow> nat + nat option" where
  "iget_scan dev inum [] i emp = Inr emp"
| "iget_scan dev inum (ip # ips) i emp =
     (if sint (i_ref ip) > 0 \<and> i_dev ip = dev \<and> i_inum ip = inum then Inl i
      else iget_scan dev inum ips (Suc i) (if emp = None \<and> i_ref ip = 0 then Some i else emp))"

definition iget :: "u32 \<Rightarrow> u32 \<Rightarrow> 'z fs_state_scheme \<Rightarrow> (nat, 'z fs_state_scheme) res" where
  "iget dev inum s =
     kbind (acquire Itable_lock s) (\<lambda>_ s.
     case iget_scan dev inum (itable s) 0 None of
       Inl ip \<Rightarrow>
         let s = upd_inode ip (\<lambda>x. x\<lparr>i_ref := i_ref x + 1\<rparr>) s in
         kbind (release Itable_lock s) (\<lambda>_ s. Ok ip s)
     | Inr None \<Rightarrow> Panic ''iget: no inodes''
     | Inr (Some ip) \<Rightarrow>
         let s = upd_inode ip (\<lambda>x. x\<lparr>i_dev := dev, i_inum := inum, i_ref := 1, i_valid := False\<rparr>) s in
         kbind (release Itable_lock s) (\<lambda>_ s. Ok ip s))"

definition ialloc :: "u32 \<Rightarrow> u16 \<Rightarrow> 'z fs_state_scheme \<Rightarrow> (nat, 'z fs_state_scheme) res" where
  "ialloc dev type s =
     kbind (kscan 1 (unat (sb_ninodes (sb s))) (\<lambda>inum s.
       kbind (bread dev (IBLOCK (of_nat inum) (sb s)) s) (\<lambda>bp s.
       let d = b_data (bu s bp); k = dinode_off (of_nat inum) in
       if get16 d k = 0 then
         let s = set_data bp (put_bytes (put_bytes d k (replicate 64 0)) k (to_le 2 type)) s in
         kbind (log_write bp s) (\<lambda>_ s.
         kbind (brelse bp s) (\<lambda>_ s.
         kbind (iget dev (of_nat inum) s) (\<lambda>ip s. Ok (Some ip) s)))
       else kbind (brelse bp s) (\<lambda>_ s. Ok None s))) s) (\<lambda>r s.
     case r of Some ip \<Rightarrow> Ok ip s | None \<Rightarrow> Panic ''ialloc: no inodes'')"

definition iupdate :: "nat \<Rightarrow> 'z fs_state_scheme \<Rightarrow> (unit, 'z fs_state_scheme) res" where
  "iupdate ip s =
     kbind (bread (i_dev (ino s ip)) (IBLOCK (i_inum (ino s ip)) (sb s)) s) (\<lambda>bp s.
     let s = set_data bp (put_bytes (b_data (bu s bp)) (dinode_off (i_inum (ino s ip))) (dinode_bytes (ino s ip))) s in
     kbind (log_write bp s) (\<lambda>_ s.
     brelse bp s))"

definition idup :: "nat \<Rightarrow> 'z fs_state_scheme \<Rightarrow> (nat, 'z fs_state_scheme) res" where
  "idup ip s =
     kbind (acquire Itable_lock s) (\<lambda>_ s.
     let s = upd_inode ip (\<lambda>x. x\<lparr>i_ref := i_ref x + 1\<rparr>) s in
     kbind (release Itable_lock s) (\<lambda>_ s. Ok ip s))"

definition ilock :: "nat \<Rightarrow> 'z fs_state_scheme \<Rightarrow> (unit, 'z fs_state_scheme) res" where
  "ilock ip s =
     (if sint (i_ref (ino s ip)) < 1 then Panic ''ilock''
      else kbind (acquiresleep (Inode_lk ip) s) (\<lambda>_ s.
        if \<not> i_valid (ino s ip) then
          kbind (bread (i_dev (ino s ip)) (IBLOCK (i_inum (ino s ip)) (sb s)) s) (\<lambda>bp s.
          let s = upd_inode ip (load_dinode (b_data (bu s bp)) (dinode_off (i_inum (ino s ip)))) s in
          kbind (brelse bp s) (\<lambda>_ s.
          let s = upd_inode ip (\<lambda>x. x\<lparr>i_valid := True\<rparr>) s in
          if i_type (ino s ip) = 0 then Panic ''ilock: no type'' else Ok () s))
        else Ok () s))"

definition iunlock :: "nat \<Rightarrow> 'z fs_state_scheme \<Rightarrow> (unit, 'z fs_state_scheme) res" where
  "iunlock ip s =
     kbind (holdingsleep (Inode_lk ip) s) (\<lambda>h s.
     if \<not> h \<or> sint (i_ref (ino s ip)) < 1 then Panic ''iunlock''
     else releasesleep (Inode_lk ip) s)"

section \<open>Content\<close>

definition bmap :: "nat \<Rightarrow> u32 \<Rightarrow> 'z fs_state_scheme \<Rightarrow> (u32, 'z fs_state_scheme) res" where
  "bmap ip bn s =
     (let dev = i_dev (ino s ip);
          get = (\<lambda>k s. let a = i_addrs (ino s ip) ! k in
            if a = 0 then kbind (balloc dev s) (\<lambda>a s. Ok a (upd_inode ip (\<lambda>x. x\<lparr>i_addrs := (i_addrs x)[k := a]\<rparr>) s))
            else Ok a s) in
      if unat bn < NDIRECT then get (unat bn) s
      else
        let k = unat bn - NDIRECT in
        if k < NINDIRECT then
          kbind (get NDIRECT s) (\<lambda>a s.
          kbind (bread dev a s) (\<lambda>bp s.
          let a = get32 (b_data (bu s bp)) (4 * k) in
          kbind (if a = 0 then
                   kbind (balloc dev s) (\<lambda>a s.
                   let s = set_data bp (put32 (b_data (bu s bp)) (4 * k) a) s in
                   kbind (log_write bp s) (\<lambda>_ s. Ok a s))
                 else Ok a s) (\<lambda>a s.
          kbind (brelse bp s) (\<lambda>_ s. Ok a s))))
        else Panic ''bmap: out of range'')"

definition itrunc :: "nat \<Rightarrow> 'z fs_state_scheme \<Rightarrow> (unit, 'z fs_state_scheme) res" where
  "itrunc ip s =
     kbind (kfor 0 NDIRECT (\<lambda>i s.
       if i_addrs (ino s ip) ! i \<noteq> 0 then
         kbind (bfree (i_dev (ino s ip)) (i_addrs (ino s ip) ! i) s) (\<lambda>_ s.
         Ok () (upd_inode ip (\<lambda>x. x\<lparr>i_addrs := (i_addrs x)[i := 0]\<rparr>) s))
       else Ok () s) s) (\<lambda>_ s.
     kbind (if i_addrs (ino s ip) ! NDIRECT \<noteq> 0 then
         kbind (bread (i_dev (ino s ip)) (i_addrs (ino s ip) ! NDIRECT) s) (\<lambda>bp s.
         kbind (kfor 0 NINDIRECT (\<lambda>j s.
           let a = get32 (b_data (bu s bp)) (4 * j) in
           if a \<noteq> 0 then bfree (i_dev (ino s ip)) a s else Ok () s) s) (\<lambda>_ s.
         kbind (brelse bp s) (\<lambda>_ s.
         kbind (bfree (i_dev (ino s ip)) (i_addrs (ino s ip) ! NDIRECT) s) (\<lambda>_ s.
         Ok () (upd_inode ip (\<lambda>x. x\<lparr>i_addrs := (i_addrs x)[NDIRECT := 0]\<rparr>) s)))))
       else Ok () s) (\<lambda>_ s.
     iupdate ip (upd_inode ip (\<lambda>x. x\<lparr>i_size := 0\<rparr>) s)))"

definition iput :: "nat \<Rightarrow> 'z fs_state_scheme \<Rightarrow> (unit, 'z fs_state_scheme) res" where
  "iput ip s =
     kbind (acquire Itable_lock s) (\<lambda>_ s.
     kbind (if i_ref (ino s ip) = 1 \<and> i_valid (ino s ip) \<and> i_nlink (ino s ip) = 0 then
         kbind (acquiresleep (Inode_lk ip) s) (\<lambda>_ s.
         kbind (release Itable_lock s) (\<lambda>_ s.
         kbind (itrunc ip s) (\<lambda>_ s.
         kbind (iupdate ip (upd_inode ip (\<lambda>x. x\<lparr>i_type := 0\<rparr>) s)) (\<lambda>_ s.
         let s = upd_inode ip (\<lambda>x. x\<lparr>i_valid := False\<rparr>) s in
         kbind (releasesleep (Inode_lk ip) s) (\<lambda>_ s.
         acquire Itable_lock s)))))
       else Ok () s) (\<lambda>_ s.
     release Itable_lock (upd_inode ip (\<lambda>x. x\<lparr>i_ref := i_ref x - 1\<rparr>) s)))"

definition iunlockput :: "nat \<Rightarrow> 'z fs_state_scheme \<Rightarrow> (unit, 'z fs_state_scheme) res" where
  "iunlockput ip s = kbind (iunlock ip s) (\<lambda>_ s. iput ip s)"

record stat =
  st_dev :: i32
  st_ino :: u32
  st_type :: u16
  st_nlink :: u16
  st_size :: u64

definition stati :: "nat \<Rightarrow> 'z fs_state_scheme \<Rightarrow> stat" where
  "stati ip s = \<lparr>st_dev = i_dev (ino s ip), st_ino = i_inum (ino s ip), st_type = i_type (ino s ip),
     st_nlink = i_nlink (ino s ip), st_size = ucast (i_size (ino s ip))\<rparr>"

text \<open>The number of bytes that one round of \<^verbatim>\<open>readi\<close> and \<^verbatim>\<open>writei\<close> handles.\<close>

definition block_part :: "u32 \<Rightarrow> u32 \<Rightarrow> u32" where
  "block_part off left = min left (of_nat BSIZE - off mod of_nat BSIZE)"

lemma block_part_measure: "tot < n \<Longrightarrow> unat (n - (tot + block_part off (n - tot))) < unat (n - tot)"
proof -
  assume tn: "tot < n"
  have bs: "unat (of_nat BSIZE :: u32) = 1024" by (simp add: BSIZE_def)
  have "off mod of_nat BSIZE < of_nat BSIZE" by (rule word_mod_less_divisor) (simp add: BSIZE_def)
  then have "0 < unat (of_nat BSIZE - off mod of_nat BSIZE :: u32)"
    by (simp add: unat_sub order.strict_implies_order word_less_nat_alt)
  moreover have "0 < unat (n - tot)" using tn by (simp add: unat_sub order.strict_implies_order word_less_nat_alt)
  ultimately have p: "0 < unat (block_part off (n - tot))" by (simp add: block_part_def min_def)
  have le: "block_part off (n - tot) \<le> n - tot" by (simp add: block_part_def)
  have "n - (tot + block_part off (n - tot)) = (n - tot) - block_part off (n - tot)" by simp
  then have "unat (n - (tot + block_part off (n - tot))) = unat (n - tot) - unat (block_part off (n - tot))"
    using le by (simp only: unat_sub)
  then show ?thesis using p le by (simp add: word_le_nat_alt)
qed

text \<open>
  The loop of \<^verbatim>\<open>readi\<close>; the second component of the result are the bytes stored at a kernel destination.
\<close>

function readi_loop ::
  "nat \<Rightarrow> bool \<Rightarrow> u64 \<Rightarrow> u32 \<Rightarrow> u32 \<Rightarrow> u32 \<Rightarrow> 'z fs_state_scheme \<Rightarrow> (u32 \<times> u8 list, 'z fs_state_scheme) res" where
  "readi_loop ip user_dst dst off tot n s =
     (if tot < n then
        kbind (bmap ip (off div of_nat BSIZE) s) (\<lambda>a s.
        kbind (bread (i_dev (ino s ip)) a s) (\<lambda>bp s.
        let m = block_part off (n - tot) in
        kbind (either_copyout user_dst dst (drop (unat (off mod of_nat BSIZE)) (b_data (bu s bp))) (ucast m) s) (\<lambda>(r, out) s.
        kbind (brelse bp s) (\<lambda>_ s.
        if r = -1 then Ok (-1, []) s
        else kbind (readi_loop ip user_dst (dst + ucast m) (off + m) (tot + m) n s) (\<lambda>(t, rest) s. Ok (t, out @ rest) s)))))
      else Ok (tot, []) s)"
  by pat_completeness auto
termination
  by (relation "measure (\<lambda>(ip, user_dst, dst, off, tot, n, s). unat (n - tot))") (simp_all add: block_part_measure)

declare readi_loop.simps [simp del]

definition readi :: "nat \<Rightarrow> bool \<Rightarrow> u64 \<Rightarrow> u32 \<Rightarrow> u32 \<Rightarrow> 'z fs_state_scheme \<Rightarrow> (int \<times> u8 list, 'z fs_state_scheme) res" where
  "readi ip user_dst dst off n s =
     (let sz = i_size (ino s ip) in
      if off > sz \<or> off + n < off then Ok (0, []) s
      else
        let n = (if off + n > sz then sz - off else n) in
        kbind (readi_loop ip user_dst dst off 0 n s) (\<lambda>(tot, out) s. Ok (sint tot, out) s))"

text \<open>
  The loop of \<^verbatim>\<open>writei\<close>; \<^verbatim>\<open>ksrc\<close> is the content of a kernel source. It returns \<^verbatim>\<open>tot\<close> and \<^verbatim>\<open>off\<close>. A copy that fails in the
  middle of a block has stored the bytes before the fault in the buffer.
\<close>

function writei_loop ::
  "nat \<Rightarrow> bool \<Rightarrow> u64 \<Rightarrow> u8 list \<Rightarrow> u32 \<Rightarrow> u32 \<Rightarrow> u32 \<Rightarrow> 'z fs_state_scheme \<Rightarrow> (u32 \<times> u32, 'z fs_state_scheme) res" where
  "writei_loop ip user_src src ksrc off tot n s =
     (if tot < n then
        kbind (bmap ip (off div of_nat BSIZE) s) (\<lambda>a s.
        kbind (bread (i_dev (ino s ip)) a s) (\<lambda>bp s.
        let m = block_part off (n - tot) in
        kbind (either_copyin user_src src ksrc (ucast m) s) (\<lambda>(r, w) s.
        let s = set_data bp (put_bytes (b_data (bu s bp)) (unat (off mod of_nat BSIZE)) w) s in
        if r = -1 then kbind (brelse bp s) (\<lambda>_ s. Ok (tot, off) s)
        else
          kbind (log_write bp s) (\<lambda>_ s.
          kbind (brelse bp s) (\<lambda>_ s.
          writei_loop ip user_src (src + ucast m) (drop (unat m) ksrc) (off + m) (tot + m) n s)))))
      else Ok (tot, off) s)"
  by pat_completeness auto
termination
  by (relation "measure (\<lambda>(ip, user_src, src, ksrc, off, tot, n, s). unat (n - tot))") (simp_all add: block_part_measure)

declare writei_loop.simps [simp del]

definition writei :: "nat \<Rightarrow> bool \<Rightarrow> u64 \<Rightarrow> u8 list \<Rightarrow> u32 \<Rightarrow> u32 \<Rightarrow> 'z fs_state_scheme \<Rightarrow> (int, 'z fs_state_scheme) res" where
  "writei ip user_src src ksrc off n s =
     (if off > i_size (ino s ip) \<or> off + n < off then Ok (-1) s
      else if unat (off + n) > MAXFILE * BSIZE then Ok (-1) s
      else
        kbind (writei_loop ip user_src src ksrc off 0 n s) (\<lambda>(tot, off) s.
        let s = (if off > i_size (ino s ip) then upd_inode ip (\<lambda>x. x\<lparr>i_size := off\<rparr>) s else s) in
        kbind (iupdate ip s) (\<lambda>_ s. Ok (sint tot) s)))"

section \<open>Directories\<close>

definition namecmp :: "u8 list \<Rightarrow> u8 list \<Rightarrow> int" where
  "namecmp s t = strncmp s t DIRSIZ"

definition de_inum :: "u8 list \<Rightarrow> u16" where
  "de_inum de = get16 de 0"

definition de_name :: "u8 list \<Rightarrow> u8 list" where
  "de_name de = drop 2 de"

text \<open>
  The loops over a directory go in steps of a 16-byte \<^verbatim>\<open>struct dirent\<close> up to its size, which \<^verbatim>\<open>readi\<close> does not change.
\<close>

definition dir_entries :: "nat \<Rightarrow> 'z fs_state_scheme \<Rightarrow> nat" where
  "dir_entries dp s = (unat (i_size (ino s dp)) + 15) div 16"

definition dirlookup :: "nat \<Rightarrow> u8 list \<Rightarrow> 'z fs_state_scheme \<Rightarrow> ((nat \<times> u32) option, 'z fs_state_scheme) res" where
  "dirlookup dp name s =
     (if i_type (ino s dp) \<noteq> T_DIR then Panic ''dirlookup not DIR''
      else kscan 0 (dir_entries dp s) (\<lambda>k s.
        let off = of_nat (16 * k) in
        kbind (readi dp False 0 off 16 s) (\<lambda>(r, de) s.
        if r \<noteq> 16 then Panic ''dirlookup read''
        else if de_inum de = 0 then Ok None s
        else if namecmp name (de_name de) = 0 then
          kbind (iget (i_dev (ino s dp)) (ucast (de_inum de)) s) (\<lambda>ip s. Ok (Some (ip, off)) s)
        else Ok None s)) s)"

definition dirlink :: "nat \<Rightarrow> u8 list \<Rightarrow> u32 \<Rightarrow> 'z fs_state_scheme \<Rightarrow> (int, 'z fs_state_scheme) res" where
  "dirlink dp name inum s =
     kbind (dirlookup dp name s) (\<lambda>r s.
     case r of Some (ip, off) \<Rightarrow> kbind (iput ip s) (\<lambda>_ s. Ok (-1) s)
     | None \<Rightarrow>
       let n = dir_entries dp s in
       kbind (kscan 0 n (\<lambda>k s.
         kbind (readi dp False 0 (of_nat (16 * k)) 16 s) (\<lambda>(r, de) s.
         if r \<noteq> 16 then Panic ''dirlink read''
         else if de_inum de = 0 then Ok (Some k) s else Ok None s)) s) (\<lambda>r s.
       let k = (case r of Some k \<Rightarrow> k | None \<Rightarrow> n);
           de = to_le 2 (ucast inum :: u16) @ strncpy (replicate DIRSIZ 0) name DIRSIZ in
       kbind (writei dp False 0 de (of_nat (16 * k)) 16 s) (\<lambda>w s.
       if w \<noteq> 16 then Panic ''dirlink'' else Ok 0 s)))"

section \<open>Paths\<close>

text \<open>
  \<^verbatim>\<open>skipelem\<close> returns the rest of the path and the array \<^verbatim>\<open>name\<close> as it leaves it. 47 is the slash.
\<close>

definition skipelem :: "u8 list \<Rightarrow> u8 list \<Rightarrow> (u8 list \<times> u8 list) option" where
  "skipelem path name =
     (let path = dropWhile (\<lambda>c. c = 47) path in
      if deref path = 0 then None
      else
        let e = takeWhile (\<lambda>c. c \<noteq> 47 \<and> c \<noteq> 0) path;
            path = drop (length e) path;
            len = length e;
            name = (if len \<ge> DIRSIZ then take DIRSIZ e else (e @ drop len name)[len := 0]) in
        Some (dropWhile (\<lambda>c. c = 47) path, name))"

lemma skipelem_shorter: "skipelem path name = Some (rest, name') \<Longrightarrow> length rest < length path"
proof -
  assume sk: "skipelem path name = Some (rest, name')"
  let ?p = "dropWhile (\<lambda>c. c = 47) path" and ?e = "takeWhile (\<lambda>c. c \<noteq> 47 \<and> c \<noteq> 0) (dropWhile (\<lambda>c. c = 47) path)"
  have ne: "deref ?p \<noteq> 0" and r: "rest = dropWhile (\<lambda>c. c = 47) (drop (length ?e) ?p)"
    using sk by (auto simp: skipelem_def Let_def split: if_splits)
  then obtain c q where p: "?p = c # q" by (cases ?p) (auto simp: deref_def)
  have "c \<noteq> 47" using p hd_dropWhile [of "\<lambda>c. c = 47" path] by auto
  then have "0 < length ?e" using ne p by (simp add: deref_def)
  moreover have "length rest \<le> length ?p - length ?e" using length_dropWhile_le [of "\<lambda>c. c = 47" "drop (length ?e) ?p"] r by simp
  moreover have "length ?p \<le> length path" by (rule length_dropWhile_le)
  moreover have "0 < length ?p" using p by simp
  ultimately show ?thesis by linarith
qed

text \<open>
  The loop of \<^verbatim>\<open>namex\<close>. With \<^verbatim>\<open>nameiparent\<close> it returns the directory and the last element.
\<close>

function namex_loop ::
  "nat \<Rightarrow> u8 list \<Rightarrow> bool \<Rightarrow> u8 list \<Rightarrow> 'z fs_state_scheme \<Rightarrow> (nat option \<times> u8 list, 'z fs_state_scheme) res" where
  "namex_loop ip path parent name s =
     (case skipelem path name of
        None \<Rightarrow> if parent then kbind (iput ip s) (\<lambda>_ s. Ok (None, name) s) else Ok (Some ip, name) s
      | Some (rest, name) \<Rightarrow>
          kbind (ilock ip s) (\<lambda>_ s.
          if i_type (ino s ip) \<noteq> T_DIR then kbind (iunlockput ip s) (\<lambda>_ s. Ok (None, name) s)
          else if parent \<and> deref rest = 0 then kbind (iunlock ip s) (\<lambda>_ s. Ok (Some ip, name) s)
          else kbind (dirlookup ip name s) (\<lambda>r s.
            case r of None \<Rightarrow> kbind (iunlockput ip s) (\<lambda>_ s. Ok (None, name) s)
            | Some (nxt, _) \<Rightarrow> kbind (iunlockput ip s) (\<lambda>_ s. namex_loop nxt rest parent name s))))"
  by pat_completeness auto
termination
  by (relation "measure (\<lambda>(ip, path, _). length path)") (auto dest: skipelem_shorter)

declare namex_loop.simps [simp del]

definition namex :: "u8 list \<Rightarrow> bool \<Rightarrow> u8 list \<Rightarrow> 'z fs_state_scheme \<Rightarrow> (nat option \<times> u8 list, 'z fs_state_scheme) res" where
  "namex path parent name s =
     kbind (if deref path = 47 then iget ROOTDEV ROOTINO s
            else with_proc s (\<lambda>p. case p_cwd (pr s p) of None \<Rightarrow> Panic ''kerneltrap'' | Some d \<Rightarrow> idup d s)) (\<lambda>ip s.
     namex_loop ip path parent name s)"

text \<open>
  The array \<^verbatim>\<open>name\<close> of the callers is not initialised; \<^verbatim>\<open>skipelem\<close> writes an element before anything reads one.
\<close>

definition namei :: "u8 list \<Rightarrow> 'z fs_state_scheme \<Rightarrow> (nat option, 'z fs_state_scheme) res" where
  "namei path s = kbind (namex path False (replicate DIRSIZ 0) s) (\<lambda>(ip, _) s. Ok ip s)"

definition nameiparent :: "u8 list \<Rightarrow> 'z fs_state_scheme \<Rightarrow> (nat option \<times> u8 list, 'z fs_state_scheme) res" where
  "nameiparent path s = namex path True (replicate DIRSIZ 0) s"

end
