(* ===== verification/Console.thy ===== *)
theory Console
  imports Fs
begin

text \<open>
  Console output and input (\<^verbatim>\<open>kernel/uart.c\<close>, \<^verbatim>\<open>kernel/printf.c\<close>, \<^verbatim>\<open>kernel/console.c\<close>, and \<^verbatim>\<open>procdump\<close> of \<^verbatim>\<open>kernel/proc.c\<close>).

  The 16550 UART is the environment. \<^verbatim>\<open>uart_rx\<close> are the bytes waiting in its receiver, the \<^verbatim>\<open>n\<close>-th poll of the line status
  register reports an idle transmitter when \<^verbatim>\<open>uart_idle n\<close> holds, \<^verbatim>\<open>uart_polls\<close> counts the polls, and \<^verbatim>\<open>uart_writes\<close> is the
  history of the values written to its registers.
\<close>

section \<open>State\<close>

datatype devfun = Dev_console

record devsw_entry =
  dev_read :: "devfun option"
  dev_write :: "devfun option"

record cons_state = fs_state +
  cons_buf :: "u8 list"
  cons_r :: u32
  cons_w :: u32
  cons_e :: u32
  uart_tx_buf :: "u8 list"
  uart_tx_w :: u64
  uart_tx_r :: u64
  panicked :: bool
  pr_locking :: bool
  devsw :: "devsw_entry list"
  uart_rx :: "u8 list"
  uart_idle :: "nat \<Rightarrow> bool"
  uart_polls :: nat
  uart_writes :: "(nat \<times> u8) list"

definition INPUT_BUF :: nat where "INPUT_BUF = 128"
definition UART_TX_BUF_SIZE :: nat where "UART_TX_BUF_SIZE = 32"
definition BACKSPACE :: i32 where "BACKSPACE = 0x100"
definition CONSOLE :: nat where "CONSOLE = 1"

text \<open>The registers of the UART by their offsets.\<close>

definition RHR :: nat where "RHR = 0"
definition THR :: nat where "THR = 0"
definition IER :: nat where "IER = 1"
definition FCR :: nat where "FCR = 2"
definition LCR :: nat where "LCR = 3"

definition WriteReg :: "nat \<Rightarrow> u8 \<Rightarrow> 'z cons_state_scheme \<Rightarrow> 'z cons_state_scheme" where
  "WriteReg r v s = s\<lparr>uart_writes := uart_writes s @ [(r, v)]\<rparr>"

section \<open>The UART driver\<close>

definition uartinit :: "'z cons_state_scheme \<Rightarrow> (unit, 'z cons_state_scheme) res" where
  "uartinit s =
     (let s = WriteReg IER 0x00 s;
          s = WriteReg LCR 0x80 s;
          s = WriteReg 0 0x03 s;
          s = WriteReg 1 0x00 s;
          s = WriteReg LCR 0x03 s;
          s = WriteReg FCR 0x07 s;
          s = WriteReg IER 0x03 s in
      Ok () s)"

text \<open>
  \<^verbatim>\<open>uartstart\<close> sends while the transmitter is idle; the buffer has \<^verbatim>\<open>uart_tx_w - uart_tx_r\<close> characters, which bounds the loop.
\<close>

fun uartstart_loop :: "nat \<Rightarrow> 'z cons_state_scheme \<Rightarrow> (unit, 'z cons_state_scheme) res" where
  "uartstart_loop 0 s = Ok () s"
| "uartstart_loop (Suc k) s =
     (let idle = uart_idle s (uart_polls s); s = s\<lparr>uart_polls := uart_polls s + 1\<rparr> in
      if \<not> idle then Ok () s
      else
        let c = uart_tx_buf s ! (unat (uart_tx_r s) mod UART_TX_BUF_SIZE);
            s = s\<lparr>uart_tx_r := uart_tx_r s + 1\<rparr> in
        kbind (wakeup Ch_uart_tx_r s) (\<lambda>_ s.
        uartstart_loop k (WriteReg THR c s)))"

definition uartstart :: "'z cons_state_scheme \<Rightarrow> (unit, 'z cons_state_scheme) res" where
  "uartstart s = uartstart_loop (unat (uart_tx_w s - uart_tx_r s)) s"

definition uartputc :: "i32 \<Rightarrow> 'z cons_state_scheme \<Rightarrow> (unit, 'z cons_state_scheme) res" where
  "uartputc c s =
     kbind (acquire Uart_tx_lock s) (\<lambda>_ s.
     if panicked s then Spins Busy_wait
     else if uart_tx_w s = uart_tx_r s + of_nat UART_TX_BUF_SIZE then sleep Ch_uart_tx_r Uart_tx_lock s
     else
       let s = s\<lparr>uart_tx_buf := (uart_tx_buf s)[unat (uart_tx_w s) mod UART_TX_BUF_SIZE := ucast c],
                 uart_tx_w := uart_tx_w s + 1\<rparr> in
       kbind (uartstart s) (\<lambda>_ s.
       release Uart_tx_lock s))"

text \<open>
  The polling loop of \<^verbatim>\<open>uartputc_sync\<close>: the first poll from \<^verbatim>\<open>n\<close> on that finds the transmitter idle. It does not return
  when there is none.
\<close>

partial_function (option) poll_idle :: "(nat \<Rightarrow> bool) \<Rightarrow> nat \<Rightarrow> nat option" where
  "poll_idle idle n = (if idle n then Some n else poll_idle idle (Suc n))"

definition uartputc_sync :: "i32 \<Rightarrow> 'z cons_state_scheme \<Rightarrow> (unit, 'z cons_state_scheme) res" where
  "uartputc_sync c s =
     (if panicked s then Spins Busy_wait
      else case poll_idle (uart_idle s) (uart_polls s) of
        None \<Rightarrow> Spins Busy_wait
      | Some n \<Rightarrow> Ok () (WriteReg THR (ucast c) (s\<lparr>uart_polls := Suc n\<rparr>)))"

definition uartgetc :: "'z cons_state_scheme \<Rightarrow> (int, 'z cons_state_scheme) res" where
  "uartgetc s = (case uart_rx s of [] \<Rightarrow> Ok (-1) s | c # cs \<Rightarrow> Ok (uint c) (s\<lparr>uart_rx := cs\<rparr>))"

section \<open>Formatted output\<close>

definition consputc :: "i32 \<Rightarrow> 'z cons_state_scheme \<Rightarrow> (unit, 'z cons_state_scheme) res" where
  "consputc c s =
     (if c = BACKSPACE then
        kbind (uartputc_sync 8 s) (\<lambda>_ s. kbind (uartputc_sync 32 s) (\<lambda>_ s. uartputc_sync 8 s))
      else uartputc_sync c s)"

fun consputs :: "u8 list \<Rightarrow> 'z cons_state_scheme \<Rightarrow> (unit, 'z cons_state_scheme) res" where
  "consputs [] s = Ok () s"
| "consputs (c # cs) s = kbind (consputc (ucast c) s) (\<lambda>_ s. consputs cs s)"

definition digits :: "u8 list" where
  "digits = cbytes ''0123456789abcdef''"

text \<open>The \<^verbatim>\<open>do\<close> loop of \<^verbatim>\<open>printint\<close>: the digits, the least significant first.\<close>

function digit_loop :: "u32 \<Rightarrow> u32 \<Rightarrow> u8 list" where
  "digit_loop x base =
     digits ! unat (x mod base) # (if x div base \<noteq> 0 \<and> 1 < base then digit_loop (x div base) base else [])"
  by pat_completeness auto
termination
proof (relation "measure (\<lambda>(x, base). unat x)", goal_cases)
  case (2 x base)
  then have "unat x div unat base \<noteq> 0" "1 < unat base"
    by (simp_all add: word_less_nat_alt unat_div flip: unat_eq_0)
  then show ?case by (auto simp: unat_div intro!: div_less_dividend gr0I)
qed simp

declare digit_loop.simps [simp del]

text \<open>The buffer that \<^verbatim>\<open>printint\<close> fills and then prints from its end; its callers pass a base of 10 or 16.\<close>

definition printint_buf :: "i32 \<Rightarrow> i32 \<Rightarrow> bool \<Rightarrow> u8 list" where
  "printint_buf xx base sign =
     (let neg = (sign \<and> sint xx < 0); x = (if neg then - xx else xx) in
      digit_loop x base @ (if neg then [45] else []))"

definition printint :: "i32 \<Rightarrow> i32 \<Rightarrow> bool \<Rightarrow> 'z cons_state_scheme \<Rightarrow> (unit, 'z cons_state_scheme) res" where
  "printint xx base sign s = consputs (rev (printint_buf xx base sign)) s"

fun printptr_loop :: "nat \<Rightarrow> u64 \<Rightarrow> u8 list" where
  "printptr_loop 0 x = []"
| "printptr_loop (Suc k) x = digits ! unat (drop_bit 60 x) # printptr_loop k (push_bit 4 x)"

definition printptr :: "u64 \<Rightarrow> 'z cons_state_scheme \<Rightarrow> (unit, 'z cons_state_scheme) res" where
  "printptr x s =
     kbind (consputc 48 s) (\<lambda>_ s.
     kbind (consputc 120 s) (\<lambda>_ s.
     consputs (printptr_loop 16 x) s))"

text \<open>
  The variable arguments of \<^verbatim>\<open>printf\<close>: each takes an 8-byte slot, a number or a string pointer. A conversion that finds no
  argument of its kind has undefined behaviour.
\<close>

datatype va_arg = Va_word u64 | Va_str "u8 list option"

fun printf_conv :: "u8 \<Rightarrow> va_arg list \<Rightarrow> 'z cons_state_scheme \<Rightarrow> (va_arg list, 'z cons_state_scheme) res" where
  "printf_conv c ap s =
     (if c = 100 then
        (case ap of Va_word w # ap \<Rightarrow> kbind (printint (ucast w) 10 True s) (\<lambda>_ s. Ok ap s) | _ \<Rightarrow> Panic ''va_arg'')
      else if c = 120 then
        (case ap of Va_word w # ap \<Rightarrow> kbind (printint (ucast w) 16 True s) (\<lambda>_ s. Ok ap s) | _ \<Rightarrow> Panic ''va_arg'')
      else if c = 112 then
        (case ap of Va_word w # ap \<Rightarrow> kbind (printptr w s) (\<lambda>_ s. Ok ap s) | _ \<Rightarrow> Panic ''va_arg'')
      else if c = 115 then
        (case ap of Va_str p # ap \<Rightarrow>
           kbind (consputs (case p of None \<Rightarrow> cbytes ''(null)'' | Some t \<Rightarrow> cstr t) s) (\<lambda>_ s. Ok ap s)
         | _ \<Rightarrow> Panic ''va_arg'')
      else if c = 37 then kbind (consputc 37 s) (\<lambda>_ s. Ok ap s)
      else kbind (consputc 37 s) (\<lambda>_ s. kbind (consputc (ucast c) s) (\<lambda>_ s. Ok ap s)))"

fun printf_loop :: "u8 list \<Rightarrow> va_arg list \<Rightarrow> 'z cons_state_scheme \<Rightarrow> (unit, 'z cons_state_scheme) res" where
  "printf_loop [] ap s = Ok () s"
| "printf_loop [c] ap s = (if c = 0 \<or> c = 37 then Ok () s else consputc (ucast c) s)"
| "printf_loop (c # d # fmt) ap s =
     (if c = 0 then Ok () s
      else if c \<noteq> 37 then kbind (consputc (ucast c) s) (\<lambda>_ s. printf_loop (d # fmt) ap s)
      else if d = 0 then Ok () s
      else kbind (printf_conv d ap s) (\<lambda>ap s. printf_loop fmt ap s))"

definition printf :: "u8 list option \<Rightarrow> va_arg list \<Rightarrow> 'z cons_state_scheme \<Rightarrow> (unit, 'z cons_state_scheme) res" where
  "printf fmt ap s =
     (let locking = pr_locking s in
      kbind (if locking then acquire Pr_lock s else Ok () s) (\<lambda>_ s.
      case fmt of None \<Rightarrow> Panic ''null fmt''
      | Some f \<Rightarrow>
        kbind (printf_loop f ap s) (\<lambda>_ s.
        if locking then release Pr_lock s else Ok () s)))"

definition printfinit :: "'z cons_state_scheme \<Rightarrow> (unit, 'z cons_state_scheme) res" where
  "printfinit s = Ok () (s\<lparr>pr_locking := True\<rparr>)"

text \<open>\<^verbatim>\<open>panic\<close> up to its endless loop: what it prints, and the flag that freezes the output of the other harts.\<close>

definition panic_print :: "u8 list \<Rightarrow> 'z cons_state_scheme \<Rightarrow> (unit, 'z cons_state_scheme) res" where
  "panic_print msg s =
     (let s = s\<lparr>pr_locking := False\<rparr> in
      kbind (printf (Some (cbytes ''panic: '')) [] s) (\<lambda>_ s.
      kbind (printf (Some msg) [] s) (\<lambda>_ s.
      kbind (printf (Some [10]) [] s) (\<lambda>_ s.
      Ok () (s\<lparr>panicked := True\<rparr>)))))"

text \<open>\<^verbatim>\<open>procdump\<close>; the table of state names has no entry for \<^term>\<open>USED\<close>.\<close>

fun state_name :: "procstate \<Rightarrow> u8 list" where
  "state_name UNUSED = cbytes ''unused''"
| "state_name USED = cbytes ''???''"
| "state_name SLEEPING = cbytes ''sleep ''"
| "state_name RUNNABLE = cbytes ''runble''"
| "state_name RUNNING = cbytes ''run   ''"
| "state_name ZOMBIE = cbytes ''zombie''"

definition procdump :: "'z cons_state_scheme \<Rightarrow> (unit, 'z cons_state_scheme) res" where
  "procdump s =
     kbind (printf (Some [10]) [] s) (\<lambda>_ s.
     kfor 0 NPROC (\<lambda>p s.
       if p_state (pr s p) = UNUSED then Ok () s
       else
         kbind (printf (Some (cbytes ''%d %s %s''))
           [Va_word (scast (p_pid (pr s p))), Va_str (Some (state_name (p_state (pr s p)))), Va_str (Some (p_name (pr s p)))] s) (\<lambda>_ s.
         printf (Some [10]) [] s)) s)"

section \<open>The console device\<close>

definition consolewrite :: "bool \<Rightarrow> u64 \<Rightarrow> u8 list \<Rightarrow> i32 \<Rightarrow> 'z cons_state_scheme \<Rightarrow> (int, 'z cons_state_scheme) res" where
  "consolewrite user_src src ksrc n s =
     kbind (kscan 0 (nat (sint n)) (\<lambda>i s.
       kbind (either_copyin user_src (src + of_nat i) (drop i ksrc) 1 s) (\<lambda>(r, c) s.
       if r = -1 then Ok (Some (int i)) s
       else kbind (uartputc (ucast (hd c)) s) (\<lambda>_ s. Ok None s))) s) (\<lambda>r s.
     case r of Some i \<Rightarrow> Ok i s | None \<Rightarrow> Ok (max 0 (sint n)) s)"

text \<open>
  The loop of \<^verbatim>\<open>consoleread\<close> with \<^verbatim>\<open>n\<close> bytes to go of \<^verbatim>\<open>target\<close>; it returns what is left of \<^verbatim>\<open>n\<close>, or nothing when the process
  was killed, and the bytes stored at a kernel destination.
\<close>

fun consoleread_loop ::
  "bool \<Rightarrow> u64 \<Rightarrow> nat \<Rightarrow> nat \<Rightarrow> 'z cons_state_scheme \<Rightarrow> (nat option \<times> u8 list, 'z cons_state_scheme) res" where
  "consoleread_loop user_dst dst 0 target s = Ok (Some 0, []) s"
| "consoleread_loop user_dst dst (Suc n) target s =
     (if cons_r s = cons_w s then
        with_proc s (\<lambda>p.
        if p_killed (pr s p) \<noteq> 0 then Ok (None, []) s
        else sleep Ch_cons_r Cons_lock s)
      else
        let c = cons_buf s ! (unat (cons_r s) mod INPUT_BUF); s = s\<lparr>cons_r := cons_r s + 1\<rparr> in
        if c = 4 then
          Ok (Some (Suc n), []) (if Suc n < target then s\<lparr>cons_r := cons_r s - 1\<rparr> else s)
        else
          kbind (either_copyout user_dst dst [c] 1 s) (\<lambda>(r, out) s.
          if r = -1 then Ok (Some (Suc n), []) s
          else if c = 10 then Ok (Some n, out) s
          else kbind (consoleread_loop user_dst (dst + 1) n target s) (\<lambda>(r, rest) s. Ok (r, out @ rest) s)))"

definition consoleread :: "bool \<Rightarrow> u64 \<Rightarrow> i32 \<Rightarrow> 'z cons_state_scheme \<Rightarrow> (int \<times> u8 list, 'z cons_state_scheme) res" where
  "consoleread user_dst dst n s =
     kbind (acquire Cons_lock s) (\<lambda>_ s.
     kbind (if sint n > 0 then
              kbind (consoleread_loop user_dst dst (nat (sint n)) (nat (sint n)) s) (\<lambda>(r, out) s.
              Ok (case r of None \<Rightarrow> -1 | Some left \<Rightarrow> sint n - int left, out) s)
            else Ok (0, []) s) (\<lambda>(r, out) s.
     kbind (release Cons_lock s) (\<lambda>_ s. Ok (r, out) s)))"

text \<open>\<^verbatim>\<open>C('U')\<close> erases back to the last committed character or newline; there are \<^verbatim>\<open>cons_e - cons_w\<close> characters to erase.\<close>

fun kill_line :: "nat \<Rightarrow> 'z cons_state_scheme \<Rightarrow> (unit, 'z cons_state_scheme) res" where
  "kill_line 0 s = Ok () s"
| "kill_line (Suc k) s =
     (if cons_buf s ! (unat (cons_e s - 1) mod INPUT_BUF) \<noteq> 10 then
        kbind (consputc BACKSPACE (s\<lparr>cons_e := cons_e s - 1\<rparr>)) (\<lambda>_ s. kill_line k s)
      else Ok () s)"

definition consoleintr_char :: "i32 \<Rightarrow> 'z cons_state_scheme \<Rightarrow> (unit, 'z cons_state_scheme) res" where
  "consoleintr_char c s =
     (if c \<noteq> 0 \<and> cons_e s - cons_r s < of_nat INPUT_BUF then
        let c = (if c = 13 then 10 else c) in
        kbind (consputc c s) (\<lambda>_ s.
        let s = s\<lparr>cons_buf := (cons_buf s)[unat (cons_e s) mod INPUT_BUF := ucast c], cons_e := cons_e s + 1\<rparr> in
        if c = 10 \<or> c = 4 \<or> cons_e s = cons_r s + of_nat INPUT_BUF
        then wakeup Ch_cons_r (s\<lparr>cons_w := cons_e s\<rparr>)
        else Ok () s)
      else Ok () s)"

definition consoleintr :: "i32 \<Rightarrow> 'z cons_state_scheme \<Rightarrow> (unit, 'z cons_state_scheme) res" where
  "consoleintr c s =
     kbind (acquire Cons_lock s) (\<lambda>_ s.
     kbind (if c = 0x10 then procdump s
            else if c = 0x15 then kill_line (unat (cons_e s - cons_w s)) s
            else if c = 8 \<or> c = 0x7f then
              (if cons_e s \<noteq> cons_w s then consputc BACKSPACE (s\<lparr>cons_e := cons_e s - 1\<rparr>) else Ok () s)
            else consoleintr_char c s) (\<lambda>_ s.
     release Cons_lock s))"

text \<open>The interrupt handler takes the bytes that are waiting in the receiver.\<close>

fun uartintr_loop :: "nat \<Rightarrow> 'z cons_state_scheme \<Rightarrow> (unit, 'z cons_state_scheme) res" where
  "uartintr_loop 0 s = Ok () s"
| "uartintr_loop (Suc k) s =
     kbind (uartgetc s) (\<lambda>c s.
     if c = -1 then Ok () s
     else kbind (consoleintr (word_of_int c) s) (\<lambda>_ s. uartintr_loop k s))"

definition uartintr :: "'z cons_state_scheme \<Rightarrow> (unit, 'z cons_state_scheme) res" where
  "uartintr s =
     kbind (uartintr_loop (Suc (length (uart_rx s))) s) (\<lambda>_ s.
     kbind (acquire Uart_tx_lock s) (\<lambda>_ s.
     kbind (uartstart s) (\<lambda>_ s.
     release Uart_tx_lock s)))"

definition consoleinit :: "'z cons_state_scheme \<Rightarrow> (unit, 'z cons_state_scheme) res" where
  "consoleinit s =
     kbind (uartinit s) (\<lambda>_ s.
     Ok () (s\<lparr>devsw := (devsw s)[CONSOLE := \<lparr>dev_read = Some Dev_console, dev_write = Some Dev_console\<rparr>]\<rparr>))"

end
