(* ===== verification/File.thy ===== *)
theory File
  imports Console
begin

text \<open>
  Pipes and open files (\<^verbatim>\<open>kernel/pipe.c\<close>, \<^verbatim>\<open>kernel/file.c\<close>). An open file is an index into \<^verbatim>\<open>ftable\<close>. The \<^verbatim>\<open>struct pipe\<close> in the
  page at address \<^verbatim>\<open>a\<close> is \<^verbatim>\<open>pipes s a\<close>; its lock is \<^term>\<open>Pipe_lock a\<close>.
\<close>

section \<open>State\<close>

definition PIPESIZE :: nat where "PIPESIZE = 512"

record pipe =
  pi_data :: "u8 list"
  pi_nread :: u32
  pi_nwrite :: u32
  pi_readopen :: bool
  pi_writeopen :: bool

datatype ftype = FD_NONE | FD_PIPE | FD_INODE | FD_DEVICE

record file_st =
  f_type :: ftype
  f_ref :: i32
  f_readable :: bool
  f_writable :: bool
  f_pipe :: addr
  f_ip :: nat
  f_off :: u32
  f_major :: u16

text \<open>
  \<^verbatim>\<open>st_padding\<close> are the four bytes of padding in the \<^verbatim>\<open>struct stat\<close> that \<^verbatim>\<open>filestat\<close> keeps on the kernel stack and does not
  initialise, \<^verbatim>\<open>status_high\<close> is the upper half of the pointer variable \<^verbatim>\<open>status\<close> of \<^verbatim>\<open>sys_wait_stat\<close>, which it does not initialise
  either; \<^verbatim>\<open>forkret_first\<close> is the static variable of \<^verbatim>\<open>forkret\<close>.
\<close>

record file_state = cons_state +
  ftable :: "file_st list"
  pipes :: "addr \<Rightarrow> pipe"
  st_padding :: "u8 list"
  status_high :: u32
  forkret_first :: bool

abbreviation fl :: "'z file_state_scheme \<Rightarrow> nat \<Rightarrow> file_st" where
  "fl s f \<equiv> ftable s ! f"

definition upd_file :: "nat \<Rightarrow> (file_st \<Rightarrow> file_st) \<Rightarrow> 'z file_state_scheme \<Rightarrow> 'z file_state_scheme" where
  "upd_file f g s = s\<lparr>ftable := (ftable s)[f := g (ftable s ! f)]\<rparr>"

definition upd_pipe :: "addr \<Rightarrow> (pipe \<Rightarrow> pipe) \<Rightarrow> 'z file_state_scheme \<Rightarrow> 'z file_state_scheme" where
  "upd_pipe a g s = s\<lparr>pipes := (pipes s)(a := g (pipes s a))\<rparr>"

section \<open>Allocation and sharing of open files\<close>

definition filealloc :: "'z file_state_scheme \<Rightarrow> (nat option, 'z file_state_scheme) res" where
  "filealloc s =
     kbind (acquire Ftable_lock s) (\<lambda>_ s.
     kbind (kscan 0 NFILE (\<lambda>f s.
       if f_ref (fl s f) = 0 then Ok (Some f) (upd_file f (\<lambda>x. x\<lparr>f_ref := 1\<rparr>) s) else Ok None s) s) (\<lambda>r s.
     kbind (release Ftable_lock s) (\<lambda>_ s. Ok r s)))"

definition filedup :: "nat \<Rightarrow> 'z file_state_scheme \<Rightarrow> (nat, 'z file_state_scheme) res" where
  "filedup f s =
     kbind (acquire Ftable_lock s) (\<lambda>_ s.
     if sint (f_ref (fl s f)) < 1 then Panic ''filedup''
     else
       let s = upd_file f (\<lambda>x. x\<lparr>f_ref := f_ref x + 1\<rparr>) s in
       kbind (release Ftable_lock s) (\<lambda>_ s. Ok f s))"

definition pipeclose :: "addr \<Rightarrow> bool \<Rightarrow> 'z file_state_scheme \<Rightarrow> (unit, 'z file_state_scheme) res" where
  "pipeclose pi writable s =
     kbind (acquire (Pipe_lock pi) s) (\<lambda>_ s.
     kbind (if writable then wakeup (Ch_pipe_nread pi) (upd_pipe pi (\<lambda>x. x\<lparr>pi_writeopen := False\<rparr>) s)
            else wakeup (Ch_pipe_nwrite pi) (upd_pipe pi (\<lambda>x. x\<lparr>pi_readopen := False\<rparr>) s)) (\<lambda>_ s.
     if \<not> pi_readopen (pipes s pi) \<and> \<not> pi_writeopen (pipes s pi) then
       kbind (release (Pipe_lock pi) s) (\<lambda>_ s. kfree pi s)
     else release (Pipe_lock pi) s))"

definition fileclose :: "nat \<Rightarrow> 'z file_state_scheme \<Rightarrow> (unit, 'z file_state_scheme) res" where
  "fileclose f s =
     kbind (acquire Ftable_lock s) (\<lambda>_ s.
     if sint (f_ref (fl s f)) < 1 then Panic ''fileclose''
     else
       let s = upd_file f (\<lambda>x. x\<lparr>f_ref := f_ref x - 1\<rparr>) s in
       if sint (f_ref (fl s f)) > 0 then release Ftable_lock s
       else
         let ff = fl s f; s = upd_file f (\<lambda>x. x\<lparr>f_ref := 0, f_type := FD_NONE\<rparr>) s in
         kbind (release Ftable_lock s) (\<lambda>_ s.
         if f_type ff = FD_PIPE then pipeclose (f_pipe ff) (f_writable ff) s
         else if f_type ff = FD_INODE \<or> f_type ff = FD_DEVICE then
           kbind (begin_op s) (\<lambda>_ s.
           kbind (iput (f_ip ff) s) (\<lambda>_ s.
           end_op s))
         else Ok () s))"

section \<open>Pipes\<close>

definition pipe_bad :: "nat option \<Rightarrow> nat option \<Rightarrow> 'z file_state_scheme \<Rightarrow> ((nat \<times> nat) option, 'z file_state_scheme) res" where
  "pipe_bad f0 f1 s =
     kbind (case f0 of Some f \<Rightarrow> fileclose f s | None \<Rightarrow> Ok () s) (\<lambda>_ s.
     kbind (case f1 of Some f \<Rightarrow> fileclose f s | None \<Rightarrow> Ok () s) (\<lambda>_ s.
     Ok None s))"

text \<open>\<^verbatim>\<open>pipealloc\<close> returns the two files, or nothing where the C code returns -1.\<close>

definition pipealloc :: "'z file_state_scheme \<Rightarrow> ((nat \<times> nat) option, 'z file_state_scheme) res" where
  "pipealloc s =
     kbind (filealloc s) (\<lambda>f0 s.
     case f0 of None \<Rightarrow> pipe_bad None None s
     | Some rfile \<Rightarrow>
       kbind (filealloc s) (\<lambda>f1 s.
       case f1 of None \<Rightarrow> pipe_bad f0 None s
       | Some wfile \<Rightarrow>
         kbind (kalloc s) (\<lambda>pi s.
         if pi = 0 then pipe_bad f0 f1 s
         else
           let s = s\<lparr>pipes := (pipes s)(pi := \<lparr>pi_data = load_bytes (mem s) (pi + 24) PIPESIZE, pi_nread = 0, pi_nwrite = 0,
                 pi_readopen = True, pi_writeopen = True\<rparr>)\<rparr>;
               s = upd_file rfile (\<lambda>x. x\<lparr>f_type := FD_PIPE, f_readable := True, f_writable := False, f_pipe := pi\<rparr>) s;
               s = upd_file wfile (\<lambda>x. x\<lparr>f_type := FD_PIPE, f_readable := False, f_writable := True, f_pipe := pi\<rparr>) s in
           Ok (Some (rfile, wfile)) s)))"

text \<open>
  The loop of \<^verbatim>\<open>pipewrite\<close> with \<^verbatim>\<open>k\<close> bytes to go; nothing is returned when the read end is closed or the process was killed.
\<close>

fun pipewrite_loop :: "nat \<Rightarrow> addr \<Rightarrow> u64 \<Rightarrow> nat \<Rightarrow> nat \<Rightarrow> 'z file_state_scheme \<Rightarrow> (nat option, 'z file_state_scheme) res" where
  "pipewrite_loop p pi uaddr i 0 s = Ok (Some i) s"
| "pipewrite_loop p pi uaddr i (Suc k) s =
     (if \<not> pi_readopen (pipes s pi) \<or> p_killed (pr s p) \<noteq> 0 then Ok None s
      else if pi_nwrite (pipes s pi) = pi_nread (pipes s pi) + of_nat PIPESIZE then
        kbind (wakeup (Ch_pipe_nread pi) s) (\<lambda>_ s.
        sleep (Ch_pipe_nwrite pi) (Pipe_lock pi) s)
      else
        kbind (copyin (p_pagetable (pr s p)) (uaddr + of_nat i) 1 s) (\<lambda>(r, ch) s.
        if r = -1 then Ok (Some i) s
        else
          let s = upd_pipe pi (\<lambda>x. x\<lparr>pi_data := (pi_data x)[unat (pi_nwrite x) mod PIPESIZE := hd ch],
                pi_nwrite := pi_nwrite x + 1\<rparr>) s in
          pipewrite_loop p pi uaddr (Suc i) k s))"

definition pipewrite :: "addr \<Rightarrow> u64 \<Rightarrow> i32 \<Rightarrow> 'z file_state_scheme \<Rightarrow> (int, 'z file_state_scheme) res" where
  "pipewrite pi uaddr n s = with_proc s (\<lambda>p.
     kbind (acquire (Pipe_lock pi) s) (\<lambda>_ s.
     kbind (pipewrite_loop p pi uaddr 0 (nat (sint n)) s) (\<lambda>r s.
     case r of None \<Rightarrow> kbind (release (Pipe_lock pi) s) (\<lambda>_ s. Ok (-1) s)
     | Some i \<Rightarrow>
       kbind (wakeup (Ch_pipe_nread pi) s) (\<lambda>_ s.
       kbind (release (Pipe_lock pi) s) (\<lambda>_ s. Ok (int i) s)))))"

fun piperead_loop :: "nat \<Rightarrow> addr \<Rightarrow> u64 \<Rightarrow> nat \<Rightarrow> nat \<Rightarrow> 'z file_state_scheme \<Rightarrow> (nat, 'z file_state_scheme) res" where
  "piperead_loop p pi uaddr i 0 s = Ok i s"
| "piperead_loop p pi uaddr i (Suc k) s =
     (if pi_nread (pipes s pi) = pi_nwrite (pipes s pi) then Ok i s
      else
        let ch = pi_data (pipes s pi) ! (unat (pi_nread (pipes s pi)) mod PIPESIZE);
            s = upd_pipe pi (\<lambda>x. x\<lparr>pi_nread := pi_nread x + 1\<rparr>) s in
        kbind (copyout (p_pagetable (pr s p)) (uaddr + of_nat i) [ch] 1 s) (\<lambda>r s.
        if r = -1 then Ok i s else piperead_loop p pi uaddr (Suc i) k s))"

definition piperead :: "addr \<Rightarrow> u64 \<Rightarrow> i32 \<Rightarrow> 'z file_state_scheme \<Rightarrow> (int, 'z file_state_scheme) res" where
  "piperead pi uaddr n s = with_proc s (\<lambda>p.
     kbind (acquire (Pipe_lock pi) s) (\<lambda>_ s.
     if pi_nread (pipes s pi) = pi_nwrite (pipes s pi) \<and> pi_writeopen (pipes s pi) then
       if p_killed (pr s p) \<noteq> 0 then kbind (release (Pipe_lock pi) s) (\<lambda>_ s. Ok (-1) s)
       else sleep (Ch_pipe_nread pi) (Pipe_lock pi) s
     else
       kbind (piperead_loop p pi uaddr 0 (nat (sint n)) s) (\<lambda>i s.
       kbind (wakeup (Ch_pipe_nwrite pi) s) (\<lambda>_ s.
       kbind (release (Pipe_lock pi) s) (\<lambda>_ s. Ok (int i) s)))))"

section \<open>Operations on open files\<close>

text \<open>A \<^verbatim>\<open>struct stat\<close> in memory: 12 bytes of fields, 4 of padding, and the size.\<close>

definition stat_bytes :: "stat \<Rightarrow> u8 list \<Rightarrow> u8 list" where
  "stat_bytes st pad = to_le 4 (st_dev st) @ to_le 4 (st_ino st) @ to_le 2 (st_type st) @ to_le 2 (st_nlink st) @ pad @ to_le 8 (st_size st)"

definition filestat :: "nat \<Rightarrow> u64 \<Rightarrow> 'z file_state_scheme \<Rightarrow> (int, 'z file_state_scheme) res" where
  "filestat f uaddr s = with_proc s (\<lambda>p.
     if f_type (fl s f) = FD_INODE \<or> f_type (fl s f) = FD_DEVICE then
       kbind (ilock (f_ip (fl s f)) s) (\<lambda>_ s.
       let st = stati (f_ip (fl s f)) s in
       kbind (iunlock (f_ip (fl s f)) s) (\<lambda>_ s.
       kbind (copyout (p_pagetable (pr s p)) uaddr (stat_bytes st (st_padding s)) 24 s) (\<lambda>r s.
       Ok (if r < 0 then -1 else 0) s)))
     else Ok (-1) s)"

definition fileread :: "nat \<Rightarrow> u64 \<Rightarrow> i32 \<Rightarrow> 'z file_state_scheme \<Rightarrow> (int, 'z file_state_scheme) res" where
  "fileread f uaddr n s =
     (if \<not> f_readable (fl s f) then Ok (-1) s
      else case f_type (fl s f) of
        FD_PIPE \<Rightarrow> piperead (f_pipe (fl s f)) uaddr n s
      | FD_DEVICE \<Rightarrow>
          let major = sint (f_major (fl s f)) in
          if major < 0 \<or> major \<ge> int NDEV then Ok (-1) s
          else (case dev_read (devsw s ! nat major) of
              None \<Rightarrow> Ok (-1) s
            | Some Dev_console \<Rightarrow> kbind (consoleread True uaddr n s) (\<lambda>(r, _) s. Ok r s))
      | FD_INODE \<Rightarrow>
          kbind (ilock (f_ip (fl s f)) s) (\<lambda>_ s.
          kbind (readi (f_ip (fl s f)) True uaddr (f_off (fl s f)) n s) (\<lambda>(r, _) s.
          let s = (if r > 0 then upd_file f (\<lambda>x. x\<lparr>f_off := f_off x + word_of_int r\<rparr>) s else s) in
          kbind (iunlock (f_ip (fl s f)) s) (\<lambda>_ s. Ok r s)))
      | FD_NONE \<Rightarrow> Panic ''fileread'')"

text \<open>
  The loop of \<^verbatim>\<open>filewrite\<close> on an inode: chunks of at most \<^verbatim>\<open>max_chunk\<close> bytes, each in a transaction of its own. It
  returns \<^verbatim>\<open>i\<close>.
\<close>

definition max_chunk :: nat where
  "max_chunk = ((MAXOPBLOCKS - 1 - 1 - 2) div 2) * BSIZE"

function filewrite_loop :: "nat \<Rightarrow> u64 \<Rightarrow> nat \<Rightarrow> nat \<Rightarrow> 'z file_state_scheme \<Rightarrow> (nat, 'z file_state_scheme) res" where
  "filewrite_loop f uaddr i n s =
     (if i < n then
        let n1 = min (n - i) max_chunk in
        kbind (begin_op s) (\<lambda>_ s.
        kbind (ilock (f_ip (fl s f)) s) (\<lambda>_ s.
        kbind (writei (f_ip (fl s f)) True (uaddr + of_nat i) [] (f_off (fl s f)) (of_nat n1) s) (\<lambda>r s.
        let s = (if r > 0 then upd_file f (\<lambda>x. x\<lparr>f_off := f_off x + word_of_int r\<rparr>) s else s) in
        kbind (iunlock (f_ip (fl s f)) s) (\<lambda>_ s.
        kbind (end_op s) (\<lambda>_ s.
        if r \<noteq> int n1 then Ok i s else filewrite_loop f uaddr (i + n1) n s)))))
      else Ok i s)"
  by pat_completeness auto
termination
  by (relation "measure (\<lambda>(f, uaddr, i, n, s). n - i)") (simp_all add: max_chunk_def param_defs BSIZE_def)

declare filewrite_loop.simps [simp del]

definition filewrite :: "nat \<Rightarrow> u64 \<Rightarrow> i32 \<Rightarrow> 'z file_state_scheme \<Rightarrow> (int, 'z file_state_scheme) res" where
  "filewrite f uaddr n s =
     (if \<not> f_writable (fl s f) then Ok (-1) s
      else case f_type (fl s f) of
        FD_PIPE \<Rightarrow> pipewrite (f_pipe (fl s f)) uaddr n s
      | FD_DEVICE \<Rightarrow>
          let major = sint (f_major (fl s f)) in
          if major < 0 \<or> major \<ge> int NDEV then Ok (-1) s
          else (case dev_write (devsw s ! nat major) of
              None \<Rightarrow> Ok (-1) s
            | Some Dev_console \<Rightarrow> consolewrite True uaddr [] n s)
      | FD_INODE \<Rightarrow>
          kbind (filewrite_loop f uaddr 0 (nat (sint n)) s) (\<lambda>i s.
          Ok (if int i = sint n then sint n else -1) s)
      | FD_NONE \<Rightarrow> Panic ''filewrite'')"

end
