(* ===== verification/Proc_Files.thy ===== *)
theory Proc_Files
  imports File
begin

text \<open>
  The operations of \<^verbatim>\<open>kernel/proc.c\<close> that reach into the file system: the first process, \<^verbatim>\<open>fork\<close> and \<^verbatim>\<open>exit\<close>. Offsets into the
  trap frame are those of \<^verbatim>\<open>struct trapframe\<close>.
\<close>

definition TF_epc :: u64 where "TF_epc = 24"
definition TF_sp :: u64 where "TF_sp = 48"
definition TF_a0 :: u64 where "TF_a0 = 112"
definition TF_a1 :: u64 where "TF_a1 = 120"
definition TF_a7 :: u64 where "TF_a7 = 168"
definition TF_size :: nat where "TF_size = 288"

definition tf_get :: "nat \<Rightarrow> u64 \<Rightarrow> 'z proc_state_scheme \<Rightarrow> u64" where
  "tf_get p off s = load64 (mem s) (p_trapframe (pr s p) + off)"

definition tf_set :: "nat \<Rightarrow> u64 \<Rightarrow> u64 \<Rightarrow> 'z proc_state_scheme \<Rightarrow> 'z proc_state_scheme" where
  "tf_set p off v s = s\<lparr>mem := store64 (mem s) (p_trapframe (pr s p) + off) v\<rparr>"

section \<open>The first process\<close>

definition initcode :: "u8 list" where
  "initcode = [0x17, 0x05, 0x00, 0x00, 0x13, 0x05, 0x45, 0x02,
     0x97, 0x05, 0x00, 0x00, 0x93, 0x85, 0x35, 0x02,
     0x93, 0x08, 0x70, 0x00, 0x73, 0x00, 0x00, 0x00,
     0x93, 0x08, 0x20, 0x00, 0x73, 0x00, 0x00, 0x00,
     0xef, 0xf0, 0x9f, 0xff, 0x2f, 0x69, 0x6e, 0x69,
     0x74, 0x00, 0x00, 0x24, 0x00, 0x00, 0x00, 0x00,
     0x00, 0x00, 0x00, 0x00]"

definition userinit :: "'z file_state_scheme \<Rightarrow> (unit, 'z file_state_scheme) res" where
  "userinit s =
     kbind (allocproc s) (\<lambda>r s.
     let s = s\<lparr>initproc := r\<rparr> in
     case r of None \<Rightarrow> Panic ''kerneltrap''
     | Some p \<Rightarrow>
       kbind (uvminit (p_pagetable (pr s p)) initcode (of_nat (length initcode)) s) (\<lambda>_ s.
       let s = upd_proc p (\<lambda>x. x\<lparr>p_sz := PGSIZE\<rparr>) s;
           s = tf_set p TF_epc 0 s;
           s = tf_set p TF_sp PGSIZE s;
           s = upd_proc p (\<lambda>x. x\<lparr>p_name := safestrcpy (p_name x) (cbytes ''initcode'') 16\<rparr>) s in
       kbind (namei [47] s) (\<lambda>d s.
       let s = upd_proc p (\<lambda>x. x\<lparr>p_cwd := d\<rparr>) s in
       kbind (alloc_queue_counter s) (\<lambda>q s.
       release (Proc_lock p) (upd_proc p (\<lambda>x. x\<lparr>p_queue_location := q, p_state := RUNNABLE\<rparr>) s)))))"

section \<open>Creating and ending processes\<close>

text \<open>What \<^verbatim>\<open>fork\<close> does to the child once its memory has been copied, up to releasing its lock.\<close>

definition fork_child :: "nat \<Rightarrow> nat \<Rightarrow> 'z file_state_scheme \<Rightarrow> (unit, 'z file_state_scheme) res" where
  "fork_child p np s =
     (let s = upd_proc np (\<lambda>x. x\<lparr>p_sz := p_sz (pr s p)\<rparr>) s;
          s = s\<lparr>mem := store_bytes (mem s) (p_trapframe (pr s np)) (load_bytes (mem s) (p_trapframe (pr s p)) TF_size)\<rparr>;
          s = upd_proc np (\<lambda>x. x\<lparr>p_maskid := p_maskid (pr s p), p_priority := p_priority (pr s p)\<rparr>) s;
          s = tf_set np TF_a0 0 s in
      kbind (kfor 0 NOFILE (\<lambda>i s.
        case p_ofile (pr s p) ! i of None \<Rightarrow> Ok () s
        | Some f \<Rightarrow> kbind (filedup f s) (\<lambda>f s. Ok () (upd_proc np (\<lambda>x. x\<lparr>p_ofile := (p_ofile x)[i := Some f]\<rparr>) s))) s) (\<lambda>_ s.
      case p_cwd (pr s p) of None \<Rightarrow> Panic ''kerneltrap''
      | Some d \<Rightarrow>
        kbind (idup d s) (\<lambda>d s.
        Ok () (upd_proc np (\<lambda>x. x\<lparr>p_cwd := Some d, p_name := safestrcpy (p_name x) (p_name (pr s p)) 16\<rparr>) s))))"

definition fork :: "'z file_state_scheme \<Rightarrow> (int, 'z file_state_scheme) res" where
  "fork s = with_proc s (\<lambda>p.
     kbind (allocproc s) (\<lambda>r s.
     case r of None \<Rightarrow> Ok (-1) s
     | Some np \<Rightarrow>
       kbind (uvmcopy (p_pagetable (pr s p)) (p_pagetable (pr s np)) (p_sz (pr s p)) s) (\<lambda>r s.
       if r < 0 then
         kbind (freeproc np s) (\<lambda>_ s.
         kbind (release (Proc_lock np) s) (\<lambda>_ s. Ok (-1) s))
       else
         kbind (fork_child p np s) (\<lambda>_ s.
         let pid = p_pid (pr s np) in
         kbind (release (Proc_lock np) s) (\<lambda>_ s.
         kbind (acquire Wait_lock s) (\<lambda>_ s.
         let s = upd_proc np (\<lambda>x. x\<lparr>p_parent := Some p\<rparr>) s in
         kbind (release Wait_lock s) (\<lambda>_ s.
         kbind (acquire (Proc_lock np) s) (\<lambda>_ s.
         kbind (alloc_queue_counter s) (\<lambda>q s.
         let s = upd_proc np (\<lambda>x. x\<lparr>p_queue_location := q, p_state := RUNNABLE\<rparr>) s in
         kbind (release (Proc_lock np) s) (\<lambda>_ s. Ok (sint pid) s))))))))))"

definition exit_close :: "nat \<Rightarrow> 'z file_state_scheme \<Rightarrow> (unit, 'z file_state_scheme) res" where
  "exit_close p s =
     kbind (kfor 0 NOFILE (\<lambda>fd s.
       case p_ofile (pr s p) ! fd of None \<Rightarrow> Ok () s
       | Some f \<Rightarrow> kbind (fileclose f s) (\<lambda>_ s. Ok () (upd_proc p (\<lambda>x. x\<lparr>p_ofile := (p_ofile x)[fd := None]\<rparr>) s))) s) (\<lambda>_ s.
     kbind (begin_op s) (\<lambda>_ s.
     case p_cwd (pr s p) of None \<Rightarrow> Panic ''kerneltrap''
     | Some d \<Rightarrow>
       kbind (iput d s) (\<lambda>_ s.
       kbind (end_op s) (\<lambda>_ s.
       Ok () (upd_proc p (\<lambda>x. x\<lparr>p_cwd := None\<rparr>) s)))))"

text \<open>\<^verbatim>\<open>exit\<close> ends in \<^verbatim>\<open>sched\<close>, which does not come back to a zombie.\<close>

definition exit :: "i32 \<Rightarrow> 'z file_state_scheme \<Rightarrow> ('a, 'z file_state_scheme) res" where
  "exit status s = with_proc s (\<lambda>p.
     if Some p = initproc s then Panic ''init exiting''
     else
       kbind (exit_close p s) (\<lambda>_ s.
       kbind (acquire Wait_lock s) (\<lambda>_ s.
       kbind (reparent p s) (\<lambda>_ s.
       kbind (wakeup (case p_parent (pr s p) of Some q \<Rightarrow> Ch_proc q | None \<Rightarrow> Ch_none) s) (\<lambda>_ s.
       kbind (acquire (Proc_lock p) s) (\<lambda>_ s.
       let s = upd_proc p (\<lambda>x. x\<lparr>p_xstate := status, p_state := ZOMBIE\<rparr>) s in
       kbind (read_ticks s) (\<lambda>t s.
       let s = upd_proc p (\<lambda>x. x\<lparr>p_ttime := t\<rparr>) s in
       kbind (release Wait_lock s) (\<lambda>_ s.
       sched s))))))))"

end
