(* ===== verification/Sysproc.thy ===== *)
theory Sysproc
  imports Proc_Files
begin

text \<open>
  System call arguments (\<^verbatim>\<open>kernel/syscall.c\<close>) and the system calls about processes (\<^verbatim>\<open>kernel/sysproc.c\<close>). A system call
  returns a \<^verbatim>\<open>uint64\<close>, to which an \<^verbatim>\<open>int\<close> is sign-extended.
\<close>

section \<open>Arguments\<close>

text \<open>The value that a pointer argument receives is part of the result.\<close>

definition fetchaddr :: "u64 \<Rightarrow> 'z proc_state_scheme \<Rightarrow> (int \<times> u64, 'z proc_state_scheme) res" where
  "fetchaddr uaddr s = with_proc s (\<lambda>p.
     if uaddr \<ge> p_sz (pr s p) \<or> uaddr + 8 > p_sz (pr s p) then Ok (-1, 0) s
     else
       kbind (copyin (p_pagetable (pr s p)) uaddr 8 s) (\<lambda>(r, bs) s.
       if r \<noteq> 0 then Ok (-1, 0) s else Ok (0, from_le bs) s))"

definition fetchstr :: "u64 \<Rightarrow> u64 \<Rightarrow> 'z proc_state_scheme \<Rightarrow> (int \<times> u8 list, 'z proc_state_scheme) res" where
  "fetchstr uaddr mx s = with_proc s (\<lambda>p.
     kbind (copyinstr (p_pagetable (pr s p)) uaddr mx s) (\<lambda>(err, buf) s.
     if err < 0 then Ok (err, buf) s else Ok (int (strlen buf), buf) s))"

definition argraw :: "nat \<Rightarrow> 'z proc_state_scheme \<Rightarrow> (u64, 'z proc_state_scheme) res" where
  "argraw n s = with_proc s (\<lambda>p.
     if n \<le> 5 then Ok (tf_get p (TF_a0 + 8 * of_nat n) s) s else Panic ''argraw'')"

definition argint :: "nat \<Rightarrow> 'z proc_state_scheme \<Rightarrow> (i32, 'z proc_state_scheme) res" where
  "argint n s = kbind (argraw n s) (\<lambda>v s. Ok (ucast v) s)"

definition argaddr :: "nat \<Rightarrow> 'z proc_state_scheme \<Rightarrow> (u64, 'z proc_state_scheme) res" where
  "argaddr n s = argraw n s"

definition argstr :: "nat \<Rightarrow> nat \<Rightarrow> 'z proc_state_scheme \<Rightarrow> (int \<times> u8 list, 'z proc_state_scheme) res" where
  "argstr n mx s = kbind (argaddr n s) (\<lambda>a s. fetchstr a (of_nat mx) s)"

section \<open>Calls about processes\<close>

definition sys_exit :: "'z file_state_scheme \<Rightarrow> (u64, 'z file_state_scheme) res" where
  "sys_exit s = kbind (argint 0 s) (\<lambda>n s. exit n s)"

definition sys_getpid :: "'z file_state_scheme \<Rightarrow> (u64, 'z file_state_scheme) res" where
  "sys_getpid s = with_proc s (\<lambda>p. Ok (scast (p_pid (pr s p))) s)"

definition sys_fork :: "'z file_state_scheme \<Rightarrow> (u64, 'z file_state_scheme) res" where
  "sys_fork s = kbind (fork s) (\<lambda>r s. Ok (word_of_int r) s)"

definition sys_wait :: "'z file_state_scheme \<Rightarrow> (u64, 'z file_state_scheme) res" where
  "sys_wait s =
     kbind (argaddr 0 s) (\<lambda>a s.
     kbind (wait a s) (\<lambda>r s. Ok (word_of_int r) s))"

definition sys_sbrk :: "'z file_state_scheme \<Rightarrow> (u64, 'z file_state_scheme) res" where
  "sys_sbrk s =
     kbind (argint 0 s) (\<lambda>n s.
     with_proc s (\<lambda>p.
     let a = ucast (p_sz (pr s p)) :: i32 in
     kbind (growproc n s) (\<lambda>r s.
     if r < 0 then Ok (-1) s else Ok (scast a) s)))"

text \<open>
  The loop of \<^verbatim>\<open>sys_sleep\<close> from its test on; the comparison is unsigned. \<^verbatim>\<open>sleep_return\<close> comes between two rounds.
\<close>

definition sys_sleep_turn :: "u32 \<Rightarrow> i32 \<Rightarrow> 'z file_state_scheme \<Rightarrow> (u64, 'z file_state_scheme) res" where
  "sys_sleep_turn ticks0 n s =
     (if ticks s - ticks0 < n then
        with_proc s (\<lambda>p.
        if p_killed (pr s p) \<noteq> 0 then kbind (release Tickslock s) (\<lambda>_ s. Ok (-1) s)
        else sleep Ch_ticks Tickslock s)
      else kbind (release Tickslock s) (\<lambda>_ s. Ok 0 s))"

definition sys_sleep :: "'z file_state_scheme \<Rightarrow> (u64, 'z file_state_scheme) res" where
  "sys_sleep s =
     kbind (argint 0 s) (\<lambda>n s.
     kbind (acquire Tickslock s) (\<lambda>_ s.
     sys_sleep_turn (ticks s) n s))"

definition sys_kill :: "'z file_state_scheme \<Rightarrow> (u64, 'z file_state_scheme) res" where
  "sys_kill s =
     kbind (argint 0 s) (\<lambda>pid s.
     kbind (kill pid s) (\<lambda>r s. Ok (word_of_int r) s))"

definition sys_uptime :: "'z file_state_scheme \<Rightarrow> (u64, 'z file_state_scheme) res" where
  "sys_uptime s = kbind (read_ticks s) (\<lambda>t s. Ok (ucast t) s)"

definition sys_trace :: "'z file_state_scheme \<Rightarrow> (u64, 'z file_state_scheme) res" where
  "sys_trace s =
     kbind (argint 0 s) (\<lambda>maskid s.
     kbind (argint 1 s) (\<lambda>pid s.
     kbind (trace maskid pid s) (\<lambda>_ s. Ok 0 s)))"

text \<open>
  \<^verbatim>\<open>sys_wait_stat\<close> fetches the pointer \<^verbatim>\<open>status\<close> with \<^verbatim>\<open>argint\<close>, which stores four of its eight bytes. (\<^verbatim>\<open>argint\<close> and \<^verbatim>\<open>argaddr\<close>
  return 0, so its error messages are never printed.)
\<close>

definition sys_wait_stat :: "'z file_state_scheme \<Rightarrow> (u64, 'z file_state_scheme) res" where
  "sys_wait_stat s =
     kbind (argint 0 s) (\<lambda>lo s.
     let status = push_bit 32 (ucast (status_high s)) OR ucast lo in
     kbind (argaddr 1 s) (\<lambda>performance s.
     kbind (wait_stat status performance s) (\<lambda>r s. Ok (word_of_int r) s)))"

definition sys_set_priority :: "'z file_state_scheme \<Rightarrow> (u64, 'z file_state_scheme) res" where
  "sys_set_priority s =
     kbind (argint 0 s) (\<lambda>priority s.
     kbind (set_priority priority s) (\<lambda>_ s. Ok 0 s))"

end
