(* ===== verification/Exec.thy ===== *)
theory Exec
  imports Sysproc
begin

text \<open>
  Loading a program (\<^verbatim>\<open>kernel/exec.c\<close>, \<^verbatim>\<open>kernel/elf.h\<close>). The two ELF headers are read into byte arrays on the kernel stack; the
  argument strings lie in kernel pages, whose addresses are \<^verbatim>\<open>argv\<close>.
\<close>

section \<open>Headers\<close>

definition ELF_MAGIC :: u32 where "ELF_MAGIC = 0x464C457F"
definition ELF_PROG_LOAD :: u32 where "ELF_PROG_LOAD = 1"

definition get64 :: "u8 list \<Rightarrow> nat \<Rightarrow> u64" where
  "get64 bs off = from_le (take 8 (drop off bs))"

record elfhdr =
  elf_magic :: u32
  elf_entry :: u64
  elf_phoff :: u64
  elf_phnum :: u16

record proghdr =
  ph_type :: u32
  ph_off :: u64
  ph_vaddr :: u64
  ph_filesz :: u64
  ph_memsz :: u64

definition elfhdr_of :: "u8 list \<Rightarrow> elfhdr" where
  "elfhdr_of d = \<lparr>elf_magic = get32 d 0, elf_entry = get64 d 24, elf_phoff = get64 d 32, elf_phnum = get16 d 56\<rparr>"

definition proghdr_of :: "u8 list \<Rightarrow> proghdr" where
  "proghdr_of d = \<lparr>ph_type = get32 d 0, ph_off = get64 d 8, ph_vaddr = get64 d 16, ph_filesz = get64 d 32, ph_memsz = get64 d 40\<rparr>"

section \<open>Segments\<close>

text \<open>
  \<^verbatim>\<open>loadseg\<close> takes the offset and the size as \<^verbatim>\<open>uint\<close>. The pages of the new image are kernel destinations for \<^verbatim>\<open>readi\<close>.
  Its counter is a \<^verbatim>\<open>uint\<close> that grows by a page; a segment of more than \<^verbatim>\<open>2^32 - PGSIZE\<close> bytes is longer than any file, so
  that \<^verbatim>\<open>readi\<close> ends the loop before the counter could wrap.
\<close>

definition loadseg :: "addr \<Rightarrow> u64 \<Rightarrow> nat \<Rightarrow> u32 \<Rightarrow> u32 \<Rightarrow> 'z fs_state_scheme \<Rightarrow> (int, 'z fs_state_scheme) res" where
  "loadseg pagetable va ip offset sz s =
     (if va mod PGSIZE \<noteq> 0 then Panic ''loadseg: va must be page aligned''
      else
        kbind (kscan 0 ((unat sz + 4095) div 4096) (\<lambda>k s.
          let i = of_nat (4096 * k) :: u32 in
          kbind (walkaddr pagetable (va + ucast i) s) (\<lambda>pa s.
          if pa = 0 then Panic ''loadseg: address should exist''
          else
            let n = (if sz - i < 4096 then sz - i else 4096) in
            kbind (readi ip False pa (offset + i) n s) (\<lambda>(r, bs) s.
            let s = s\<lparr>mem := store_bytes (mem s) pa bs\<rparr> in
            if r \<noteq> sint n then Ok (Some ()) s else Ok None s))) s) (\<lambda>r s.
        Ok (case r of Some _ \<Rightarrow> -1 | None \<Rightarrow> 0) s))"

text \<open>
  The loop over the program headers. It returns the size of the image so far, and whether it left the loop with \<^verbatim>\<open>goto bad\<close>.
\<close>

fun load_segments :: "addr \<Rightarrow> nat \<Rightarrow> u32 \<Rightarrow> u64 \<Rightarrow> nat \<Rightarrow> 'z fs_state_scheme \<Rightarrow> (bool \<times> u64, 'z fs_state_scheme) res" where
  "load_segments pagetable ip off sz 0 s = Ok (True, sz) s"
| "load_segments pagetable ip off sz (Suc k) s =
     kbind (readi ip False 0 off 56 s) (\<lambda>(r, d) s.
     if r \<noteq> 56 then Ok (False, sz) s
     else
       let ph = proghdr_of d in
       if ph_type ph \<noteq> ELF_PROG_LOAD then load_segments pagetable ip (off + 56) sz k s
       else if ph_memsz ph < ph_filesz ph then Ok (False, sz) s
       else if ph_vaddr ph + ph_memsz ph < ph_vaddr ph then Ok (False, sz) s
       else
         kbind (uvmalloc pagetable sz (ph_vaddr ph + ph_memsz ph) s) (\<lambda>sz1 s.
         if sz1 = 0 then Ok (False, sz) s
         else if ph_vaddr ph mod PGSIZE \<noteq> 0 then Ok (False, sz1) s
         else
           kbind (loadseg pagetable (ph_vaddr ph) ip (ucast (ph_off ph)) (ucast (ph_filesz ph)) s) (\<lambda>r s.
           if r < 0 then Ok (False, sz1) s
           else load_segments pagetable ip (off + 56) sz1 k s)))"

section \<open>The stack\<close>

text \<open>A string in kernel memory, at most a page long.\<close>

definition kstring :: "memory \<Rightarrow> addr \<Rightarrow> u8 list" where
  "kstring m a = cstr (load_bytes m a 4096)"

text \<open>
  The loop that pushes the argument strings: the new stack pointer and the contents of \<^verbatim>\<open>ustack\<close>, or nothing on \<^verbatim>\<open>goto bad\<close>.
\<close>

fun push_args ::
  "addr \<Rightarrow> u64 \<Rightarrow> addr list \<Rightarrow> nat \<Rightarrow> u64 \<Rightarrow> 'z kalloc_state_scheme \<Rightarrow> ((u64 \<times> u64 list) option, 'z kalloc_state_scheme) res" where
  "push_args pagetable stackbase [] argc sp s = Ok (Some (sp, [])) s"
| "push_args pagetable stackbase (a # argv) argc sp s =
     (if argc \<ge> MAXARG then Ok None s
      else
        let str = kstring (mem s) a;
            sp = sp - of_nat (length str + 1);
            sp = sp - sp mod 16 in
        if sp < stackbase then Ok None s
        else
          kbind (copyout pagetable sp (str @ [0]) (of_nat (length str + 1)) s) (\<lambda>r s.
          if r < 0 then Ok None s
          else
            kbind (push_args pagetable stackbase argv (Suc argc) sp s) (\<lambda>r s.
            Ok (case r of None \<Rightarrow> None | Some (sp', us) \<Rightarrow> Some (sp', sp # us)) s)))"

text \<open>The last element of the path.\<close>

fun last_elem :: "u8 list \<Rightarrow> u8 list \<Rightarrow> u8 list" where
  "last_elem lst [] = lst"
| "last_elem lst (c # q) = (if c = 47 then last_elem q q else last_elem lst q)"

definition exec_bad :: "addr \<Rightarrow> u64 \<Rightarrow> nat option \<Rightarrow> 'z fs_state_scheme \<Rightarrow> (int, 'z fs_state_scheme) res" where
  "exec_bad pagetable sz ip s =
     kbind (if pagetable \<noteq> 0 then proc_freepagetable pagetable sz s else Ok () s) (\<lambda>_ s.
     kbind (case ip of None \<Rightarrow> Ok () s
            | Some i \<Rightarrow> kbind (iunlockput i s) (\<lambda>_ s. end_op s)) (\<lambda>_ s.
     Ok (-1) s))"

text \<open>The second half of \<^verbatim>\<open>exec\<close>: the stack, the arguments, and the switch to the new image.\<close>

definition exec_stack :: "nat \<Rightarrow> u8 list \<Rightarrow> addr list \<Rightarrow> addr \<Rightarrow> u64 \<Rightarrow> u64 \<Rightarrow> 'z fs_state_scheme \<Rightarrow> (int, 'z fs_state_scheme) res" where
  "exec_stack p path argv pagetable sz entry s =
     (let oldsz = p_sz (pr s p); sz = PGROUNDUP sz in
      kbind (uvmalloc pagetable sz (sz + 2 * PGSIZE) s) (\<lambda>sz1 s.
      if sz1 = 0 then exec_bad pagetable sz None s
      else
        kbind (uvmclear pagetable (sz1 - 2 * PGSIZE) s) (\<lambda>_ s.
        let stackbase = sz1 - PGSIZE in
        kbind (push_args pagetable stackbase argv 0 sz1 s) (\<lambda>r s.
        case r of None \<Rightarrow> exec_bad pagetable sz1 None s
        | Some (sp, ustack) \<Rightarrow>
          let argc = length ustack;
              sp = sp - of_nat ((argc + 1) * 8);
              sp = sp - sp mod 16 in
          if sp < stackbase then exec_bad pagetable sz1 None s
          else
            kbind (copyout pagetable sp (concat (map (to_le 8) (ustack @ [0]))) (of_nat ((argc + 1) * 8)) s) (\<lambda>r s.
            if r < 0 then exec_bad pagetable sz1 None s
            else
              let s = tf_set p TF_a1 sp s;
                  oldpagetable = p_pagetable (pr s p);
                  s = upd_proc p (\<lambda>x. x\<lparr>p_name := safestrcpy (p_name x) (last_elem path path) 16,
                        p_pagetable := pagetable, p_sz := sz1\<rparr>) s;
                  s = tf_set p TF_epc entry s;
                  s = tf_set p TF_sp sp s in
              kbind (proc_freepagetable oldpagetable oldsz s) (\<lambda>_ s.
              Ok (int argc) s))))))"

definition exec :: "u8 list \<Rightarrow> addr list \<Rightarrow> 'z fs_state_scheme \<Rightarrow> (int, 'z fs_state_scheme) res" where
  "exec path argv s = with_proc s (\<lambda>p.
     kbind (begin_op s) (\<lambda>_ s.
     kbind (namei path s) (\<lambda>r s.
     case r of None \<Rightarrow> kbind (end_op s) (\<lambda>_ s. Ok (-1) s)
     | Some ip \<Rightarrow>
       kbind (ilock ip s) (\<lambda>_ s.
       kbind (readi ip False 0 0 64 s) (\<lambda>(r, d) s.
       let elf = elfhdr_of d in
       if r \<noteq> 64 then exec_bad 0 0 (Some ip) s
       else if elf_magic elf \<noteq> ELF_MAGIC then exec_bad 0 0 (Some ip) s
       else
         kbind (proc_pagetable p s) (\<lambda>pagetable s.
         if pagetable = 0 then exec_bad 0 0 (Some ip) s
         else
           kbind (load_segments pagetable ip (ucast (elf_phoff elf)) 0 (unat (elf_phnum elf)) s) (\<lambda>(ok, sz) s.
           if \<not> ok then exec_bad pagetable sz (Some ip) s
           else
             kbind (iunlockput ip s) (\<lambda>_ s.
             kbind (end_op s) (\<lambda>_ s.
             exec_stack p path argv pagetable sz (elf_entry elf) s)))))))))"

end
