(* ===== verification/Sysfile.thy ===== *)
theory Sysfile
  imports Exec
begin

text \<open>
  The system calls on files (\<^verbatim>\<open>kernel/sysfile.c\<close>). Each \<^verbatim>\<open>goto bad\<close> is a definition of its own or is written out where it is
  taken.
\<close>

section \<open>Descriptors\<close>

text \<open>\<^verbatim>\<open>argfd\<close> returns the descriptor and the file, or nothing where the C code returns -1.\<close>

definition argfd :: "nat \<Rightarrow> 'z file_state_scheme \<Rightarrow> ((nat \<times> nat) option, 'z file_state_scheme) res" where
  "argfd n s =
     kbind (argint n s) (\<lambda>fd s.
     if sint fd < 0 \<or> sint fd \<ge> int NOFILE then Ok None s
     else with_proc s (\<lambda>p.
       case p_ofile (pr s p) ! nat (sint fd) of None \<Rightarrow> Ok None s | Some f \<Rightarrow> Ok (Some (nat (sint fd), f)) s))"

definition fdalloc :: "nat \<Rightarrow> 'z file_state_scheme \<Rightarrow> (int, 'z file_state_scheme) res" where
  "fdalloc f s = with_proc s (\<lambda>p.
     kbind (kscan 0 NOFILE (\<lambda>fd s.
       if p_ofile (pr s p) ! fd = None
       then Ok (Some fd) (upd_proc p (\<lambda>x. x\<lparr>p_ofile := (p_ofile x)[fd := Some f]\<rparr>) s)
       else Ok None s) s) (\<lambda>r s.
     Ok (case r of Some fd \<Rightarrow> int fd | None \<Rightarrow> -1) s))"

definition fdclear :: "nat \<Rightarrow> int \<Rightarrow> 'z file_state_scheme \<Rightarrow> 'z file_state_scheme" where
  "fdclear p fd s = upd_proc p (\<lambda>x. x\<lparr>p_ofile := (p_ofile x)[nat fd := None]\<rparr>) s"

definition sys_dup :: "'z file_state_scheme \<Rightarrow> (u64, 'z file_state_scheme) res" where
  "sys_dup s =
     kbind (argfd 0 s) (\<lambda>r s.
     case r of None \<Rightarrow> Ok (-1) s
     | Some (_, f) \<Rightarrow>
       kbind (fdalloc f s) (\<lambda>fd s.
       if fd < 0 then Ok (-1) s
       else kbind (filedup f s) (\<lambda>_ s. Ok (word_of_int fd) s)))"

definition sys_read :: "'z file_state_scheme \<Rightarrow> (u64, 'z file_state_scheme) res" where
  "sys_read s =
     kbind (argfd 0 s) (\<lambda>r s.
     case r of None \<Rightarrow> Ok (-1) s
     | Some (_, f) \<Rightarrow>
       kbind (argint 2 s) (\<lambda>n s.
       kbind (argaddr 1 s) (\<lambda>a s.
       kbind (fileread f a n s) (\<lambda>v s. Ok (word_of_int v) s))))"

definition sys_write :: "'z file_state_scheme \<Rightarrow> (u64, 'z file_state_scheme) res" where
  "sys_write s =
     kbind (argfd 0 s) (\<lambda>r s.
     case r of None \<Rightarrow> Ok (-1) s
     | Some (_, f) \<Rightarrow>
       kbind (argint 2 s) (\<lambda>n s.
       kbind (argaddr 1 s) (\<lambda>a s.
       kbind (filewrite f a n s) (\<lambda>v s. Ok (word_of_int v) s))))"

definition sys_close :: "'z file_state_scheme \<Rightarrow> (u64, 'z file_state_scheme) res" where
  "sys_close s =
     kbind (argfd 0 s) (\<lambda>r s.
     case r of None \<Rightarrow> Ok (-1) s
     | Some (fd, f) \<Rightarrow>
       with_proc s (\<lambda>p.
       kbind (fileclose f (fdclear p (int fd) s)) (\<lambda>_ s. Ok 0 s)))"

definition sys_fstat :: "'z file_state_scheme \<Rightarrow> (u64, 'z file_state_scheme) res" where
  "sys_fstat s =
     kbind (argfd 0 s) (\<lambda>r s.
     case r of None \<Rightarrow> Ok (-1) s
     | Some (_, f) \<Rightarrow>
       kbind (argaddr 1 s) (\<lambda>a s.
       kbind (filestat f a s) (\<lambda>v s. Ok (word_of_int v) s)))"

section \<open>Links\<close>

definition end_fail :: "'z log_state_scheme \<Rightarrow> (u64, 'z log_state_scheme) res" where
  "end_fail s = kbind (end_op s) (\<lambda>_ s. Ok (-1) s)"

definition put_fail :: "nat \<Rightarrow> 'z fs_state_scheme \<Rightarrow> (u64, 'z fs_state_scheme) res" where
  "put_fail ip s = kbind (iunlockput ip s) (\<lambda>_ s. end_fail s)"

definition link_bad :: "nat \<Rightarrow> 'z fs_state_scheme \<Rightarrow> (u64, 'z fs_state_scheme) res" where
  "link_bad ip s =
     kbind (ilock ip s) (\<lambda>_ s.
     kbind (iupdate ip (upd_inode ip (\<lambda>x. x\<lparr>i_nlink := i_nlink x - 1\<rparr>) s)) (\<lambda>_ s.
     put_fail ip s))"

definition link :: "u8 list \<Rightarrow> u8 list \<Rightarrow> 'z fs_state_scheme \<Rightarrow> (u64, 'z fs_state_scheme) res" where
  "link old new s =
     kbind (begin_op s) (\<lambda>_ s.
     kbind (namei old s) (\<lambda>r s.
     case r of None \<Rightarrow> end_fail s
     | Some ip \<Rightarrow>
       kbind (ilock ip s) (\<lambda>_ s.
       if i_type (ino s ip) = T_DIR then put_fail ip s
       else
         kbind (iupdate ip (upd_inode ip (\<lambda>x. x\<lparr>i_nlink := i_nlink x + 1\<rparr>) s)) (\<lambda>_ s.
         kbind (iunlock ip s) (\<lambda>_ s.
         kbind (nameiparent new s) (\<lambda>(r, name) s.
         case r of None \<Rightarrow> link_bad ip s
         | Some dp \<Rightarrow>
           kbind (ilock dp s) (\<lambda>_ s.
           kbind (if i_dev (ino s dp) \<noteq> i_dev (ino s ip) then Ok (-1) s else dirlink dp name (i_inum (ino s ip)) s) (\<lambda>r s.
           if r < 0 then kbind (iunlockput dp s) (\<lambda>_ s. link_bad ip s)
           else
             kbind (iunlockput dp s) (\<lambda>_ s.
             kbind (iput ip s) (\<lambda>_ s.
             kbind (end_op s) (\<lambda>_ s. Ok 0 s)))))))))))"

definition sys_link :: "'z file_state_scheme \<Rightarrow> (u64, 'z file_state_scheme) res" where
  "sys_link s =
     kbind (argstr 0 MAXPATH s) (\<lambda>(r, old) s.
     if r < 0 then Ok (-1) s
     else
       kbind (argstr 1 MAXPATH s) (\<lambda>(r, new) s.
       if r < 0 then Ok (-1) s else link (cstr old) (cstr new) s))"

definition isdirempty :: "nat \<Rightarrow> 'z fs_state_scheme \<Rightarrow> (bool, 'z fs_state_scheme) res" where
  "isdirempty dp s =
     kbind (kscan 2 (dir_entries dp s) (\<lambda>k s.
       kbind (readi dp False 0 (of_nat (16 * k)) 16 s) (\<lambda>(r, de) s.
       if r \<noteq> 16 then Panic ''isdirempty: readi''
       else if de_inum de \<noteq> 0 then Ok (Some ()) s else Ok None s)) s) (\<lambda>r s.
     Ok (r = None) s)"

definition unlink :: "u8 list \<Rightarrow> 'z fs_state_scheme \<Rightarrow> (u64, 'z fs_state_scheme) res" where
  "unlink path s =
     kbind (begin_op s) (\<lambda>_ s.
     kbind (nameiparent path s) (\<lambda>(r, name) s.
     case r of None \<Rightarrow> end_fail s
     | Some dp \<Rightarrow>
       kbind (ilock dp s) (\<lambda>_ s.
       if namecmp name (cbytes ''.'') = 0 \<or> namecmp name (cbytes ''..'') = 0 then put_fail dp s
       else
         kbind (dirlookup dp name s) (\<lambda>r s.
         case r of None \<Rightarrow> put_fail dp s
         | Some (ip, off) \<Rightarrow>
           kbind (ilock ip s) (\<lambda>_ s.
           if sint (i_nlink (ino s ip)) < 1 then Panic ''unlink: nlink < 1''
           else
             kbind (if i_type (ino s ip) = T_DIR then isdirempty ip s else Ok True s) (\<lambda>ok s.
             if \<not> ok then kbind (iunlockput ip s) (\<lambda>_ s. put_fail dp s)
             else
               kbind (writei dp False 0 (replicate 16 0) off 16 s) (\<lambda>w s.
               if w \<noteq> 16 then Panic ''unlink: writei''
               else
                 kbind (if i_type (ino s ip) = T_DIR
                        then iupdate dp (upd_inode dp (\<lambda>x. x\<lparr>i_nlink := i_nlink x - 1\<rparr>) s) else Ok () s) (\<lambda>_ s.
                 kbind (iunlockput dp s) (\<lambda>_ s.
                 kbind (iupdate ip (upd_inode ip (\<lambda>x. x\<lparr>i_nlink := i_nlink x - 1\<rparr>) s)) (\<lambda>_ s.
                 kbind (iunlockput ip s) (\<lambda>_ s.
                 kbind (end_op s) (\<lambda>_ s. Ok 0 s))))))))))))"

definition sys_unlink :: "'z file_state_scheme \<Rightarrow> (u64, 'z file_state_scheme) res" where
  "sys_unlink s =
     kbind (argstr 0 MAXPATH s) (\<lambda>(r, path) s.
     if r < 0 then Ok (-1) s else unlink (cstr path) s)"

section \<open>Creating and opening\<close>

text \<open>\<^verbatim>\<open>create\<close> once the parent directory is locked and has no entry of that name.\<close>

definition create_new :: "nat \<Rightarrow> u8 list \<Rightarrow> u16 \<Rightarrow> u16 \<Rightarrow> u16 \<Rightarrow> 'z fs_state_scheme \<Rightarrow> (nat option, 'z fs_state_scheme) res" where
  "create_new dp name type major minor s =
     kbind (ialloc (i_dev (ino s dp)) type s) (\<lambda>ip s.
     kbind (ilock ip s) (\<lambda>_ s.
     kbind (iupdate ip (upd_inode ip (\<lambda>x. x\<lparr>i_major := major, i_minor := minor, i_nlink := 1\<rparr>) s)) (\<lambda>_ s.
     kbind (if type = T_DIR then
              kbind (iupdate dp (upd_inode dp (\<lambda>x. x\<lparr>i_nlink := i_nlink x + 1\<rparr>) s)) (\<lambda>_ s.
              kbind (dirlink ip (cbytes ''.'') (i_inum (ino s ip)) s) (\<lambda>r s.
              if r < 0 then Panic ''create dots''
              else
                kbind (dirlink ip (cbytes ''..'') (i_inum (ino s dp)) s) (\<lambda>r s.
                if r < 0 then Panic ''create dots'' else Ok () s)))
            else Ok () s) (\<lambda>_ s.
     kbind (dirlink dp name (i_inum (ino s ip)) s) (\<lambda>r s.
     if r < 0 then Panic ''create: dirlink''
     else kbind (iunlockput dp s) (\<lambda>_ s. Ok (Some ip) s))))))"

definition create :: "u8 list \<Rightarrow> u16 \<Rightarrow> u16 \<Rightarrow> u16 \<Rightarrow> 'z fs_state_scheme \<Rightarrow> (nat option, 'z fs_state_scheme) res" where
  "create path type major minor s =
     kbind (nameiparent path s) (\<lambda>(r, name) s.
     case r of None \<Rightarrow> Ok None s
     | Some dp \<Rightarrow>
       kbind (ilock dp s) (\<lambda>_ s.
       kbind (dirlookup dp name s) (\<lambda>r s.
       case r of Some (ip, _) \<Rightarrow>
         kbind (iunlockput dp s) (\<lambda>_ s.
         kbind (ilock ip s) (\<lambda>_ s.
         if type = T_FILE \<and> (i_type (ino s ip) = T_FILE \<or> i_type (ino s ip) = T_DEVICE) then Ok (Some ip) s
         else kbind (iunlockput ip s) (\<lambda>_ s. Ok None s)))
       | None \<Rightarrow> create_new dp name type major minor s)))"

text \<open>The first part of \<^verbatim>\<open>sys_open\<close>: the locked inode, or nothing once the transaction has been ended.\<close>

definition open_inode :: "u8 list \<Rightarrow> i32 \<Rightarrow> 'z fs_state_scheme \<Rightarrow> (nat option, 'z fs_state_scheme) res" where
  "open_inode path omode s =
     (if omode AND O_CREATE \<noteq> 0 then
        kbind (create path T_FILE 0 0 s) (\<lambda>r s.
        case r of None \<Rightarrow> kbind (end_op s) (\<lambda>_ s. Ok None s) | Some ip \<Rightarrow> Ok (Some ip) s)
      else
        kbind (namei path s) (\<lambda>r s.
        case r of None \<Rightarrow> kbind (end_op s) (\<lambda>_ s. Ok None s)
        | Some ip \<Rightarrow>
          kbind (ilock ip s) (\<lambda>_ s.
          if i_type (ino s ip) = T_DIR \<and> omode \<noteq> O_RDONLY then kbind (put_fail ip s) (\<lambda>_ s. Ok None s)
          else Ok (Some ip) s)))"

text \<open>A file and a descriptor for it, or nothing after both have been given back.\<close>

definition open_file :: "'z file_state_scheme \<Rightarrow> ((nat \<times> int) option, 'z file_state_scheme) res" where
  "open_file s =
     kbind (filealloc s) (\<lambda>r s.
     case r of None \<Rightarrow> Ok None s
     | Some f \<Rightarrow>
       kbind (fdalloc f s) (\<lambda>fd s.
       if fd < 0 then kbind (fileclose f s) (\<lambda>_ s. Ok None s) else Ok (Some (f, fd)) s))"

definition open_path :: "u8 list \<Rightarrow> i32 \<Rightarrow> 'z file_state_scheme \<Rightarrow> (u64, 'z file_state_scheme) res" where
  "open_path path omode s =
     kbind (begin_op s) (\<lambda>_ s.
     kbind (open_inode path omode s) (\<lambda>r s.
     case r of None \<Rightarrow> Ok (-1) s
     | Some ip \<Rightarrow>
       if i_type (ino s ip) = T_DEVICE \<and> (sint (i_major (ino s ip)) < 0 \<or> sint (i_major (ino s ip)) \<ge> int NDEV) then put_fail ip s
       else
         kbind (open_file s) (\<lambda>r s.
         case r of None \<Rightarrow> put_fail ip s
         | Some (f, fd) \<Rightarrow>
           let s = upd_file f (\<lambda>x. if i_type (ino s ip) = T_DEVICE then x\<lparr>f_type := FD_DEVICE, f_major := i_major (ino s ip)\<rparr>
                     else x\<lparr>f_type := FD_INODE, f_off := 0\<rparr>) s;
               s = upd_file f (\<lambda>x. x\<lparr>f_ip := ip, f_readable := omode AND O_WRONLY = 0,
                     f_writable := omode AND O_WRONLY \<noteq> 0 \<or> omode AND O_RDWR \<noteq> 0\<rparr>) s in
           kbind (if omode AND O_TRUNC \<noteq> 0 \<and> i_type (ino s ip) = T_FILE then itrunc ip s else Ok () s) (\<lambda>_ s.
           kbind (iunlock ip s) (\<lambda>_ s.
           kbind (end_op s) (\<lambda>_ s. Ok (word_of_int fd) s))))))"

definition sys_open :: "'z file_state_scheme \<Rightarrow> (u64, 'z file_state_scheme) res" where
  "sys_open s =
     kbind (argstr 0 MAXPATH s) (\<lambda>(n, path) s.
     if n < 0 then Ok (-1) s
     else kbind (argint 1 s) (\<lambda>omode s. open_path (cstr path) omode s))"

definition sys_mkdir :: "'z file_state_scheme \<Rightarrow> (u64, 'z file_state_scheme) res" where
  "sys_mkdir s =
     kbind (begin_op s) (\<lambda>_ s.
     kbind (argstr 0 MAXPATH s) (\<lambda>(n, path) s.
     if n < 0 then end_fail s
     else
       kbind (create (cstr path) T_DIR 0 0 s) (\<lambda>r s.
       case r of None \<Rightarrow> end_fail s
       | Some ip \<Rightarrow>
         kbind (iunlockput ip s) (\<lambda>_ s.
         kbind (end_op s) (\<lambda>_ s. Ok 0 s)))))"

definition sys_mknod :: "'z file_state_scheme \<Rightarrow> (u64, 'z file_state_scheme) res" where
  "sys_mknod s =
     kbind (begin_op s) (\<lambda>_ s.
     kbind (argstr 0 MAXPATH s) (\<lambda>(n, path) s.
     if n < 0 then end_fail s
     else
       kbind (argint 1 s) (\<lambda>major s.
       kbind (argint 2 s) (\<lambda>minor s.
       kbind (create (cstr path) T_DEVICE (ucast major) (ucast minor) s) (\<lambda>r s.
       case r of None \<Rightarrow> end_fail s
       | Some ip \<Rightarrow>
         kbind (iunlockput ip s) (\<lambda>_ s.
         kbind (end_op s) (\<lambda>_ s. Ok 0 s)))))))"

definition sys_chdir :: "'z file_state_scheme \<Rightarrow> (u64, 'z file_state_scheme) res" where
  "sys_chdir s = with_proc s (\<lambda>p.
     kbind (begin_op s) (\<lambda>_ s.
     kbind (argstr 0 MAXPATH s) (\<lambda>(n, path) s.
     if n < 0 then end_fail s
     else
       kbind (namei (cstr path) s) (\<lambda>r s.
       case r of None \<Rightarrow> end_fail s
       | Some ip \<Rightarrow>
         kbind (ilock ip s) (\<lambda>_ s.
         if i_type (ino s ip) \<noteq> T_DIR then put_fail ip s
         else
           kbind (iunlock ip s) (\<lambda>_ s.
           case p_cwd (pr s p) of None \<Rightarrow> Panic ''kerneltrap''
           | Some d \<Rightarrow>
             kbind (iput d s) (\<lambda>_ s.
             kbind (end_op s) (\<lambda>_ s.
             Ok 0 (upd_proc p (\<lambda>x. x\<lparr>p_cwd := Some ip\<rparr>) s)))))))))"

section \<open>Executing programs, pipes\<close>

text \<open>
  The loop of \<^verbatim>\<open>sys_exec\<close> that copies the argument strings to fresh pages, with \<^verbatim>\<open>k\<close> entries of \<^verbatim>\<open>argv\<close> left: whether it ended at
  the null pointer, and the pages allocated.
\<close>

fun exec_args :: "u64 \<Rightarrow> nat \<Rightarrow> nat \<Rightarrow> 'z proc_state_scheme \<Rightarrow> (bool \<times> addr list, 'z proc_state_scheme) res" where
  "exec_args uargv i 0 s = Ok (False, []) s"
| "exec_args uargv i (Suc k) s =
     kbind (fetchaddr (uargv + 8 * of_nat i) s) (\<lambda>(r, uarg) s.
     if r < 0 then Ok (False, []) s
     else if uarg = 0 then Ok (True, []) s
     else
       kbind (kalloc s) (\<lambda>pg s.
       if pg = 0 then Ok (False, []) s
       else
         kbind (fetchstr uarg PGSIZE s) (\<lambda>(r, buf) s.
         let s = s\<lparr>mem := store_bytes (mem s) pg buf\<rparr> in
         if r < 0 then Ok (False, [pg]) s
         else
           kbind (exec_args uargv (Suc i) k s) (\<lambda>(ok, argv) s. Ok (ok, pg # argv) s))))"

definition free_args :: "addr list \<Rightarrow> 'z kalloc_state_scheme \<Rightarrow> (unit, 'z kalloc_state_scheme) res" where
  "free_args argv s = kfor 0 (length argv) (\<lambda>i s. kfree (argv ! i) s) s"

definition sys_exec :: "'z file_state_scheme \<Rightarrow> (u64, 'z file_state_scheme) res" where
  "sys_exec s =
     kbind (argstr 0 MAXPATH s) (\<lambda>(n, path) s.
     if n < 0 then Ok (-1) s
     else
       kbind (argaddr 1 s) (\<lambda>uargv s.
       kbind (exec_args uargv 0 MAXARG s) (\<lambda>(ok, argv) s.
       if \<not> ok then kbind (free_args argv s) (\<lambda>_ s. Ok (-1) s)
       else
         kbind (exec (cstr path) argv s) (\<lambda>ret s.
         kbind (free_args argv s) (\<lambda>_ s. Ok (word_of_int ret) s)))))"

definition pipe_fail :: "nat \<Rightarrow> nat \<Rightarrow> 'z file_state_scheme \<Rightarrow> (u64, 'z file_state_scheme) res" where
  "pipe_fail rfile wfile s =
     kbind (fileclose rfile s) (\<lambda>_ s.
     kbind (fileclose wfile s) (\<lambda>_ s. Ok (-1) s))"

definition sys_pipe :: "'z file_state_scheme \<Rightarrow> (u64, 'z file_state_scheme) res" where
  "sys_pipe s = with_proc s (\<lambda>p.
     kbind (argaddr 0 s) (\<lambda>fdarray s.
     kbind (pipealloc s) (\<lambda>r s.
     case r of None \<Rightarrow> Ok (-1) s
     | Some (rfile, wfile) \<Rightarrow>
       kbind (fdalloc rfile s) (\<lambda>fd0 s.
       if fd0 < 0 then pipe_fail rfile wfile s
       else
         kbind (fdalloc wfile s) (\<lambda>fd1 s.
         if fd1 < 0 then pipe_fail rfile wfile (fdclear p fd0 s)
         else
           kbind (copyout (p_pagetable (pr s p)) fdarray (to_le 4 (word_of_int fd0 :: i32)) 4 s) (\<lambda>r s.
           kbind (if r < 0 then Ok (-1) s
                  else copyout (p_pagetable (pr s p)) (fdarray + 4) (to_le 4 (word_of_int fd1 :: i32)) 4 s) (\<lambda>r s.
           if r < 0 then pipe_fail rfile wfile (fdclear p fd1 (fdclear p fd0 s))
           else Ok 0 s)))))))"

end
