(* ===== verification/Syscall.thy ===== *)
theory Syscall
  imports Sysfile
begin

text \<open>The system call table and its dispatcher with tracing (\<^verbatim>\<open>kernel/syscall.c\<close>, \<^verbatim>\<open>kernel/syscall.h\<close>).\<close>

definition SYS_fork :: nat where "SYS_fork = 1"
definition SYS_kill :: nat where "SYS_kill = 6"
definition SYS_sbrk :: nat where "SYS_sbrk = 12"

text \<open>The entries 1 to 24 of \<^verbatim>\<open>syscalls\<close> and \<^verbatim>\<open>syscallsnames\<close>; entry 0 is empty.\<close>

definition syscalls :: "('z file_state_scheme \<Rightarrow> (u64, 'z file_state_scheme) res) list" where
  "syscalls = [sys_fork, sys_exit, sys_wait, sys_pipe, sys_read, sys_kill, sys_exec, sys_fstat, sys_chdir, sys_dup,
     sys_getpid, sys_sbrk, sys_sleep, sys_uptime, sys_open, sys_write, sys_mknod, sys_unlink, sys_link, sys_mkdir,
     sys_close, sys_trace, sys_wait_stat, sys_set_priority]"

definition syscallsnames :: "u8 list list" where
  "syscallsnames = map cbytes [''fork'', ''exit'', ''wait'', ''pipe'', ''read'', ''kill'', ''exec'', ''fstat'', ''chdir'', ''dup'',
     ''getpid'', ''sbrk'', ''sleep'', ''uptime'', ''open'', ''write'', ''mknod'', ''unlink'', ''link'', ''mkdir'',
     ''close'', ''trace'', ''wait_stat'', ''set_priority'']"

definition NSYSCALLS :: nat where "NSYSCALLS = 25"

text \<open>The line that \<^verbatim>\<open>syscall\<close> prints for a traced call.\<close>

definition trace_print :: "nat \<Rightarrow> nat \<Rightarrow> i32 \<Rightarrow> 'z file_state_scheme \<Rightarrow> (unit, 'z file_state_scheme) res" where
  "trace_print p num arguments s =
     (let pid = Va_word (scast (p_pid (pr s p))); name = Va_str (Some (syscallsnames ! (num - 1))); a0 = Va_word (tf_get p TF_a0 s) in
      if num = SYS_fork \<or> num = SYS_kill \<or> num = SYS_sbrk
      then printf (Some (cbytes ''%d: syscall %s %d-> %d'' @ [10])) [pid, name, Va_word (scast arguments), a0] s
      else printf (Some (cbytes ''%d: syscall %s -> %d'' @ [10])) [pid, name, a0] s)"

definition syscall :: "'z file_state_scheme \<Rightarrow> (unit, 'z file_state_scheme) res" where
  "syscall s = with_proc s (\<lambda>p.
     let num = ucast (tf_get p TF_a7 s) :: i32 in
     if sint num > 0 \<and> sint num < int NSYSCALLS then
       let n = nat (sint num); arguments = ucast (tf_get p TF_a0 s) :: i32 in
       kbind ((syscalls ! (n - 1)) s) (\<lambda>r s.
       let s = tf_set p TF_a0 r s; bit_n = push_bit n 1 :: i32 in
       if sint (p_maskid (pr s p)) > 0 \<and> bit_n AND p_maskid (pr s p) = bit_n then trace_print p n arguments s
       else Ok () s)
     else
       kbind (printf (Some (cbytes ''%d %s: unknown sys call %d'' @ [10]))
         [Va_word (scast (p_pid (pr s p))), Va_str (Some (p_name (pr s p))), Va_word (scast num)] s) (\<lambda>_ s.
       Ok () (tf_set p TF_a0 (-1) s)))"

end
