(* ===== verification/Virtio.thy ===== *)
theory Virtio
  imports Syscall
begin

text \<open>
  The driver of the virtio disk (\<^verbatim>\<open>kernel/virtio_disk.c\<close>, \<^verbatim>\<open>kernel/virtio.h\<close>), which theory Bio uses through its effect
  \<^verbatim>\<open>disk_rw\<close>. The descriptors, the two rings and the book-keeping are the fields of \<^verbatim>\<open>struct disk\<close>; the address in a descriptor
  is the object it points to. \<^verbatim>\<open>b_disk\<close> has the field \<^verbatim>\<open>disk\<close> of each buffer. The device is the environment: \<^verbatim>\<open>mmio\<close> are the
  values its registers read as, \<^verbatim>\<open>mmio_writes\<close> the history of writes to them.
\<close>

section \<open>State\<close>

definition NUM :: nat where "NUM = 8"
definition VRING_DESC_F_NEXT :: u16 where "VRING_DESC_F_NEXT = 1"
definition VRING_DESC_F_WRITE :: u16 where "VRING_DESC_F_WRITE = 2"
definition VIRTIO_BLK_T_IN :: u32 where "VIRTIO_BLK_T_IN = 0"
definition VIRTIO_BLK_T_OUT :: u32 where "VIRTIO_BLK_T_OUT = 1"

definition VIRTIO_MMIO_MAGIC_VALUE :: nat where "VIRTIO_MMIO_MAGIC_VALUE = 0x000"
definition VIRTIO_MMIO_VERSION :: nat where "VIRTIO_MMIO_VERSION = 0x004"
definition VIRTIO_MMIO_DEVICE_ID :: nat where "VIRTIO_MMIO_DEVICE_ID = 0x008"
definition VIRTIO_MMIO_VENDOR_ID :: nat where "VIRTIO_MMIO_VENDOR_ID = 0x00c"
definition VIRTIO_MMIO_DEVICE_FEATURES :: nat where "VIRTIO_MMIO_DEVICE_FEATURES = 0x010"
definition VIRTIO_MMIO_DRIVER_FEATURES :: nat where "VIRTIO_MMIO_DRIVER_FEATURES = 0x020"
definition VIRTIO_MMIO_GUEST_PAGE_SIZE :: nat where "VIRTIO_MMIO_GUEST_PAGE_SIZE = 0x028"
definition VIRTIO_MMIO_QUEUE_SEL :: nat where "VIRTIO_MMIO_QUEUE_SEL = 0x030"
definition VIRTIO_MMIO_QUEUE_NUM_MAX :: nat where "VIRTIO_MMIO_QUEUE_NUM_MAX = 0x034"
definition VIRTIO_MMIO_QUEUE_NUM :: nat where "VIRTIO_MMIO_QUEUE_NUM = 0x038"
definition VIRTIO_MMIO_QUEUE_PFN :: nat where "VIRTIO_MMIO_QUEUE_PFN = 0x040"
definition VIRTIO_MMIO_QUEUE_NOTIFY :: nat where "VIRTIO_MMIO_QUEUE_NOTIFY = 0x050"
definition VIRTIO_MMIO_INTERRUPT_STATUS :: nat where "VIRTIO_MMIO_INTERRUPT_STATUS = 0x060"
definition VIRTIO_MMIO_INTERRUPT_ACK :: nat where "VIRTIO_MMIO_INTERRUPT_ACK = 0x064"
definition VIRTIO_MMIO_STATUS :: nat where "VIRTIO_MMIO_STATUS = 0x070"

datatype dma = Dma_null | Dma_ops nat | Dma_data nat | Dma_status nat

record virtq_desc =
  d_addr :: dma
  d_len :: u32
  d_flags :: u16
  d_next :: u16

record blk_req =
  rq_type :: u32
  rq_reserved :: u32
  rq_sector :: u64

record vdisk_state = file_state +
  v_desc :: "virtq_desc list"
  v_avail_idx :: u16
  v_avail_ring :: "u16 list"
  v_used_dev_idx :: u16
  v_used_ring :: "u32 list"
  v_free :: "bool list"
  v_used_idx :: u16
  v_info_b :: "nat option list"
  v_info_status :: "u8 list"
  v_ops :: "blk_req list"
  b_disk :: "nat \<Rightarrow> bool"
  k_pages :: addr
  mmio :: "nat \<Rightarrow> u32"
  mmio_writes :: "(nat \<times> u32) list"

definition mmio_set :: "nat \<Rightarrow> u32 \<Rightarrow> 'z vdisk_state_scheme \<Rightarrow> 'z vdisk_state_scheme" where
  "mmio_set r v s = s\<lparr>mmio_writes := mmio_writes s @ [(r, v)]\<rparr>"

definition null_desc :: virtq_desc where
  "null_desc = \<lparr>d_addr = Dma_null, d_len = 0, d_flags = 0, d_next = 0\<rparr>"

section \<open>Initialisation\<close>

text \<open>
  The features the driver gives up: \<^verbatim>\<open>VIRTIO_BLK_F_RO\<close> (5), \<^verbatim>\<open>SCSI\<close> (7), \<^verbatim>\<open>CONFIG_WCE\<close> (11), \<^verbatim>\<open>MQ\<close> (12), \<^verbatim>\<open>ANY_LAYOUT\<close> (27),
  \<^verbatim>\<open>EVENT_IDX\<close> (29), \<^verbatim>\<open>INDIRECT_DESC\<close> (28).
\<close>

definition wanted_features :: "u32 \<Rightarrow> u32" where
  "wanted_features f = fold (\<lambda>n f. f AND NOT (push_bit n 1)) [5, 7, 11, 12, 27, 29, 28] f"

definition virtio_disk_init :: "'z vdisk_state_scheme \<Rightarrow> (unit, 'z vdisk_state_scheme) res" where
  "virtio_disk_init s =
     (if mmio s VIRTIO_MMIO_MAGIC_VALUE \<noteq> 0x74726976 \<or> mmio s VIRTIO_MMIO_VERSION \<noteq> 1
         \<or> mmio s VIRTIO_MMIO_DEVICE_ID \<noteq> 2 \<or> mmio s VIRTIO_MMIO_VENDOR_ID \<noteq> 0x554d4551
      then Panic ''could not find virtio disk''
      else
        let s = mmio_set VIRTIO_MMIO_STATUS 1 s;
            s = mmio_set VIRTIO_MMIO_STATUS 3 s;
            s = mmio_set VIRTIO_MMIO_DRIVER_FEATURES (wanted_features (mmio s VIRTIO_MMIO_DEVICE_FEATURES)) s;
            s = mmio_set VIRTIO_MMIO_STATUS 11 s;
            s = mmio_set VIRTIO_MMIO_STATUS 15 s;
            s = mmio_set VIRTIO_MMIO_GUEST_PAGE_SIZE (ucast PGSIZE) s;
            s = mmio_set VIRTIO_MMIO_QUEUE_SEL 0 s;
            mx = mmio s VIRTIO_MMIO_QUEUE_NUM_MAX in
        if mx = 0 then Panic ''virtio disk has no queue 0''
        else if mx < of_nat NUM then Panic ''virtio disk max queue too short''
        else
          let s = mmio_set VIRTIO_MMIO_QUEUE_NUM (of_nat NUM) s;
              s = s\<lparr>v_desc := replicate NUM null_desc, v_avail_idx := 0, v_avail_ring := replicate NUM 0,
                    v_used_dev_idx := 0, v_used_ring := replicate NUM 0\<rparr>;
              s = mmio_set VIRTIO_MMIO_QUEUE_PFN (ucast (drop_bit 12 (k_pages s))) s in
          Ok () (s\<lparr>v_free := replicate NUM True\<rparr>))"

section \<open>Descriptors\<close>

definition alloc_desc :: "'z vdisk_state_scheme \<Rightarrow> (nat option, 'z vdisk_state_scheme) res" where
  "alloc_desc s = kscan 0 NUM (\<lambda>i s.
     if v_free s ! i then Ok (Some i) (s\<lparr>v_free := (v_free s)[i := False]\<rparr>) else Ok None s) s"

definition free_desc :: "nat \<Rightarrow> 'z vdisk_state_scheme \<Rightarrow> (unit, 'z vdisk_state_scheme) res" where
  "free_desc i s =
     (if i \<ge> NUM then Panic ''free_desc 1''
      else if v_free s ! i then Panic ''free_desc 2''
      else wakeup Ch_disk_free (s\<lparr>v_desc := (v_desc s)[i := null_desc], v_free := (v_free s)[i := True]\<rparr>))"

text \<open>
  Each round of \<^verbatim>\<open>free_chain\<close> frees a descriptor that was in use, and \<^verbatim>\<open>free_desc\<close> panics on one that was not, so \<^verbatim>\<open>NUM + 1\<close>
  rounds are enough.
\<close>

fun free_chain_loop :: "nat \<Rightarrow> nat \<Rightarrow> 'z vdisk_state_scheme \<Rightarrow> (unit, 'z vdisk_state_scheme) res" where
  "free_chain_loop 0 i s = Panic ''free_desc 2''"
| "free_chain_loop (Suc k) i s =
     (let flag = d_flags (v_desc s ! i); nxt = unat (d_next (v_desc s ! i)) in
      kbind (free_desc i s) (\<lambda>_ s.
      if flag AND VRING_DESC_F_NEXT \<noteq> 0 then free_chain_loop k nxt s else Ok () s))"

definition free_chain :: "nat \<Rightarrow> 'z vdisk_state_scheme \<Rightarrow> (unit, 'z vdisk_state_scheme) res" where
  "free_chain i s = free_chain_loop (NUM + 1) i s"

text \<open>\<^verbatim>\<open>alloc3_desc\<close> gives back what it has when it cannot get all three.\<close>

definition alloc3_desc :: "'z vdisk_state_scheme \<Rightarrow> ((nat \<times> nat \<times> nat) option, 'z vdisk_state_scheme) res" where
  "alloc3_desc s =
     kbind (alloc_desc s) (\<lambda>r0 s.
     case r0 of None \<Rightarrow> Ok None s
     | Some i0 \<Rightarrow>
       kbind (alloc_desc s) (\<lambda>r1 s.
       case r1 of None \<Rightarrow> kbind (free_desc i0 s) (\<lambda>_ s. Ok None s)
       | Some i1 \<Rightarrow>
         kbind (alloc_desc s) (\<lambda>r2 s.
         case r2 of None \<Rightarrow> kbind (free_desc i0 s) (\<lambda>_ s. kbind (free_desc i1 s) (\<lambda>_ s. Ok None s))
         | Some i2 \<Rightarrow> Ok (Some (i0, i1, i2)) s)))"

section \<open>Requests\<close>

definition set_desc :: "nat \<Rightarrow> virtq_desc \<Rightarrow> 'z vdisk_state_scheme \<Rightarrow> 'z vdisk_state_scheme" where
  "set_desc i d s = s\<lparr>v_desc := (v_desc s)[i := d]\<rparr>"

text \<open>Formatting the request and handing it to the device.\<close>

definition submit_request :: "nat \<Rightarrow> bool \<Rightarrow> nat \<Rightarrow> nat \<Rightarrow> nat \<Rightarrow> 'z vdisk_state_scheme \<Rightarrow> 'z vdisk_state_scheme" where
  "submit_request b write i0 i1 i2 s =
     (let sector = ucast (b_blockno (bu s b) * of_nat (BSIZE div 512)) :: u64;
          s = s\<lparr>v_ops := (v_ops s)[i0 := \<lparr>rq_type = (if write then VIRTIO_BLK_T_OUT else VIRTIO_BLK_T_IN), rq_reserved = 0, rq_sector = sector\<rparr>]\<rparr>;
          s = set_desc i0 \<lparr>d_addr = Dma_ops i0, d_len = 16, d_flags = VRING_DESC_F_NEXT, d_next = of_nat i1\<rparr> s;
          s = set_desc i1 \<lparr>d_addr = Dma_data b, d_len = of_nat BSIZE,
                d_flags = (if write then 0 else VRING_DESC_F_WRITE) OR VRING_DESC_F_NEXT, d_next = of_nat i2\<rparr> s;
          s = s\<lparr>v_info_status := (v_info_status s)[i0 := 0xff]\<rparr>;
          s = set_desc i2 \<lparr>d_addr = Dma_status i0, d_len = 1, d_flags = VRING_DESC_F_WRITE, d_next = 0\<rparr> s;
          s = s\<lparr>b_disk := (b_disk s)(b := True), v_info_b := (v_info_b s)[i0 := Some b]\<rparr>;
          s = s\<lparr>v_avail_ring := (v_avail_ring s)[unat (v_avail_idx s) mod NUM := of_nat i0]\<rparr>;
          s = s\<lparr>v_avail_idx := v_avail_idx s + 1\<rparr> in
      mmio_set VIRTIO_MMIO_QUEUE_NOTIFY 0 s)"

text \<open>
  The waiting loop of \<^verbatim>\<open>virtio_disk_rw\<close> and what follows it; \<^verbatim>\<open>sleep_return\<close> comes between two rounds.
\<close>

definition virtio_disk_wait :: "nat \<Rightarrow> nat \<Rightarrow> 'z vdisk_state_scheme \<Rightarrow> (unit, 'z vdisk_state_scheme) res" where
  "virtio_disk_wait b i0 s =
     (if b_disk s b then sleep (Ch_buf b) Vdisk_lock s
      else
        kbind (free_chain i0 (s\<lparr>v_info_b := (v_info_b s)[i0 := None]\<rparr>)) (\<lambda>_ s.
        release Vdisk_lock s))"

definition virtio_disk_rw :: "nat \<Rightarrow> bool \<Rightarrow> 'z vdisk_state_scheme \<Rightarrow> (unit, 'z vdisk_state_scheme) res" where
  "virtio_disk_rw b write s =
     kbind (acquire Vdisk_lock s) (\<lambda>_ s.
     kbind (alloc3_desc s) (\<lambda>r s.
     case r of None \<Rightarrow> sleep Ch_disk_free Vdisk_lock s
     | Some (i0, i1, i2) \<Rightarrow> virtio_disk_wait b i0 (submit_request b write i0 i1 i2 s)))"

text \<open>
  The interrupt handler looks at the entries of the used ring that it has not seen; there are \<^verbatim>\<open>used->idx - used_idx\<close> of
  them.
\<close>

fun virtio_intr_loop :: "nat \<Rightarrow> 'z vdisk_state_scheme \<Rightarrow> (unit, 'z vdisk_state_scheme) res" where
  "virtio_intr_loop 0 s = Ok () s"
| "virtio_intr_loop (Suc k) s =
     (let i = unat (v_used_ring s ! (unat (v_used_idx s) mod NUM)) in
      if v_info_status s ! i \<noteq> 0 then Panic ''virtio_disk_intr status''
      else (case v_info_b s ! i of None \<Rightarrow> Panic ''kerneltrap''
        | Some b \<Rightarrow>
          kbind (wakeup (Ch_buf b) (s\<lparr>b_disk := (b_disk s)(b := False)\<rparr>)) (\<lambda>_ s.
          virtio_intr_loop k (s\<lparr>v_used_idx := v_used_idx s + 1\<rparr>))))"

definition virtio_disk_intr :: "'z vdisk_state_scheme \<Rightarrow> (unit, 'z vdisk_state_scheme) res" where
  "virtio_disk_intr s =
     kbind (acquire Vdisk_lock s) (\<lambda>_ s.
     let s = mmio_set VIRTIO_MMIO_INTERRUPT_ACK (mmio s VIRTIO_MMIO_INTERRUPT_STATUS AND 3) s in
     kbind (virtio_intr_loop (unat (v_used_dev_idx s - v_used_idx s)) s) (\<lambda>_ s.
     release Vdisk_lock s))"

end
