(* ===== verification/Trap.thy ===== *)
theory Trap
  imports Virtio
begin

text \<open>
  Traps from user space and from the kernel (\<^verbatim>\<open>kernel/trap.c\<close>), the interrupt controller (\<^verbatim>\<open>kernel/plic.c\<close>), \<^verbatim>\<open>forkret\<close>, and the
  boot sequence (\<^verbatim>\<open>kernel/main.c\<close>).

  The supervisor registers that the code reads and writes are fields of the state; the addresses of the assembly routines
  are constants of the linker. \<^verbatim>\<open>plic_irq\<close> is what the claim register reads as, \<^verbatim>\<open>plic_writes\<close> the history of writes to the
  controller. \<^verbatim>\<open>policy\<close> is the scheduling policy that the kernel was compiled for.
\<close>

section \<open>State\<close>

datatype policy = DEFAULT | FCFS | SRT | CFSD

record trap_state = vdisk_state +
  r_sstatus :: u64
  r_sepc :: u64
  r_scause :: u64
  r_stval :: u64
  r_stvec :: u64
  r_sip :: u64
  r_tp :: u64
  plic_irq :: i32
  plic_writes :: "(u64 \<times> u32) list"
  started :: bool
  k_policy :: policy
  k_kernelvec :: u64
  k_usertrap :: u64
  k_uservec_off :: u64
  k_userret_off :: u64

definition SSTATUS_SPP :: u64 where "SSTATUS_SPP = 0x100"
definition SSTATUS_SPIE :: u64 where "SSTATUS_SPIE = 0x20"
definition SSTATUS_SIE :: u64 where "SSTATUS_SIE = 0x2"
definition UART0_IRQ :: i32 where "UART0_IRQ = 10"
definition VIRTIO0_IRQ :: i32 where "VIRTIO0_IRQ = 1"

definition TF_kernel_satp :: u64 where "TF_kernel_satp = 0"
definition TF_kernel_sp :: u64 where "TF_kernel_sp = 8"
definition TF_kernel_trap :: u64 where "TF_kernel_trap = 16"
definition TF_kernel_hartid :: u64 where "TF_kernel_hartid = 32"

definition cpuid :: "'z trap_state_scheme \<Rightarrow> i32" where
  "cpuid s = ucast (r_tp s)"

section \<open>The interrupt controller\<close>

definition PLIC_SENABLE :: "u64 \<Rightarrow> u64" where "PLIC_SENABLE hart = PLIC + 0x2080 + hart * 0x100"
definition PLIC_SPRIORITY :: "u64 \<Rightarrow> u64" where "PLIC_SPRIORITY hart = PLIC + 0x201000 + hart * 0x2000"
definition PLIC_SCLAIM :: "u64 \<Rightarrow> u64" where "PLIC_SCLAIM hart = PLIC + 0x201004 + hart * 0x2000"

definition plic_set :: "u64 \<Rightarrow> u32 \<Rightarrow> 'z trap_state_scheme \<Rightarrow> 'z trap_state_scheme" where
  "plic_set a v s = s\<lparr>plic_writes := plic_writes s @ [(a, v)]\<rparr>"

definition plicinit :: "'z trap_state_scheme \<Rightarrow> (unit, 'z trap_state_scheme) res" where
  "plicinit s = Ok () (plic_set (PLIC + ucast VIRTIO0_IRQ * 4) 1 (plic_set (PLIC + ucast UART0_IRQ * 4) 1 s))"

definition plicinithart :: "'z trap_state_scheme \<Rightarrow> (unit, 'z trap_state_scheme) res" where
  "plicinithart s =
     (let hart = scast (cpuid s);
          s = plic_set (PLIC_SENABLE hart) (push_bit (unat UART0_IRQ) 1 OR push_bit (unat VIRTIO0_IRQ) 1) s in
      Ok () (plic_set (PLIC_SPRIORITY hart) 0 s))"

definition plic_claim :: "'z trap_state_scheme \<Rightarrow> i32" where
  "plic_claim s = plic_irq s"

definition plic_complete :: "i32 \<Rightarrow> 'z trap_state_scheme \<Rightarrow> 'z trap_state_scheme" where
  "plic_complete irq s = plic_set (PLIC_SCLAIM (scast (cpuid s))) irq s"

section \<open>Interrupts\<close>

definition trapinithart :: "'z trap_state_scheme \<Rightarrow> (unit, 'z trap_state_scheme) res" where
  "trapinithart s = Ok () (s\<lparr>r_stvec := k_kernelvec s\<rparr>)"

definition devintr :: "'z trap_state_scheme \<Rightarrow> (int, 'z trap_state_scheme) res" where
  "devintr s =
     (let scause = r_scause s in
      if scause AND 0x8000000000000000 \<noteq> 0 \<and> scause AND 0xff = 9 then
        let irq = plic_claim s in
        kbind (if irq = UART0_IRQ then uartintr s
               else if irq = VIRTIO0_IRQ then virtio_disk_intr s
               else if irq \<noteq> 0 then printf (Some (cbytes ''unexpected interrupt irq=%d'' @ [10])) [Va_word (scast irq)] s
               else Ok () s) (\<lambda>_ s.
        Ok 1 (if irq \<noteq> 0 then plic_complete irq s else s))
      else if scause = 0x8000000000000001 then
        kbind (if cpuid s = 0 then clockintr s else Ok () s) (\<lambda>_ s.
        Ok 2 (s\<lparr>r_sip := r_sip s AND NOT 2\<rparr>))
      else Ok 0 s)"

text \<open>
  The end of a timer interrupt: except under FCFS the process gives up the CPU when a quantum has passed.
\<close>

definition timer_yield :: "'z trap_state_scheme \<Rightarrow> (unit, 'z trap_state_scheme) res" where
  "timer_yield s =
     (if k_policy s \<noteq> FCFS then
        kbind (read_ticks s) (\<lambda>tick s.
        if sint tick mod int QUANTUM = 0 then yield s else Ok () s)
      else Ok () s)"

section \<open>To and from user space\<close>

text \<open>
  \<^verbatim>\<open>usertrapret\<close> up to its jump to \<^verbatim>\<open>userret\<close>: the function it calls with its two arguments.
\<close>

definition usertrapret :: "'z trap_state_scheme \<Rightarrow> (u64 \<times> u64 \<times> u64, 'z trap_state_scheme) res" where
  "usertrapret s = with_proc s (\<lambda>p.
     let s = s\<lparr>r_sstatus := r_sstatus s AND NOT SSTATUS_SIE\<rparr>;
         s = s\<lparr>r_stvec := TRAMPOLINE + k_uservec_off s\<rparr>;
         s = tf_set p TF_kernel_satp (satp s) s;
         s = tf_set p TF_kernel_sp (p_kstack (pr s p) + PGSIZE) s;
         s = tf_set p TF_kernel_trap (k_usertrap s) s;
         s = tf_set p TF_kernel_hartid (r_tp s) s;
         s = s\<lparr>r_sstatus := (r_sstatus s AND NOT SSTATUS_SPP) OR SSTATUS_SPIE\<rparr>;
         s = s\<lparr>r_sepc := tf_get p TF_epc s\<rparr> in
     Ok (TRAMPOLINE + k_userret_off s, TRAPFRAME, MAKE_SATP (p_pagetable (pr s p))) s)"

definition usertrap_unexpected :: "nat \<Rightarrow> 'z trap_state_scheme \<Rightarrow> (unit, 'z trap_state_scheme) res" where
  "usertrap_unexpected p s =
     kbind (printf (Some (cbytes ''usertrap(): unexpected scause %p pid=%d'' @ [10]))
       [Va_word (r_scause s), Va_word (scast (p_pid (pr s p)))] s) (\<lambda>_ s.
     kbind (printf (Some (cbytes ''            sepc=%p stval=%p'' @ [10])) [Va_word (r_sepc s), Va_word (r_stval s)] s) (\<lambda>_ s.
     Ok () (upd_proc p (\<lambda>x. x\<lparr>p_killed := 1\<rparr>) s)))"

definition exit_if_killed :: "nat \<Rightarrow> 'z file_state_scheme \<Rightarrow> (unit, 'z file_state_scheme) res" where
  "exit_if_killed p s = (if p_killed (pr s p) \<noteq> 0 then exit (-1) s else Ok () s)"

definition usertrap :: "'z trap_state_scheme \<Rightarrow> (u64 \<times> u64 \<times> u64, 'z trap_state_scheme) res" where
  "usertrap s =
     (if r_sstatus s AND SSTATUS_SPP \<noteq> 0 then Panic ''usertrap: not from user mode''
      else
        let s = s\<lparr>r_stvec := k_kernelvec s\<rparr> in
        with_proc s (\<lambda>p.
        let s = tf_set p TF_epc (r_sepc s) s in
        kbind (if r_scause s = 8 then
                 kbind (exit_if_killed p s) (\<lambda>_ s.
                 let s = tf_set p TF_epc (tf_get p TF_epc s + 4) s;
                     s = s\<lparr>r_sstatus := r_sstatus s OR SSTATUS_SIE\<rparr> in
                 kbind (syscall s) (\<lambda>_ s. Ok 0 s))
               else
                 kbind (devintr s) (\<lambda>which_dev s.
                 if which_dev \<noteq> 0 then Ok which_dev s
                 else kbind (usertrap_unexpected p s) (\<lambda>_ s. Ok 0 s))) (\<lambda>which_dev s.
        kbind (exit_if_killed p s) (\<lambda>_ s.
        kbind (if which_dev = 2 then timer_yield s else Ok () s) (\<lambda>_ s.
        usertrapret s)))))"

definition kerneltrap :: "'z trap_state_scheme \<Rightarrow> (unit, 'z trap_state_scheme) res" where
  "kerneltrap s =
     (let sepc = r_sepc s; sstatus = r_sstatus s; scause = r_scause s in
      if sstatus AND SSTATUS_SPP = 0 then Panic ''kerneltrap: not from supervisor mode''
      else if r_sstatus s AND SSTATUS_SIE \<noteq> 0 then Panic ''kerneltrap: interrupts enabled''
      else
        kbind (devintr s) (\<lambda>which_dev s.
        if which_dev = 0 then
          kbind (printf (Some (cbytes ''scause %p'' @ [10])) [Va_word scause] s) (\<lambda>_ s.
          kbind (printf (Some (cbytes ''sepc=%p stval=%p'' @ [10])) [Va_word (r_sepc s), Va_word (r_stval s)] s) (\<lambda>_ s.
          Panic ''kerneltrap''))
        else
          kbind (case myproc s of
              Some p \<Rightarrow> if which_dev = 2 \<and> p_state (pr s p) = RUNNING then timer_yield s else Ok () s
            | None \<Rightarrow> Ok () s) (\<lambda>_ s.
          Ok () (s\<lparr>r_sepc := sepc, r_sstatus := sstatus\<rparr>))))"

definition forkret :: "'z trap_state_scheme \<Rightarrow> (u64 \<times> u64 \<times> u64, 'z trap_state_scheme) res" where
  "forkret s = with_proc s (\<lambda>p.
     kbind (release (Proc_lock p) s) (\<lambda>_ s.
     kbind (if forkret_first s then fsinit ROOTDEV (s\<lparr>forkret_first := False\<rparr>) else Ok () s) (\<lambda>_ s.
     usertrapret s)))"

section \<open>Boot\<close>

definition print_line :: "string \<Rightarrow> 'z cons_state_scheme \<Rightarrow> (unit, 'z cons_state_scheme) res" where
  "print_line t s = printf (Some (cbytes t @ [10])) [] s"

text \<open>\<^verbatim>\<open>main\<close> up to the call of \<^verbatim>\<open>scheduler\<close>; a hart other than the first waits for \<^verbatim>\<open>started\<close>.\<close>

definition main_boot :: "'z trap_state_scheme \<Rightarrow> (unit, 'z trap_state_scheme) res" where
  "main_boot s =
     kbind (consoleinit s) (\<lambda>_ s.
     kbind (printfinit s) (\<lambda>_ s.
     kbind (print_line [] s) (\<lambda>_ s.
     kbind (print_line ''xv6 kernel is booting'' s) (\<lambda>_ s.
     kbind (print_line [] s) (\<lambda>_ s.
     kbind (kinit s) (\<lambda>_ s.
     kbind (kvminit s) (\<lambda>_ s.
     kbind (kvminithart s) (\<lambda>_ s.
     kbind (procinit s) (\<lambda>_ s.
     kbind (trapinithart s) (\<lambda>_ s.
     kbind (plicinit s) (\<lambda>_ s.
     kbind (plicinithart s) (\<lambda>_ s.
     kbind (binit s) (\<lambda>_ s.
     kbind (iinit s) (\<lambda>_ s.
     kbind (virtio_disk_init s) (\<lambda>_ s.
     kbind (userinit s) (\<lambda>_ s.
     Ok () (s\<lparr>started := True\<rparr>)))))))))))))))))"

definition main_other :: "'z trap_state_scheme \<Rightarrow> (unit, 'z trap_state_scheme) res" where
  "main_other s =
     (if \<not> started s then Spins Busy_wait
      else
        kbind (printf (Some (cbytes ''hart %d starting'' @ [10])) [Va_word (scast (cpuid s))] s) (\<lambda>_ s.
        kbind (kvminithart s) (\<lambda>_ s.
        kbind (trapinithart s) (\<lambda>_ s.
        plicinithart s))))"

definition main :: "'z trap_state_scheme \<Rightarrow> (unit, 'z trap_state_scheme) res" where
  "main s = (if cpuid s = 0 then main_boot s else main_other s)"

end
