(* ===== verification/File_Props.thy ===== *)
theory File_Props
  imports File
begin

text \<open>
  Pipes as queues: the ring buffer of \<^verbatim>\<open>kernel/pipe.c\<close> with its free-running 32-bit counters refines a queue of at most 512 bytes,
  and \<^verbatim>\<open>pipewrite\<close> and \<^verbatim>\<open>piperead\<close> move bytes between it and the memory of processes in order.
\<close>

section \<open>The ring buffer\<close>

definition pqueue :: "pipe \<Rightarrow> u8 list" where
  "pqueue x = map (\<lambda>k. pi_data x ! ((unat (pi_nread x) + k) mod PIPESIZE)) [0..<unat (pi_nwrite x - pi_nread x)]"

definition pipe_ok :: "pipe \<Rightarrow> bool" where
  "pipe_ok x \<longleftrightarrow> length (pi_data x) = PIPESIZE \<and> unat (pi_nwrite x - pi_nread x) \<le> PIPESIZE"

lemma length_pqueue [simp]: "length (pqueue x) = unat (pi_nwrite x - pi_nread x)"
  by (simp add: pqueue_def)

lemma pqueue_le: "pipe_ok x \<Longrightarrow> length (pqueue x) \<le> PIPESIZE"
  by (simp add: pipe_ok_def)

lemma ring_index: "unat (w + v :: u32) mod PIPESIZE = (unat w + unat v) mod PIPESIZE"
  by (simp add: unat_word_ariths PIPESIZE_def mod_mod_cancel)

lemma ring_other: "j < k \<Longrightarrow> k < PIPESIZE \<Longrightarrow> (r + j) mod PIPESIZE \<noteq> (r + k) mod PIPESIZE"
proof
  assume jk: "j < k" "k < PIPESIZE" and "(r + j) mod PIPESIZE = (r + k) mod PIPESIZE"
  then have "PIPESIZE dvd (r + k) - (r + j)" by (subst mod_eq_dvd_iff_nat [symmetric]) simp_all
  then have "PIPESIZE dvd k - j" by simp
  then show False using jk by (auto dest!: dvd_imp_le)
qed

lemma pipe_full: "pipe_ok x \<Longrightarrow> pi_nwrite x = pi_nread x + of_nat PIPESIZE \<longleftrightarrow> length (pqueue x) = PIPESIZE"
proof -
  have "pi_nwrite x = pi_nread x + of_nat PIPESIZE \<longleftrightarrow> pi_nwrite x - pi_nread x = of_nat PIPESIZE" by (auto simp: algebra_simps)
  also have "\<dots> \<longleftrightarrow> unat (pi_nwrite x - pi_nread x) = PIPESIZE" by (simp add: PIPESIZE_def word_unat_eq_iff)
  finally show ?thesis by simp
qed

lemma pipe_empty: "pi_nread x = pi_nwrite x \<longleftrightarrow> pqueue x = []"
  by (auto simp: pqueue_def unat_eq_0)

lemma pqueue_put:
  assumes ok: "pipe_ok x" and room: "length (pqueue x) < PIPESIZE"
  shows "pipe_ok (x\<lparr>pi_data := (pi_data x)[unat (pi_nwrite x) mod PIPESIZE := c], pi_nwrite := pi_nwrite x + 1\<rparr>)"
    "pqueue (x\<lparr>pi_data := (pi_data x)[unat (pi_nwrite x) mod PIPESIZE := c], pi_nwrite := pi_nwrite x + 1\<rparr>) = pqueue x @ [c]"
proof -
  let ?k = "unat (pi_nwrite x - pi_nread x)" and ?r = "unat (pi_nread x)"
  have k: "?k < PIPESIZE" using room by simp
  have len: "length (pi_data x) = PIPESIZE" using ok by (simp add: pipe_ok_def)
  have e: "pi_nwrite x + 1 - pi_nread x = (pi_nwrite x - pi_nread x) + 1" by simp
  have s: "unat (pi_nwrite x + 1 - pi_nread x) = Suc ?k"
    unfolding e by (subst unat_add_lem [THEN iffD1]) (use k in \<open>simp_all add: PIPESIZE_def\<close>)
  have "pi_nwrite x = pi_nread x + (pi_nwrite x - pi_nread x)" by simp
  then have w: "unat (pi_nwrite x) mod PIPESIZE = (?r + ?k) mod PIPESIZE" by (metis ring_index)
  have p: "(?r + ?k) mod PIPESIZE < PIPESIZE" by (simp add: PIPESIZE_def)
  have other: "(?r + j) mod PIPESIZE \<noteq> (?r + ?k) mod PIPESIZE" if "j < ?k" for j
    by (rule ring_other [OF that k])
  show "pipe_ok (x\<lparr>pi_data := (pi_data x)[unat (pi_nwrite x) mod PIPESIZE := c], pi_nwrite := pi_nwrite x + 1\<rparr>)"
    using len k s by (simp add: pipe_ok_def)
  show "pqueue (x\<lparr>pi_data := (pi_data x)[unat (pi_nwrite x) mod PIPESIZE := c], pi_nwrite := pi_nwrite x + 1\<rparr>) = pqueue x @ [c]"
    using other [THEN not_sym] p len by (simp add: pqueue_def s w)
qed

lemma pqueue_take:
  assumes ok: "pipe_ok x" and ne: "pqueue x = c # q"
  shows "pi_data x ! (unat (pi_nread x) mod PIPESIZE) = c" "pipe_ok (x\<lparr>pi_nread := pi_nread x + 1\<rparr>)" "pqueue (x\<lparr>pi_nread := pi_nread x + 1\<rparr>) = q"
proof -
  let ?k = "unat (pi_nwrite x - pi_nread x)"
  have pos: "0 < ?k" using ne by (metis length_pqueue length_Cons zero_less_Suc)
  have d: "pi_nwrite x - (pi_nread x + 1) = (pi_nwrite x - pi_nread x) - 1" by simp
  have "pi_nwrite x - pi_nread x \<noteq> 0" using pos by (simp add: unat_gt_0)
  then have s: "unat (pi_nwrite x - (pi_nread x + 1)) = ?k - 1" unfolding d by (rule unat_minus_one)
  then show "pipe_ok (x\<lparr>pi_nread := pi_nread x + 1\<rparr>)" using ok by (auto simp: pipe_ok_def)
  have up: "[0..<?k] = 0 # map Suc [0..<?k - 1]" using pos by (simp add: upt_conv_Cons map_Suc_upt)
  have "(unat (pi_nread x + 1) + k) mod PIPESIZE = (unat (pi_nread x) + Suc k) mod PIPESIZE" for k
  proof -
    have "(unat (pi_nread x + 1) + k) mod PIPESIZE = (unat (pi_nread x + 1) mod PIPESIZE + k) mod PIPESIZE" by (rule mod_add_left_eq [symmetric])
    also have "\<dots> = ((unat (pi_nread x) + 1) mod PIPESIZE + k) mod PIPESIZE" by (simp only: ring_index unat_1)
    also have "\<dots> = (unat (pi_nread x) + 1 + k) mod PIPESIZE" by (rule mod_add_left_eq)
    finally show ?thesis by simp
  qed
  then have e: "pqueue x = pi_data x ! (unat (pi_nread x) mod PIPESIZE) # pqueue (x\<lparr>pi_nread := pi_nread x + 1\<rparr>)"
    by (simp add: pqueue_def up s o_def)
  show "pi_data x ! (unat (pi_nread x) mod PIPESIZE) = c" "pqueue (x\<lparr>pi_nread := pi_nread x + 1\<rparr>) = q" using e ne by simp_all
qed

section \<open>The loops\<close>

text \<open>A process whose page table is well formed, and the accessible bytes of its memory.\<close>

lemma copyin_byte:
  assumes "wf_tbl 2 (mem s) pt" and "acc (mem s) pt va"
  shows "copyin pt va 1 s = Ok (0, [ubyte (mem s) pt va]) s"
proof -
  have "acc_prefix (mem s) pt va (Suc 0) = Suc 0" using assms(2) by simp
  then show ?thesis using copyin_spec [OF assms(1), of va 1] by (simp add: load_bytes_Suc)
qed

text \<open>\<^verbatim>\<open>pipewrite\<close> appends the bytes while there is room; when the queue is full it wakes the readers and sleeps.\<close>

lemma pipewrite_loop_spec:
  fixes s :: "'z file_state_scheme"
  assumes "pipe_ok (pipes s pi)" and "pi_readopen (pipes s pi)" and "p_killed (pr s p) = 0" and "wf_tbl 2 (mem s) (p_pagetable (pr s p))"
    and "\<forall>j<k. acc (mem s) (p_pagetable (pr s p)) (va + of_nat (i + j))"
  shows "\<exists>x. pipe_ok x \<and> pi_readopen x \<and> pi_writeopen x = pi_writeopen (pipes s pi) \<and>
     pqueue x = take PIPESIZE (pqueue (pipes s pi) @ map (\<lambda>j. ubyte (mem s) (p_pagetable (pr s p)) (va + of_nat (i + j))) [0..<k]) \<and>
     pipewrite_loop p pi va i k s =
       (if length (pqueue (pipes s pi)) + k \<le> PIPESIZE then Ok (Some (i + k)) (s\<lparr>pipes := (pipes s)(pi := x)\<rparr>)
        else kbind (wakeup (Ch_pipe_nread pi) (s\<lparr>pipes := (pipes s)(pi := x)\<rparr>)) (\<lambda>_ t. sleep (Ch_pipe_nwrite pi) (Pipe_lock pi) t))"
  using assms
proof (induction k arbitrary: i s)
  case 0
  then show ?case using pqueue_le by (intro exI [of _ "pipes s pi"]) simp
next
  case (Suc k)
  let ?x = "pipes s pi" and ?pt = "p_pagetable (pr s p)"
  show ?case
  proof (cases "length (pqueue ?x) = PIPESIZE")
    case True
    then have "pi_nwrite ?x = pi_nread ?x + of_nat PIPESIZE" using pipe_full [OF Suc.prems(1)] by simp
    then have "pipewrite_loop p pi va i (Suc k) s = kbind (wakeup (Ch_pipe_nread pi) s) (\<lambda>_ t. sleep (Ch_pipe_nwrite pi) (Pipe_lock pi) t)"
      using Suc.prems(2,3) by simp
    moreover have "s\<lparr>pipes := (pipes s)(pi := ?x)\<rparr> = s" by simp
    ultimately show ?thesis using Suc.prems(1,2) True by (intro exI [of _ ?x]) simp
  next
    case False
    then have room: "length (pqueue ?x) < PIPESIZE" using pqueue_le [OF Suc.prems(1)] by simp
    define c where "c = ubyte (mem s) ?pt (va + of_nat i)"
    have cp: "copyin ?pt (va + of_nat i) 1 s = Ok (0, [c]) s"
      unfolding c_def by (rule copyin_byte [OF Suc.prems(4)]) (use Suc.prems(5) [rule_format, of 0] in simp)
    define y where "y = ?x\<lparr>pi_data := (pi_data ?x)[unat (pi_nwrite ?x) mod PIPESIZE := c], pi_nwrite := pi_nwrite ?x + 1\<rparr>"
    define t where "t = s\<lparr>pipes := (pipes s)(pi := y)\<rparr>"
    note Y = pqueue_put [OF Suc.prems(1) room, of c, folded y_def]
    have t: "pipes t pi = y" "mem t = mem s" "pr t p = pr s p" "pi_readopen y" "pi_writeopen y = pi_writeopen ?x" "p_killed (pr s p) = 0"
      using Suc.prems(2,3) by (simp_all add: t_def y_def)
    have "\<forall>j<k. acc (mem t) (p_pagetable (pr t p)) (va + of_nat (Suc i + j))" using Suc.prems(5) t by (metis Suc_less_eq add_Suc_shift)
    from Suc.IH [of t "Suc i", unfolded t(1,2,3,5), OF Y(1) t(4,6)] this Suc.prems(4) obtain x where
      x: "pipe_ok x" "pi_readopen x" "pi_writeopen x = pi_writeopen ?x"
        "pqueue x = take PIPESIZE (pqueue y @ map (\<lambda>j. ubyte (mem s) ?pt (va + of_nat (Suc i + j))) [0..<k])"
        "pipewrite_loop p pi va (Suc i) k t = (if length (pqueue y) + k \<le> PIPESIZE then Ok (Some (Suc i + k)) (t\<lparr>pipes := (pipes t)(pi := x)\<rparr>)
          else kbind (wakeup (Ch_pipe_nread pi) (t\<lparr>pipes := (pipes t)(pi := x)\<rparr>)) (\<lambda>_ t. sleep (Ch_pipe_nwrite pi) (Pipe_lock pi) t))"
      unfolding t(1,2,3) by auto
    have loop: "pipewrite_loop p pi va i (Suc k) s = pipewrite_loop p pi va (Suc i) k t"
      using Suc.prems(2,3) pipe_full [OF Suc.prems(1)] False cp by (simp add: t_def y_def upd_pipe_def)
    have tp: "t\<lparr>pipes := (pipes t)(pi := x)\<rparr> = s\<lparr>pipes := (pipes s)(pi := x)\<rparr>" by (simp add: t_def)
    have len: "length (pqueue y) + k = length (pqueue ?x) + Suc k" using Y(2) by simp
    have "map (\<lambda>j. ubyte (mem s) ?pt (va + of_nat (i + j))) [0..<Suc k] = c # map (\<lambda>j. ubyte (mem s) ?pt (va + of_nat (Suc i + j))) [0..<k]"
      by (simp add: c_def map_upt_Suc ac_simps del: upt_Suc)
    then have q: "pqueue x = take PIPESIZE (pqueue ?x @ map (\<lambda>j. ubyte (mem s) ?pt (va + of_nat (i + j))) [0..<Suc k])"
      unfolding x(4) Y(2) by simp
    show ?thesis using x(1-3) q unfolding loop x(5) tp len by (intro exI [of _ x]) simp
  qed
qed

text \<open>\<^verbatim>\<open>piperead\<close> stores the bytes at the head of the queue, in order, at the addresses of the caller and removes them.\<close>

lemma user_ready_pipes [simp]:
  "user_ready pt K xs (s\<lparr>pipes := f\<rparr>) = user_ready pt K xs s" "user_ready pt K xs (s\<lparr>mem := m, pipes := f\<rparr>) = user_ready pt K xs (s\<lparr>mem := m\<rparr>)"
  "user_ready pt K xs (s\<lparr>pipes := f, mem := m\<rparr>) = user_ready pt K xs (s\<lparr>mem := m\<rparr>)"
  by (simp_all add: user_ready_def) (simp_all cong: conj_cong add: space_ok_view [of "s\<lparr>pipes := f\<rparr>" s] space_ok_view [of "s\<lparr>mem := m, pipes := f\<rparr>" "s\<lparr>mem := m\<rparr>"]
      space_ok_view [of "s\<lparr>pipes := f, mem := m\<rparr>" "s\<lparr>mem := m\<rparr>"])

lemma copyout_byte:
  assumes "user_ready pt K xs s" and "acc (mem s) pt va"
  shows "\<exists>m. copyout pt va [c] 1 s = Ok 0 (s\<lparr>mem := m\<rparr>) \<and> user_ready pt K xs (s\<lparr>mem := m\<rparr>) \<and> acc m pt = acc (mem s) pt
     \<and> (\<forall>a. acc (mem s) pt a \<longrightarrow> ubyte m pt a = ((ubyte (mem s) pt)(va := c)) a)"
proof -
  have ok: "space_ok s pt K xs" "top_kernel (mem s) pt" using assms(1) by (simp_all add: user_ready_def)
  have p: "acc_prefix (mem s) pt va (unat (1 :: u64)) = 1" using assms(2) by simp
  from copyout_spec [OF ok, of 1 "[c]" va] obtain t where
    t: "copyout pt va [c] 1 s = Ok 0 t" "t = s\<lparr>mem := mem t\<rparr>" "space_ok t pt K xs" "\<forall>a. pte_of (mem t) pt a = pte_of (mem s) pt a"
      "\<forall>a. acc (mem s) pt a \<longrightarrow> ubyte (mem t) pt a = store_bytes (ubyte (mem s) pt) va [c] a"
    unfolding p by auto
  have may: "acc (mem t) pt = acc (mem s) pt" using t(4) by (simp add: acc_def fun_eq_iff)
  then have "user_ready pt K xs t" using t(3) ok(2) by (simp add: user_ready_def top_kernel_def)
  moreover have "store_bytes (ubyte (mem s) pt) va [c] = (ubyte (mem s) pt)(va := c)" using store_bytes_Cons [of "[]" "ubyte (mem s) pt" va c] by simp
  ultimately show ?thesis using t(1,5) may t(2) by (intro exI [of _ "mem t"]) auto
qed

lemma piperead_loop_spec:
  fixes s :: "'z file_state_scheme"
  assumes "pipe_ok (pipes s pi)" and "pt = p_pagetable (pr s p)" and "user_ready pt K xs s" and "n = min k (length (pqueue (pipes s pi)))"
    and "\<forall>j<n. acc (mem s) pt (va + of_nat (i + j))"
  shows "\<exists>m x. piperead_loop p pi va i k s = Ok (i + n) (s\<lparr>mem := m, pipes := (pipes s)(pi := x)\<rparr>) \<and> pipe_ok x
     \<and> pqueue x = drop n (pqueue (pipes s pi)) \<and> pi_readopen x = pi_readopen (pipes s pi) \<and> pi_writeopen x = pi_writeopen (pipes s pi)
     \<and> user_ready pt K xs (s\<lparr>mem := m\<rparr>) \<and> acc m pt = acc (mem s) pt
     \<and> (\<forall>a. acc (mem s) pt a \<longrightarrow> ubyte m pt a = store_bytes (ubyte (mem s) pt) (va + of_nat i) (take n (pqueue (pipes s pi))) a)"
  using assms
proof (induction k arbitrary: i s n)
  case 0
  then show ?case by (intro exI [of _ "mem s"] exI [of _ "pipes s pi"]) simp
next
  case (Suc k)
  let ?x = "pipes s pi"
  show ?case
  proof (cases "pqueue ?x")
    case Nil
    then show ?thesis using Suc.prems pipe_empty [of ?x] by (intro exI [of _ "mem s"] exI [of _ ?x]) simp
  next
    case (Cons c q)
    note X = pqueue_take [OF Suc.prems(1) Cons]
    have small: "length q < 2 ^ 64" using pqueue_le [OF Suc.prems(1)] Cons by (simp del: length_pqueue add: PIPESIZE_def)
    have ne: "pi_nread ?x \<noteq> pi_nwrite ?x" using Cons pipe_empty [of ?x] by simp
    define y where "y = ?x\<lparr>pi_nread := pi_nread ?x + 1\<rparr>"
    define t where "t = s\<lparr>pipes := (pipes s)(pi := y)\<rparr>"
    have tp: "procs t = procs s" by (simp add: t_def)
    have n: "n = Suc (min k (length q))" using Suc.prems(4) unfolding Cons by simp
    have "acc (mem t) pt (va + of_nat i)" using Suc.prems(5) [rule_format, of 0] n by (simp add: t_def)
    moreover have "user_ready pt K xs t" using Suc.prems(3) by (simp add: t_def)
    ultimately obtain m where m: "copyout pt (va + of_nat i) [c] 1 t = Ok 0 (t\<lparr>mem := m\<rparr>)" "user_ready pt K xs (t\<lparr>mem := m\<rparr>)" "acc m pt = acc (mem s) pt"
        "\<forall>a. acc (mem s) pt a \<longrightarrow> ubyte m pt a = ((ubyte (mem s) pt)(va + of_nat i := c)) a"
      using copyout_byte [of pt K xs t "va + of_nat i" c] by (auto simp: t_def)
    define u where "u = t\<lparr>mem := m\<rparr>"
    have u: "pipes u pi = y" "mem u = m" "pr u p = pr s p" by (simp_all add: u_def t_def)
    have acc': "\<forall>j<min k (length q). acc m pt (va + of_nat (Suc i + j))" unfolding m(3) using Suc.prems(5) n by (metis Suc_less_eq add_Suc_shift)
    have "\<exists>m' x. piperead_loop p pi va (Suc i) k u = Ok (Suc i + min k (length q)) (u\<lparr>mem := m', pipes := (pipes u)(pi := x)\<rparr>) \<and> pipe_ok x
     \<and> pqueue x = drop (min k (length q)) (pqueue (pipes u pi)) \<and> pi_readopen x = pi_readopen (pipes u pi) \<and> pi_writeopen x = pi_writeopen (pipes u pi)
     \<and> user_ready pt K xs (u\<lparr>mem := m'\<rparr>) \<and> acc m' pt = acc (mem u) pt
     \<and> (\<forall>a. acc (mem u) pt a \<longrightarrow> ubyte m' pt a = store_bytes (ubyte (mem u) pt) (va + of_nat (Suc i)) (take (min k (length q)) (pqueue (pipes u pi))) a)"
      by (rule Suc.IH) (use X [folded y_def] Suc.prems(2) m(2) acc' in \<open>simp_all del: length_pqueue add: u u_def [symmetric]\<close>)
    then obtain m' x where x: "piperead_loop p pi va (Suc i) k u = Ok (Suc i + min k (length q)) (u\<lparr>mem := m', pipes := (pipes u)(pi := x)\<rparr>)" "pipe_ok x"
        "pqueue x = drop (min k (length q)) q" "pi_readopen x = pi_readopen ?x" "pi_writeopen x = pi_writeopen ?x"
        "user_ready pt K xs (u\<lparr>mem := m'\<rparr>)" "acc m' pt = acc (mem s) pt"
        "\<forall>a. acc (mem s) pt a \<longrightarrow> ubyte m' pt a = store_bytes (ubyte m pt) (va + of_nat (Suc i)) (take (min k (length q)) q) a"
      unfolding u m(3) X(3) [folded y_def] by (auto simp: y_def)
    have st: "u\<lparr>mem := m', pipes := (pipes u)(pi := x)\<rparr> = s\<lparr>mem := m', pipes := (pipes s)(pi := x)\<rparr>" by (simp add: u_def t_def)
    have loop: "piperead_loop p pi va i (Suc k) s = Ok (i + n) (s\<lparr>mem := m', pipes := (pipes s)(pi := x)\<rparr>)"
      using ne X(1) Suc.prems(2) m(1) x(1) tp unfolding st n by (simp add: upd_pipe_def t_def [symmetric] y_def [symmetric] u_def [symmetric] Let_def)
    have bytes: "ubyte m' pt a = store_bytes (ubyte (mem s) pt) (va + of_nat i) (take n (pqueue ?x)) a" if "acc (mem s) pt a" for a
    proof -
      have "ubyte m' pt a = store_bytes (ubyte m pt) (va + of_nat i + 1) (take (min k (length q)) q) a" using x(8) that by (simp add: ac_simps)
      also have "\<dots> = store_bytes ((ubyte (mem s) pt)(va + of_nat i := c)) (va + of_nat i + 1) (take (min k (length q)) q) a"
        by (simp only: store_bytes_def m(4) [rule_format, OF that])
      also have "\<dots> = store_bytes (ubyte (mem s) pt) (va + of_nat i) (c # take (min k (length q)) q) a"
        by (subst store_bytes_Cons) (use small in simp_all)
      finally show ?thesis by (simp add: Cons n)
    qed
    have ready: "user_ready pt K xs (s\<lparr>mem := m'\<rparr>)" using x(6) by (simp add: u_def t_def)
    have "pqueue x = drop n (pqueue ?x)" by (simp only: x(3) Cons n drop_Suc_Cons)
    then show ?thesis using loop x(2,4,5,7) ready bytes by (intro exI [of _ m'] exI [of _ x] conjI allI impI)
  qed
qed

section \<open>Under the lock\<close>

lemma user_ready_held: "l \<noteq> Kmem_lock \<Longrightarrow> user_ready pt K xs (s\<lparr>held := l # held s\<rparr>) = user_ready pt K xs s"
  by (simp add: user_ready_def space_ok_def pt_ok_def kmem_ok_def phys_page_def [abs_def])

text \<open>Waking somebody while holding a lock, then releasing it: the pipe and the memory stay.\<close>

lemma wake_and_release:
  fixes s :: "'z file_state_scheme"
  assumes "in_proc p (s\<lparr>held := h\<rparr>)" and "held s = l # h" and "\<forall>q. l \<noteq> Proc_lock q" and "l \<noteq> Queue_lock" and "l \<notin> set h"
  shows "\<exists>t. kbind (wakeup ch s) (\<lambda>_ s. release l s) = Ok () t \<and> pipes t = pipes s \<and> mem t = mem s \<and> held t = h \<and> in_proc p t"
proof -
  have "in_proc p s" using assms by (auto simp: in_proc_def)
  from wakeup_woken [OF this, of ch] obtain t where t: "wakeup ch s = Ok () t" "woken_only s t" "in_proc p t" by blast
  have e: "t = s\<lparr>procs := procs t, queue_counter := queue_counter t\<rparr>" using t(2) by (simp add: woken_only_def)
  have f: "held t = held s" "pipes t = pipes s" "mem t = mem s" by (subst e, simp)+
  have "release l t = Ok () (t\<lparr>held := h\<rparr>)" using f assms(2) by simp
  moreover have "in_proc p (t\<lparr>held := h\<rparr>)" using t(3) f assms(1) by (simp add: in_proc_def)
  ultimately show ?thesis using t(1) f by auto
qed

text \<open>A process in the kernel, holding no lock, with its memory ready, and a well-formed pipe.\<close>

definition pipe_ready :: "nat \<Rightarrow> addr \<Rightarrow> nat set \<Rightarrow> addr list \<Rightarrow> 'z file_state_scheme \<Rightarrow> bool" where
  "pipe_ready p pi K xs s \<longleftrightarrow> in_proc p s \<and> held s = [] \<and> pipe_ok (pipes s pi) \<and> user_ready (p_pagetable (pr s p)) K xs s"

lemma pipewrite_spec:
  assumes r: "pipe_ready p pi K xs s" and o: "pi_readopen (pipes s pi)" "p_killed (pr s p) = 0"
    and a: "\<forall>j<nat (sint n). acc (mem s) (p_pagetable (pr s p)) (va + of_nat j)"
  shows "\<exists>t. pipewrite pi va n s = (if length (pqueue (pipes s pi)) + nat (sint n) \<le> PIPESIZE then Ok (int (nat (sint n))) t else Sleeps (Ch_pipe_nwrite pi) t)
     \<and> pipe_ok (pipes t pi) \<and> mem t = mem s
     \<and> pqueue (pipes t pi) = take PIPESIZE (pqueue (pipes s pi) @ load_bytes (ubyte (mem s) (p_pagetable (pr s p))) va (nat (sint n)))"
proof -
  let ?pt = "p_pagetable (pr s p)" and ?k = "nat (sint n)" and ?q = "pqueue (pipes s pi)"
  have R: "in_proc p s" "held s = []" "pipe_ok (pipes s pi)" "user_ready ?pt K xs s" using r by (simp_all add: pipe_ready_def)
  have p: "curproc s = Some p" "p < length (procs s)" using R(1) by (simp_all add: in_proc_def)
  define u where "u = s\<lparr>held := [Pipe_lock pi]\<rparr>"
  have u: "pipes u = pipes s" "procs u = procs s" "mem u = mem s" "held u = [Pipe_lock pi]" by (simp_all add: u_def)
  have wf: "wf_tbl 2 (mem u) (p_pagetable (pr u p))" using R(4) u by (simp add: user_ready_def space_ok_def pt_ok_def)
  from pipewrite_loop_spec [of u pi p ?k va 0, unfolded u(1-3)] R(3) o wf a u obtain x where
    x: "pipe_ok x" "pqueue x = take PIPESIZE (?q @ map (\<lambda>j. ubyte (mem s) ?pt (va + of_nat j)) [0..<?k])"
      "pipewrite_loop p pi va 0 ?k u = (if length ?q + ?k \<le> PIPESIZE then Ok (Some ?k) (u\<lparr>pipes := (pipes s)(pi := x)\<rparr>)
        else kbind (wakeup (Ch_pipe_nread pi) (u\<lparr>pipes := (pipes s)(pi := x)\<rparr>)) (\<lambda>_ t. sleep (Ch_pipe_nwrite pi) (Pipe_lock pi) t))" by auto
  define v where "v = u\<lparr>pipes := (pipes s)(pi := x)\<rparr>"
  have v: "pipes v pi = x" "mem v = mem s" "held v = [Pipe_lock pi]" "in_proc p (v\<lparr>held := []\<rparr>)"
    using R(1,2) by (simp_all add: v_def u_def in_proc_def)
  have pw: "pipewrite pi va n s = kbind (pipewrite_loop p pi va 0 ?k u) (\<lambda>r s.
       case r of None \<Rightarrow> kbind (release (Pipe_lock pi) s) (\<lambda>_ s. Ok (-1) s)
       | Some i \<Rightarrow> kbind (wakeup (Ch_pipe_nread pi) s) (\<lambda>_ s. kbind (release (Pipe_lock pi) s) (\<lambda>_ s. Ok (int i) s)))"
    using p R(2) by (simp add: pipewrite_def with_proc_def myproc_def u_def)
  have lb: "load_bytes (ubyte (mem s) ?pt) va ?k = map (\<lambda>j. ubyte (mem s) ?pt (va + of_nat j)) [0..<?k]" by (simp add: load_bytes_def)
  show ?thesis
  proof (cases "length ?q + ?k \<le> PIPESIZE")
    case True
    from wake_and_release [OF v(4,3), of "Ch_pipe_nread pi"] obtain t where
      t: "kbind (wakeup (Ch_pipe_nread pi) v) (\<lambda>_ s. release (Pipe_lock pi) s) = Ok () t" "pipes t = pipes v" "mem t = mem v" by auto
    have "kbind (wakeup (Ch_pipe_nread pi) v) (\<lambda>_ s. kbind (release (Pipe_lock pi) s) (\<lambda>_ s. Ok (int ?k) s)) = Ok (int ?k) t"
      using t(1) by (simp add: kbind_assoc [symmetric])
    then have "pipewrite pi va n s = Ok (int ?k) t" unfolding pw x(3) using True by (simp add: v_def [symmetric])
    then show ?thesis using True t(2,3) v x(1,2) lb by auto
  next
    case False
    have "in_proc p v" using v(3,4) by (simp add: in_proc_def)
    from wakeup_woken [OF this, of "Ch_pipe_nread pi"] obtain t where t: "wakeup (Ch_pipe_nread pi) v = Ok () t" "woken_only v t" "in_proc p t" by blast
    have e: "t = v\<lparr>procs := procs t, queue_counter := queue_counter t\<rparr>" using t(2) by (simp add: woken_only_def)
    have f: "held t = [Pipe_lock pi]" "pipes t = pipes v" "mem t = mem s" using v by (subst e, simp)+
    define w where "w = upd_proc p (\<lambda>x. x\<lparr>p_chan := Ch_pipe_nwrite pi, p_state := SLEEPING\<rparr>) (t\<lparr>held := [Proc_lock p]\<rparr>)"
    have "sleep (Ch_pipe_nwrite pi) (Pipe_lock pi) t = (Sleeps (Ch_pipe_nwrite pi) w :: (nat option, 'a file_state_scheme) res)"
      unfolding w_def by (subst sleep_spec [of t p]) (use t(3) f in \<open>simp_all add: in_proc_def\<close>)
    then have "pipewrite pi va n s = Sleeps (Ch_pipe_nwrite pi) w" unfolding pw x(3) using False t(1) by (simp add: v_def [symmetric])
    moreover have "pipes w = pipes v" "mem w = mem s" using f by (simp_all add: w_def upd_proc_def)
    ultimately show ?thesis using False v x(1,2) lb by auto
  qed
qed

lemma piperead_spec:
  assumes r: "pipe_ready p pi K xs s" and ne: "pqueue (pipes s pi) \<noteq> [] \<or> \<not> pi_writeopen (pipes s pi)"
    and k: "k = min (nat (sint n)) (length (pqueue (pipes s pi)))"
    and a: "\<forall>j<k. acc (mem s) (p_pagetable (pr s p)) (va + of_nat j)"
  shows "\<exists>t. piperead pi va n s = Ok (int k) t \<and> pipe_ok (pipes t pi) \<and> pqueue (pipes t pi) = drop k (pqueue (pipes s pi))
     \<and> (\<forall>a. acc (mem s) (p_pagetable (pr s p)) a \<longrightarrow> ubyte (mem t) (p_pagetable (pr s p)) a
          = store_bytes (ubyte (mem s) (p_pagetable (pr s p))) va (take k (pqueue (pipes s pi))) a)"
proof -
  let ?pt = "p_pagetable (pr s p)" and ?q = "pqueue (pipes s pi)"
  have R: "in_proc p s" "held s = []" "pipe_ok (pipes s pi)" "user_ready ?pt K xs s" using r by (simp_all add: pipe_ready_def)
  have p: "curproc s = Some p" "p < length (procs s)" using R(1) by (simp_all add: in_proc_def)
  define u where "u = s\<lparr>held := [Pipe_lock pi]\<rparr>"
  have u: "pipes u = pipes s" "procs u = procs s" "mem u = mem s" by (simp_all add: u_def)
  have ur: "user_ready ?pt K xs u" using R(2,4) user_ready_held [of "Pipe_lock pi" ?pt K xs s] by (simp add: u_def)
  from piperead_loop_spec [of u pi ?pt p K xs k "nat (sint n)" va 0, unfolded u] R(3) ur k a obtain m x where
    x: "piperead_loop p pi va 0 (nat (sint n)) u = Ok k (u\<lparr>mem := m, pipes := (pipes s)(pi := x)\<rparr>)" "pipe_ok x" "pqueue x = drop k ?q"
      "\<forall>a. acc (mem s) ?pt a \<longrightarrow> ubyte m ?pt a = store_bytes (ubyte (mem s) ?pt) va (take k ?q) a" by auto
  define v where "v = u\<lparr>mem := m, pipes := (pipes s)(pi := x)\<rparr>"
  have v: "pipes v pi = x" "mem v = m" "held v = [Pipe_lock pi]" "in_proc p (v\<lparr>held := []\<rparr>)"
    using R(1,2) by (simp_all add: v_def u_def in_proc_def)
  from wake_and_release [OF v(4,3), of "Ch_pipe_nwrite pi"] obtain t where
    t: "kbind (wakeup (Ch_pipe_nwrite pi) v) (\<lambda>_ s. release (Pipe_lock pi) s) = Ok () t" "pipes t = pipes v" "mem t = mem v" by auto
  have "kbind (wakeup (Ch_pipe_nwrite pi) v) (\<lambda>_ s. kbind (release (Pipe_lock pi) s) (\<lambda>_ s. Ok (int k) s)) = Ok (int k) t"
    using t(1) by (simp add: kbind_assoc [symmetric])
  moreover have "\<not> (pi_nread (pipes s pi) = pi_nwrite (pipes s pi) \<and> pi_writeopen (pipes s pi))" using ne by (auto simp: pipe_empty)
  ultimately have "piperead pi va n s = Ok (int k) t"
    using p R(2) x(1) by (auto simp: piperead_def with_proc_def myproc_def u_def [symmetric] v_def [symmetric] u)
  then show ?thesis using t(2,3) v x(2-4) by auto
qed

lemma pipe_blocked:
  assumes r: "pipe_ready p pi K xs s"
  shows "pqueue (pipes s pi) = [] \<Longrightarrow> pi_writeopen (pipes s pi) \<Longrightarrow>
      \<exists>t. piperead pi va n s = (if p_killed (pr s p) \<noteq> 0 then Ok (-1) t else Sleeps (Ch_pipe_nread pi) t) \<and> pipes t = pipes s \<and> mem t = mem s"
    and "0 < sint n \<Longrightarrow> \<not> pi_readopen (pipes s pi) \<or> p_killed (pr s p) \<noteq> 0 \<Longrightarrow> pipewrite pi va n s = Ok (-1) s"
proof -
  have R: "in_proc p s" "held s = []" using r by (simp_all add: pipe_ready_def)
  have p: "curproc s = Some p" "p < length (procs s)" using R(1) by (simp_all add: in_proc_def)
  have hs: "s\<lparr>held := []\<rparr> = s" using R(2) by (cases s) simp
  let ?u = "s\<lparr>held := [Pipe_lock pi]\<rparr>"
  assume "pqueue (pipes s pi) = []" "pi_writeopen (pipes s pi)"
  then have e: "pi_nread (pipes s pi) = pi_nwrite (pipes s pi)" "pi_writeopen (pipes s pi)" by (simp_all add: pipe_empty)
  have "(sleep (Ch_pipe_nread pi) (Pipe_lock pi) ?u :: (int, 'a file_state_scheme) res)
      = Sleeps (Ch_pipe_nread pi) (upd_proc p (\<lambda>x. x\<lparr>p_chan := Ch_pipe_nread pi, p_state := SLEEPING\<rparr>) (?u\<lparr>held := [Proc_lock p]\<rparr>))"
    by (subst sleep_spec [of ?u p]) (use p in simp_all)
  then show "\<exists>t. piperead pi va n s = (if p_killed (pr s p) \<noteq> 0 then Ok (-1) t else Sleeps (Ch_pipe_nread pi) t) \<and> pipes t = pipes s \<and> mem t = mem s"
    using p R(2) e hs by (auto simp: piperead_def with_proc_def myproc_def upd_proc_def)
next
  have R: "in_proc p s" "held s = []" using r by (simp_all add: pipe_ready_def)
  have p: "curproc s = Some p" "p < length (procs s)" using R(1) by (simp_all add: in_proc_def)
  have hs: "s\<lparr>held := []\<rparr> = s" using R(2) by (cases s) simp
  assume "0 < sint n" and c: "\<not> pi_readopen (pipes s pi) \<or> p_killed (pr s p) \<noteq> 0"
  then obtain k where "nat (sint n) = Suc k" by (metis gr0_implies_Suc zero_less_nat_eq)
  then show "pipewrite pi va n s = Ok (-1) s" using p R(2) c hs by (simp add: pipewrite_def with_proc_def myproc_def)
qed

section \<open>Properties\<close>

text \<open>
  \<^bold>\<open>C10\<close> A pipe is a first-in first-out queue of at most 512 bytes, whatever the free-running counters are, also across their
  wrap-around. \<^verbatim>\<open>pipewrite\<close> appends the bytes of the caller in order when they fit, and otherwise fills the queue and sleeps; with the
  read end closed or the process killed it returns -1. \<^verbatim>\<open>piperead\<close> stores the first bytes of the queue at the caller's addresses,
  removes exactly them, and returns their number; on an empty queue it sleeps while the write end is open and returns 0 when it is
  closed.
\<close>

theorem pipe_is_queue:
  assumes r: "pipe_ready p pi K xs s" and "pt = p_pagetable (pr s p)" and "x = pipes s pi" and "len = nat (sint n)" and "k = min len (length (pqueue x))"
  shows "(if \<not> pi_readopen x \<or> p_killed (pr s p) \<noteq> 0 then 0 < len \<longrightarrow> pipewrite pi va n s = Ok (-1) s
     else (\<forall>j<len. acc (mem s) pt (va + of_nat j)) \<longrightarrow>
       (\<exists>t. pipewrite pi va n s = (if length (pqueue x) + len \<le> PIPESIZE then Ok (int len) t else Sleeps (Ch_pipe_nwrite pi) t)
         \<and> pipe_ok (pipes t pi) \<and> pqueue (pipes t pi) = take PIPESIZE (pqueue x @ load_bytes (ubyte (mem s) pt) va len)))
   \<and> (if pqueue x = [] \<and> pi_writeopen x
     then \<exists>t. piperead pi va n s = (if p_killed (pr s p) \<noteq> 0 then Ok (-1) t else Sleeps (Ch_pipe_nread pi) t) \<and> pipes t = pipes s
     else (\<forall>j<k. acc (mem s) pt (va + of_nat j)) \<longrightarrow>
       (\<exists>t. piperead pi va n s = Ok (int k) t \<and> pipe_ok (pipes t pi) \<and> pqueue (pipes t pi) = drop k (pqueue x)
         \<and> (\<forall>a. acc (mem s) pt a \<longrightarrow> ubyte (mem t) pt a = store_bytes (ubyte (mem s) pt) va (take k (pqueue x)) a)))"
proof (rule conjI)
  note defs = assms(2-5)
  show "if \<not> pi_readopen x \<or> p_killed (pr s p) \<noteq> 0 then 0 < len \<longrightarrow> pipewrite pi va n s = Ok (-1) s
     else (\<forall>j<len. acc (mem s) pt (va + of_nat j)) \<longrightarrow>
       (\<exists>t. pipewrite pi va n s = (if length (pqueue x) + len \<le> PIPESIZE then Ok (int len) t else Sleeps (Ch_pipe_nwrite pi) t)
         \<and> pipe_ok (pipes t pi) \<and> pqueue (pipes t pi) = take PIPESIZE (pqueue x @ load_bytes (ubyte (mem s) pt) va len))"
  proof (cases "\<not> pi_readopen x \<or> p_killed (pr s p) \<noteq> 0")
    case True
    then show ?thesis using pipe_blocked(2) [OF r, of n va] unfolding defs(2,3) by simp
  next
    case False
    then have "pi_readopen (pipes s pi)" "p_killed (pr s p) = 0" by (simp_all add: defs(2))
    note W = pipewrite_spec [OF r this, of n va, folded defs(1-3)]
    have "\<exists>t. pipewrite pi va n s = (if length (pqueue x) + len \<le> PIPESIZE then Ok (int len) t else Sleeps (Ch_pipe_nwrite pi) t)
         \<and> pipe_ok (pipes t pi) \<and> pqueue (pipes t pi) = take PIPESIZE (pqueue x @ load_bytes (ubyte (mem s) pt) va len)"
      if "\<forall>j<len. acc (mem s) pt (va + of_nat j)" using W [OF that] by blast
    then show ?thesis unfolding if_not_P [OF False] by blast
  qed
  show "if pqueue x = [] \<and> pi_writeopen x
     then \<exists>t. piperead pi va n s = (if p_killed (pr s p) \<noteq> 0 then Ok (-1) t else Sleeps (Ch_pipe_nread pi) t) \<and> pipes t = pipes s
     else (\<forall>j<k. acc (mem s) pt (va + of_nat j)) \<longrightarrow>
       (\<exists>t. piperead pi va n s = Ok (int k) t \<and> pipe_ok (pipes t pi) \<and> pqueue (pipes t pi) = drop k (pqueue x)
         \<and> (\<forall>a. acc (mem s) pt a \<longrightarrow> ubyte (mem t) pt a = store_bytes (ubyte (mem s) pt) va (take k (pqueue x)) a))"
  proof (cases "pqueue x = [] \<and> pi_writeopen x")
    case True
    then obtain t where "piperead pi va n s = (if p_killed (pr s p) \<noteq> 0 then Ok (-1) t else Sleeps (Ch_pipe_nread pi) t)" "pipes t = pipes s"
      using pipe_blocked(1) [OF r, of va n] unfolding defs(2) by blast
    then show ?thesis unfolding if_P [OF True] by blast
  next
    case False
    then have "pqueue (pipes s pi) \<noteq> [] \<or> \<not> pi_writeopen (pipes s pi)" by (simp add: defs(2))
    note W = piperead_spec [OF r this assms(5) [unfolded defs(2,3)], of va, folded defs(1,2)]
    show ?thesis unfolding if_not_P [OF False] using W by blast
  qed
qed

text \<open>A state with one pipe whose write counter has wrapped around: two bytes, one at each end of the array.\<close>

definition demo_pipe :: pipe where
  "demo_pipe = \<lparr>pi_data = 8 # replicate 510 0 @ [7], pi_nread = 0xFFFFFFFF, pi_nwrite = 1, pi_readopen = True, pi_writeopen = True\<rparr>"

definition demo_files :: "kalloc_state \<Rightarrow> file_state" where
  "demo_files k =
     (let l = demo_zero\<lparr>held := [], mem := mem k, freelist := freelist k, k_end := k_end k, procs := (procs demo_zero)[1 := (procs demo_zero ! 1)\<lparr>p_pagetable := root_page\<rparr>]\<rparr>;
          f = log_state.extend l (fs_state.fields \<lparr>sb_magic = FSMAGIC, sb_size = 0, sb_nblocks = 0, sb_ninodes = 0, sb_nlog = 0, sb_logstart = 0,
            sb_inodestart = 0, sb_bmapstart = 0\<rparr> []);
          c = fs_state.extend f (cons_state.fields [] 0 0 0 [] 0 0 False False [] [] (\<lambda>_. True) 0 []) in
      cons_state.extend c (file_state.fields [] (\<lambda>_. demo_pipe) [] 0 False))"

lemma demo_files_fields:
  "held (demo_files k) = []" "mem (demo_files k) = mem k" "freelist (demo_files k) = freelist k" "k_end (demo_files k) = k_end k" "curproc (demo_files k) = Some 1"
  "procs (demo_files k) = (procs demo_running)[1 := (pr demo_running 1)\<lparr>p_pagetable := root_page\<rparr>]" "pipes (demo_files k) a = demo_pipe"
  by (simp_all add: demo_files_def Let_def log_state.defs fs_state.defs cons_state.defs file_state.defs demo_zero_def)

theorem pipe_is_queue_witness:
  "\<exists>s t :: file_state. pi_nwrite (pipes s 0) < pi_nread (pipes s 0) \<and> piperead 0 5 10 s = Ok 2 t \<and> pqueue (pipes t 0) = []
     \<and> ubyte (mem t) root_page 5 = 7 \<and> ubyte (mem t) root_page 6 = 8"
proof -
  obtain k :: kalloc_state and ys where u: "uvmalloc root_page 0 0x800 small = Ok 0x800 k" and
    k: "space_ok k root_page {..<1} ys" "top_kernel (mem k) root_page" "\<forall>va. unat va < 4096 \<longrightarrow> acc (mem k) root_page va"
    using user_page_small by blast
  have h: "held k = []" using uvmalloc_frame [of small root_page 0 "0x800"] u by (auto simp: kstep_def small_def dest: arg_cong [of _ _ held])
  let ?s = "demo_files k"
  note F = demo_files_fields [of k]
  have len: "length (procs demo_running) = NPROC" using demo_running_facts(1) by (simp add: quiet_def)
  have pt: "p_pagetable (pr ?s 1) = root_page" "p_killed (pr ?s 1) = 0" using len by (simp_all add: F NPROC_def demo_running_procs ready_proc_def blank_proc_def)
  have q: "pqueue demo_pipe = [7, 8]" by (simp add: pqueue_def demo_pipe_def PIPESIZE_def nth_append upt_conv_Cons)
  have "pipe_ok demo_pipe" by (simp add: pipe_ok_def demo_pipe_def PIPESIZE_def)
  moreover have "in_proc 1 ?s" using len by (simp add: in_proc_def F NPROC_def)
  moreover have "user_ready root_page {..<1} ys ?s"
    using k h space_ok_view [of ?s k root_page "{..<1}" ys] by (simp add: user_ready_def F)
  ultimately have r: "pipe_ready 1 0 {..<1} ys ?s" unfolding pipe_ready_def pt(1) F(1,7) by simp
  have acc: "acc (mem k) root_page (5 + of_nat j)" if "j < 2" for j using less_2_cases [OF that] k(3) by auto
  have "\<exists>t. piperead 0 5 10 ?s = Ok (int 2) t \<and> pipe_ok (pipes t 0) \<and> pqueue (pipes t 0) = drop 2 [7, 8]
         \<and> (\<forall>a. acc (mem ?s) root_page a \<longrightarrow> ubyte (mem t) root_page a = store_bytes (ubyte (mem ?s) root_page) 5 (take 2 [7, 8]) a)"
    using pipe_is_queue [OF r refl refl refl refl, of 10 5, unfolded pt F(7) q, THEN conjunct2] acc F(2) by simp
  then obtain t where t: "piperead 0 5 10 ?s = Ok 2 t" "pqueue (pipes t 0) = []"
    "\<forall>a. acc (mem ?s) root_page a \<longrightarrow> ubyte (mem t) root_page a = store_bytes (ubyte (mem ?s) root_page) 5 [7, 8] a" by auto
  have "ubyte (mem t) root_page 5 = 7" "ubyte (mem t) root_page 6 = 8"
    using t(3) k(3) by (simp_all add: F store_bytes_def)
  moreover have "pi_nwrite (pipes ?s 0) < pi_nread (pipes ?s 0)" by (simp add: F demo_pipe_def word_less_nat_alt)
  ultimately show ?thesis using t(1,2) by blast
qed

end
