(* ===== verification/Virtio_Props.thy ===== *)
theory Virtio_Props
  imports Virtio File_Props
begin

text \<open>
  The disk driver implements the transfer of a block: with a device that serves requests as the virtio specification says, a call
  of \<^verbatim>\<open>virtio_disk_rw\<close>, the completion interrupt and the rest of the call together have the effect \<^verbatim>\<open>disk_rw\<close> that the buffer
  cache relies on, and give all descriptors back.
\<close>

section \<open>Waking keeps the driver's state\<close>

lemma woken_vdisk:
  fixes s t :: "'z vdisk_state_scheme"
  assumes "woken_only s t"
  shows "bufs t = bufs s" "disk t = disk s" "dwrites t = dwrites s" "v_desc t = v_desc s" "v_free t = v_free s" "v_info_b t = v_info_b s"
    "v_info_status t = v_info_status s" "v_used_idx t = v_used_idx s" "v_used_dev_idx t = v_used_dev_idx s" "v_used_ring t = v_used_ring s"
    "b_disk t = b_disk s" "v_avail_idx t = v_avail_idx s" "v_avail_ring t = v_avail_ring s" "v_ops t = v_ops s" "held t = held s" "curproc t = curproc s"
    "mmio t = mmio s"
proof -
  have e: "t = s\<lparr>procs := procs t, queue_counter := queue_counter t\<rparr>" using assms by (simp add: woken_only_def)
  show "bufs t = bufs s" "disk t = disk s" "dwrites t = dwrites s" "v_desc t = v_desc s" "v_free t = v_free s" "v_info_b t = v_info_b s"
    "v_info_status t = v_info_status s" "v_used_idx t = v_used_idx s" "v_used_dev_idx t = v_used_dev_idx s" "v_used_ring t = v_used_ring s"
    "b_disk t = b_disk s" "v_avail_idx t = v_avail_idx s" "v_avail_ring t = v_avail_ring s" "v_ops t = v_ops s" "held t = held s" "curproc t = curproc s"
    "mmio t = mmio s"
    by (subst e, simp)+
qed

section \<open>Descriptors\<close>

lemma alloc_desc_first:
  assumes "i < NUM" and "v_free s ! i" and "\<forall>j<i. \<not> v_free s ! j"
  shows "alloc_desc s = Ok (Some i) (s\<lparr>v_free := (v_free s)[i := False]\<rparr>)"
  unfolding alloc_desc_def by (rule kscan_Some [where i = i]) (use assms in simp_all)

lemma alloc3_idle:
  assumes "v_free s = replicate NUM True"
  shows "alloc3_desc s = Ok (Some (0, 1, 2)) (s\<lparr>v_free := [False, False, False] @ replicate 5 True\<rparr>)"
proof -
  have r: "replicate NUM True = [True, True, True] @ replicate 5 True" by (simp add: NUM_def numeral_eq_Suc)
  have 0: "alloc_desc s = Ok (Some 0) (s\<lparr>v_free := [False, True, True] @ replicate 5 True\<rparr>)"
    by (subst alloc_desc_first [of 0]) (simp_all add: assms r, simp add: NUM_def)
  have 1: "alloc_desc (s\<lparr>v_free := [False, True, True] @ replicate 5 True\<rparr>) = Ok (Some 1) (s\<lparr>v_free := [False, False, True] @ replicate 5 True\<rparr>)"
    by (subst alloc_desc_first [of 1]) (simp_all add: NUM_def)
  have 2: "alloc_desc (s\<lparr>v_free := [False, False, True] @ replicate 5 True\<rparr>) = Ok (Some 2) (s\<lparr>v_free := [False, False, False] @ replicate 5 True\<rparr>)"
    by (subst alloc_desc_first [of 2]) (simp_all add: NUM_def less_2_cases_iff numeral_2_eq_2 less_Suc_eq)
  show ?thesis by (simp only: alloc3_desc_def 0 1 2 kbind_simps option.case)
qed

lemma free_desc_used:
  fixes s :: "'z vdisk_state_scheme"
  assumes "in_proc p s" and "i < NUM" and "\<not> v_free s ! i"
  shows "\<exists>t. free_desc i s = Ok () t \<and> woken_only (s\<lparr>v_desc := (v_desc s)[i := null_desc], v_free := (v_free s)[i := True]\<rparr>) t \<and> in_proc p t"
proof -
  have "in_proc p (s\<lparr>v_desc := (v_desc s)[i := null_desc], v_free := (v_free s)[i := True]\<rparr>)" using assms(1) by (simp add: in_proc_def)
  from wakeup_woken [OF this, of Ch_disk_free] show ?thesis using assms(2,3) by (auto simp: free_desc_def)
qed

text \<open>The chain of a request: the header, the data, the status.\<close>

definition chained :: "'z vdisk_state_scheme \<Rightarrow> bool" where
  "chained s \<longleftrightarrow> length (v_desc s) = NUM \<and> v_free s = [False, False, False] @ replicate 5 True
     \<and> d_flags (v_desc s ! 0) AND VRING_DESC_F_NEXT \<noteq> 0 \<and> d_next (v_desc s ! 0) = 1
     \<and> d_flags (v_desc s ! 1) AND VRING_DESC_F_NEXT \<noteq> 0 \<and> d_next (v_desc s ! 1) = 2
     \<and> d_flags (v_desc s ! 2) AND VRING_DESC_F_NEXT = 0"

lemma free_chain_three:
  fixes s :: "'z vdisk_state_scheme"
  assumes "in_proc p s" and "chained s"
  shows "\<exists>t. free_chain 0 s = Ok () t \<and> v_free t = replicate NUM True \<and> bufs t = bufs s \<and> disk t = disk s \<and> dwrites t = dwrites s
     \<and> held t = held s \<and> b_disk t = b_disk s \<and> v_used_idx t = v_used_idx s \<and> v_used_dev_idx t = v_used_dev_idx s \<and> in_proc p t"
proof -
  note C = assms(2) [unfolded chained_def]
  have n: "0 < NUM" "1 < NUM" "2 < NUM" by (simp_all add: NUM_def)
  have ufree: "\<not> v_free s ! 0" "\<not> v_free s ! 1" "\<not> v_free s ! 2" using C by simp_all
  from free_desc_used [OF assms(1) n(1) ufree(1)] obtain t where
    t: "free_desc 0 s = Ok () t" "woken_only (s\<lparr>v_desc := (v_desc s)[0 := null_desc], v_free := (v_free s)[0 := True]\<rparr>) t" "in_proc p t" by blast
  note T = woken_vdisk [OF t(2)]
  have t1: "\<not> v_free t ! 1" "\<not> v_free t ! 2" "v_desc t ! 1 = v_desc s ! 1" "v_desc t ! 2 = v_desc s ! 2" using C T by simp_all
  from free_desc_used [OF t(3) n(2) t1(1)] obtain u where
    u: "free_desc 1 t = Ok () u" "woken_only (t\<lparr>v_desc := (v_desc t)[1 := null_desc], v_free := (v_free t)[1 := True]\<rparr>) u" "in_proc p u" by blast
  note U = woken_vdisk [OF u(2)]
  have u1: "\<not> v_free u ! 2" "v_desc u ! 2 = v_desc s ! 2" using C T U by simp_all
  from free_desc_used [OF u(3) n(3) u1(1)] obtain v where
    v: "free_desc 2 u = Ok () v" "woken_only (u\<lparr>v_desc := (v_desc u)[2 := null_desc], v_free := (v_free u)[2 := True]\<rparr>) v" "in_proc p v" by blast
  note V = woken_vdisk [OF v(2)]
  have num: "NUM + 1 = Suc (Suc (Suc 6))" by (simp add: NUM_def)
  have "free_chain_loop (Suc (Suc (Suc k))) 0 s = Ok () v" for k
    using C t(1) u(1) v(1) t1 u1 by (simp add: Let_def)
  then have "free_chain 0 s = Ok () v" by (simp only: free_chain_def num)
  moreover have "v_free v = replicate NUM True" using C T U V by (simp add: NUM_def numeral_eq_Suc)
  ultimately show ?thesis using T U V v(3) by auto
qed

section \<open>The device\<close>

text \<open>
  The last request the driver has made available: the chain that starts at descriptor \<^verbatim>\<open>i\<close> has a header for sector \<^verbatim>\<open>2 n\<close>, the data
  of buffer \<^verbatim>\<open>b\<close>, readable by the device for a write and writable for a read, and the status byte of \<^verbatim>\<open>i\<close>.
\<close>

definition requests :: "'z vdisk_state_scheme \<Rightarrow> nat \<Rightarrow> nat \<Rightarrow> bool \<Rightarrow> u32 \<Rightarrow> bool" where
  "requests s i b write n \<longleftrightarrow>
     (let d0 = v_desc s ! i; d1 = v_desc s ! unat (d_next d0); d2 = v_desc s ! unat (d_next d1) in
      i < NUM \<and> v_avail_ring s ! (unat (v_avail_idx s - 1) mod NUM) = of_nat i
      \<and> d_addr d0 = Dma_ops i \<and> d_len d0 = 16 \<and> d_flags d0 = VRING_DESC_F_NEXT
      \<and> d_addr d1 = Dma_data b \<and> d_len d1 = of_nat BSIZE \<and> d_flags d1 = (if write then VRING_DESC_F_NEXT else VRING_DESC_F_NEXT OR VRING_DESC_F_WRITE)
      \<and> d_addr d2 = Dma_status i \<and> d_len d2 = 1 \<and> d_flags d2 = VRING_DESC_F_WRITE
      \<and> v_ops s ! i = \<lparr>rq_type = (if write then VIRTIO_BLK_T_OUT else VIRTIO_BLK_T_IN), rq_reserved = 0, rq_sector = 2 * ucast n\<rparr>)"

text \<open>
  What the device does with a request, by the virtio specification (section 5.2): it transfers the two sectors, writes 0 to the
  status byte, puts the head of the chain on the used ring and increments the index there.
\<close>

definition served :: "nat \<Rightarrow> nat \<Rightarrow> bool \<Rightarrow> u32 \<Rightarrow> 'z vdisk_state_scheme \<Rightarrow> 'z vdisk_state_scheme" where
  "served i b write n s =
     (let s = (if write then s\<lparr>disk := (disk s)(n := b_data (bu s b)), dwrites := dwrites s @ [(n, b_data (bu s b))]\<rparr>
               else upd_buf b (\<lambda>x. x\<lparr>b_data := disk s n\<rparr>) s) in
      s\<lparr>v_info_status := (v_info_status s)[i := 0], v_used_ring := (v_used_ring s)[unat (v_used_dev_idx s) mod NUM := of_nat i],
        v_used_dev_idx := v_used_dev_idx s + 1\<rparr>)"

definition serves :: "('z vdisk_state_scheme \<Rightarrow> 'z vdisk_state_scheme) \<Rightarrow> bool" where
  "serves dev \<longleftrightarrow> (\<forall>s i b write n. requests s i b write n \<longrightarrow> dev s = served i b write n s)"

text \<open>The driver between two requests.\<close>

definition idle :: "'z vdisk_state_scheme \<Rightarrow> bool" where
  "idle s \<longleftrightarrow> length (v_desc s) = NUM \<and> length (v_avail_ring s) = NUM \<and> length (v_used_ring s) = NUM \<and> length (v_ops s) = NUM
     \<and> length (v_info_b s) = NUM \<and> length (v_info_status s) = NUM \<and> v_free s = replicate NUM True \<and> v_used_idx s = v_used_dev_idx s"

lemma submit_requests:
  assumes "length (v_desc s) = NUM" "length (v_avail_ring s) = NUM" "length (v_ops s) = NUM" and "n = b_blockno (bu s b)" and "n < 2 ^ 31"
  shows "requests (submit_request b write 0 1 2 s) 0 b write n"
proof -
  have len: "0 < NUM" "1 < NUM" "2 < NUM" "unat (v_avail_idx s) mod NUM < NUM" by (simp_all add: NUM_def)
  have "unat n < 2 ^ 31" using assms(5) by (simp add: word_less_nat_alt)
  then have "unat (n * 2) = unat n * 2" by (simp add: unat_word_ariths)
  then have "ucast (n * of_nat (BSIZE div 512)) = (2 * ucast n :: u64)"
    using \<open>unat n < 2 ^ 31\<close> by (simp add: BSIZE_def word_unat_eq_iff unat_word_ariths mult.commute)
  then show ?thesis using assms len
    by (auto simp: requests_def submit_request_def set_desc_def mmio_set_def Let_def VRING_DESC_F_NEXT_def VRING_DESC_F_WRITE_def)
qed

section \<open>One request\<close>

text \<open>
  The parts of a transfer. \<^verbatim>\<open>off_cpu\<close> is the state after the scheduler has taken the sleeping process off the CPU and released its
  lock, \<^verbatim>\<open>on_cpu\<close> the state in which the scheduler dispatches it again.
\<close>

definition off_cpu :: "'z proc_state_scheme \<Rightarrow> 'z proc_state_scheme" where
  "off_cpu s = s\<lparr>held := [], curproc := None\<rparr>"

definition on_cpu :: "nat \<Rightarrow> 'z proc_state_scheme \<Rightarrow> 'z proc_state_scheme" where
  "on_cpu p s = (upd_proc p (\<lambda>x. x\<lparr>p_state := RUNNING\<rparr>) s)\<lparr>held := [Proc_lock p], curproc := Some p\<rparr>"

lemma rw_sleeps:
  fixes s :: "'z vdisk_state_scheme"
  assumes idle: "idle s" and p: "in_proc p s" "held s = []" and n: "b_blockno (bu s b) < 2 ^ 31"
  shows "\<exists>t. virtio_disk_rw b write s = Sleeps (Ch_buf b) t \<and> requests t 0 b write (b_blockno (bu s b)) \<and> chained t
     \<and> p_state (pr t p) = SLEEPING \<and> p_chan (pr t p) = Ch_buf b \<and> length (procs t) = NPROC
     \<and> bufs t = bufs s \<and> disk t = disk s \<and> dwrites t = dwrites s \<and> v_info_b t ! 0 = Some b \<and> length (v_info_b t) = NUM
     \<and> v_used_idx t = v_used_idx s \<and> v_used_dev_idx t = v_used_dev_idx s \<and> length (v_used_ring t) = NUM \<and> length (v_info_status t) = NUM"
proof -
  have I: "length (v_desc s) = NUM" "length (v_avail_ring s) = NUM" "length (v_used_ring s) = NUM" "length (v_ops s) = NUM"
    "length (v_info_b s) = NUM" "length (v_info_status s) = NUM" "v_free s = replicate NUM True" using idle by (simp_all add: idle_def)
  have N: "0 < NUM" "1 < NUM" "2 < NUM" by (simp_all add: NUM_def)
  have P: "curproc s = Some p" "p < NPROC" "length (procs s) = NPROC" using p(1) by (simp_all add: in_proc_def)
  define u where "u = s\<lparr>held := [Vdisk_lock], v_free := [False, False, False] @ replicate 5 True\<rparr>"
  define t where "t = submit_request b write 0 1 2 u"
  have t: "held t = [Vdisk_lock]" "curproc t = Some p" "procs t = procs s" "bufs t = bufs s" "disk t = disk s" "dwrites t = dwrites s" "b_disk t b"
    "v_info_b t = (v_info_b s)[0 := Some b]" "v_used_idx t = v_used_idx s" "v_used_dev_idx t = v_used_dev_idx s" "v_used_ring t = v_used_ring s"
    "v_info_status t = (v_info_status s)[0 := 0xff]" "v_free t = [False, False, False] @ replicate 5 True"
    using P by (simp_all add: t_def submit_request_def set_desc_def mmio_set_def Let_def u_def)
  have ch: "chained t" using I(1) N
    by (auto simp: chained_def t_def submit_request_def set_desc_def mmio_set_def Let_def u_def VRING_DESC_F_NEXT_def VRING_DESC_F_WRITE_def)
  have req: "requests t 0 b write (b_blockno (bu s b))"
    unfolding t_def by (rule submit_requests) (use I n in \<open>simp_all add: u_def\<close>)
  let ?w = "upd_proc p (\<lambda>x. x\<lparr>p_chan := Ch_buf b, p_state := SLEEPING\<rparr>) (t\<lparr>held := [Proc_lock p]\<rparr>)"
  have sl: "(sleep (Ch_buf b) Vdisk_lock t :: (unit, 'z vdisk_state_scheme) res) = Sleeps (Ch_buf b) ?w"
    by (subst sleep_spec [of t p]) (use t P in simp_all)
  have "alloc3_desc (s\<lparr>held := [Vdisk_lock]\<rparr>) = Ok (Some (0, 1, 2)) u"
    using alloc3_idle [of "s\<lparr>held := [Vdisk_lock]\<rparr>"] I(7) by (simp add: u_def)
  then have "virtio_disk_rw b write s = Sleeps (Ch_buf b) ?w"
    using p(2) t(7) sl by (simp add: virtio_disk_rw_def virtio_disk_wait_def t_def [symmetric] del: One_nat_def)
  moreover have "requests ?w 0 b write (b_blockno (bu s b))" "chained ?w" using req ch by (simp_all add: requests_def chained_def upd_proc_def Let_def)
  moreover have "p_state (pr ?w p) = SLEEPING" "p_chan (pr ?w p) = Ch_buf b" "length (procs ?w) = NPROC" using P t(3) by (simp_all add: upd_proc_def)
  ultimately show ?thesis using t I N by (intro exI [of _ ?w]) (simp add: upd_proc_def)
qed

text \<open>The interrupt, which finds one entry on the used ring.\<close>

lemma intr_completes:
  fixes s :: "'z vdisk_state_scheme"
  assumes h: "held s = []" "curproc s = None" "length (procs s) = NPROC" and p: "p < NPROC" "p_state (pr s p) = SLEEPING" "p_chan (pr s p) = Ch_buf b"
    and r: "v_used_dev_idx s = v_used_idx s + 1" "v_used_ring s ! (unat (v_used_idx s) mod NUM) = 0" "v_info_status s ! 0 = 0" "v_info_b s ! 0 = Some b"
  shows "\<exists>t. virtio_disk_intr s = Ok () t \<and> p_state (pr t p) = RUNNABLE \<and> length (procs t) = NPROC \<and> \<not> b_disk t b \<and> bufs t = bufs s \<and> disk t = disk s
     \<and> dwrites t = dwrites s \<and> v_desc t = v_desc s \<and> v_free t = v_free s \<and> v_info_b t = v_info_b s \<and> v_used_idx t = v_used_dev_idx s \<and> v_used_dev_idx t = v_used_dev_idx s"
proof -
  define u where "u = (mmio_set VIRTIO_MMIO_INTERRUPT_ACK (mmio s VIRTIO_MMIO_INTERRUPT_STATUS AND 3) (s\<lparr>held := [Vdisk_lock]\<rparr>))\<lparr>b_disk := (b_disk s)(b := False)\<rparr>"
  have u: "length (procs u) = NPROC" "procs u = procs s" "curproc u = None" "held u = [Vdisk_lock]" using h by (simp_all add: u_def mmio_set_def)
  define t where "t = u\<lparr>procs := woken (Ch_buf b) u NPROC, queue_counter := queue_counter u + of_nat (wake_rank (Ch_buf b) u NPROC)\<rparr>"
  have w: "wakeup (Ch_buf b) u = Ok () t" unfolding t_def by (rule wakeup_spec) (use u in simp_all)
  have "unat (v_used_dev_idx s - v_used_idx s) = Suc 0" using r(1) by simp
  then have "virtio_disk_intr s = Ok () (t\<lparr>v_used_idx := v_used_idx t + 1, held := []\<rparr>)"
    using h r w by (simp add: virtio_disk_intr_def mmio_set_def u_def [unfolded mmio_set_def, simplified, symmetric] Let_def) (simp add: t_def u_def mmio_set_def)
  moreover have "p_state (pr t p) = RUNNABLE" using p u by (simp add: t_def nth_woken sleeping_on_def)
  ultimately show ?thesis using r(1) by (simp add: t_def) (simp add: u_def mmio_set_def)
qed

text \<open>The rest of \<^verbatim>\<open>virtio_disk_rw\<close> after the process has been dispatched again.\<close>

lemma rw_finishes:
  fixes s :: "'z vdisk_state_scheme"
  assumes p: "p < NPROC" "length (procs s) = NPROC" and d: "\<not> b_disk s b" and c: "chained s"
  shows "\<exists>t. kbind (sleep_return Vdisk_lock (on_cpu p s)) (\<lambda>_ s. virtio_disk_wait b 0 s) = Ok () t \<and> v_free t = replicate NUM True \<and> held t = []
     \<and> bufs t = bufs s \<and> disk t = disk s \<and> dwrites t = dwrites s \<and> in_proc p t"
proof -
  define u where "u = upd_proc p (\<lambda>x. x\<lparr>p_chan := Ch_none\<rparr>) (on_cpu p s)\<lparr>held := [Vdisk_lock]\<rparr>"
  have sr: "sleep_return Vdisk_lock (on_cpu p s) = Ok () u"
    using p by (simp add: sleep_return_def with_proc_def myproc_def u_def on_cpu_def upd_proc_def)
  have u: "held u = [Vdisk_lock]" "b_disk u = b_disk s" "bufs u = bufs s" "disk u = disk s" "dwrites u = dwrites s" "in_proc p u"
    using p by (simp_all add: u_def on_cpu_def upd_proc_def in_proc_def)
  let ?v = "u\<lparr>v_info_b := (v_info_b u)[0 := None]\<rparr>"
  have v: "in_proc p ?v" "chained ?v" using u(6) c by (simp_all add: in_proc_def chained_def u_def on_cpu_def upd_proc_def)
  from free_chain_three [OF v] obtain t where
    t: "free_chain 0 ?v = Ok () t" "v_free t = replicate NUM True" "bufs t = bufs s" "disk t = disk s" "dwrites t = dwrites s" "held t = [Vdisk_lock]" "in_proc p t"
    using u by auto
  have "kbind (sleep_return Vdisk_lock (on_cpu p s)) (\<lambda>_ s. virtio_disk_wait b 0 s) = Ok () (t\<lparr>held := []\<rparr>)"
    using sr d u(2) t(1,6) by (simp add: virtio_disk_wait_def)
  then show ?thesis using t by (auto simp: in_proc_def)
qed

section \<open>Properties\<close>

text \<open>
  \<^bold>\<open>C9\<close> The disk driver transfers a block. Take a device that serves requests as the virtio specification says and a driver with no
  request under way. Then \<^verbatim>\<open>virtio_disk_rw\<close> makes one request and sleeps; after the device has served it, the interrupt handler makes
  the process runnable; and when the process is dispatched, the call returns with the block transferred exactly as the buffer cache
  assumes, every descriptor free again and no lock held.
\<close>

theorem driver_transfers_block:
  fixes s :: "'z vdisk_state_scheme"
  assumes dev: "serves dev" and idle: "idle s" and p: "in_proc p s" "held s = []" and n: "b_blockno (bu s b) < 2 ^ 31"
  shows "\<exists>t u v e. virtio_disk_rw b write s = Sleeps (Ch_buf b) t \<and> p_state (pr t p) = SLEEPING
     \<and> virtio_disk_intr (dev (off_cpu t)) = Ok () u \<and> p_state (pr u p) = RUNNABLE
     \<and> kbind (sleep_return Vdisk_lock (on_cpu p u)) (\<lambda>_ s. virtio_disk_wait b 0 s) = Ok () v
     \<and> disk_rw b write s = Ok () e \<and> bufs v = bufs e \<and> disk v = disk e \<and> dwrites v = dwrites e
     \<and> v_free v = replicate NUM True \<and> held v = []"
proof -
  let ?n = "b_blockno (bu s b)"
  have pn: "p < NPROC" using p(1) by (simp add: in_proc_def)
  from rw_sleeps [OF idle p n, of "write"] obtain t where
    t: "virtio_disk_rw b write s = Sleeps (Ch_buf b) t" "requests t 0 b write ?n" "chained t" "p_state (pr t p) = SLEEPING" "p_chan (pr t p) = Ch_buf b"
      "length (procs t) = NPROC" "bufs t = bufs s" "disk t = disk s" "dwrites t = dwrites s" "v_info_b t ! 0 = Some b"
      "v_used_idx t = v_used_idx s" "v_used_dev_idx t = v_used_dev_idx s" "length (v_used_ring t) = NUM" "length (v_info_status t) = NUM" by blast
  define x where "x = served 0 b write ?n (off_cpu t)"
  have "requests (off_cpu t) 0 b write ?n" using t(2) by (simp add: requests_def off_cpu_def Let_def)
  then have x: "dev (off_cpu t) = x" using dev by (auto simp: serves_def x_def)
  have N: "0 < NUM" "unat k mod NUM < NUM" for k :: u16 by (simp_all add: NUM_def)
  have eq: "v_used_idx t = v_used_dev_idx t" using idle t(11,12) by (simp add: idle_def)
  have X: "held x = []" "curproc x = None" "procs x = procs t" "v_used_dev_idx x = v_used_idx x + 1" "v_used_ring x ! (unat (v_used_idx x) mod NUM) = 0"
    "v_info_status x ! 0 = 0" "v_info_b x ! 0 = Some b" "v_desc x = v_desc t" "v_free x = v_free t"
    using t(10,13,14) N eq by (simp_all add: x_def served_def off_cpu_def Let_def upd_buf_def)
  from intr_completes [OF X(1,2) _ pn _ _ X(4-7)] t(4-6) X(3) obtain u where
    u: "virtio_disk_intr x = Ok () u" "p_state (pr u p) = RUNNABLE" "length (procs u) = NPROC" "\<not> b_disk u b" "bufs u = bufs x" "disk u = disk x"
      "dwrites u = dwrites x" "v_desc u = v_desc x" "v_free u = v_free x" by auto
  have "chained u" using t(3) X(8,9) u(8,9) by (simp add: chained_def)
  from rw_finishes [OF pn u(3,4) this] obtain v where
    v: "kbind (sleep_return Vdisk_lock (on_cpu p u)) (\<lambda>_ s. virtio_disk_wait b 0 s) = Ok () v" "v_free v = replicate NUM True" "held v = []"
      "bufs v = bufs x" "disk v = disk x" "dwrites v = dwrites x" using u(5-7) by auto
  obtain e where e: "disk_rw b write s = Ok () e" "bufs e = bufs x" "disk e = disk x" "dwrites e = dwrites x"
    using t(7-9) by (cases "write") (auto simp: disk_rw_def x_def served_def off_cpu_def upd_buf_def)
  show ?thesis using t(1,4) u(1,2) v e x by - (rule exI [of _ t], rule exI [of _ u], rule exI [of _ v], rule exI [of _ e], simp)
qed

text \<open>A device that reads the request off the rings, and a driver that has just been set up with one buffer to write.\<close>

definition device :: "'z vdisk_state_scheme \<Rightarrow> 'z vdisk_state_scheme" where
  "device s =
     (let i = unat (v_avail_ring s ! (unat (v_avail_idx s - 1) mod NUM)); d = v_desc s ! unat (d_next (v_desc s ! i)); q = v_ops s ! i in
      case d_addr d of Dma_data b \<Rightarrow> served i b (rq_type q = VIRTIO_BLK_T_OUT) (ucast (drop_bit 1 (rq_sector q))) s | _ \<Rightarrow> s)"

lemma device_serves: "serves device"
  unfolding serves_def
proof (intro allI impI)
  fix s :: "'z vdisk_state_scheme" and i b "write" and n :: u32
  assume r: "requests s i b write n"
  let ?q = "v_ops s ! i"
  have i: "unat (v_avail_ring s ! (unat (v_avail_idx s - 1) mod NUM)) = i"
    using r by (simp add: requests_def Let_def NUM_def take_bit_nat_eq_self unat_of_nat)
  have d: "d_addr (v_desc s ! unat (d_next (v_desc s ! i))) = Dma_data b" "(rq_type ?q = VIRTIO_BLK_T_OUT) = write" "rq_sector ?q = 2 * ucast n"
    using r by (auto simp: requests_def Let_def VIRTIO_BLK_T_OUT_def VIRTIO_BLK_T_IN_def)
  have "unat n < 2 ^ 32" using unsigned_less [of n] by simp
  then have "unat (2 * ucast n :: u64) = 2 * unat n" by (simp add: unat_word_ariths)
  then have "unat (drop_bit 1 (2 * ucast n :: u64)) = unat n" by (simp add: drop_bit_eq_div unat_div)
  then have "drop_bit 1 (2 * ucast n :: u64) = ucast n" by (simp add: word_unat_eq_iff)
  then have "ucast (drop_bit 1 (2 * ucast n :: u64)) = n" by (simp only:) (simp add: unsigned_ucast_eq take_bit_word_eq_self)
  then show "device s = served i b write n s" by (simp add: device_def i d Let_def)
qed

definition demo_vdisk :: vdisk_state where
  "demo_vdisk = file_state.extend (upd_buf 0 (\<lambda>x. x\<lparr>b_blockno := 9, b_data := replicate BSIZE 7\<rparr>) (demo_files small))
     (vdisk_state.fields (replicate NUM null_desc) 0 (replicate NUM 0) 0 (replicate NUM 0) (replicate NUM True) 0 (replicate NUM None) (replicate NUM 0)
       (replicate NUM \<lparr>rq_type = 0, rq_reserved = 0, rq_sector = 0\<rparr>) (\<lambda>_. False) 0 (\<lambda>_. 0) [])"

theorem driver_transfers_block_witness:
  "\<exists>t u v. virtio_disk_rw 0 True demo_vdisk = Sleeps (Ch_buf 0) t \<and> virtio_disk_intr (device (off_cpu t)) = Ok () u
     \<and> kbind (sleep_return Vdisk_lock (on_cpu 1 u)) (\<lambda>_ s. virtio_disk_wait 0 0 s) = Ok () v
     \<and> disk demo_vdisk 9 = replicate BSIZE 0 \<and> disk v 9 = replicate BSIZE 7"
proof -
  have len: "length (procs demo_running) = NPROC" using demo_running_facts(1) by (simp add: quiet_def)
  have F: "procs demo_vdisk = procs (demo_files small)" "curproc demo_vdisk = Some 1" "held demo_vdisk = []" "bu demo_vdisk 0 = (bu demo_zero 0)\<lparr>b_blockno := 9, b_data := replicate BSIZE 7\<rparr>"
    "disk demo_vdisk = (\<lambda>_. replicate BSIZE 0)"
    by (simp_all add: demo_vdisk_def upd_buf_def demo_files_def demo_zero_def Let_def log_state.defs fs_state.defs cons_state.defs file_state.defs NBUF_def MAXOPBLOCKS_def)
  have "idle demo_vdisk" by (simp add: idle_def demo_vdisk_def file_state.defs vdisk_state.defs)
  moreover have "in_proc 1 demo_vdisk" using len by (simp add: in_proc_def F demo_files_fields NPROC_def)
  moreover have "b_blockno (bu demo_vdisk 0) < 2 ^ 31" by (simp add: F)
  ultimately show ?thesis
    using driver_transfers_block [OF device_serves, of demo_vdisk 1 0 True] by (auto simp: F disk_rw_def)
qed

end
