(* ===== verification/Fs_Tx.thy ===== *)
theory Fs_Tx
  imports Fs
begin

text \<open>
  What the file system relies on from the layers below it: an array of blocks, read through locked buffers, changed through
  the log. The locale states the contract and proves the two patterns that the file system is made of, looking at a block
  and changing a block; the buffer cache and the log provide it.
\<close>

section \<open>The contract\<close>

definition log_add :: "u32 list \<Rightarrow> u32 \<Rightarrow> u32 list" where
  "log_add bns c = (if c \<in> set bns then bns else bns @ [c])"

lemma length_log_add: "length (log_add bns c) \<le> Suc (length bns)"
  by (simp add: log_add_def)

locale block_store =
  fixes inv :: "nat set \<Rightarrow> u32 list \<Rightarrow> 's \<Rightarrow> bool"
    and view :: "'s \<Rightarrow> u32 \<Rightarrow> u8 list"
    and frame :: "'s \<Rightarrow> 's \<Rightarrow> bool"
    and blk :: "'s \<Rightarrow> nat \<Rightarrow> u32"
    and data :: "'s \<Rightarrow> nat \<Rightarrow> u8 list"
    and rd :: "u32 \<Rightarrow> 's \<Rightarrow> (nat, 's) res"
    and put :: "nat \<Rightarrow> u8 list \<Rightarrow> 's \<Rightarrow> 's"
    and wr :: "nat \<Rightarrow> 's \<Rightarrow> (unit, 's) res"
    and rel :: "nat \<Rightarrow> 's \<Rightarrow> (unit, 's) res"
    and home :: "u32 \<Rightarrow> bool"
    and open_tx :: "'s \<Rightarrow> bool"
  assumes frame_refl: "frame s s"
    and frame_trans: "frame s t \<Longrightarrow> frame t u \<Longrightarrow> frame s u"
    and frame_open: "frame s t \<Longrightarrow> open_tx t = open_tx s"
    and inv_finite: "inv L bns s \<Longrightarrow> finite L"
    and view_length: "inv L bns s \<Longrightarrow> length (view s n) = BSIZE"
    and rd_law: "inv L bns s \<Longrightarrow> \<forall>i\<in>L. blk s i \<noteq> n \<Longrightarrow> card L + length bns < NBUF \<Longrightarrow>
      \<exists>b t. rd n s = Ok b t \<and> b \<notin> L \<and> inv (insert b L) bns t \<and> blk t b = n \<and> data t b = view s n \<and> view t = view s
        \<and> (\<forall>i\<in>L. blk t i = blk s i) \<and> frame s t"
    and wr_law: "inv L bns s \<Longrightarrow> b \<in> L \<Longrightarrow> length d = BSIZE \<Longrightarrow> home (blk s b) \<Longrightarrow> length bns < LOGSIZE - 1 \<Longrightarrow> open_tx s \<Longrightarrow>
      \<exists>t. wr b (put b d s) = Ok () t \<and> inv L (log_add bns (blk s b)) t \<and> view t = (view s)(blk s b := d)
        \<and> (\<forall>i\<in>L. blk t i = blk s i) \<and> frame s t"
    and rel_law: "inv L bns s \<Longrightarrow> b \<in> L \<Longrightarrow>
      \<exists>t. rel b s = Ok () t \<and> inv (L - {b}) bns t \<and> view t = view s \<and> (\<forall>i\<in>L - {b}. blk t i = blk s i) \<and> frame s t"
begin

text \<open>
  Looking at a block: read it, use its content, release it; \<^verbatim>\<open>k\<close> is the rest of the operation.
\<close>

lemma look_block:
  assumes "inv L bns s" and "\<forall>i\<in>L. blk s i \<noteq> n" and "card L + length bns < NBUF"
  shows "\<exists>b t u. rd n s = Ok b t \<and> data t b = view s n \<and> frame s t \<and> rel b t = Ok () u
     \<and> inv L bns u \<and> view u = view s \<and> (\<forall>i\<in>L. blk u i = blk s i) \<and> frame s u"
proof -
  from rd_law [OF assms] obtain b t where
    t: "rd n s = Ok b t" "b \<notin> L" "inv (insert b L) bns t" "data t b = view s n" "view t = view s" "\<forall>i\<in>L. blk t i = blk s i" "frame s t" by blast
  from rel_law [OF t(3), of b] obtain u where
    u: "rel b t = Ok () u" "inv L bns u" "view u = view t" "\<forall>i\<in>L. blk u i = blk t i" "frame t u" using t(2) by auto
  have "frame s u" by (rule frame_trans [OF t(7) u(5)])
  with t u show ?thesis by auto
qed

text \<open>Changing a block: read it, store new content, log it, release it.\<close>

lemma change_block:
  assumes "inv L bns s" and "\<forall>i\<in>L. blk s i \<noteq> n" and "card L + length bns < NBUF" and "home n" and "length bns < LOGSIZE - 1"
    and "open_tx s"
  shows "\<exists>b t. rd n s = Ok b t \<and> data t b = view s n \<and> frame s t
     \<and> (\<forall>d. length d = BSIZE \<longrightarrow> (\<exists>v u. wr b (put b d t) = Ok () v \<and> rel b v = Ok () u \<and> frame s v
       \<and> inv L (log_add bns n) u \<and> view u = (view s)(n := d) \<and> (\<forall>i\<in>L. blk u i = blk s i) \<and> frame s u))"
proof -
  from rd_law [OF assms(1-3)] obtain b t where
    t: "rd n s = Ok b t" "b \<notin> L" "inv (insert b L) bns t" "blk t b = n" "data t b = view s n" "view t = view s"
      "\<forall>i\<in>L. blk t i = blk s i" "frame s t" by blast
  have "\<exists>v u. wr b (put b d t) = Ok () v \<and> rel b v = Ok () u \<and> frame s v
       \<and> inv L (log_add bns n) u \<and> view u = (view s)(n := d) \<and> (\<forall>i\<in>L. blk u i = blk s i) \<and> frame s u" if d: "length d = BSIZE" for d
  proof -
    from wr_law [OF t(3) insertI1 d] t(4) assms(4-6) frame_open [OF t(8)] obtain v where
      v: "wr b (put b d t) = Ok () v" "inv (insert b L) (log_add bns n) v" "view v = (view t)(n := d)" "\<forall>i\<in>insert b L. blk v i = blk t i" "frame t v"
      by auto
    from rel_law [OF v(2) insertI1] obtain u where
      u: "rel b v = Ok () u" "inv L (log_add bns n) u" "view u = view v" "\<forall>i\<in>L. blk u i = blk v i" "frame v u" using t(2) by auto
    have "frame s v" by (rule frame_trans [OF t(8) v(5)])
    moreover have "frame s u" by (rule frame_trans [OF \<open>frame s v\<close> u(5)])
    ultimately show ?thesis using t(6,7) u v by auto
  qed
  then show ?thesis using t by blast
qed

end

section \<open>The buffer cache and the log keep it\<close>

text \<open>
  The state of cache and log between two commits in which every block that is not logged is on disk as the cache has it.
\<close>

definition fs_inv :: "nat \<Rightarrow> u32 \<Rightarrow> nat set \<Rightarrow> u32 list \<Rightarrow> 'z log_state_scheme \<Rightarrow> bool" where
  "fs_inv p start L bns s \<longleftrightarrow> in_tx p L start bns s \<and> (\<forall>c. c \<notin> set bns \<longrightarrow> bview s c = disk s c)"

lemma tx_frame_refl: "tx_frame s s"
  by (simp add: tx_frame_def)

lemma tx_frame_bio: "bio_frame s t \<Longrightarrow> tx_frame s t"
proof -
  assume f: "bio_frame s t"
  have e: "t\<lparr>lg := lg s\<rparr> = t" using bio_frame_log [OF f] by (cases t) simp
  show ?thesis unfolding tx_frame_def e using f bio_frame_log [OF f] by simp
qed

lemma tx_frame_trans: "tx_frame s t \<Longrightarrow> tx_frame t u \<Longrightarrow> tx_frame s u"
proof -
  assume st: "tx_frame s t" and tu: "tx_frame t u"
  have "bio_frame (t\<lparr>lg := lg s\<rparr>) (u\<lparr>lg := lg s\<rparr>)"
    using tu by (cases t; cases u) (simp add: tx_frame_def bio_frame_def)
  moreover have "bio_frame s (t\<lparr>lg := lg s\<rparr>)" using st by (simp add: tx_frame_def)
  ultimately have "bio_frame s (u\<lparr>lg := lg s\<rparr>)" by (rule bio_frame_trans [rotated])
  moreover have "lg u = (lg s)\<lparr>lh_n := lh_n (lg u), lh_block := lh_block (lg u)\<rparr>"
    using st tu by (cases "lg s"; cases "lg t"; cases "lg u") (simp add: tx_frame_def)
  ultimately show ?thesis by (simp add: tx_frame_def)
qed

lemma tx_frame_outstanding: "tx_frame s t \<Longrightarrow> l_outstanding (lg t) = l_outstanding (lg s)"
  by (cases "lg s"; cases "lg t") (simp add: tx_frame_def)

lemma tx_log_write:
  assumes tx: "in_tx p L start bns s" and b: "b \<in> L" and d: "length d = BSIZE" and c: "b_blockno (bu s b) \<notin> log_area start"
    and n: "length bns < LOGSIZE - 1" and o: "1 \<le> sint (l_outstanding (lg s))"
  shows "\<exists>t. log_write b (set_data b d s) = Ok () t \<and> in_tx p L start (log_add bns (b_blockno (bu s b))) t
     \<and> bview t = (bview s)(b_blockno (bu s b) := d) \<and> disk t = disk s \<and> (\<forall>i\<in>L. b_blockno (bu t i) = b_blockno (bu s i)) \<and> tx_frame s t"
proof -
  note S = tx_set_data [OF tx b d]
  have lgs: "lg (set_data b d s) = lg s" by (rule bio_frame_log [OF S(4)])
  have bn: "b_blockno (bu (set_data b d s) i) = b_blockno (bu s i)" for i by (simp add: S(3))
  from log_write_spec [OF S(1) b] c n o obtain t where
    t: "log_write b (set_data b d s) = Ok () t" "in_tx p L start (log_add bns (b_blockno (bu s b))) t" "bview t = bview (set_data b d s)"
      "disk t = disk (set_data b d s)" "\<forall>i<NBUF. bcontent (bu t i) = bcontent (bu (set_data b d s) i)" "tx_frame (set_data b d s) t"
    unfolding lgs bn log_add_def by blast
  obtain pins where ci: "cache_inv p L pins s" using in_tx_cache [OF tx] by blast
  have "b_blockno (bu t i) = b_blockno (bu s i)" if "i \<in> L" for i
    using t(5) cache_inv_bufs(2) [OF ci that] bn [of i] by (simp add: bcontent_def)
  moreover have "tx_frame s t" by (rule tx_frame_trans [OF tx_frame_bio [OF S(4)] t(6)])
  ultimately show ?thesis using t(1-4) S(2,5) by simp
qed

lemma fs_inv_cache: "fs_inv p start L bns s \<Longrightarrow> \<exists>pins. cache_inv p L pins s"
  using in_tx_cache by (auto simp: fs_inv_def)

lemma fs_inv_bread:
  assumes "fs_inv p start L bns s" and "\<forall>i\<in>L. b_blockno (bu s i) \<noteq> n" and "card L + length bns < NBUF"
  shows "\<exists>b t. bread ROOTDEV n s = Ok b t \<and> b \<notin> L \<and> fs_inv p start (insert b L) bns t \<and> b_blockno (bu t b) = n
     \<and> b_data (bu t b) = bview s n \<and> bview t = bview s \<and> (\<forall>i\<in>L. b_blockno (bu t i) = b_blockno (bu s i)) \<and> tx_frame s t"
proof -
  have tx: "in_tx p L start bns s" using assms(1) by (simp add: fs_inv_def)
  from tx_bread [OF tx assms(2,3)] obtain b t where
    t: "bread ROOTDEV n s = Ok b t" "b \<notin> L" "in_tx p (insert b L) start bns t" "b_blockno (bu t b) = n" "b_data (bu t b) = bview s n"
      "bview t = bview s" "disk t = disk s" "\<forall>i<NBUF. i \<noteq> b \<longrightarrow> bu t i = bu s i" "bio_frame s t" by blast
  obtain pins where ci: "cache_inv p L pins s" using in_tx_cache [OF tx] by blast
  have "bu t i = bu s i" if "i \<in> L" for i using t(2,8) that cache_inv_bufs(2) [OF ci that] by auto
  moreover have "fs_inv p start (insert b L) bns t" using t(3,6,7) assms(1) by (simp add: fs_inv_def)
  ultimately show ?thesis using t tx_frame_bio [OF t(9)] by auto
qed

lemma fs_inv_log_write:
  assumes "fs_inv p start L bns s" and "b \<in> L" and "length d = BSIZE" and "b_blockno (bu s b) \<notin> log_area start"
    and "length bns < LOGSIZE - 1" and "1 \<le> sint (l_outstanding (lg s))"
  shows "\<exists>t. log_write b (set_data b d s) = Ok () t \<and> fs_inv p start L (log_add bns (b_blockno (bu s b))) t
     \<and> bview t = (bview s)(b_blockno (bu s b) := d) \<and> (\<forall>i\<in>L. b_blockno (bu t i) = b_blockno (bu s i)) \<and> tx_frame s t"
proof -
  have tx: "in_tx p L start bns s" using assms(1) by (simp add: fs_inv_def)
  from tx_log_write [OF tx assms(2-6)] obtain t where
    t: "log_write b (set_data b d s) = Ok () t" "in_tx p L start (log_add bns (b_blockno (bu s b))) t"
      "bview t = (bview s)(b_blockno (bu s b) := d)" "disk t = disk s" "\<forall>i\<in>L. b_blockno (bu t i) = b_blockno (bu s i)" "tx_frame s t" by blast
  have "bview t c = disk t c" if "c \<notin> set (log_add bns (b_blockno (bu s b)))" for c
    using that assms(1) t(3,4) by (auto simp: fs_inv_def log_add_def split: if_splits)
  then show ?thesis using t by (auto simp: fs_inv_def)
qed

lemma fs_inv_brelse:
  assumes "fs_inv p start L bns s" and "b \<in> L"
  shows "\<exists>t. brelse b s = Ok () t \<and> fs_inv p start (L - {b}) bns t \<and> bview t = bview s
     \<and> (\<forall>i\<in>L - {b}. b_blockno (bu t i) = b_blockno (bu s i)) \<and> tx_frame s t"
proof -
  have tx: "in_tx p L start bns s" using assms(1) by (simp add: fs_inv_def)
  obtain pins where ci: "cache_inv p L pins s" using in_tx_cache [OF tx] by blast
  have "b_blockno (bu s b) \<in> set bns \<or> b_data (bu s b) = disk s (b_blockno (bu s b))"
    using assms(1) bview_held [OF ci assms(2)] by (auto simp: fs_inv_def)
  from tx_brelse [OF tx assms(2) this] obtain t where
    t: "brelse b s = Ok () t" "in_tx p (L - {b}) start bns t" "bview t = bview s" "disk t = disk s"
      "\<forall>i<NBUF. bcontent (bu t i) = bcontent (bu s i)" "bio_frame s t" by blast
  have "b_blockno (bu t i) = b_blockno (bu s i)" if "i \<in> L" for i
    using t(5) cache_inv_bufs(2) [OF ci that] by (simp add: bcontent_def)
  then show ?thesis using t tx_frame_bio [OF t(6)] assms(1) by (auto simp: fs_inv_def)
qed

lemma bview_length: "cache_inv p L pins s \<Longrightarrow> length (bview s n) = BSIZE"
  unfolding bview_def cache_inv_def by (auto split: option.splits dest: find_SomeD)

interpretation fs: block_store "fs_inv p start" bview tx_frame "\<lambda>s b. b_blockno (bu s b)" "\<lambda>s b. b_data (bu s b)" "bread ROOTDEV" set_data
    log_write brelse "\<lambda>c. c \<notin> log_area start" "\<lambda>s. 1 \<le> sint (l_outstanding (lg s))" for p start
proof (unfold_locales, goal_cases)
  case (1 s)
  show ?case by (rule tx_frame_refl)
next
  case (2 s t u)
  then show ?case by (rule tx_frame_trans)
next
  case (3 s t)
  then show ?case by (simp add: tx_frame_outstanding)
next
  case (4 L bns s)
  then show ?case using in_tx_finite by (auto simp: fs_inv_def)
next
  case (5 L bns s n)
  then show ?case using fs_inv_cache bview_length by blast
next
  case (6 L bns s n)
  then show ?case by (rule fs_inv_bread)
next
  case (7 L bns s b d)
  then show ?case by (rule fs_inv_log_write)
next
  case (8 L bns s b)
  then show ?case by (rule fs_inv_brelse)
qed

text \<open>What a client of the block layer keeps: the superblock, the inode table, everything above the log.\<close>

lemma tx_frame_fields:
  fixes s t :: "'z fs_state_scheme"
  assumes "tx_frame s t"
  shows "sb t = sb s" "itable t = itable s" "held t = held s" "curproc t = curproc s" "mem t = mem s" "fs_state.more t = fs_state.more s"
    "\<And>j. sleeplocks t (Inode_lk j) = sleeplocks s (Inode_lk j)"
proof -
  have f: "bio_frame s (t\<lparr>lg := lg s\<rparr>)" using assms by (simp add: tx_frame_def)
  then have "log_state.more t = log_state.more s" by (cases s; cases t) (simp add: bio_frame_def)
  then show "sb t = sb s" "itable t = itable s" "fs_state.more t = fs_state.more s" by (cases s; cases t; simp)+
  show "held t = held s" "curproc t = curproc s" "mem t = mem s" "\<And>j. sleeplocks t (Inode_lk j) = sleeplocks s (Inode_lk j)"
    using f by (simp_all add: bio_frame_def)
qed

end
