(* ===== verification/Fs_Alloc.thy ===== *)
theory Fs_Alloc
  imports Fs_Tx
begin

text \<open>
  The block allocator: the bitmap as a set of used blocks, and what \<^verbatim>\<open>balloc\<close>, \<^verbatim>\<open>bfree\<close> and \<^verbatim>\<open>bzero\<close> do to it.
\<close>

section \<open>Search loops with a changing state\<close>

lemma kscan_n_inv:
  assumes "\<And>j t. i \<le> j \<Longrightarrow> j < i + n \<Longrightarrow> I j t \<Longrightarrow>
      (\<exists>t'. f j t = Ok None t' \<and> I (Suc j) t') \<or> (\<exists>a t'. f j t = Ok (Some a) t' \<and> Q a t')"
  shows "I i s \<Longrightarrow> (\<exists>t. kscan_n i n f s = Ok None t \<and> I (i + n) t) \<or> (\<exists>a t. kscan_n i n f s = Ok (Some a) t \<and> Q a t)"
  using assms
proof (induction n arbitrary: i s)
  case (Suc n)
  from Suc.prems(2) [of i s] Suc.prems(1)
  have "(\<exists>t'. f i s = Ok None t' \<and> I (Suc i) t') \<or> (\<exists>a t'. f i s = Ok (Some a) t' \<and> Q a t')" by simp
  then show ?case
  proof
    assume "\<exists>t'. f i s = Ok None t' \<and> I (Suc i) t'"
    then obtain t' where t': "f i s = Ok None t'" "I (Suc i) t'" by blast
    from Suc.IH [OF t'(2)] Suc.prems(2)
    have "(\<exists>t. kscan_n (Suc i) n f t' = Ok None t \<and> I (Suc i + n) t) \<or> (\<exists>a t. kscan_n (Suc i) n f t' = Ok (Some a) t \<and> Q a t)" by simp
    then show ?thesis using t'(1) by simp
  qed auto
qed simp

lemma kscan_inv:
  assumes "I lo s" and "lo \<le> hi" and "\<And>j t. lo \<le> j \<Longrightarrow> j < hi \<Longrightarrow> I j t \<Longrightarrow>
      (\<exists>t'. f j t = Ok None t' \<and> I (Suc j) t') \<or> (\<exists>a t'. f j t = Ok (Some a) t' \<and> Q a t')"
  shows "(\<exists>t. kscan lo hi f s = Ok None t \<and> I hi t) \<or> (\<exists>a t. kscan lo hi f s = Ok (Some a) t \<and> Q a t)"
  using kscan_n_inv [of lo "hi - lo" I f Q s] assms by (simp add: kscan_def)

section \<open>Bits of a bitmap block\<close>

definition bbit :: "u8 list \<Rightarrow> nat \<Rightarrow> bool" where
  "bbit d j = bit (d ! (j div 8)) (j mod 8)"

lemma bbit_test: "d ! (j div 8) AND 2 ^ (j mod 8) = 0 \<longleftrightarrow> \<not> bbit d j"
  by (simp add: bbit_def and_exp_eq_0_iff_not_bit)

lemma bit_mask8: "m < 8 \<Longrightarrow> bit (2 ^ n :: u8) m \<longleftrightarrow> m = n"
  by (auto simp: bit_exp_iff)

lemma bbit_set:
  "i div 8 < length d \<Longrightarrow> bbit (d[i div 8 := d ! (i div 8) OR 2 ^ (i mod 8)]) j \<longleftrightarrow> bbit d j \<or> j = i"
proof -
  assume i: "i div 8 < length d"
  have "j div 8 = i div 8 \<and> j mod 8 = i mod 8 \<longleftrightarrow> j = i" by (metis div_mult_mod_eq)
  then show ?thesis using i by (auto simp: bbit_def bit_or_iff bit_mask8 nth_list_update)
qed

lemma bbit_clear:
  "i div 8 < length d \<Longrightarrow> bbit (d[i div 8 := d ! (i div 8) AND NOT (2 ^ (i mod 8))]) j \<longleftrightarrow> bbit d j \<and> j \<noteq> i"
proof -
  assume i: "i div 8 < length d"
  have "j div 8 = i div 8 \<and> j mod 8 = i mod 8 \<longleftrightarrow> j = i" by (metis div_mult_mod_eq)
  moreover have "bit (NOT (2 ^ (i mod 8)) :: u8) (j mod 8) \<longleftrightarrow> j mod 8 \<noteq> i mod 8"
    by (simp add: bit_not_iff bit_mask8)
  ultimately show ?thesis using i by (auto simp: bbit_def bit_and_iff nth_list_update)
qed

lemma find_free_bit_None: "find_free_bit d i k = None \<longleftrightarrow> (\<forall>j. i \<le> j \<and> j < i + k \<longrightarrow> bbit d j)"
proof (induction k arbitrary: i)
  case (Suc k)
  have "(\<forall>j. i \<le> j \<and> j < i + Suc k \<longrightarrow> bbit d j) \<longleftrightarrow> bbit d i \<and> (\<forall>j. Suc i \<le> j \<and> j < Suc i + k \<longrightarrow> bbit d j)"
    by (auto simp: order_le_less) (metis Suc_lessI)
  then show ?case using Suc by (simp add: bbit_test)
qed auto

lemma find_free_bit_Some:
  "find_free_bit d i k = Some j \<Longrightarrow> i \<le> j \<and> j < i + k \<and> \<not> bbit d j \<and> (\<forall>l. i \<le> l \<and> l < j \<longrightarrow> bbit d l)"
proof (induction k arbitrary: i)
  case (Suc k)
  show ?case
  proof (cases "bbit d i")
    case True
    then have "find_free_bit d (Suc i) k = Some j" using Suc.prems by (simp add: bbit_test)
    from Suc.IH [OF this] True show ?thesis by (metis Suc_leD add_Suc_right add_Suc not_less_eq_eq order_antisym_conv)
  next
    case False
    then show ?thesis using Suc.prems by (auto simp: bbit_test)
  qed
qed simp

section \<open>The bitmap\<close>

text \<open>
  The blocks of the bitmap, and the blocks it marks as used. \<^verbatim>\<open>bitmap_ok\<close> is what \<^verbatim>\<open>mkfs\<close> sets up: the bitmap lies outside the
  log, and neither the log nor the bitmap is free to allocate.
\<close>

definition bmap_block :: "superblock \<Rightarrow> nat \<Rightarrow> u32" where
  "bmap_block sblk i = of_nat i + sb_bmapstart sblk"

definition bitmap_len :: "superblock \<Rightarrow> nat" where
  "bitmap_len sblk = (unat (sb_size sblk) + BPB - 1) div BPB"

definition used :: "superblock \<Rightarrow> (u32 \<Rightarrow> u8 list) \<Rightarrow> nat \<Rightarrow> bool" where
  "used sblk f b = bbit (f (bmap_block sblk (b div BPB))) (b mod BPB)"

definition bitmap_ok :: "u32 \<Rightarrow> superblock \<Rightarrow> (u32 \<Rightarrow> u8 list) \<Rightarrow> bool" where
  "bitmap_ok start sblk f \<longleftrightarrow>
     (\<forall>i<bitmap_len sblk. bmap_block sblk i \<notin> log_area start)
     \<and> (\<forall>b<unat (sb_size sblk). \<not> used sblk f b \<longrightarrow>
          of_nat b \<notin> log_area start \<and> (\<forall>i<bitmap_len sblk. of_nat b \<noteq> bmap_block sblk i))"

lemma BBLOCK_eq: "b < 2 ^ 32 \<Longrightarrow> BBLOCK (of_nat b) sblk = bmap_block sblk (b div BPB)"
proof -
  assume "b < 2 ^ 32"
  then have "(of_nat b div of_nat BPB :: u32) = of_nat (b div BPB)"
    by (simp add: word_unat_eq_iff unat_div unat_of_nat fs_consts)
  then show ?thesis by (simp add: BBLOCK_def bmap_block_def)
qed

lemma size_bound: "b < unat (sb_size sblk) \<Longrightarrow> b < 2 ^ 32"
  using unsigned_less [of "sb_size sblk", where ?'a = nat] by simp

lemma bitmap_index: "b < unat (sb_size sblk) \<Longrightarrow> b div BPB < bitmap_len sblk"
proof -
  assume b: "b < unat (sb_size sblk)"
  let ?n = "unat (sb_size sblk) + BPB - 1"
  have "?n mod BPB < BPB" by (simp add: fs_consts)
  moreover have "?n div BPB * BPB = ?n - ?n mod BPB" by (simp only: minus_mod_eq_div_mult)
  ultimately have "b < ?n div BPB * BPB" using b by linarith
  then show ?thesis unfolding bitmap_len_def by (rule less_mult_imp_div_less)
qed

lemma bmap_block_inj:
  "i < bitmap_len sblk \<Longrightarrow> j < bitmap_len sblk \<Longrightarrow> bmap_block sblk i = bmap_block sblk j \<longleftrightarrow> i = j"
proof -
  assume i: "i < bitmap_len sblk" and j: "j < bitmap_len sblk"
  have "bitmap_len sblk < 2 ^ 32"
    using unsigned_less [of "sb_size sblk", where ?'a = nat] by (simp add: bitmap_len_def fs_consts)
  then have "(of_nat i :: u32) = of_nat j \<longleftrightarrow> i = j" using i j by (auto simp: word_unat_eq_iff unat_of_nat)
  then show ?thesis by (simp add: bmap_block_def)
qed

section \<open>The operations\<close>

lemma bzero_spec:
  assumes "fs_inv p start L bns s" and "\<forall>i\<in>L. b_blockno (bu s i) \<noteq> n" and "card L + length bns < NBUF" and "n \<notin> log_area start"
    and "length bns < LOGSIZE - 1" and "1 \<le> sint (l_outstanding (lg s))"
  shows "\<exists>t. bzero ROOTDEV n s = Ok () t \<and> fs_inv p start L (log_add bns n) t \<and> bview t = (bview s)(n := replicate BSIZE 0)
     \<and> (\<forall>i\<in>L. b_blockno (bu t i) = b_blockno (bu s i)) \<and> tx_frame s t"
proof -
  from fs.change_block [OF assms] obtain b t where
    t: "bread ROOTDEV n s = Ok b t" "\<forall>d. length d = BSIZE \<longrightarrow> (\<exists>v u. log_write b (set_data b d t) = Ok () v \<and> brelse b v = Ok () u \<and> tx_frame s v
       \<and> fs_inv p start L (log_add bns n) u \<and> bview u = (bview s)(n := d) \<and> (\<forall>i\<in>L. b_blockno (bu u i) = b_blockno (bu s i)) \<and> tx_frame s u)"
    by blast
  from t(2) [rule_format, of "replicate BSIZE 0"] show ?thesis by (auto simp: bzero_def t(1))
qed

lemma used_upd:
  assumes "b < unat (sb_size sblk)" and "c < unat (sb_size sblk)"
  shows "used sblk (f(bmap_block sblk (b div BPB) := d)) c =
    (if c div BPB = b div BPB then bbit d (c mod BPB) else used sblk f c)"
  using bmap_block_inj [OF bitmap_index [OF assms(2)] bitmap_index [OF assms(1)]] by (simp add: used_def)

lemma mod_index: "b mod BPB div 8 < BSIZE"
  by (rule less_mult_imp_div_less) (simp add: fs_consts)

text \<open>\<^verbatim>\<open>bfree\<close> clears one bit, and panics when it is clear already.\<close>

lemma bfree_spec:
  assumes inv: "fs_inv p start L bns s" and held: "\<forall>i\<in>L. b_blockno (bu s i) \<noteq> bmap_block (sb s) (b div BPB)" and room: "card L + length bns < NBUF"
    and log: "bmap_block (sb s) (b div BPB) \<notin> log_area start" "length bns < LOGSIZE - 1" and o: "1 \<le> sint (l_outstanding (lg s))"
    and b: "b < unat (sb_size (sb s))"
  shows "if used (sb s) (bview s) b
    then \<exists>t. bfree ROOTDEV (of_nat b) s = Ok () t \<and> fs_inv p start L (log_add bns (bmap_block (sb s) (b div BPB))) t
       \<and> (\<forall>c<unat (sb_size (sb s)). used (sb s) (bview t) c \<longleftrightarrow> used (sb s) (bview s) c \<and> c \<noteq> b)
       \<and> (\<forall>n. n \<noteq> bmap_block (sb s) (b div BPB) \<longrightarrow> bview t n = bview s n) \<and> tx_frame s t
    else bfree ROOTDEV (of_nat b) s = Panic ''freeing free block''"
proof -
  let ?n = "bmap_block (sb s) (b div BPB)"
  have ub: "unat (of_nat b :: u32) = b" using size_bound [OF b] by (simp add: unat_of_nat)
  have len: "length (bview s ?n) = BSIZE" by (rule fs.view_length [OF inv])
  from fs.change_block [OF inv held room log o] obtain e t where
    t: "bread ROOTDEV ?n s = Ok e t" "b_data (bu t e) = bview s ?n" "tx_frame s t"
      "\<forall>d. length d = BSIZE \<longrightarrow> (\<exists>v u. log_write e (set_data e d t) = Ok () v \<and> brelse e v = Ok () u \<and> tx_frame s v
       \<and> fs_inv p start L (log_add bns ?n) u \<and> bview u = (bview s)(?n := d) \<and> (\<forall>i\<in>L. b_blockno (bu u i) = b_blockno (bu s i)) \<and> tx_frame s u)"
    by blast
  define d where "d = (bview s ?n)[b mod BPB div 8 := bview s ?n ! (b mod BPB div 8) AND NOT (2 ^ (b mod BPB mod 8))]"
  have bit: "bview s ?n ! (b mod BPB div 8) AND 2 ^ (b mod BPB mod 8) = 0 \<longleftrightarrow> \<not> used (sb s) (bview s) b"
    unfolding bbit_test used_def by simp
  show ?thesis
  proof (cases "used (sb s) (bview s) b")
    case True
    have "length d = BSIZE" by (simp add: d_def len)
    with t(4) obtain v u where u: "log_write e (set_data e d t) = Ok () v" "brelse e v = Ok () u" "fs_inv p start L (log_add bns ?n) u"
      "bview u = (bview s)(?n := d)" "tx_frame s u" by blast
    have "bfree ROOTDEV (of_nat b) s = Ok () u"
      using True bit u(1,2) by (simp add: bfree_def BBLOCK_eq [OF size_bound [OF b]] t(1,2) Let_def ub d_def)
    moreover have "used (sb s) (bview u) c \<longleftrightarrow> used (sb s) (bview s) c \<and> c \<noteq> b" if "c < unat (sb_size (sb s))" for c
    proof -
      have "c div BPB = b div BPB \<Longrightarrow> c mod BPB = b mod BPB \<longleftrightarrow> c = b" by (metis div_mult_mod_eq)
      then show ?thesis
        unfolding u(4) used_upd [OF b that] using bbit_clear [of "b mod BPB" "bview s ?n" "c mod BPB"] mod_index [of b] len
        by (auto simp: d_def used_def)
    qed
    ultimately show ?thesis using True u(3-5) by auto
  next
    case False
    then show ?thesis using bit by (simp add: bfree_def BBLOCK_eq [OF size_bound [OF b]] t(1,2) Let_def ub)
  qed
qed

text \<open>One round of \<^verbatim>\<open>balloc\<close>: a bitmap block with no clear bit is released, the first clear bit is taken.\<close>

definition alloc_post :: "nat \<Rightarrow> u32 \<Rightarrow> nat set \<Rightarrow> u32 list \<Rightarrow> 'z fs_state_scheme \<Rightarrow> nat \<Rightarrow> 'z fs_state_scheme \<Rightarrow> bool" where
  "alloc_post p start L bns s b t \<longleftrightarrow> fs_inv p start L (log_add (log_add bns (bmap_block (sb s) (b div BPB))) (of_nat b)) t
     \<and> (\<forall>c<unat (sb_size (sb s)). used (sb s) (bview t) c \<longleftrightarrow> used (sb s) (bview s) c \<or> c = b)
     \<and> bview t (of_nat b) = replicate BSIZE 0
     \<and> (\<forall>n. n \<noteq> bmap_block (sb s) (b div BPB) \<and> n \<noteq> of_nat b \<longrightarrow> bview t n = bview s n)
     \<and> (\<forall>i\<in>L. b_blockno (bu t i) = b_blockno (bu s i)) \<and> tx_frame s t"

lemma balloc_mark:
  assumes inv: "fs_inv p start L bns s" and ok: "bitmap_ok start (sb s) (bview s)" and room: "card L + length bns + 1 < NBUF" "length bns + 1 < LOGSIZE - 1"
    and o: "1 \<le> sint (l_outstanding (lg s))" and b: "b < unat (sb_size (sb s))" and free: "\<not> used (sb s) (bview s) b"
    and held: "\<forall>i\<in>L. b_blockno (bu s i) \<noteq> bmap_block (sb s) (b div BPB)" "\<forall>i\<in>L. b_blockno (bu s i) \<noteq> of_nat b"
    and d: "d = (bview s (bmap_block (sb s) (b div BPB)))[b mod BPB div 8 := bview s (bmap_block (sb s) (b div BPB)) ! (b mod BPB div 8) OR 2 ^ (b mod BPB mod 8)]"
  shows "\<exists>e t v u w. bread ROOTDEV (bmap_block (sb s) (b div BPB)) s = Ok e t \<and> b_data (bu t e) = bview s (bmap_block (sb s) (b div BPB))
     \<and> tx_frame s t \<and> log_write e (set_data e d t) = Ok () v \<and> brelse e v = Ok () u \<and> bzero ROOTDEV (of_nat b) u = Ok () w \<and> alloc_post p start L bns s b w"
proof -
  let ?n = "bmap_block (sb s) (b div BPB)"
  have len: "length (bview s ?n) = BSIZE" by (rule fs.view_length [OF inv])
  have nlog: "?n \<notin> log_area start" "of_nat b \<notin> log_area start" "of_nat b \<noteq> ?n"
    using ok b free bitmap_index [OF b] by (auto simp: bitmap_ok_def)
  from fs.change_block [OF inv held(1) _ nlog(1) _ o] room obtain e t where
    t: "bread ROOTDEV ?n s = Ok e t" "b_data (bu t e) = bview s ?n" "tx_frame s t"
      "\<forall>d. length d = BSIZE \<longrightarrow> (\<exists>v u. log_write e (set_data e d t) = Ok () v \<and> brelse e v = Ok () u \<and> tx_frame s v
       \<and> fs_inv p start L (log_add bns ?n) u \<and> bview u = (bview s)(?n := d) \<and> (\<forall>i\<in>L. b_blockno (bu u i) = b_blockno (bu s i)) \<and> tx_frame s u)"
    by auto
  have "length d = BSIZE" by (simp add: d len)
  with t(4) obtain v u where u: "log_write e (set_data e d t) = Ok () v" "brelse e v = Ok () u" "fs_inv p start L (log_add bns ?n) u"
    "bview u = (bview s)(?n := d)" "\<forall>i\<in>L. b_blockno (bu u i) = b_blockno (bu s i)" "tx_frame s u" by blast
  have "\<forall>i\<in>L. b_blockno (bu u i) \<noteq> of_nat b" "1 \<le> sint (l_outstanding (lg u))"
    using held(2) u(5) o tx_frame_outstanding [OF u(6)] by auto
  with bzero_spec [OF u(3) _ _ nlog(2)] room length_log_add [of bns ?n] obtain w where
    w: "bzero ROOTDEV (of_nat b) u = Ok () w" "fs_inv p start L (log_add (log_add bns ?n) (of_nat b)) w"
      "bview w = (bview u)(of_nat b := replicate BSIZE 0)" "\<forall>i\<in>L. b_blockno (bu w i) = b_blockno (bu u i)" "tx_frame u w"
    by auto
  have "used (sb s) (bview w) c \<longleftrightarrow> used (sb s) (bview s) c \<or> c = b" if c: "c < unat (sb_size (sb s))" for c
  proof -
    have "of_nat b \<noteq> bmap_block (sb s) (c div BPB)" using ok b free bitmap_index [OF c] by (auto simp: bitmap_ok_def)
    then have "used (sb s) (bview w) c = used (sb s) (bview u) c" by (auto simp: used_def w(3))
    moreover have "c div BPB = b div BPB \<Longrightarrow> c mod BPB = b mod BPB \<longleftrightarrow> c = b" by (metis div_mult_mod_eq)
    ultimately show ?thesis
      unfolding u(4) used_upd [OF b c] using bbit_set [of "b mod BPB" "bview s ?n" "c mod BPB"] mod_index [of b] len
      by (auto simp: d used_def)
  qed
  moreover have "tx_frame s w" by (rule tx_frame_trans [OF u(6) w(5)])
  ultimately have "alloc_post p start L bns s b w" using w nlog u(4,5) by (auto simp: alloc_post_def)
  then show ?thesis using t u w(1) by blast
qed

lemma alloc_post_start:
  assumes "alloc_post p start L bns t b w" and "bview t = bview s" and "tx_frame s t" and "\<forall>i\<in>L. b_blockno (bu t i) = b_blockno (bu s i)"
  shows "alloc_post p start L bns s b w"
proof -
  have "sb t = sb s" by (rule tx_frame_fields(1) [OF assms(3)])
  moreover have "tx_frame s w" using assms(1,3) by (auto simp: alloc_post_def intro: tx_frame_trans)
  ultimately show ?thesis using assms(1,2,4) by (simp add: alloc_post_def)
qed

lemma bitmap_round:
  assumes "i < bitmap_len sblk" and "j < min BPB (unat (sb_size sblk) - i * BPB)"
  shows "i * BPB + j < unat (sb_size sblk)" "(i * BPB + j) div BPB = i" "(i * BPB + j) mod BPB = j"
  using assms by (auto simp: fs_consts)

text \<open>The state before round \<^verbatim>\<open>i\<close>: no block before the \<^verbatim>\<open>i\<close>-th bitmap block is free.\<close>

definition alloc_inv :: "nat \<Rightarrow> u32 \<Rightarrow> nat set \<Rightarrow> u32 list \<Rightarrow> 'z fs_state_scheme \<Rightarrow> nat \<Rightarrow> 'z fs_state_scheme \<Rightarrow> bool" where
  "alloc_inv p start L bns s i t \<longleftrightarrow> fs_inv p start L bns t \<and> bview t = bview s \<and> tx_frame s t
     \<and> (\<forall>e\<in>L. b_blockno (bu t e) = b_blockno (bu s e)) \<and> (\<forall>c<unat (sb_size (sb s)). c < i * BPB \<longrightarrow> used (sb s) (bview s) c)"

definition alloc_found :: "nat \<Rightarrow> u32 \<Rightarrow> nat set \<Rightarrow> u32 list \<Rightarrow> 'z fs_state_scheme \<Rightarrow> u32 \<Rightarrow> 'z fs_state_scheme \<Rightarrow> bool" where
  "alloc_found p start L bns s a t \<longleftrightarrow> (\<exists>b. a = of_nat b \<and> b < unat (sb_size (sb s)) \<and> \<not> used (sb s) (bview s) b
     \<and> (\<forall>c<b. used (sb s) (bview s) c) \<and> alloc_post p start L bns s b t)"

definition not_held :: "nat set \<Rightarrow> 'z fs_state_scheme \<Rightarrow> bool" where
  "not_held L s \<longleftrightarrow> (\<forall>e\<in>L. \<forall>i<bitmap_len (sb s). b_blockno (bu s e) \<noteq> bmap_block (sb s) i)
     \<and> (\<forall>e\<in>L. \<forall>b<unat (sb_size (sb s)). \<not> used (sb s) (bview s) b \<longrightarrow> b_blockno (bu s e) \<noteq> of_nat b)"

lemma balloc_round_full:
  assumes I: "alloc_inv p start L bns s i t" and i: "i < bitmap_len (sb s)" and held: "not_held L s" and room: "card L + length bns < NBUF"
    and none: "find_free_bit (bview s (bmap_block (sb s) i)) 0 (min BPB (unat (sb_size (sb s)) - i * BPB)) = None"
  shows "\<exists>t'. balloc_round ROOTDEV i t = Ok None t' \<and> alloc_inv p start L bns s (Suc i) t'"
proof -
  have sbt: "sb t = sb s" and vt: "bview t = bview s" and inv: "fs_inv p start L bns t" and ft: "tx_frame s t"
    and bt: "\<forall>e\<in>L. b_blockno (bu t e) = b_blockno (bu s e)"
    using I tx_frame_fields(1) [of s t] by (auto simp: alloc_inv_def)
  have lt: "i * BPB < unat (sb_size (sb s))" using i by (auto simp: bitmap_len_def fs_consts)
  have bb: "BBLOCK (of_nat (i * BPB)) (sb t) = bmap_block (sb s) i"
    using BBLOCK_eq [OF size_bound [OF lt]] by (simp add: sbt fs_consts)
  have "\<forall>e\<in>L. b_blockno (bu t e) \<noteq> bmap_block (sb s) i" using bt held i by (simp add: not_held_def)
  from fs.look_block [OF inv this room] obtain e u v where
    u: "bread ROOTDEV (bmap_block (sb s) i) t = Ok e u" "b_data (bu u e) = bview t (bmap_block (sb s) i)" "tx_frame t u" "brelse e u = Ok () v"
      "fs_inv p start L bns v" "bview v = bview t" "\<forall>e\<in>L. b_blockno (bu v e) = b_blockno (bu t e)" "tx_frame t v" by blast
  have "sb u = sb s" using tx_frame_fields(1) [OF u(3)] sbt by simp
  then have "balloc_round ROOTDEV i t = Ok None v" unfolding balloc_round_def Let_def bb by (simp add: u vt none)
  moreover have "used (sb s) (bview s) c" if c: "c < unat (sb_size (sb s))" "c < Suc i * BPB" for c
  proof (cases "c < i * BPB")
    case True
    then show ?thesis using I c(1) by (simp add: alloc_inv_def)
  next
    case False
    then have j: "c - i * BPB < min BPB (unat (sb_size (sb s)) - i * BPB)" "c = i * BPB + (c - i * BPB)" using c by auto
    then have "bbit (bview s (bmap_block (sb s) i)) (c - i * BPB)" using none by (simp add: find_free_bit_None)
    then show ?thesis using bitmap_round(2,3) [OF i j(1)] j(2) by (metis used_def)
  qed
  moreover have "tx_frame s v" by (rule tx_frame_trans [OF ft u(8)])
  ultimately show ?thesis using u(5-7) vt bt by (auto simp: alloc_inv_def)
qed

lemma balloc_round_take:
  assumes I: "alloc_inv p start L bns s i t" and i: "i < bitmap_len (sb s)" and held: "not_held L s" and ok: "bitmap_ok start (sb s) (bview s)"
    and room: "card L + length bns + 1 < NBUF" "length bns + 1 < LOGSIZE - 1" and o: "1 \<le> sint (l_outstanding (lg s))"
    and some: "find_free_bit (bview s (bmap_block (sb s) i)) 0 (min BPB (unat (sb_size (sb s)) - i * BPB)) = Some j"
  shows "\<exists>a t'. balloc_round ROOTDEV i t = Ok (Some a) t' \<and> alloc_found p start L bns s a t'"
proof -
  have sbt: "sb t = sb s" and vt: "bview t = bview s" and inv: "fs_inv p start L bns t" and ft: "tx_frame s t"
    and bt: "\<forall>e\<in>L. b_blockno (bu t e) = b_blockno (bu s e)"
    using I tx_frame_fields(1) [of s t] by (auto simp: alloc_inv_def)
  note J = find_free_bit_Some [OF some]
  then have j: "j < min BPB (unat (sb_size (sb s)) - i * BPB)" by simp
  note R = bitmap_round [OF i j]
  let ?n = "bmap_block (sb s) i"
  define b where "b = i * BPB + j"
  note R = R [folded b_def]
  have lt: "i * BPB < unat (sb_size (sb s))" using R(1) by (simp add: b_def)
  have bb: "BBLOCK (of_nat (i * BPB)) (sb t) = ?n" using BBLOCK_eq [OF size_bound [OF lt]] by (simp add: sbt fs_consts)
  have free: "\<not> used (sb s) (bview s) b" using J R by (simp add: used_def)
  have least: "used (sb s) (bview s) c" if "c < b" for c
  proof (cases "c < i * BPB")
    case True
    then show ?thesis using I lt by (simp add: alloc_inv_def)
  next
    case False
    then have c: "c - i * BPB < min BPB (unat (sb_size (sb s)) - i * BPB)" "c = i * BPB + (c - i * BPB)" "c - i * BPB < j" using that j by (auto simp: b_def)
    then show ?thesis using J bitmap_round(2,3) [OF i c(1)] by (metis used_def le0)
  qed
  have nh: "\<forall>e\<in>L. b_blockno (bu t e) \<noteq> ?n" "\<forall>e\<in>L. b_blockno (bu t e) \<noteq> of_nat b"
    using bt held i free R(1) by (simp_all add: not_held_def)
  have ot: "1 \<le> sint (l_outstanding (lg t))" using o tx_frame_outstanding [OF ft] by simp
  let ?d = "(bview s ?n)[j div 8 := bview s ?n ! (j div 8) OR 2 ^ (j mod 8)]"
  have "\<exists>e u v x w. bread ROOTDEV ?n t = Ok e u \<and> b_data (bu u e) = bview s ?n \<and> tx_frame t u \<and> log_write e (set_data e ?d u) = Ok () v
     \<and> brelse e v = Ok () x \<and> bzero ROOTDEV (of_nat b) x = Ok () w \<and> alloc_post p start L bns t b w"
    using balloc_mark [OF inv _ room ot, where b = b and d = ?d] ok free nh R by (simp add: sbt vt)
  then obtain e u v x w where w: "bread ROOTDEV ?n t = Ok e u" "b_data (bu u e) = bview s ?n" "tx_frame t u" "log_write e (set_data e ?d u) = Ok () v"
    "brelse e v = Ok () x" "bzero ROOTDEV (of_nat b) x = Ok () w" "alloc_post p start L bns t b w" by blast
  have "sb u = sb s" using tx_frame_fields(1) [OF w(3)] sbt by simp
  then have "balloc_round ROOTDEV i t = Ok (Some (of_nat b)) w"
    unfolding balloc_round_def Let_def bb using w(1,2,4-6) some by (simp add: b_def)
  moreover have "alloc_post p start L bns s b w" by (rule alloc_post_start [OF w(7) vt ft bt])
  ultimately show ?thesis using R(1) free least unfolding alloc_found_def by blast
qed

text \<open>
  \<^verbatim>\<open>balloc\<close> takes the least free block, and panics when there is none.
\<close>

lemma balloc_spec:
  assumes inv: "fs_inv p start L bns s" and ok: "bitmap_ok start (sb s) (bview s)" and room: "card L + length bns + 1 < NBUF" "length bns + 1 < LOGSIZE - 1"
    and o: "1 \<le> sint (l_outstanding (lg s))" and held: "not_held L s"
  shows "if \<forall>b<unat (sb_size (sb s)). used (sb s) (bview s) b then balloc ROOTDEV s = Panic ''balloc: out of blocks''
    else \<exists>b t. balloc ROOTDEV s = Ok (of_nat b) t \<and> b < unat (sb_size (sb s)) \<and> \<not> used (sb s) (bview s) b
       \<and> (\<forall>c<b. used (sb s) (bview s) c) \<and> alloc_post p start L bns s b t"
proof -
  let ?n = "bitmap_len (sb s)"
  have "(\<exists>t. kscan 0 ?n (balloc_round ROOTDEV) s = Ok None t \<and> alloc_inv p start L bns s ?n t)
      \<or> (\<exists>a t. kscan 0 ?n (balloc_round ROOTDEV) s = Ok (Some a) t \<and> alloc_found p start L bns s a t)"
  proof (rule kscan_inv)
    show "alloc_inv p start L bns s 0 s" using inv by (simp add: alloc_inv_def tx_frame_refl)
    fix i t assume i: "i < ?n" and I: "alloc_inv p start L bns s i t"
    show "(\<exists>t'. balloc_round ROOTDEV i t = Ok None t' \<and> alloc_inv p start L bns s (Suc i) t')
        \<or> (\<exists>a t'. balloc_round ROOTDEV i t = Ok (Some a) t' \<and> alloc_found p start L bns s a t')"
    proof (cases "find_free_bit (bview s (bmap_block (sb s) i)) 0 (min BPB (unat (sb_size (sb s)) - i * BPB))")
      case None
      from balloc_round_full [OF I i held _ None] room(1) show ?thesis by auto
    next
      case (Some j)
      from balloc_round_take [OF I i held ok room o Some] show ?thesis by blast
    qed
  qed simp
  then show ?thesis
  proof (elim disjE exE conjE)
    fix t assume k: "kscan 0 ?n (balloc_round ROOTDEV) s = Ok None t" and I: "alloc_inv p start L bns s ?n t"
    have "used (sb s) (bview s) c" if "c < unat (sb_size (sb s))" for c
    proof -
      have "Suc (c div BPB) * BPB \<le> ?n * BPB" using bitmap_index [OF that] by (simp only: mult_le_mono1 Suc_leI)
      moreover have "c < Suc (c div BPB) * BPB" using div_mult_mod_eq [of c BPB] mod_less_divisor [of BPB c] by (simp add: fs_consts)
      ultimately show ?thesis using I that by (auto simp: alloc_inv_def)
    qed
    then show ?thesis using k by (auto simp: balloc_def bitmap_len_def)
  next
    fix a t assume "kscan 0 ?n (balloc_round ROOTDEV) s = Ok (Some a) t" "alloc_found p start L bns s a t"
    then show ?thesis by (auto simp: balloc_def bitmap_len_def alloc_found_def)
  qed
qed

section \<open>A kernel with an empty cache\<close>

text \<open>
  After \<^verbatim>\<open>binit\<close> the file system sees the disk. The examples below start from this state, with a superblock for 1000 blocks: the log
  in blocks 2 to 31, inodes from block 32 on, the bitmap in block 45.
\<close>

lemma binit_fs_inv:
  assumes "zero_cache p s" and "log_at start [] (lg s)" and "l_size (lg s) = of_nat LOGSIZE" and "Log_lock \<notin> set (held s)"
  shows "\<exists>t. binit s = Ok () t \<and> fs_inv p start {} [] t \<and> bview t = disk s \<and> bio_state.more t = bio_state.more s \<and> held t = held s"
proof -
  from binit_spec [OF assms(1)] obtain t where
    t: "binit s = Ok () t" "cache_inv p {} (\<lambda>_. 0) t" "bview t = disk s" "disk t = disk s" "held t = held s" "bio_state.more t = bio_state.more s" by blast
  have "lg t = lg s" using t(6) by (cases s; cases t) simp
  then have "in_tx p {} start [] t"
    using t(2,5) assms(2-4) by (auto simp: in_tx_def pins_from_all home_bufs_def good_log_def param_defs)
  then show ?thesis using t by (auto simp: fs_inv_def)
qed

definition demo_sb :: superblock where
  "demo_sb = \<lparr>sb_magic = FSMAGIC, sb_size = 1000, sb_nblocks = 954, sb_ninodes = 200, sb_nlog = 30, sb_logstart = 2, sb_inodestart = 32,
     sb_bmapstart = 45\<rparr>"

definition demo_fs :: "(u32 \<Rightarrow> u8 list) \<Rightarrow> inode list \<Rightarrow> fs_state" where
  "demo_fs d it = log_state.extend (demo_zero\<lparr>disk := d\<rparr>) (fs_state.fields demo_sb it)"

lemma demo_fs_boot:
  assumes "\<forall>n. length (d n) = BSIZE"
  shows "\<exists>t :: fs_state. fs_inv 1 2 {} [] t \<and> bview t = d \<and> sb t = demo_sb \<and> itable t = it \<and> l_outstanding (lg t) = 1 \<and> held t = []"
proof -
  have "zero_cache 1 (demo_fs d it)"
    using demo_zero_cache assms by (simp add: zero_cache_def in_proc_def demo_fs_def demo_zero_def log_state.defs)
  moreover have "log_at 2 [] (lg (demo_fs d it))" "l_size (lg (demo_fs d it)) = of_nat LOGSIZE" "Log_lock \<notin> set (held (demo_fs d it))"
    by (simp_all add: demo_fs_def demo_zero_def log_state.defs log_at_def)
  ultimately obtain t :: fs_state where
    t: "fs_inv 1 2 {} [] t" "bview t = disk (demo_fs d it)" "bio_state.more t = bio_state.more (demo_fs d it)"
      "held t = held (demo_fs d it)" using binit_fs_inv by blast
  have "lg t = lg (demo_fs d it)" "sb t = sb (demo_fs d it)" "itable t = itable (demo_fs d it)"
    using t(3) by (cases t; simp add: demo_fs_def demo_zero_def log_state.defs fs_state.defs)+
  moreover have "disk (demo_fs d it) = d" by (simp add: demo_fs_def log_state.defs demo_zero_def)
  ultimately show ?thesis using t(1,2,4) by (auto simp: demo_fs_def demo_zero_def log_state.defs fs_state.defs)
qed

section \<open>Properties\<close>


definition demo_disk :: "u32 \<Rightarrow> u8 list" where
  "demo_disk n = (if n = 45 then replicate 8 255 @ replicate 1016 0 else replicate BSIZE 0)"

lemma demo_disk_used: "b < 1000 \<Longrightarrow> used demo_sb demo_disk b \<longleftrightarrow> b < 64"
proof -
  assume b: "b < 1000"
  have "(255 :: u8) = - 1" by simp
  then have "bit (255 :: u8) (b mod 8)" by (simp only: bit_minus_1_iff) simp
  moreover have "b div 8 < 8 \<longleftrightarrow> b < 64" by auto
  moreover have "b div 8 < 1024" using b by simp
  ultimately show ?thesis using b
    by (auto simp: used_def bmap_block_def demo_sb_def demo_disk_def bbit_def nth_append fs_consts)
qed

lemma demo_bitmap_ok: "bitmap_ok 2 demo_sb demo_disk"
proof -
  have "bitmap_len demo_sb = 1" by (simp add: bitmap_len_def demo_sb_def fs_consts)
  moreover have "of_nat b \<notin> log_area 2" "of_nat b \<noteq> (45 :: u32)" if "64 \<le> b" "b < 1000" for b
  proof -
    have u: "unat (of_nat b :: u32) = b" using that by (simp add: unat_of_nat)
    then show "of_nat b \<notin> log_area 2" using that log_area_range [of 2 "of_nat b"] by (simp add: param_defs)
    show "of_nat b \<noteq> (45 :: u32)" using that u by auto
  qed
  moreover have "45 \<notin> log_area 2" using log_area_range [of 2 45] by (simp add: param_defs)
  moreover have "unat (sb_size demo_sb) = 1000" "bmap_block demo_sb 0 = 45" by (simp_all add: demo_sb_def bmap_block_def)
  ultimately show ?thesis using demo_disk_used by (auto simp: bitmap_ok_def not_less)
qed


end
