(* ===== verification/Fs_Table.thy ===== *)
theory Fs_Table
  imports Fs_Alloc
begin

text \<open>
  The inode table. Its entries in use stand for different inodes, so that two processes that use the same inode share one
  entry and its lock. Everything the file system does to blocks and to the fields of an entry leaves the identities and
  reference counts of the table alone, on every path and from any state; \<^verbatim>\<open>iget\<close>, \<^verbatim>\<open>idup\<close> and \<^verbatim>\<open>iput\<close> change one count.
\<close>

section \<open>What does not change the table\<close>

definition ident :: "inode \<Rightarrow> u32 \<times> u32 \<times> i32" where
  "ident x = (i_dev x, i_inum x, i_ref x)"

definition tab_same :: "'z fs_state_scheme \<Rightarrow> 'z fs_state_scheme \<Rightarrow> bool" where
  "tab_same s t \<longleftrightarrow> map ident (itable t) = map ident (itable s)"

interpretation ts: step_rel tab_same
  by unfold_locales (auto simp: tab_same_def)

lemma within_more_tab: "within more_same s r \<Longrightarrow> within tab_same s r" for s :: "'z fs_state_scheme"
proof -
  have "more_same s t \<Longrightarrow> tab_same s t" for s t :: "'z fs_state_scheme"
    by (cases s; cases t) (simp add: more_same_def tab_same_def)
  then show "within more_same s r \<Longrightarrow> within tab_same s r" by (cases r) simp_all
qed

lemma within_kstep_tab: "within kstep s r \<Longrightarrow> within tab_same s r" for s :: "'z fs_state_scheme"
proof -
  have "kstep s t \<Longrightarrow> tab_same s t" for s t :: "'z fs_state_scheme"
    by (cases s; cases t) (simp add: kstep_def tab_same_def)
  then show "within kstep s r \<Longrightarrow> within tab_same s r" by (cases r) simp_all
qed

lemmas below_tab [frame] = bread_more [THEN within_more_tab] brelse_more [THEN within_more_tab]
  acquire_more [THEN within_more_tab] release_more [THEN within_more_tab] acquiresleep_more [THEN within_more_tab]
  releasesleep_more [THEN within_more_tab] holdingsleep_more [THEN within_more_tab] wakeup_more [THEN within_more_tab]
  copyout_frame [THEN within_kstep_tab] copyin_frame [THEN within_kstep_tab]

lemma tab_upd [simp]:
  "tab_same s (upd_log f t) = tab_same s t" "tab_same s (upd_buf b g t) = tab_same s t" "tab_same s (set_data b d t) = tab_same s t"
  "tab_same s (t\<lparr>sb := x\<rparr>) = tab_same s t" "tab_same s s"
  by (simp_all add: tab_same_def upd_log_def upd_buf_def set_data_def)

lemma tab_start [simp]:
  "within tab_same (upd_log f s) r = within tab_same s r" "within tab_same (upd_buf b g s) r = within tab_same s r"
  "within tab_same (set_data b d s) r = within tab_same s r" "within tab_same (s\<lparr>sb := x\<rparr>) r = within tab_same s r"
  by (cases r; simp add: tab_same_def upd_log_def upd_buf_def set_data_def)+

lemma upd_inode_tab:
  fixes s t :: "'z fs_state_scheme"
  assumes "\<And>x. ident (f x) = ident x"
  shows "tab_same s (upd_inode ip f t) = tab_same s t" "within tab_same (upd_inode ip f s) r = within tab_same s r"
proof -
  have "map ident (itable (upd_inode ip f u)) = map ident (itable u)" for u :: "'z fs_state_scheme"
    using assms by (cases "ip < length (itable u)") (simp_all add: upd_inode_def map_update list_update_same_conv list_update_beyond)
  then show "tab_same s (upd_inode ip f t) = tab_same s t" "within tab_same (upd_inode ip f s) r = within tab_same s r"
    by (simp add: tab_same_def, cases r) (simp_all add: tab_same_def)
qed

lemma with_proc_tab: "(\<And>p. within tab_same s (f p)) \<Longrightarrow> within tab_same s (with_proc s f)"
  by (simp add: with_proc_def split: option.splits)

lemma bpin_tab [frame]: "within tab_same s (bpin b s)"
  by (auto simp: bpin_def Let_def acquire_def release_def tab_same_def upd_buf_def)

lemma log_write_tab [frame]: "within tab_same s (log_write b s)"
proof -
  have bp: "within tab_same s (bpin b (upd_log f s))" for f and s :: "'z fs_state_scheme"
    using bpin_tab [of "upd_log f s" b] by simp
  show ?thesis unfolding log_write_def Let_def by (intro ts.within_rules frame bp) (simp_all add: release_def)
qed

lemma set_data_log_write_tab [frame]: "within tab_same s (log_write b (set_data b d s))"
  using log_write_tab [of "set_data b d s" b] by simp

lemma set_data_brelse_tab [frame]: "within tab_same s (brelse b (set_data b d s))"
  using below_tab(2) [of "set_data b d s" b] by simp

lemma readsb_tab [frame]: "within tab_same s (readsb dev s)"
  using below_tab(2) [of "s\<lparr>sb := x\<rparr>" for s x]
  by (auto simp: readsb_def Let_def intro!: ts.within_rules frame)

lemma bzero_tab [frame]: "within tab_same s (bzero dev bno s)"
  unfolding bzero_def by (intro ts.within_rules frame)

lemma balloc_round_tab [frame]: "within tab_same s (balloc_round dev i s)"
  unfolding balloc_round_def by (intro ts.within_rules frame) simp_all

lemma balloc_tab [frame]: "within tab_same s (balloc dev s)"
  unfolding balloc_def by (intro ts.within_rules frame) simp_all

lemma bfree_tab [frame]: "within tab_same s (bfree dev b s)"
  unfolding bfree_def by (intro ts.within_rules frame) simp_all

lemma iupdate_tab [frame]: "within tab_same s (iupdate ip s)"
  unfolding iupdate_def by (intro ts.within_rules frame)

lemma ident_upd [simp]:
  "ident (x\<lparr>i_valid := v\<rparr>) = ident x" "ident (x\<lparr>i_addrs := as\<rparr>) = ident x" "ident (x\<lparr>i_size := z\<rparr>) = ident x" "ident (x\<lparr>i_type := ty\<rparr>) = ident x"
  "ident (x\<lparr>i_nlink := nl\<rparr>) = ident x" "ident (load_dinode d k x) = ident x"
  by (simp_all add: ident_def load_dinode_def)

lemma ilock_tab [frame]: "within tab_same s (ilock ip s)"
proof -
  have "within tab_same s (brelse b (upd_inode ip (load_dinode d k) s))" for b d k and s :: "'z fs_state_scheme"
    using below_tab(2) [of "upd_inode ip (load_dinode d k) s" b] by (simp add: upd_inode_tab)
  then show ?thesis unfolding ilock_def by (intro ts.within_rules frame) (simp_all add: upd_inode_tab)
qed

lemma iunlock_tab [frame]: "within tab_same s (iunlock ip s)"
  unfolding iunlock_def by (intro ts.within_rules frame) simp_all

lemma bmap_tab [frame]: "within tab_same s (bmap ip bn s)"
  unfolding bmap_def Let_def by (intro ts.within_rules frame) (simp_all add: upd_inode_tab)

lemma iupdate_size_tab [frame]: "within tab_same s (iupdate ip (upd_inode ip (\<lambda>x. x\<lparr>i_size := z\<rparr>) s))"
  using iupdate_tab [of "upd_inode ip (\<lambda>x. x\<lparr>i_size := z\<rparr>) s" ip] by (simp add: upd_inode_tab)

lemma itrunc_tab [frame]: "within tab_same s (itrunc ip s)"
  unfolding itrunc_def Let_def by (intro ts.within_rules frame) (simp_all add: upd_inode_tab)

lemma either_copyout_tab [frame]: "within tab_same s (either_copyout u dst src len s)"
  unfolding either_copyout_def by (intro ts.within_rules with_proc_tab frame) simp_all

lemma either_copyin_tab [frame]: "within tab_same s (either_copyin u src k len s)"
  unfolding either_copyin_def by (intro ts.within_rules with_proc_tab frame) simp_all

lemma readi_loop_tab [frame]: "within tab_same s (readi_loop ip u dst off tot n s)"
proof (induction ip u dst off tot n s rule: readi_loop.induct)
  case (1 ip u dst off tot n s)
  show ?case
    by (subst readi_loop.simps, intro ts.within_rules frame) (use 1 in \<open>auto intro!: ts.within_bind frame\<close>)
qed

lemma readi_tab [frame]: "within tab_same s (readi ip u dst off n s)"
  unfolding readi_def Let_def by (intro ts.within_rules frame) (simp_all add: split_beta)

lemma writei_loop_tab [frame]: "within tab_same s (writei_loop ip u src k off tot n s)"
proof (induction ip u src k off tot n s rule: writei_loop.induct)
  case (1 ip u src k off tot n s)
  show ?case
    by (subst writei_loop.simps, intro ts.within_rules frame) (use 1 in \<open>auto simp: Let_def intro!: ts.within_bind frame\<close>)
qed

lemma writei_tab [frame]: "within tab_same s (writei ip u src k off n s)"
  unfolding writei_def Let_def by (intro ts.within_rules frame) (auto intro!: ts.within_bind frame)

section \<open>The table as a type\<close>

definition itable_ok :: "'z fs_state_scheme \<Rightarrow> bool" where
  "itable_ok s \<longleftrightarrow> length (itable s) = NINODE \<and> (\<forall>i<NINODE. 0 \<le> sint (i_ref (ino s i)))
     \<and> (\<forall>i<NINODE. \<forall>j<NINODE. 0 < sint (i_ref (ino s i)) \<and> 0 < sint (i_ref (ino s j))
          \<and> i_dev (ino s i) = i_dev (ino s j) \<and> i_inum (ino s i) = i_inum (ino s j) \<longrightarrow> i = j)"

text \<open>The number of references to an inode.\<close>

definition refs :: "'z fs_state_scheme \<Rightarrow> u32 \<Rightarrow> u32 \<Rightarrow> int" where
  "refs s dev inum = (\<Sum>i<NINODE. if i_dev (ino s i) = dev \<and> i_inum (ino s i) = inum then sint (i_ref (ino s i)) else 0)"

lemma tab_same_nth:
  "tab_same s t \<Longrightarrow> i < length (itable s) \<Longrightarrow>
     i_dev (ino t i) = i_dev (ino s i) \<and> i_inum (ino t i) = i_inum (ino s i) \<and> i_ref (ino t i) = i_ref (ino s i)"
proof -
  assume t: "tab_same s t" and i: "i < length (itable s)"
  then have l: "length (itable t) = length (itable s)" by (simp add: tab_same_def) (metis length_map)
  have "map ident (itable t) ! i = map ident (itable s) ! i" using t by (simp add: tab_same_def)
  then show ?thesis using i l by (simp add: ident_def)
qed

lemma tab_same_length: "tab_same s t \<Longrightarrow> length (itable t) = length (itable s)"
  unfolding tab_same_def by (metis length_map)

lemma itable_ok_same: "tab_same s t \<Longrightarrow> itable_ok s \<Longrightarrow> itable_ok t"
  using tab_same_nth [of s t] tab_same_length [of s t] by (simp add: itable_ok_def)

lemma refs_same: "tab_same s t \<Longrightarrow> itable_ok s \<Longrightarrow> refs t = refs s"
  using tab_same_nth [of s t] by (simp add: itable_ok_def refs_def fun_eq_iff cong: if_cong)

lemma within_table: "itable_ok s \<Longrightarrow> within tab_same s r \<Longrightarrow> within (\<lambda>s t. itable_ok t \<and> refs t = refs s) s r"
  by (cases r) (auto intro: itable_ok_same refs_same)

text \<open>Changing the reference count of one entry.\<close>

lemma ino_upd_inode: "ip < length (itable s) \<Longrightarrow> ino (upd_inode ip f s) i = (if i = ip then f (ino s ip) else ino s i)"
  by (simp add: upd_inode_def nth_list_update)

lemma length_upd_inode [simp]: "length (itable (upd_inode ip f s)) = length (itable s)"
  by (simp add: upd_inode_def)

lemma refs_set:
  assumes "length (itable s) = NINODE" and "ip < NINODE" and "i_dev (f (ino s ip)) = d" and "i_inum (f (ino s ip)) = n"
    and "i_dev (ino s ip) = d \<and> i_inum (ino s ip) = n \<or> i_ref (ino s ip) = 0"
  shows "refs (upd_inode ip f s) dev inum =
    refs s dev inum + (if dev = d \<and> inum = n then sint (i_ref (f (ino s ip))) - sint (i_ref (ino s ip)) else 0)"
proof -
  let ?g = "\<lambda>t i. if i_dev (ino t i) = dev \<and> i_inum (ino t i) = inum then sint (i_ref (ino t i)) else (0 :: int)"
  have split: "(\<Sum>i<NINODE. ?g t i) = ?g t ip + (\<Sum>i\<in>{..<NINODE} - {ip}. ?g t i)" for t :: "'a fs_state_scheme"
    using assms(2) by (intro sum.remove) auto
  have "(\<Sum>i\<in>{..<NINODE} - {ip}. ?g (upd_inode ip f s) i) = (\<Sum>i\<in>{..<NINODE} - {ip}. ?g s i)"
    using assms(1,2) by (intro sum.cong) (auto simp: ino_upd_inode)
  moreover have "?g (upd_inode ip f s) ip = ?g s ip + (if dev = d \<and> inum = n then sint (i_ref (f (ino s ip))) - sint (i_ref (ino s ip)) else 0)"
    using assms by (auto simp: ino_upd_inode)
  ultimately show ?thesis unfolding refs_def split by simp
qed

lemma sint_inc: "0 \<le> sint (r :: i32) \<Longrightarrow> sint r < 2 ^ 31 - 1 \<Longrightarrow> sint (r + 1) = sint r + 1"
  using sint_of_small [of "sint r + 1"] by simp

lemma sint_dec: "0 < sint (r :: i32) \<Longrightarrow> sint (r - 1) = sint r - 1"
proof -
  assume "0 < sint r"
  moreover have "sint r < 2 ^ 31" using sint_lt [of r] by simp
  ultimately show ?thesis using sint_of_small [of "sint r - 1"] by simp
qed

lemma itable_ok_upd:
  assumes "itable_ok s" and "ip < NINODE" and "0 \<le> sint (i_ref (f (ino s ip)))"
    and "\<forall>i<NINODE. i \<noteq> ip \<and> 0 < sint (i_ref (ino s i)) \<longrightarrow> (i_dev (ino s i), i_inum (ino s i)) \<noteq> (i_dev (f (ino s ip)), i_inum (f (ino s ip)))"
  shows "itable_ok (upd_inode ip f s)"
  using assms unfolding itable_ok_def by (auto simp: ino_upd_inode)

section \<open>The operations on the table\<close>

definition has_id :: "u32 \<Rightarrow> u32 \<Rightarrow> inode \<Rightarrow> bool" where
  "has_id dev inum x \<longleftrightarrow> 0 < sint (i_ref x) \<and> i_dev x = dev \<and> i_inum x = inum"

lemma iget_scan_Cons:
  "iget_scan dev inum (x # xs) k e =
     (if has_id dev inum x then Inl k else iget_scan dev inum xs (Suc k) (if e = None \<and> i_ref x = 0 then Some k else e))"
  by (simp only: iget_scan.simps has_id_def)

declare iget_scan.simps(2) [simp del]

lemma iget_scan_hit:
  "iget_scan dev inum xs k e = Inl i \<Longrightarrow> k \<le> i \<and> i < k + length xs \<and> has_id dev inum (xs ! (i - k))"
proof (induction xs arbitrary: k e)
  case (Cons x xs)
  show ?case
  proof (cases "has_id dev inum x")
    case True
    then show ?thesis using Cons.prems by (simp add: iget_scan_Cons)
  next
    case False
    then have "iget_scan dev inum xs (Suc k) (if e = None \<and> i_ref x = 0 then Some k else e) = Inl i"
      using Cons.prems by (simp only: iget_scan_Cons False if_False)
    from Cons.IH [OF this] show ?thesis by (auto simp: Suc_le_eq nth_Cons' diff_Suc_less)
  qed
qed simp

lemma iget_scan_miss:
  "iget_scan dev inum xs k e = Inr r \<Longrightarrow> (\<forall>x\<in>set xs. \<not> has_id dev inum x)
     \<and> (case e of Some f \<Rightarrow> r = Some f
        | None \<Rightarrow> (case r of None \<Rightarrow> \<forall>x\<in>set xs. i_ref x \<noteq> 0 | Some i \<Rightarrow> k \<le> i \<and> i < k + length xs \<and> i_ref (xs ! (i - k)) = 0))"
proof (induction xs arbitrary: k e)
  case Nil
  then show ?case by (auto split: option.splits)
next
  case (Cons x xs)
  have nx: "\<not> has_id dev inum x" using Cons.prems by (auto simp: iget_scan_Cons)
  then have "iget_scan dev inum xs (Suc k) (if e = None \<and> i_ref x = 0 then Some k else e) = Inr r"
    using Cons.prems by (simp only: iget_scan_Cons nx if_False)
  from Cons.IH [OF this] nx show ?case
    by (auto simp: Suc_le_eq nth_Cons' split: option.splits if_splits)
qed

lemma iget_spec:
  assumes ok: "itable_ok s" and lk: "Itable_lock \<notin> set (held s)" and small: "\<forall>i<NINODE. sint (i_ref (ino s i)) < 2 ^ 31 - 1"
  shows "if (\<forall>i<NINODE. i_ref (ino s i) \<noteq> 0 \<and> \<not> has_id dev inum (ino s i)) then iget dev inum s = Panic ''iget: no inodes''
    else \<exists>jp t. iget dev inum s = Ok jp t \<and> jp < NINODE \<and> itable_ok t \<and> has_id dev inum (ino t jp)
       \<and> (\<forall>d n. refs t d n = refs s d n + (if d = dev \<and> n = inum then 1 else 0))"
proof (cases "iget_scan dev inum (itable s) 0 None")
  case (Inl ip)
  have len: "length (itable s) = NINODE" using ok by (simp add: itable_ok_def)
  have ip: "ip < NINODE" "has_id dev inum (ino s ip)" using iget_scan_hit [OF Inl] len by auto
  let ?f = "\<lambda>x. x\<lparr>i_ref := i_ref x + 1\<rparr>"
  have r: "sint (i_ref (ino s ip) + 1) = sint (i_ref (ino s ip)) + 1"
    using ip small by (intro sint_inc) (auto simp: has_id_def)
  have "iget dev inum s = Ok ip (upd_inode ip ?f s)" using lk Inl by (simp add: iget_def upd_inode_def)
  moreover have "itable_ok (upd_inode ip ?f s)"
    using ok ip r by (intro itable_ok_upd) (auto simp: itable_ok_def has_id_def)
  moreover have "refs (upd_inode ip ?f s) d n = refs s d n + (if d = dev \<and> n = inum then 1 else 0)" for d n
    using refs_set [OF len ip(1), of ?f dev inum d n] ip(2) r by (simp add: has_id_def)
  moreover have "has_id dev inum (ino (upd_inode ip ?f s) ip)" using ip r len by (simp add: has_id_def ino_upd_inode)
  ultimately show ?thesis using ip by auto
next
  case (Inr r)
  have len: "length (itable s) = NINODE" using ok by (simp add: itable_ok_def)
  note M = iget_scan_miss [OF Inr]
  have none: "\<forall>i<NINODE. \<not> has_id dev inum (ino s i)" using M len by (metis nth_mem)
  show ?thesis
  proof (cases r)
    case None
    then have "\<forall>x\<in>set (itable s). i_ref x \<noteq> 0" using M by simp
    then have "\<forall>i<NINODE. i_ref (ino s i) \<noteq> 0" using len by simp
    then show ?thesis using none lk Inr None by (simp add: iget_def)
  next
    case (Some ip)
    have ip: "ip < NINODE" "i_ref (ino s ip) = 0" using M len Some by auto
    let ?f = "\<lambda>x. x\<lparr>i_dev := dev, i_inum := inum, i_ref := 1, i_valid := False\<rparr>"
    have "iget dev inum s = Ok ip (upd_inode ip ?f s)" using lk Inr Some by (simp add: iget_def upd_inode_def)
    moreover have "itable_ok (upd_inode ip ?f s)"
      using ok ip none by (intro itable_ok_upd) (auto simp: itable_ok_def has_id_def)
    moreover have "refs (upd_inode ip ?f s) d n = refs s d n + (if d = dev \<and> n = inum then 1 else 0)" for d n
      using refs_set [OF len ip(1), of ?f dev inum d n] ip(2) by simp
    moreover have "has_id dev inum (ino (upd_inode ip ?f s) ip)" using ip(1) len by (simp add: has_id_def ino_upd_inode)
    ultimately show ?thesis using ip by auto
  qed
qed

text \<open>\<^verbatim>\<open>iput\<close> may truncate and free the inode first; when it returns, the count of its entry has gone down by one.\<close>

lemma iput_outcome:
  fixes s :: "'z fs_state_scheme"
  shows "case iput ip s of
     Ok _ t \<Rightarrow> (\<exists>u. tab_same s u \<and> itable t = itable (upd_inode ip (\<lambda>x. x\<lparr>i_ref := i_ref x - 1\<rparr>) u))
   | Sleeps c t \<Rightarrow> tab_same s t | Panic e \<Rightarrow> True | Spins l \<Rightarrow> True"
proof -
  define body where "body s = (if i_ref (ino s ip) = 1 \<and> i_valid (ino s ip) \<and> i_nlink (ino s ip) = 0 then
         kbind (acquiresleep (Inode_lk ip) s) (\<lambda>_ s.
         kbind (release Itable_lock s) (\<lambda>_ s.
         kbind (itrunc ip s) (\<lambda>_ s.
         kbind (iupdate ip (upd_inode ip (\<lambda>x. x\<lparr>i_type := 0\<rparr>) s)) (\<lambda>_ s.
         let s = upd_inode ip (\<lambda>x. x\<lparr>i_valid := False\<rparr>) s in
         kbind (releasesleep (Inode_lk ip) s) (\<lambda>_ s.
         acquire Itable_lock s)))))
       else Ok () s)" for s :: "'z fs_state_scheme"
  have up: "within tab_same t (iupdate ip (upd_inode ip (\<lambda>x. x\<lparr>i_type := 0\<rparr>) t))" for t :: "'z fs_state_scheme"
    using iupdate_tab [of "upd_inode ip (\<lambda>x. x\<lparr>i_type := 0\<rparr>) t" ip] by (simp add: upd_inode_tab)
  have rs: "within tab_same t (releasesleep (Inode_lk ip) (upd_inode ip (\<lambda>x. x\<lparr>i_valid := False\<rparr>) t))" for t :: "'z fs_state_scheme"
    using below_tab(6) [of "upd_inode ip (\<lambda>x. x\<lparr>i_valid := False\<rparr>) t" "Inode_lk ip"] by (simp add: upd_inode_tab)
  have b: "within tab_same t (body t)" for t unfolding body_def by (intro ts.within_rules frame up rs) simp
  have a: "within tab_same s (kbind (acquire Itable_lock s) (\<lambda>_ s. body s))" by (intro ts.within_bind frame b)
  have eq: "iput ip s = kbind (kbind (acquire Itable_lock s) (\<lambda>_ s. body s)) (\<lambda>_ s.
      release Itable_lock (upd_inode ip (\<lambda>x. x\<lparr>i_ref := i_ref x - 1\<rparr>) s))"
    by (simp add: iput_def body_def kbind_assoc)
  show ?thesis
  proof (cases "kbind (acquire Itable_lock s) (\<lambda>_ s. body s)")
    case (Ok x u)
    then show ?thesis using a unfolding eq by (auto simp: release_def)
  qed (use a eq in simp_all)
qed

lemma table_cong: "itable t = itable u \<Longrightarrow> itable_ok t = itable_ok u \<and> refs t = refs u"
  by (simp add: itable_ok_def refs_def fun_eq_iff cong: if_cong)

lemma iput_table:
  assumes ok: "itable_ok s" and ip: "ip < NINODE" "0 < sint (i_ref (ino s ip))" and r: "iput ip s = Ok x t"
  shows "itable_ok t" "refs t d n = refs s d n - (if d = i_dev (ino s ip) \<and> n = i_inum (ino s ip) then 1 else 0)"
proof -
  let ?f = "\<lambda>x. x\<lparr>i_ref := i_ref x - 1\<rparr>"
  from iput_outcome [of s ip] r obtain u where u: "tab_same s u" "itable t = itable (upd_inode ip ?f u)" by auto
  have len: "length (itable s) = NINODE" "length (itable u) = NINODE" using ok tab_same_length [OF u(1)] by (simp_all add: itable_ok_def)
  have id: "i_dev (ino u ip) = i_dev (ino s ip)" "i_inum (ino u ip) = i_inum (ino s ip)" "i_ref (ino u ip) = i_ref (ino s ip)"
    using tab_same_nth [OF u(1)] ip len by auto
  have dec: "sint (i_ref (ino u ip) - 1) = sint (i_ref (ino u ip)) - 1" using ip(2) id by (intro sint_dec) simp
  have ok': "itable_ok u" by (rule itable_ok_same [OF u(1) ok])
  have "itable_ok (upd_inode ip ?f u)" using ok' ip id dec by (intro itable_ok_upd) (auto simp: itable_ok_def)
  then show "itable_ok t" using table_cong [OF u(2)] by simp
  show "refs t d n = refs s d n - (if d = i_dev (ino s ip) \<and> n = i_inum (ino s ip) then 1 else 0)"
    using refs_set [OF len(2) ip(1), of ?f "i_dev (ino s ip)" "i_inum (ino s ip)" d n] id dec refs_same [OF u(1) ok] table_cong [OF u(2)]
    by simp
qed

lemma idup_table:
  assumes ok: "itable_ok s" and ip: "ip < NINODE" "0 < sint (i_ref (ino s ip))" "sint (i_ref (ino s ip)) < 2 ^ 31 - 1" and lk: "Itable_lock \<notin> set (held s)"
  shows "\<exists>t. idup ip s = Ok ip t \<and> itable_ok t
     \<and> (\<forall>d n. refs t d n = refs s d n + (if d = i_dev (ino s ip) \<and> n = i_inum (ino s ip) then 1 else 0))"
proof -
  let ?f = "\<lambda>x. x\<lparr>i_ref := i_ref x + 1\<rparr>"
  have len: "length (itable s) = NINODE" using ok by (simp add: itable_ok_def)
  have inc: "sint (i_ref (ino s ip) + 1) = sint (i_ref (ino s ip)) + 1" using ip by (intro sint_inc) auto
  have "idup ip s = Ok ip (upd_inode ip ?f s)" using lk by (simp add: idup_def upd_inode_def)
  moreover have "itable_ok (upd_inode ip ?f s)" using ok ip inc by (intro itable_ok_upd) (auto simp: itable_ok_def)
  moreover have "refs (upd_inode ip ?f s) d n = refs s d n + (if d = i_dev (ino s ip) \<and> n = i_inum (ino s ip) then 1 else 0)" for d n
    using refs_set [OF len ip(1), of ?f "i_dev (ino s ip)" "i_inum (ino s ip)" d n] inc by simp
  ultimately show ?thesis by blast
qed

section \<open>Properties\<close>

text \<open>
  \<^bold>\<open>C13\<close> The inode table is well typed: entries in use stand for different inodes and counts are not negative. \<^verbatim>\<open>iget\<close> finds the
  entry of an inode or takes a free one, adds one reference to that inode and none to any other, and panics exactly when
  the inode is not in the table and no entry is free; \<^verbatim>\<open>idup\<close> adds one reference, a completed \<^verbatim>\<open>iput\<close> takes one away, with
  or without freeing the inode on disk. Locking, unlocking, reading, writing, updating and truncating an inode keep the
  table well typed and every count, in whatever state they leave it.
\<close>

theorem inode_table_typed:
  assumes "itable_ok s" and "ip < NINODE" and "0 < sint (i_ref (ino s ip))"
    and "Itable_lock \<notin> set (held s)" and "\<forall>i<NINODE. sint (i_ref (ino s i)) < 2 ^ 31 - 1"
  shows "(if \<forall>i<NINODE. i_ref (ino s i) \<noteq> 0 \<and> \<not> has_id dev inum (ino s i) then iget dev inum s = Panic ''iget: no inodes''
      else \<exists>jp t. iget dev inum s = Ok jp t \<and> jp < NINODE \<and> itable_ok t \<and> has_id dev inum (ino t jp)
        \<and> (\<forall>d n. refs t d n = refs s d n + (if d = dev \<and> n = inum then 1 else 0)))
    \<and> (\<exists>t. idup ip s = Ok ip t \<and> itable_ok t
        \<and> (\<forall>d n. refs t d n = refs s d n + (if d = i_dev (ino s ip) \<and> n = i_inum (ino s ip) then 1 else 0)))
    \<and> (\<forall>t. iput ip s = Ok () t \<longrightarrow> itable_ok t
        \<and> (\<forall>d n. refs t d n = refs s d n - (if d = i_dev (ino s ip) \<and> n = i_inum (ino s ip) then 1 else 0)))
    \<and> (\<forall>r \<in> {ilock ip s, iunlock ip s, iupdate ip s, itrunc ip s}. within (\<lambda>s t. itable_ok t \<and> refs t = refs s) s r)
    \<and> within (\<lambda>s t. itable_ok t \<and> refs t = refs s) s (readi ip u va off m s)
    \<and> within (\<lambda>s t. itable_ok t \<and> refs t = refs s) s (writei ip u va k off m s)"
proof -
  have "sint (i_ref (ino s ip)) < 2 ^ 31 - 1" using assms(2,5) by blast
  note D = idup_table [OF assms(1-3) this assms(4)]
  have P: "\<forall>t. iput ip s = Ok () t \<longrightarrow> itable_ok t
      \<and> (\<forall>d n. refs t d n = refs s d n - (if d = i_dev (ino s ip) \<and> n = i_inum (ino s ip) then 1 else 0))"
    using iput_table [OF assms(1-3)] by simp
  have K: "\<forall>r \<in> {ilock ip s, iunlock ip s, iupdate ip s, itrunc ip s}. within (\<lambda>s t. itable_ok t \<and> refs t = refs s) s r"
    by (auto intro!: within_table [OF assms(1)] frame)
  show ?thesis
    by (rule conjI [OF iget_spec [OF assms(1,4,5)] conjI [OF D conjI [OF P conjI [OF K]]]])
      (intro conjI within_table [OF assms(1)] frame)
qed

definition blank_inode :: inode where
  "blank_inode = \<lparr>i_dev = 0, i_inum = 0, i_ref = 0, i_valid = False, i_type = 0, i_major = 0, i_minor = 0, i_nlink = 0, i_size = 0,
     i_addrs = replicate 13 0\<rparr>"

definition demo_table :: fs_state where
  "demo_table = demo_fs (\<lambda>_. replicate BSIZE 0) (blank_inode\<lparr>i_dev := 1, i_inum := 1, i_ref := 1\<rparr> # replicate 49 blank_inode)"

theorem inode_table_typed_witness:
  "itable_ok demo_table \<and> (\<exists>jp t. iget 1 7 demo_table = Ok jp t \<and> itable_ok t \<and> has_id 1 7 (ino t jp) \<and> refs t 1 1 = refs demo_table 1 1)"
proof -
  have it: "itable demo_table = blank_inode\<lparr>i_dev := 1, i_inum := 1, i_ref := 1\<rparr> # replicate 49 blank_inode"
    and h: "held demo_table = []"
    by (simp_all add: demo_table_def demo_fs_def log_state.defs fs_state.defs demo_zero_def)
  have nth: "ino demo_table i = (if i = 0 then blank_inode\<lparr>i_dev := 1, i_inum := 1, i_ref := 1\<rparr> else blank_inode)" if "i < NINODE" for i
    using that by (simp add: it nth_Cons' param_defs)
  have "length (itable demo_table) = NINODE" by (simp add: it param_defs)
  then have ok: "itable_ok demo_table" using nth by (auto simp: itable_ok_def blank_inode_def split: if_splits)
  have small: "\<forall>i<NINODE. sint (i_ref (ino demo_table i)) < 2 ^ 31 - 1" using nth by (simp add: blank_inode_def)
  have "0 < NINODE" "0 < sint (i_ref (ino demo_table 0))" using nth [of 0] by (simp_all add: param_defs)
  note I = inode_table_typed [OF ok this _ small, THEN conjunct1, of 1 7]
  have "\<not> (\<forall>i<NINODE. i_ref (ino demo_table i) \<noteq> 0 \<and> \<not> has_id 1 7 (ino demo_table i))"
    using nth [of 1] by (intro notI) (drule spec [of _ 1], simp add: blank_inode_def param_defs)
  with I h have "\<exists>jp t. iget 1 7 demo_table = Ok jp t \<and> jp < NINODE \<and> itable_ok t \<and> has_id 1 7 (ino t jp)
      \<and> (\<forall>d n. refs t d n = refs demo_table d n + (if d = 1 \<and> n = 7 then 1 else 0))" by simp
  then show ?thesis using ok by auto
qed

end
