(* ===== verification/Fs_Inode.thy ===== *)
theory Fs_Inode
  imports Fs_Table
begin

text \<open>
  Inodes on disk: the layout of \<^verbatim>\<open>struct dinode\<close>, and that what \<^verbatim>\<open>iupdate\<close> writes is what \<^verbatim>\<open>ilock\<close> reads.
\<close>

section \<open>Byte windows\<close>

lemma put_bytes_window:
  "k + length w \<le> length d \<Longrightarrow> j + m \<le> length w \<Longrightarrow> take m (drop (k + j) (put_bytes d k w)) = take m (drop j w)"
  by (simp add: put_bytes_def)

lemma put_bytes_outside:
  assumes "k + length w \<le> length d" and "j + m \<le> k \<or> k + length w \<le> j"
  shows "take m (drop j (put_bytes d k w)) = take m (drop j d)"
proof (cases "j + m \<le> k")
  case True
  then show ?thesis using assms(1) by (simp add: put_bytes_def drop_take)
next
  case False
  with assms(2) obtain i where "j = k + length w + i" by (auto simp: le_iff_add)
  then show ?thesis using assms(1) by (simp add: put_bytes_def add.commute add.left_commute)
qed

lemma take_concat4: "j < length xs \<Longrightarrow> take 4 (drop (4 * j) (concat (map (to_le 4) xs))) = to_le 4 (xs ! j)"
proof (induction xs arbitrary: j)
  case (Cons x xs)
  then show ?case by (cases j) simp_all
qed simp

section \<open>The inode on disk\<close>

lemma length_concat4: "length (concat (map (to_le 4) xs)) = 4 * length xs"
  by (induction xs) simp_all

lemma length_dinode_bytes: "length (i_addrs x) = NDIRECT + 1 \<Longrightarrow> length (dinode_bytes x) = 64"
  by (simp add: dinode_bytes_def length_concat4 fs_consts)

lemma get16_window: "k + length w \<le> length d \<Longrightarrow> j + 2 \<le> length w \<Longrightarrow> get16 (put_bytes d k w) (k + j) = get16 w j"
  by (simp add: get16_def put_bytes_window)

lemma get32_window: "k + length w \<le> length d \<Longrightarrow> j + 4 \<le> length w \<Longrightarrow> get32 (put_bytes d k w) (k + j) = get32 w j"
  by (simp add: get32_def put_bytes_window)

lemma dinode_fields:
  assumes "length (i_addrs x) = NDIRECT + 1"
  shows "get16 (dinode_bytes x) 0 = i_type x" "get16 (dinode_bytes x) 2 = i_major x" "get16 (dinode_bytes x) 4 = i_minor x"
    "get16 (dinode_bytes x) 6 = i_nlink x" "get32 (dinode_bytes x) 8 = i_size x"
    "j < NDIRECT + 1 \<Longrightarrow> get32 (dinode_bytes x) (12 + 4 * j) = i_addrs x ! j"
proof -
  have le: "from_le (to_le 2 v) = v" "from_le (to_le 4 u) = u" for v :: u16 and u :: u32
    by (simp_all add: from_le_to_le take_bit_word_eq_self)
  show "get16 (dinode_bytes x) 0 = i_type x" "get16 (dinode_bytes x) 2 = i_major x" "get16 (dinode_bytes x) 4 = i_minor x"
    "get16 (dinode_bytes x) 6 = i_nlink x" "get32 (dinode_bytes x) 8 = i_size x"
    by (simp_all add: get16_def get32_def dinode_bytes_def le)
  show "get32 (dinode_bytes x) (12 + 4 * j) = i_addrs x ! j" if "j < NDIRECT + 1"
  proof -
    have "drop (12 + 4 * j) (dinode_bytes x) = drop (4 * j) (concat (map (to_le 4) (i_addrs x)))" by (simp add: dinode_bytes_def)
    then show ?thesis using take_concat4 [of j "i_addrs x"] that assms by (simp add: get32_def le)
  qed
qed

lemma load_dinode_stored:
  assumes "length (i_addrs x) = NDIRECT + 1" and "k + 64 \<le> length d"
  shows "load_dinode (put_bytes d k (dinode_bytes x)) k y =
    x\<lparr>i_dev := i_dev y, i_inum := i_inum y, i_ref := i_ref y, i_valid := i_valid y\<rparr>"
proof -
  note L = length_dinode_bytes [OF assms(1)]
  have w: "k + length (dinode_bytes x) \<le> length d" using assms(2) L by simp
  note F = dinode_fields [OF assms(1)]
  have g: "get16 (put_bytes d k (dinode_bytes x)) k = i_type x" "get16 (put_bytes d k (dinode_bytes x)) (k + 2) = i_major x"
    "get16 (put_bytes d k (dinode_bytes x)) (k + 4) = i_minor x" "get16 (put_bytes d k (dinode_bytes x)) (k + 6) = i_nlink x"
    "get32 (put_bytes d k (dinode_bytes x)) (k + 8) = i_size x"
    using get16_window [OF w, of 0] get16_window [OF w, of 2] get16_window [OF w, of 4] get16_window [OF w, of 6] get32_window [OF w, of 8] L F
    by simp_all
  have "get32 (put_bytes d k (dinode_bytes x)) (k + 12 + 4 * j) = i_addrs x ! j" if "j < NDIRECT + 1" for j
    using get32_window [OF w, of "12 + 4 * j"] L F(6) [OF that] that by (simp add: fs_consts add.assoc)
  then have "map (\<lambda>j. get32 (put_bytes d k (dinode_bytes x)) (k + 12 + 4 * j)) [0..<NDIRECT + 1] = i_addrs x"
    using assms(1) by (intro nth_equalityI) (auto simp del: upt_Suc)
  then show ?thesis unfolding load_dinode_def g by (cases x; cases y) simp
qed

section \<open>Writing and reading an inode\<close>

lemma dinode_room: "dinode_off inum + 64 \<le> BSIZE"
proof -
  have "unat inum mod IPB < 16" by (simp add: fs_consts)
  then have "64 * (unat inum mod IPB) + 64 \<le> 64 * 16" by linarith
  then show ?thesis by (simp add: dinode_off_def BSIZE_def)
qed

lemma iupdate_spec:
  assumes inv: "fs_inv p start L bns s" and dev: "i_dev (ino s ip) = ROOTDEV" and len: "length (i_addrs (ino s ip)) = NDIRECT + 1"
    and held: "\<forall>i\<in>L. b_blockno (bu s i) \<noteq> IBLOCK (i_inum (ino s ip)) (sb s)" and room: "card L + length bns < NBUF"
    and log: "IBLOCK (i_inum (ino s ip)) (sb s) \<notin> log_area start" "length bns < LOGSIZE - 1" and o: "1 \<le> sint (l_outstanding (lg s))"
  shows "\<exists>t. iupdate ip s = Ok () t \<and> fs_inv p start L (log_add bns (IBLOCK (i_inum (ino s ip)) (sb s))) t
     \<and> bview t = (bview s)(IBLOCK (i_inum (ino s ip)) (sb s) :=
          put_bytes (bview s (IBLOCK (i_inum (ino s ip)) (sb s))) (dinode_off (i_inum (ino s ip))) (dinode_bytes (ino s ip)))
     \<and> tx_frame s t"
proof -
  let ?n = "IBLOCK (i_inum (ino s ip)) (sb s)" and ?k = "dinode_off (i_inum (ino s ip))"
  let ?d = "put_bytes (bview s ?n) ?k (dinode_bytes (ino s ip))"
  have "length ?d = BSIZE"
    using fs.view_length [OF inv, of ?n] dinode_room [of "i_inum (ino s ip)"] length_dinode_bytes [OF len] by simp
  moreover from fs.change_block [OF inv held room log o] obtain b t where
    t: "bread ROOTDEV ?n s = Ok b t" "b_data (bu t b) = bview s ?n" "tx_frame s t"
      "\<forall>d. length d = BSIZE \<longrightarrow> (\<exists>v u. log_write b (set_data b d t) = Ok () v \<and> brelse b v = Ok () u \<and> tx_frame s v
       \<and> fs_inv p start L (log_add bns ?n) u \<and> bview u = (bview s)(?n := d) \<and> (\<forall>i\<in>L. b_blockno (bu u i) = b_blockno (bu s i)) \<and> tx_frame s u)"
    by blast
  ultimately obtain v u where "log_write b (set_data b ?d t) = Ok () v" "brelse b v = Ok () u" "fs_inv p start L (log_add bns ?n) u"
    "bview u = (bview s)(?n := ?d)" "tx_frame s u" by blast
  moreover have "itable t = itable s" by (rule tx_frame_fields(2) [OF t(3)])
  ultimately show ?thesis using t(1,2) dev by (auto simp: iupdate_def Let_def)
qed

lemma bview_above [simp]:
  "bview (s\<lparr>itable := it\<rparr>) = bview s" "bview (upd_inode ip f s) = bview s" "bview (set_sleeplock (Inode_lk j) x s) = bview s"
  by (rule bview_cong; simp add: upd_inode_def set_sleeplock_def)+

lemma fs_inv_above [simp]:
  "fs_inv p start L bns (s\<lparr>itable := it\<rparr>) = fs_inv p start L bns s" "fs_inv p start L bns (upd_inode ip f s) = fs_inv p start L bns s"
  "fs_inv p start L bns (set_sleeplock (Inode_lk j) x s) = fs_inv p start L bns s"
  by (simp_all add: fs_inv_def) (simp_all add: in_tx_def cache_inv_def in_proc_def home_bufs_def upd_inode_def set_sleeplock_def)

text \<open>\<^verbatim>\<open>ilock\<close> of an entry that is not valid, when nobody has it locked, loads the inode from its block.\<close>

lemma ilock_loads:
  assumes inv: "fs_inv p start {} bns s" and room: "length bns < NBUF" and jp: "jp < length (itable s)" and ref: "0 < sint (i_ref (ino s jp))"
    and inval: "\<not> i_valid (ino s jp)" and dev: "i_dev (ino s jp) = ROOTDEV"
    and free: "sl_locked (sleeplocks s (Inode_lk jp)) = 0" "Inode_lk jp \<notin> set (held s)"
    and x: "x = load_dinode (bview s (IBLOCK (i_inum (ino s jp)) (sb s))) (dinode_off (i_inum (ino s jp))) (ino s jp)" and ty: "i_type x \<noteq> 0"
  shows "\<exists>t. ilock jp s = Ok () t \<and> itable t = (itable s)[jp := x\<lparr>i_valid := True\<rparr>] \<and> bview t = bview s \<and> fs_inv p start {} bns t"
proof -
  have "in_proc p s" using fs_inv_cache [OF inv] by (auto simp: cache_inv_def)
  note A = acquiresleep_free [OF this free(2,1)]
  define s' where "s' = set_sleeplock (Inode_lk jp) \<lparr>sl_locked = 1, sl_pid = p_pid (pr s p)\<rparr> s"
  let ?n = "IBLOCK (i_inum (ino s jp)) (sb s)"
  have s': "fs_inv p start {} bns s'" "bview s' = bview s" "itable s' = itable s" "sb s' = sb s"
    using inv by (simp_all add: s'_def) (simp_all add: set_sleeplock_def)
  from fs.rd_law [OF s'(1), of ?n] room obtain b t where
    t: "bread ROOTDEV ?n s' = Ok b t" "fs_inv p start {b} bns t" "b_data (bu t b) = bview s ?n" "bview t = bview s" "tx_frame s' t"
    using s'(2) by auto
  note T = tx_frame_fields [OF t(5)]
  have x': "upd_inode jp (load_dinode (bview s ?n) (dinode_off (i_inum (ino s jp)))) t = t\<lparr>itable := (itable s)[jp := x]\<rparr>"
    by (simp add: upd_inode_def T s' x)
  define u where "u = t\<lparr>itable := (itable s)[jp := x]\<rparr>"
  have "fs_inv p start {b} bns u" using t(2) by (simp add: u_def)
  from fs.rel_law [OF this, of b] obtain v where v: "brelse b u = Ok () v" "fs_inv p start {} bns v" "bview v = bview u" "tx_frame u v" by auto
  have iv: "itable v = (itable s)[jp := x]" using tx_frame_fields(2) [OF v(4)] by (simp add: u_def)
  have "ilock jp s = Ok () (upd_inode jp (\<lambda>x. x\<lparr>i_valid := True\<rparr>) v)"
    using ref inval dev jp ty A t(1,3) v(1) iv
    by (simp add: ilock_def s'_def [symmetric] s' T Let_def x' u_def [symmetric]) (simp add: upd_inode_def)
  moreover have "itable (upd_inode jp (\<lambda>x. x\<lparr>i_valid := True\<rparr>) v) = (itable s)[jp := x\<lparr>i_valid := True\<rparr>]"
    using jp by (simp add: upd_inode_def iv)
  ultimately show ?thesis using v(2,3) t(4) by (auto simp: u_def)
qed

lemma dinode_disjoint: "dinode_off i \<noteq> dinode_off j \<Longrightarrow> dinode_off i + 64 \<le> dinode_off j \<or> dinode_off j + 64 \<le> dinode_off i"
  unfolding dinode_off_def by (metis add_mult_distrib2 less_eq_Suc_le linorder_neqE_nat mult_le_mono2 nat_mult_1_right plus_1_eq_Suc add.commute)

section \<open>Properties\<close>

text \<open>
  \<^bold>\<open>C6\<close> What \<^verbatim>\<open>iupdate\<close> writes \<^verbatim>\<open>ilock\<close> reads: after \<^verbatim>\<open>iupdate\<close> of an inode inside a system call, whatever the inode table holds later,
  locking an entry that stands for this inode and has not been loaded gives the type, device numbers, link count, size and
  block addresses the inode had; no other block changes, and no other inode in the same block.
\<close>

theorem iupdate_ilock_roundtrip:
  assumes inv: "fs_inv p start {} bns s" and n: "length bns < LOGSIZE - 1" and o: "1 \<le> sint (l_outstanding (lg s))"
    and x: "i_dev (ino s ip) = ROOTDEV" "length (i_addrs (ino s ip)) = NDIRECT + 1" "i_type (ino s ip) \<noteq> 0"
    and log: "IBLOCK (i_inum (ino s ip)) (sb s) \<notin> log_area start"
  shows "\<exists>t. iupdate ip s = Ok () t \<and> itable t = itable s
     \<and> (\<forall>c. c \<noteq> IBLOCK (i_inum (ino s ip)) (sb s) \<longrightarrow> bview t c = bview s c)
     \<and> (\<forall>i. dinode_off i \<noteq> dinode_off (i_inum (ino s ip)) \<longrightarrow>
          take 64 (drop (dinode_off i) (bview t (IBLOCK (i_inum (ino s ip)) (sb s)))) = take 64 (drop (dinode_off i) (bview s (IBLOCK (i_inum (ino s ip)) (sb s)))))
     \<and> (\<forall>it jp. jp < length it \<and> 0 < sint (i_ref (it ! jp)) \<and> \<not> i_valid (it ! jp) \<and> i_dev (it ! jp) = ROOTDEV
          \<and> i_inum (it ! jp) = i_inum (ino s ip) \<and> sl_locked (sleeplocks s (Inode_lk jp)) = 0 \<and> Inode_lk jp \<notin> set (held s) \<longrightarrow>
          (\<exists>u. ilock jp (t\<lparr>itable := it\<rparr>) = Ok () u \<and> ino u jp = (ino s ip)\<lparr>i_ref := i_ref (it ! jp), i_valid := True\<rparr>))"
proof -
  let ?n = "IBLOCK (i_inum (ino s ip)) (sb s)" and ?k = "dinode_off (i_inum (ino s ip))"
  have len: "length (bview s ?n) = BSIZE" by (rule fs.view_length [OF inv])
  from iupdate_spec [OF inv x(1,2) _ _ log n o] n obtain t where
    t: "iupdate ip s = Ok () t" "fs_inv p start {} (log_add bns ?n) t"
      "bview t = (bview s)(?n := put_bytes (bview s ?n) ?k (dinode_bytes (ino s ip)))" "tx_frame s t" by (auto simp: param_defs)
  note T = tx_frame_fields [OF t(4)]
  have room: "?k + length (dinode_bytes (ino s ip)) \<le> length (bview s ?n)" "?k + 64 \<le> length (bview s ?n)"
    using len dinode_room [of "i_inum (ino s ip)"] length_dinode_bytes [OF x(2)] by simp_all
  have other: "take 64 (drop (dinode_off i) (bview t ?n)) = take 64 (drop (dinode_off i) (bview s ?n))" if "dinode_off i \<noteq> ?k" for i
    using put_bytes_outside [OF room(1), of "dinode_off i" 64] dinode_disjoint [OF that] length_dinode_bytes [OF x(2)] by (simp add: t(3))
  have again: "\<exists>u. ilock jp (t\<lparr>itable := it\<rparr>) = Ok () u \<and> ino u jp = (ino s ip)\<lparr>i_ref := i_ref (it ! jp), i_valid := True\<rparr>"
    if it: "jp < length it" "0 < sint (i_ref (it ! jp))" "\<not> i_valid (it ! jp)" "i_dev (it ! jp) = ROOTDEV" "i_inum (it ! jp) = i_inum (ino s ip)"
      "sl_locked (sleeplocks s (Inode_lk jp)) = 0" "Inode_lk jp \<notin> set (held s)" for it jp
  proof -
    let ?t = "t\<lparr>itable := it\<rparr>"
    define y where "y = load_dinode (bview t ?n) ?k (it ! jp)"
    have y: "y = (ino s ip)\<lparr>i_dev := ROOTDEV, i_inum := i_inum (ino s ip), i_ref := i_ref (it ! jp), i_valid := False\<rparr>"
      using load_dinode_stored [OF x(2) room(2), of "it ! jp"] it by (simp add: y_def t(3))
    have "length (log_add bns ?n) < NBUF" using length_log_add [of bns ?n] n by (simp add: param_defs)
    with ilock_loads [of p start "log_add bns ?n" ?t jp y] t(2) it x(3) obtain u where
      "ilock jp ?t = Ok () u" "itable u = it[jp := y\<lparr>i_valid := True\<rparr>]"
      by (auto simp: T y_def) (auto simp: y y_def [symmetric])
    moreover have "y\<lparr>i_valid := True\<rparr> = (ino s ip)\<lparr>i_ref := i_ref (it ! jp), i_valid := True\<rparr>"
      using y x(1) by (cases "ino s ip") simp
    ultimately show ?thesis using it(1) by auto
  qed
  have same: "\<forall>c. c \<noteq> ?n \<longrightarrow> bview t c = bview s c" by (simp add: t(3))
  show ?thesis using t(1) T(2) same other again by blast
qed

theorem iupdate_ilock_roundtrip_witness:
  "\<exists>(s :: fs_state) t u it. i_size (ino s 0) = 700 \<and> iupdate 0 s = Ok () t \<and> i_size (it ! 1) = 0 \<and> ilock 1 (t\<lparr>itable := it\<rparr>) = Ok () u
     \<and> i_size (ino u 1) = 700"
proof -
  define x where "x = blank_inode\<lparr>i_dev := 1, i_inum := 5, i_ref := 1, i_valid := True, i_type := 2, i_nlink := 1, i_size := 700\<rparr>"
  define it where "it = [blank_inode, blank_inode\<lparr>i_dev := 1, i_inum := 5, i_ref := 1\<rparr>]"
  have "\<forall>n. length ((\<lambda>_ :: u32. replicate BSIZE 0 :: u8 list) n) = BSIZE" by simp
  from demo_fs_boot [OF this, of "[x, blank_inode]"] obtain s0 :: fs_state where
    s0: "fs_inv 1 2 {} [] s0" "sb s0 = demo_sb" "itable s0 = [x, blank_inode]" "l_outstanding (lg s0) = 1" "held s0 = []" by blast
  define s where "s = set_sleeplock (Inode_lk 1) \<lparr>sl_locked = 0, sl_pid = 0\<rparr> s0"
  have s: "fs_inv 1 2 {} [] s" "sb s = demo_sb" "itable s = [x, blank_inode]" "1 \<le> sint (l_outstanding (lg s))" "held s = []"
    "sl_locked (sleeplocks s (Inode_lk 1)) = 0"
    using s0 by (simp_all add: s_def) (simp_all add: set_sleeplock_def)
  have x: "i_dev x = ROOTDEV" "length (i_addrs x) = NDIRECT + 1" "i_type x \<noteq> 0" "i_inum x = 5" "i_size x = 700"
    by (simp_all add: x_def blank_inode_def param_defs fs_consts)
  have "IBLOCK 5 demo_sb \<notin> log_area 2" by (simp add: IBLOCK_def demo_sb_def fs_consts log_area_def param_defs lessThan_nat_numeral lessThan_Suc)
  then obtain t where t: "iupdate 0 s = Ok () t" "\<forall>it jp. jp < length it \<and> 0 < sint (i_ref (it ! jp)) \<and> \<not> i_valid (it ! jp) \<and> i_dev (it ! jp) = ROOTDEV
          \<and> i_inum (it ! jp) = i_inum (ino s 0) \<and> sl_locked (sleeplocks s (Inode_lk jp)) = 0 \<and> Inode_lk jp \<notin> set (held s) \<longrightarrow>
          (\<exists>u. ilock jp (t\<lparr>itable := it\<rparr>) = Ok () u \<and> ino u jp = (ino s 0)\<lparr>i_ref := i_ref (it ! jp), i_valid := True\<rparr>)"
    using iupdate_ilock_roundtrip [OF s(1) _ s(4), of 0] s x by (auto simp: param_defs)
  from t(2) [rule_format, of 1 it] obtain u where "ilock 1 (t\<lparr>itable := it\<rparr>) = Ok () u" "i_size (ino u 1) = 700"
    using s x by (auto simp: it_def blank_inode_def param_defs)
  moreover have "i_size (it ! 1) = 0" by (simp add: it_def blank_inode_def)
  ultimately show ?thesis using t(1) s(3) x(5) by (intro exI [of _ s] exI [of _ t] exI [of _ u] exI [of _ it]) simp
qed

end
