(* ===== verification/Fs_Content.thy ===== *)
theory Fs_Content
  imports Fs_Inode
begin

text \<open>
  The content of a file: what \<^verbatim>\<open>readi\<close> and \<^verbatim>\<open>writei\<close> of \<^verbatim>\<open>kernel/fs.c\<close> do to the sequence of bytes an inode stands for, seen through
  the block array of the cache. The abstract file is the list \<^verbatim>\<open>content\<close>; the block of a file byte comes from the inode or from its
  indirect block.
\<close>

section \<open>The bytes of a file\<close>

definition fblock :: "(u32 \<Rightarrow> u8 list) \<Rightarrow> inode \<Rightarrow> nat \<Rightarrow> u32" where
  "fblock d x k = (if k < NDIRECT then i_addrs x ! k else get32 (d (i_addrs x ! NDIRECT)) (4 * (k - NDIRECT)))"

definition fbyte :: "(u32 \<Rightarrow> u8 list) \<Rightarrow> inode \<Rightarrow> nat \<Rightarrow> u8" where
  "fbyte d x i = d (fblock d x (i div BSIZE)) ! (i mod BSIZE)"

definition content :: "(u32 \<Rightarrow> u8 list) \<Rightarrow> inode \<Rightarrow> u8 list" where
  "content d x = map (fbyte d x) [0..<unat (i_size x)]"

lemma length_content [simp]: "length (content d x) = unat (i_size x)"
  by (simp add: content_def)

text \<open>The blocks of the first \<^verbatim>\<open>n\<close> bytes are allocated.\<close>

definition has_blocks :: "(u32 \<Rightarrow> u8 list) \<Rightarrow> inode \<Rightarrow> nat \<Rightarrow> bool" where
  "has_blocks d x n \<longleftrightarrow> length (i_addrs x) = NDIRECT + 1 \<and> i_dev x = ROOTDEV \<and> n \<le> MAXFILE * BSIZE
     \<and> (\<forall>i<n. fblock d x (i div BSIZE) \<noteq> 0) \<and> (NDIRECT * BSIZE < n \<longrightarrow> i_addrs x ! NDIRECT \<noteq> 0)"

lemma unat_BSIZE: "unat (of_nat BSIZE :: u32) = BSIZE"
  by (simp add: BSIZE_def)

lemma unat_div_BSIZE: "unat ((off :: u32) div of_nat BSIZE) = unat off div BSIZE" "unat ((off :: u32) mod of_nat BSIZE) = unat off mod BSIZE"
  by (simp_all add: unat_div unat_mod unat_BSIZE)

lemma unat_block_part: "unat (block_part off m) = min (unat m) (BSIZE - unat off mod BSIZE)"
proof -
  have "off mod of_nat BSIZE \<le> of_nat BSIZE"
    unfolding word_le_nat_alt unat_div_BSIZE unat_BSIZE by (simp add: less_imp_le BSIZE_def)
  then have "unat (of_nat BSIZE - off mod of_nat BSIZE) = BSIZE - unat off mod BSIZE"
    by (simp only: unat_sub unat_div_BSIZE unat_BSIZE)
  then show ?thesis by (simp add: block_part_def min_def word_le_nat_alt)
qed

lemma bmap_present:
  assumes inv: "fs_inv p start {} bns s" and room: "length bns < NBUF" and x: "has_blocks (bview s) (ino s ip) n"
    and i: "i < n" and k: "unat k = i div BSIZE"
  shows "\<exists>t. bmap ip k s = Ok (fblock (bview s) (ino s ip) (i div BSIZE)) t \<and> fs_inv p start {} bns t \<and> bview t = bview s \<and> tx_frame s t"
proof -
  let ?x = "ino s ip" and ?d = "bview s" and ?k = "i div BSIZE"
  have nz: "fblock ?d ?x ?k \<noteq> 0" and dev: "i_dev ?x = ROOTDEV" using x i by (auto simp: has_blocks_def)
  show ?thesis
  proof (cases "?k < NDIRECT")
    case True
    then show ?thesis using nz inv fs.frame_refl by (auto simp: bmap_def k fblock_def Let_def)
  next
    case False
    have big: "?k - NDIRECT < NINDIRECT" using False x i by (auto simp: has_blocks_def fs_consts div_less_iff_less_mult)
    have "NDIRECT * BSIZE < n" using False i by (auto simp: not_less fs_consts less_eq_div_iff_mult_less_eq)
    then have a: "i_addrs ?x ! NDIRECT \<noteq> 0" using x by (simp add: has_blocks_def)
    from fs.look_block [OF inv, of "i_addrs ?x ! NDIRECT"] room obtain b t u where
      t: "bread ROOTDEV (i_addrs ?x ! NDIRECT) s = Ok b t" "b_data (bu t b) = ?d (i_addrs ?x ! NDIRECT)" "brelse b t = Ok () u"
        "fs_inv p start {} bns u" "bview u = ?d" "tx_frame s u" by auto
    have "get32 (?d (i_addrs ?x ! NDIRECT)) (4 * (?k - NDIRECT)) \<noteq> 0" using nz False by (simp add: fblock_def)
    then have "bmap ip k s = Ok (fblock ?d ?x ?k) u"
      using False big a t(1-3) by (simp add: bmap_def k Let_def dev fblock_def)
    then show ?thesis using t(4-6) by auto
  qed
qed

section \<open>Reading\<close>

lemma map_upt_split: "a \<le> b \<Longrightarrow> b \<le> c \<Longrightarrow> map f [a..<c] = map f [a..<b] @ map f [b..<c]"
  by (metis le_add_diff_inverse map_append upt_add_eq_append)

lemma fbytes_block:
  assumes "\<forall>n. length (d n) = BSIZE" and "m \<le> BSIZE - a mod BSIZE"
  shows "take m (drop (a mod BSIZE) (d (fblock d x (a div BSIZE)))) = map (fbyte d x) [a..<a + m]"
proof (rule nth_equalityI)
  have "a mod BSIZE < BSIZE" by (simp add: BSIZE_def)
  then show "length (take m (drop (a mod BSIZE) (d (fblock d x (a div BSIZE))))) = length (map (fbyte d x) [a..<a + m])" using assms by simp
next
  fix j assume "j < length (take m (drop (a mod BSIZE) (d (fblock d x (a div BSIZE)))))"
  then have j: "j < m" "a mod BSIZE + j < BSIZE" using assms by simp_all
  have e: "a + j = (a mod BSIZE + j) + BSIZE * (a div BSIZE)" by simp
  have "(a + j) div BSIZE = a div BSIZE" unfolding e using j(2) by (subst div_mult_self2) (simp_all add: BSIZE_def)
  moreover have "(a + j) mod BSIZE = a mod BSIZE + j" unfolding e using j(2) by (subst mod_mult_self2) simp
  ultimately show "take m (drop (a mod BSIZE) (d (fblock d x (a div BSIZE)))) ! j = map (fbyte d x) [a..<a + m] ! j"
    using j assms by (simp add: fbyte_def)
qed

text \<open>One round of the loops of \<^verbatim>\<open>readi\<close> and \<^verbatim>\<open>writei\<close> at width 32: the offset and the count advance without wrapping.\<close>

lemma block_step:
  fixes off tot n :: u32
  assumes "tot < n" and "unat off + unat (n - tot) \<le> e" and "e \<le> MAXFILE * BSIZE" and "m = block_part off (n - tot)"
  shows "unat m = min (unat (n - tot)) (BSIZE - unat off mod BSIZE)" "0 < unat m" "tot + m \<le> n"
    "unat (n - (tot + m)) = unat (n - tot) - unat m" "unat (off + m) = unat off + unat m"
proof -
  show um: "unat m = min (unat (n - tot)) (BSIZE - unat off mod BSIZE)" by (simp add: assms(4) unat_block_part)
  have pos: "0 < unat (n - tot)" using assms(1) by (simp add: unat_gt_0)
  moreover have "unat off mod BSIZE < BSIZE" by (simp add: BSIZE_def)
  ultimately show "0 < unat m" using um by simp
  have le: "m \<le> n - tot" using um by (simp add: word_le_nat_alt)
  have "unat (n - tot) = unat n - unat tot" using assms(1) by (simp add: unat_sub)
  then have "unat tot + unat m \<le> unat n" using um assms(1) by (simp add: word_less_nat_alt)
  moreover have "unat (tot + m) = unat tot + unat m"
    by (rule unat_add_lem [THEN iffD1]) (use calculation unsigned_less [of n, where 'a = nat] in simp)
  ultimately show "tot + m \<le> n" by (simp add: word_le_nat_alt)
  have "n - (tot + m) = (n - tot) - m" by simp
  then show "unat (n - (tot + m)) = unat (n - tot) - unat m" using le by (simp only: unat_sub)
  have "unat off + unat m < 2 ^ 32" using um assms(2,3) by (simp add: fs_consts)
  then show "unat (off + m) = unat off + unat m" by (simp add: unat_add_lem [symmetric])
qed

lemma readi_loop_spec:
  assumes "fs_inv p start {} bns s" and "length bns < NBUF" and "has_blocks (bview s) (ino s ip) e"
    and "tot \<le> n" and "unat off + unat (n - tot) \<le> e"
  shows "\<exists>t. readi_loop ip False dst off tot n s = Ok (n, map (fbyte (bview s) (ino s ip)) [unat off..<unat off + unat (n - tot)]) t
     \<and> fs_inv p start {} bns t \<and> bview t = bview s \<and> tx_frame s t"
  using assms
proof (induction "unat (n - tot)" arbitrary: s dst off tot rule: less_induct)
  case less
  show ?case
  proof (cases "tot < n")
    case False
    then have "tot = n" using less.prems(4) by simp
    then show ?thesis using less.prems(1) fs.frame_refl by (simp add: readi_loop.simps)
  next
    case True
    define m where "m = block_part off (n - tot)"
    note M = block_step [OF True less.prems(5) _ m_def]
    have e: "e \<le> MAXFILE * BSIZE" and dev: "i_dev (ino s ip) = ROOTDEV" using less.prems(3) by (auto simp: has_blocks_def)
    note M = M [OF e]
    let ?x = "ino s ip" and ?d = "bview s"
    obtain t where t: "bmap ip (off div of_nat BSIZE) s = Ok (fblock ?d ?x (unat off div BSIZE)) t"
      "fs_inv p start {} bns t" "bview t = ?d" "tx_frame s t"
      using bmap_present [OF less.prems(1-3), of "unat off" "off div of_nat BSIZE"] less.prems(5) M(1,2) by (auto simp: unat_div_BSIZE)
    note T = tx_frame_fields [OF t(4)]
    from fs.look_block [OF t(2), of "fblock ?d ?x (unat off div BSIZE)"] less.prems(2) obtain b u v where
      u: "bread ROOTDEV (fblock ?d ?x (unat off div BSIZE)) t = Ok b u" "b_data (bu u b) = ?d (fblock ?d ?x (unat off div BSIZE))"
        "brelse b u = Ok () v" "fs_inv p start {} bns v" "bview v = ?d" "tx_frame t v" using t(3) by auto
    have v: "tx_frame s v" by (rule fs.frame_trans [OF t(4) u(6)])
    note V = tx_frame_fields [OF v]
    have "\<exists>w. readi_loop ip False (dst + ucast m) (off + m) (tot + m) n v
        = Ok (n, map (fbyte (bview v) (ino v ip)) [unat (off + m)..<unat (off + m) + unat (n - (tot + m))]) w
      \<and> fs_inv p start {} bns w \<and> bview w = bview v \<and> tx_frame v w"
      by (rule less.hyps) (use M less.prems(2,3,5) u(4,5) V in simp_all)
    then obtain w where w: "readi_loop ip False (dst + ucast m) (off + m) (tot + m) n v
        = Ok (n, map (fbyte ?d ?x) [unat off + unat m..<unat off + unat (n - tot)]) w"
      "fs_inv p start {} bns w" "bview w = ?d" "tx_frame v w" using M u(5) V by auto
    have out: "take (unat m) (drop (unat off mod BSIZE) (?d (fblock ?d ?x (unat off div BSIZE)))) = map (fbyte ?d ?x) [unat off..<unat off + unat m]"
      by (rule fbytes_block) (use fs.view_length [OF less.prems(1)] M(1) in auto)
    have "readi_loop ip False dst off tot n s = Ok (n, map (fbyte ?d ?x) [unat off..<unat off + unat m] @ map (fbyte ?d ?x) [unat off + unat m..<unat off + unat (n - tot)]) w"
      by (subst readi_loop.simps)
        (use True t(1) u(1-3) w(1) T dev out in \<open>simp add: Let_def m_def [symmetric] either_copyout_def unat_div_BSIZE unat_ucast32\<close>)
    moreover have "tx_frame s w" by (rule fs.frame_trans [OF v w(4)])
    ultimately show ?thesis using w(2,3) M(1) map_upt_split [of "unat off" "unat off + unat m" "unat off + unat (n - tot)" "fbyte ?d ?x"] by auto
  qed
qed

text \<open>\<^verbatim>\<open>readi\<close> into kernel memory returns the bytes of the file in the range, cut at its end.\<close>

lemma readi_spec:
  assumes "fs_inv p start {} bns s" and "length bns < NBUF" and "has_blocks (bview s) (ino s ip) (unat (i_size (ino s ip)))"
    and "unat off + unat n < 2 ^ 32" and "off \<le> i_size (ino s ip)"
  shows "\<exists>t. readi ip False dst off n s = Ok (int (length (take (unat n) (drop (unat off) (content (bview s) (ino s ip))))),
        take (unat n) (drop (unat off) (content (bview s) (ino s ip)))) t
     \<and> fs_inv p start {} bns t \<and> bview t = bview s \<and> tx_frame s t"
proof -
  let ?x = "ino s ip" and ?sz = "i_size (ino s ip)"
  define c where "c = take (unat n) (drop (unat off) (content (bview s) ?x))"
  define k where "k = (if off + n > ?sz then ?sz - off else n)"
  have sz: "unat ?sz \<le> MAXFILE * BSIZE" using assms(3) by (simp add: has_blocks_def)
  have on: "unat (off + n) = unat off + unat n" using assms(4) by (simp add: unat_add_lem [symmetric])
  have le: "unat off \<le> unat ?sz" using assms(5) by (simp add: word_le_nat_alt)
  have uk: "unat k = min (unat n) (unat ?sz - unat off)"
    using assms(5) le by (auto simp: k_def word_less_nat_alt on unat_sub min_def)
  have "unat off + unat (k - 0) \<le> unat ?sz" using uk le by simp
  from readi_loop_spec [OF assms(1-3) _ this, of dst] obtain t where
    t: "readi_loop ip False dst off 0 k s = Ok (k, map (fbyte (bview s) ?x) [unat off..<unat off + unat k]) t"
      "fs_inv p start {} bns t" "bview t = bview s" "tx_frame s t" by auto
  have c: "map (fbyte (bview s) ?x) [unat off..<unat off + unat k] = c"
    using uk le by (auto simp: c_def content_def drop_map take_map min_def)
  have "unat k < 2 ^ 31" using uk sz by (simp add: fs_consts)
  from sint_of_nat32 [OF this] have "sint k = int (unat k)" by simp
  moreover have "length c = unat k" using c by (metis length_map length_upt add_diff_cancel_left')
  moreover have "\<not> off > ?sz" "\<not> off + n < off" using le by (simp_all add: word_less_nat_alt on)
  ultimately have "readi ip False dst off n s = Ok (int (length c), c) t"
    using t(1) c by (cases "off + n > ?sz") (simp_all add: readi_def k_def)
  then show ?thesis using t(2-4) by (auto simp: c_def)
qed

section \<open>Writing\<close>

text \<open>The blocks of the first \<^verbatim>\<open>n\<close> bytes belong to this file alone: they differ from each other, from the indirect block, from the inode's block \<^verbatim>\<open>ib\<close>
  and from the log.\<close>

definition nblocks :: "nat \<Rightarrow> nat" where
  "nblocks n = (n + (BSIZE - 1)) div BSIZE"

definition own_blocks :: "u32 \<Rightarrow> u32 \<Rightarrow> (u32 \<Rightarrow> u8 list) \<Rightarrow> inode \<Rightarrow> nat \<Rightarrow> bool" where
  "own_blocks start ib d x n \<longleftrightarrow> has_blocks d x n \<and> inj_on (fblock d x) {..<nblocks n}
     \<and> (\<forall>k<nblocks n. fblock d x k \<notin> log_area start \<and> fblock d x k \<noteq> ib \<and> (NDIRECT * BSIZE < n \<longrightarrow> fblock d x k \<noteq> i_addrs x ! NDIRECT))
     \<and> ib \<notin> log_area start \<and> (NDIRECT * BSIZE < n \<longrightarrow> ib \<noteq> i_addrs x ! NDIRECT)"

lemma div_less_nblocks: "i < n \<Longrightarrow> i div BSIZE < nblocks n"
  by (simp add: nblocks_def BSIZE_def)

lemma nblocks_less: "k < nblocks n \<Longrightarrow> k * BSIZE < n"
  by (simp add: nblocks_def BSIZE_def)

lemma fblock_cong:
  "(k \<ge> NDIRECT \<Longrightarrow> d' (i_addrs x ! NDIRECT) = d (i_addrs x ! NDIRECT)) \<Longrightarrow> fblock d' x k = fblock d x k"
  by (simp add: fblock_def)

lemma fblock_kept:
  assumes "own_blocks start ib d x n" and "j < nblocks n" and "k < nblocks n"
  shows "fblock (d(fblock d x j := w)) x k = fblock d x k"
proof (rule fblock_cong)
  assume "k \<ge> NDIRECT"
  then have "NDIRECT * BSIZE \<le> k * BSIZE" by (rule mult_le_mono1)
  then have "NDIRECT * BSIZE < n" using nblocks_less [OF assms(3)] by (rule le_less_trans)
  then have "fblock d x j \<noteq> i_addrs x ! NDIRECT" using assms(1,2) by (simp add: own_blocks_def)
  then show "(d(fblock d x j := w)) (i_addrs x ! NDIRECT) = d (i_addrs x ! NDIRECT)" by simp
qed

lemma own_blocks_same:
  assumes "own_blocks start ib d x n" and "\<forall>k<nblocks n. fblock d' y k = fblock d x k" and "i_addrs y = i_addrs x" and "i_dev y = i_dev x"
  shows "own_blocks start ib d' y n"
proof -
  have "inj_on (fblock d' y) {..<nblocks n}" using assms(1,2) by (simp add: own_blocks_def inj_on_def)
  moreover have "has_blocks d' y n" using assms div_less_nblocks by (auto simp: own_blocks_def has_blocks_def)
  ultimately show ?thesis using assms by (simp add: own_blocks_def)
qed

lemma nblocks_mono: "k \<le> n \<Longrightarrow> nblocks k \<le> nblocks n"
  by (simp add: nblocks_def div_le_mono)

lemma own_blocks_less: "own_blocks start ib d x n \<Longrightarrow> k \<le> n \<Longrightarrow> own_blocks start ib d x k"
  using nblocks_mono [of k n] by (auto simp: own_blocks_def has_blocks_def intro: inj_on_subset)

lemma own_blocks_kept:
  "own_blocks start ib d x n \<Longrightarrow> j < nblocks n \<Longrightarrow> own_blocks start ib (d(fblock d x j := w)) x n"
  using own_blocks_same [of start ib d x n "d(fblock d x j := w)" x] fblock_kept by blast

lemma nth_put_bytes:
  "k + length w \<le> length bs \<Longrightarrow> j < length bs \<Longrightarrow> put_bytes bs k w ! j = (if k \<le> j \<and> j < k + length w then w ! (j - k) else bs ! j)"
  by (auto simp: put_bytes_def nth_append)

text \<open>Storing \<^verbatim>\<open>w\<close> inside one block of the file changes exactly the bytes of the file there.\<close>

lemma fbyte_patch:
  assumes own: "own_blocks start ib d x n" and len: "\<forall>c. length (d c) = BSIZE" and w: "length w \<le> BSIZE - a mod BSIZE" and a: "a + length w \<le> n" "w \<noteq> []"
    and i: "i < n"
  shows "fbyte (d(fblock d x (a div BSIZE) := put_bytes (d (fblock d x (a div BSIZE))) (a mod BSIZE) w)) x i
     = (if a \<le> i \<and> i < a + length w then w ! (i - a) else fbyte d x i)"
proof -
  have j: "a div BSIZE < nblocks n" using a by (intro div_less_nblocks) (cases w, auto)
  have k: "i div BSIZE < nblocks n" using i by (rule div_less_nblocks)
  note f = fblock_kept [OF own j k]
  have am: "a mod BSIZE < BSIZE" and im: "i mod BSIZE < BSIZE" by (simp_all add: BSIZE_def)
  have e: "a = BSIZE * (a div BSIZE) + a mod BSIZE" "i = BSIZE * (i div BSIZE) + i mod BSIZE" by simp_all
  show ?thesis
  proof (cases "i div BSIZE = a div BSIZE")
    case True
    define q where "q = BSIZE * (a div BSIZE)"
    define r where "r = a mod BSIZE"
    define r' where "r' = i mod BSIZE"
    have q: "a = q + r" "i = q + r'" using e(1) e(2) [unfolded True] by (simp_all only: q_def r_def r'_def)
    have "i - a = i mod BSIZE - a mod BSIZE" "a \<le> i \<longleftrightarrow> a mod BSIZE \<le> i mod BSIZE" "i < a + length w \<longleftrightarrow> i mod BSIZE < a mod BSIZE + length w"
      unfolding r_def [symmetric] r'_def [symmetric] unfolding q by simp_all
    moreover have "fbyte (d(fblock d x (a div BSIZE) := put_bytes (d (fblock d x (a div BSIZE))) (a mod BSIZE) w)) x i
        = put_bytes (d (fblock d x (a div BSIZE))) (a mod BSIZE) w ! (i mod BSIZE)" by (simp add: fbyte_def True f [unfolded True])
    moreover have "fbyte d x i = d (fblock d x (a div BSIZE)) ! (i mod BSIZE)" by (simp add: fbyte_def True)
    ultimately show ?thesis using nth_put_bytes [of "a mod BSIZE" w "d (fblock d x (a div BSIZE))" "i mod BSIZE"] am im w len by simp
  next
    case False
    then have ne: "fblock d x (i div BSIZE) \<noteq> fblock d x (a div BSIZE)" using own j k by (auto simp: own_blocks_def inj_on_def)
    have "\<not> (a \<le> i \<and> i < a + length w)"
    proof
      assume r: "a \<le> i \<and> i < a + length w"
      then have le: "a div BSIZE \<le> i div BSIZE" by (simp add: div_le_mono)
      have "i < BSIZE * (a div BSIZE) + BSIZE" using r w am e(1) by linarith
      then have "i < Suc (a div BSIZE) * BSIZE" by (simp add: mult.commute)
      then have "i div BSIZE < Suc (a div BSIZE)" by (rule less_mult_imp_div_less)
      then show False using False le by simp
    qed
    then show ?thesis using ne by (auto simp: fbyte_def f)
  qed
qed

text \<open>The file after a write of \<^verbatim>\<open>w\<close> at \<^verbatim>\<open>a\<close>, seen through the blocks: \<^verbatim>\<open>d'\<close> differs from \<^verbatim>\<open>d\<close> in those bytes of the file and in no other block.\<close>

definition patched :: "inode \<Rightarrow> nat \<Rightarrow> nat \<Rightarrow> u8 list \<Rightarrow> (u32 \<Rightarrow> u8 list) \<Rightarrow> (u32 \<Rightarrow> u8 list) \<Rightarrow> bool" where
  "patched x n a w d d' \<longleftrightarrow> (\<forall>c. c \<notin> fblock d x ` {..<nblocks n} \<longrightarrow> d' c = d c) \<and> (\<forall>k<nblocks n. fblock d' x k = fblock d x k)
     \<and> (\<forall>i<n. fbyte d' x i = (if a \<le> i \<and> i < a + length w then w ! (i - a) else fbyte d x i))"

lemma patched_Nil: "patched x n a [] d d"
  by (auto simp: patched_def)

lemma patched_block:
  assumes "own_blocks start ib d x n" and "\<forall>c. length (d c) = BSIZE" and "length w \<le> BSIZE - a mod BSIZE" and "a + length w \<le> n" "w \<noteq> []"
  shows "patched x n a w d (d(fblock d x (a div BSIZE) := put_bytes (d (fblock d x (a div BSIZE))) (a mod BSIZE) w))"
proof -
  have "a div BSIZE < nblocks n" using assms(4,5) by (intro div_less_nblocks) (cases w, auto)
  then show ?thesis using fblock_kept [OF assms(1)] fbyte_patch [OF assms] by (auto simp: patched_def)
qed

lemma patched_append:
  assumes "patched x n a v d d'" and "patched x n (a + length v) w d' d''"
  shows "patched x n a (v @ w) d d''"
proof -
  have img: "fblock d' x ` {..<nblocks n} = fblock d x ` {..<nblocks n}" using assms(1) by (auto simp: patched_def)
  have "fbyte d'' x i = (if a \<le> i \<and> i < a + length (v @ w) then (v @ w) ! (i - a) else fbyte d x i)" if "i < n" for i
  proof -
    have 1: "fbyte d' x i = (if a \<le> i \<and> i < a + length v then v ! (i - a) else fbyte d x i)" using assms(1) that unfolding patched_def by blast
    have 2: "fbyte d'' x i = (if a + length v \<le> i \<and> i < a + length v + length w then w ! (i - (a + length v)) else fbyte d' x i)"
      using assms(2) that unfolding patched_def by blast
    show ?thesis unfolding 2 unfolding 1 by (auto simp: nth_append)
  qed
  moreover have "\<forall>c. c \<notin> fblock d x ` {..<nblocks n} \<longrightarrow> d'' c = d c" using assms img unfolding patched_def by metis
  moreover have "\<forall>k<nblocks n. fblock d'' x k = fblock d x k" using assms unfolding patched_def by metis
  ultimately show ?thesis unfolding patched_def by blast
qed

text \<open>How many rounds the loop takes to write \<^verbatim>\<open>m\<close> bytes at \<^verbatim>\<open>a\<close>: the number of blocks they touch.\<close>

definition rounds :: "nat \<Rightarrow> nat \<Rightarrow> nat" where
  "rounds a m = (if m = 0 then 0 else nblocks (a mod BSIZE + m))"

lemma rounds_step:
  assumes "0 < m" and "k = min m (BSIZE - a mod BSIZE)"
  shows "rounds a m = Suc (rounds (a + k) (m - k))"
proof -
  have am: "a mod BSIZE < BSIZE" by (simp add: BSIZE_def)
  show ?thesis
  proof (cases "m \<le> BSIZE - a mod BSIZE")
    case True
    then show ?thesis using assms am by (auto simp: rounds_def nblocks_def BSIZE_def intro!: div_nat_eqI)
  next
    case False
    then have k: "k = BSIZE - a mod BSIZE" using assms(2) by simp
    have "a + k = BSIZE * (a div BSIZE) + BSIZE" using k am mod_mult_div_eq [of a BSIZE] by linarith
    then have z: "(a + k) mod BSIZE = 0" by simp
    have s: "a mod BSIZE + m = BSIZE + (m - k)" using False k am by linarith
    have "nblocks (BSIZE + (m - k)) = Suc (nblocks (m - k))" by (simp add: nblocks_def BSIZE_def)
    moreover have "0 < m - k" using False k by simp
    ultimately show ?thesis using assms(1) unfolding rounds_def z s by simp
  qed
qed

lemma writei_loop_spec:
  assumes "fs_inv p start {} bns s" and "own_blocks start ib (bview s) (ino s ip) e" and "1 \<le> sint (l_outstanding (lg s))"
    and "tot \<le> n" and "unat off + unat (n - tot) \<le> e" and "length ksrc = unat (n - tot)" and "length bns + rounds (unat off) (unat (n - tot)) \<le> LOGSIZE - 1"
  shows "\<exists>t bns'. writei_loop ip False src ksrc off tot n s = Ok (n, off + (n - tot)) t \<and> fs_inv p start {} bns' t
     \<and> length bns' \<le> length bns + rounds (unat off) (unat (n - tot)) \<and> patched (ino s ip) e (unat off) ksrc (bview s) (bview t) \<and> tx_frame s t"
  using assms
proof (induction "unat (n - tot)" arbitrary: s bns src ksrc off tot rule: less_induct)
  case less
  let ?x = "ino s ip" and ?d = "bview s"
  show ?case
  proof (cases "tot < n")
    case False
    then have "tot = n" using less.prems(4) by simp
    moreover from this have "ksrc = []" using less.prems(6) by simp
    ultimately have "writei_loop ip False src ksrc off tot n s = Ok (n, off + (n - tot)) s" "patched ?x e (unat off) ksrc ?d ?d"
      by (simp_all add: writei_loop.simps patched_Nil)
    then show ?thesis using less.prems(1) fs.frame_refl le_add1 by blast
  next
    case True
    define m where "m = block_part off (n - tot)"
    have hb: "has_blocks ?d ?x e" and e: "e \<le> MAXFILE * BSIZE" and dev: "i_dev ?x = ROOTDEV"
      using less.prems(2) by (auto simp: own_blocks_def has_blocks_def)
    note M = block_step [OF True less.prems(5) e m_def]
    have R: "rounds (unat off) (unat (n - tot)) = Suc (rounds (unat (off + m)) (unat (n - (tot + m))))"
      using rounds_step [OF _ M(1)] M by simp
    have log: "length bns < LOGSIZE - 1" "length bns < NBUF" using less.prems(7) R by (simp_all add: param_defs)
    obtain t where t: "bmap ip (off div of_nat BSIZE) s = Ok (fblock ?d ?x (unat off div BSIZE)) t"
      "fs_inv p start {} bns t" "bview t = ?d" "tx_frame s t"
      using bmap_present [OF less.prems(1) log(2) hb, of "unat off" "off div of_nat BSIZE"] less.prems(5) M(1,2) by (auto simp: unat_div_BSIZE)
    note T = tx_frame_fields [OF t(4)] tx_frame_outstanding [OF t(4)]
    let ?f = "fblock ?d ?x (unat off div BSIZE)" and ?w = "take (unat m) ksrc"
    have j: "unat off div BSIZE < nblocks e" using less.prems(5) M(1,2) by (intro div_less_nblocks) linarith
    then have home: "?f \<notin> log_area start" using less.prems(2) by (simp add: own_blocks_def)
    have len: "\<forall>c. length (?d c) = BSIZE" using fs.view_length [OF less.prems(1)] by blast
    have w: "length ?w = unat m" using M(1) less.prems(6) by simp
    define d where "d = put_bytes (?d ?f) (unat off mod BSIZE) ?w"
    have "unat off mod BSIZE < BSIZE" by (simp add: BSIZE_def)
    then have "unat off mod BSIZE + length ?w \<le> BSIZE" using w M(1) by linarith
    then have "length d = BSIZE" using len by (simp only: d_def length_put_bytes)
    with fs.change_block [OF t(2), of ?f] log home less.prems(3) T(8) t(3) obtain b u v w' where
      u: "bread ROOTDEV ?f t = Ok b u" "b_data (bu u b) = ?d ?f" "tx_frame t u" "log_write b (set_data b d u) = Ok () v" "brelse b v = Ok () w'"
        "fs_inv p start {} (log_add bns ?f) w'" "bview w' = ?d(?f := d)" "tx_frame t w'" by auto
    have fr: "tx_frame s w'" by (rule fs.frame_trans [OF t(4) u(8)])
    note W = tx_frame_fields [OF fr] tx_frame_outstanding [OF fr]
    have in_block: "length ?w \<le> BSIZE - unat off mod BSIZE" and in_file: "unat off + length ?w \<le> e"
      unfolding w using M(1) less.prems(5) by linarith+
    have nonempty: "?w \<noteq> []" using w M(2) by (metis less_irrefl list.size(3))
    have patch: "patched ?x e (unat off) ?w ?d (bview w')"
      unfolding u(7) d_def by (rule patched_block [OF less.prems(2) len in_block in_file nonempty])
    have own: "own_blocks start ib (bview w') (ino w' ip) e" unfolding u(7) using own_blocks_kept [OF less.prems(2) j] W(2) by simp
    have "\<exists>z bns'. writei_loop ip False (src + ucast m) (drop (unat m) ksrc) (off + m) (tot + m) n w' = Ok (n, (off + m) + (n - (tot + m))) z
      \<and> fs_inv p start {} bns' z \<and> length bns' \<le> length (log_add bns ?f) + rounds (unat (off + m)) (unat (n - (tot + m)))
      \<and> patched (ino w' ip) e (unat (off + m)) (drop (unat m) ksrc) (bview w') (bview z) \<and> tx_frame w' z"
    proof (rule less.hyps [OF _ u(6) own _ M(3)])
      show "unat (n - (tot + m)) < unat (n - tot)" unfolding M(4) using M(1,2) by linarith
      show "1 \<le> sint (l_outstanding (lg w'))" unfolding W(8) by (rule less.prems(3))
      show "unat (off + m) + unat (n - (tot + m)) \<le> e" unfolding M(4,5) using M(1) less.prems(5) by linarith
      show "length (drop (unat m) ksrc) = unat (n - (tot + m))" unfolding M(4) using less.prems(6) by simp
      show "length (log_add bns ?f) + rounds (unat (off + m)) (unat (n - (tot + m))) \<le> LOGSIZE - 1"
        using less.prems(7) R length_log_add [of bns ?f] by linarith
    qed
    then obtain z bns' where z: "writei_loop ip False (src + ucast m) (drop (unat m) ksrc) (off + m) (tot + m) n w' = Ok (n, off + (n - tot)) z"
      "fs_inv p start {} bns' z" "length bns' \<le> length (log_add bns ?f) + rounds (unat (off + m)) (unat (n - (tot + m)))"
      "patched ?x e (unat off + length ?w) (drop (unat m) ksrc) (bview w') (bview z)" "tx_frame w' z" using W(2) M(5) w by auto
    have "writei_loop ip False src ksrc off tot n s = Ok (n, off + (n - tot)) z"
      by (subst writei_loop.simps)
        (use True t(1) u(1,2,4,5) z(1) T dev in \<open>simp add: Let_def m_def [symmetric] either_copyin_def unat_div_BSIZE unat_ucast32 d_def [symmetric]\<close>)
    moreover have "patched ?x e (unat off) ksrc ?d (bview z)" using patched_append [OF patch z(4)] by simp
    moreover have "tx_frame s z" by (rule fs.frame_trans [OF fr z(5)])
    moreover have "length bns' \<le> length bns + rounds (unat off) (unat (n - tot))" using z(3) R length_log_add [of bns ?f] by simp
    ultimately show ?thesis using z(2) by blast
  qed
qed

text \<open>The blocks of the file do not include the inode's block, so \<^verbatim>\<open>iupdate\<close> leaves its bytes alone.\<close>

lemma fbyte_cong:
  assumes "own_blocks start ib d x n" and "\<forall>c. c \<noteq> ib \<longrightarrow> d' c = d c" and "i_addrs y = i_addrs x"
  shows "k < nblocks n \<Longrightarrow> fblock d' y k = fblock d x k" "i < n \<Longrightarrow> fbyte d' y i = fbyte d x i"
proof -
  have f: "fblock d' y k = fblock d x k" if k: "k < nblocks n" for k
  proof -
    have "d' (i_addrs x ! NDIRECT) = d (i_addrs x ! NDIRECT)" if "k \<ge> NDIRECT"
    proof -
      have "NDIRECT * BSIZE \<le> k * BSIZE" using that by (rule mult_le_mono1)
      then have "NDIRECT * BSIZE < n" using nblocks_less [OF k] by (rule le_less_trans)
      then show ?thesis using assms(1,2) by (auto simp: own_blocks_def)
    qed
    then show ?thesis by (simp add: fblock_def assms(3))
  qed
  then show "k < nblocks n \<Longrightarrow> fblock d' y k = fblock d x k" .
  assume "i < n"
  note k = div_less_nblocks [OF this]
  have "fblock d x (i div BSIZE) \<noteq> ib" using assms(1) k by (simp add: own_blocks_def)
  then show "fbyte d' y i = fbyte d x i" using assms(2) by (simp add: fbyte_def f [OF k])
qed

definition overwrite :: "u8 list \<Rightarrow> nat \<Rightarrow> u8 list \<Rightarrow> u8 list" where
  "overwrite c a w = take a c @ w @ drop (a + length w) c"

lemma overwrite_map:
  assumes "a \<le> m" and "\<forall>i < max m (a + length w). g i = (if a \<le> i \<and> i < a + length w then w ! (i - a) else f i)"
  shows "map g [0..<max m (a + length w)] = overwrite (map f [0..<m]) a w"
proof (rule nth_equalityI)
  show "length (map g [0..<max m (a + length w)]) = length (overwrite (map f [0..<m]) a w)" using assms(1) by (simp add: overwrite_def)
next
  fix i assume "i < length (map g [0..<max m (a + length w)])"
  then have i: "i < max m (a + length w)" by simp
  then show "map g [0..<max m (a + length w)] ! i = overwrite (map f [0..<m]) a w ! i"
    using assms by (auto simp: overwrite_def nth_append)
qed

lemma writei_spec:
  assumes inv: "fs_inv p start {} bns s" and ip: "ip < length (itable s)" and o: "1 \<le> sint (l_outstanding (lg s))"
    and own: "own_blocks start (IBLOCK (i_inum (ino s ip)) (sb s)) (bview s) (ino s ip) (max (unat (i_size (ino s ip))) (unat off + unat n))"
    and off: "off \<le> i_size (ino s ip)" and len: "length ksrc = unat n" and log: "length bns + rounds (unat off) (unat n) < LOGSIZE - 1"
  shows "\<exists>t bns'. writei ip False src ksrc off n s = Ok (int (unat n)) t \<and> fs_inv p start {} bns' t \<and> length bns' \<le> length bns + rounds (unat off) (unat n) + 1
     \<and> itable t = (itable s)[ip := (ino s ip)\<lparr>i_size := max (i_size (ino s ip)) (off + n)\<rparr>] \<and> sb t = sb s \<and> held t = held s
     \<and> l_outstanding (lg t) = l_outstanding (lg s)
     \<and> content (bview t) (ino t ip) = overwrite (content (bview s) (ino s ip)) (unat off) ksrc
     \<and> own_blocks start (IBLOCK (i_inum (ino t ip)) (sb t)) (bview t) (ino t ip) (unat (i_size (ino t ip)))
     \<and> (\<forall>c. c \<noteq> IBLOCK (i_inum (ino s ip)) (sb s) \<and> c \<notin> fblock (bview s) (ino s ip) ` {..<nblocks (max (unat (i_size (ino s ip))) (unat off + unat n))} \<longrightarrow> bview t c = bview s c)"
proof -
  let ?x = "ino s ip" and ?d = "bview s" and ?ib = "IBLOCK (i_inum (ino s ip)) (sb s)"
  define e where "e = max (unat (i_size ?x)) (unat off + unat n)"
  note own = own [folded e_def]
  have e: "e \<le> MAXFILE * BSIZE" "length (i_addrs ?x) = NDIRECT + 1" "i_dev ?x = ROOTDEV" using own by (auto simp: own_blocks_def has_blocks_def)
  have "unat off + unat n \<le> e" by (simp add: e_def)
  then have on: "unat (off + n) = unat off + unat n" and small: "unat off + unat n \<le> MAXFILE * BSIZE"
    using e(1) by (simp_all add: unat_add_lem [symmetric] fs_consts)
  have "unat off + unat (n - 0) \<le> e" "length bns + rounds (unat off) (unat (n - 0)) \<le> LOGSIZE - 1" "length ksrc = unat (n - 0)"
    using len log by (simp_all add: e_def)
  from writei_loop_spec [OF inv own o _ this(1,3,2), of src] obtain t bns' where
    t: "writei_loop ip False src ksrc off 0 n s = Ok (n, off + n) t" "fs_inv p start {} bns' t"
      "length bns' \<le> length bns + rounds (unat off) (unat n)" "patched ?x e (unat off) ksrc ?d (bview t)" "tx_frame s t" by auto
  note T = tx_frame_fields [OF t(5)] tx_frame_outstanding [OF t(5)]
  define y where "y = ?x\<lparr>i_size := max (i_size ?x) (off + n)\<rparr>"
  define t' where "t' = t\<lparr>itable := (itable s)[ip := y]\<rparr>"
  have it: "(if off + n > i_size (ino t ip) then upd_inode ip (\<lambda>x. x\<lparr>i_size := off + n\<rparr>) t else t) = t'"
    using ip by (auto simp: t'_def upd_inode_def T y_def max_def not_less)
  have t': "fs_inv p start {} bns' t'" "bview t' = bview t" "ino t' ip = y" "sb t' = sb s" "lg t' = lg t" "itable t' = (itable s)[ip := y]" "held t' = held s"
    using t(2) ip by (simp_all add: t'_def T)
  have y: "i_dev y = ROOTDEV" "length (i_addrs y) = NDIRECT + 1" "i_addrs y = i_addrs ?x" "i_inum y = i_inum ?x" "i_dev y = i_dev ?x" using e by (simp_all add: y_def)
  have ib: "?ib \<notin> log_area start" using own by (simp add: own_blocks_def)
  have "length bns' < LOGSIZE - 1" "length bns' < NBUF" using t(3) log by (simp_all add: param_defs)
  then obtain u where u: "iupdate ip t' = Ok () u" "fs_inv p start {} (log_add bns' ?ib) u" "tx_frame t' u" "\<forall>c. c \<noteq> ?ib \<longrightarrow> bview u c = bview t c"
    using iupdate_spec [OF t'(1), of ip] y ib o ip by (auto simp: t' T)
  note U = tx_frame_fields [OF u(3)] tx_frame_outstanding [OF u(3)]
  have own_t: "own_blocks start ?ib (bview t) ?x e" using t(4) by (intro own_blocks_same [OF own]) (simp_all add: patched_def)
  note C = fbyte_cong [OF own_t u(4) y(3)]
  have iu: "itable u = (itable s)[ip := y]" "ino u ip = y" using U(2) t'(6) ip by simp_all
  have sz: "unat (i_size y) = e" using on by (simp add: y_def e_def max_def word_le_nat_alt)
  have "writei ip False src ksrc off n s = Ok (sint n) u"
    using t(1) off small on it u(1) by (simp add: writei_def Let_def word_less_nat_alt word_le_nat_alt fs_consts)
  moreover have "sint n = int (unat n)" using sint_of_nat32 [of "unat n"] small by (simp add: fs_consts)
  moreover have "length (log_add bns' ?ib) \<le> length bns + rounds (unat off) (unat n) + 1" using t(3) length_log_add [of bns' ?ib] by linarith
  moreover have "map (fbyte (bview u) y) [0..<max (unat (i_size ?x)) (unat off + length ksrc)] = overwrite (map (fbyte ?d ?x) [0..<unat (i_size ?x)]) (unat off) ksrc"
    by (rule overwrite_map) (use off C(2) t(4) len in \<open>auto simp: word_le_nat_alt patched_def e_def\<close>)
  then have "content (bview u) (ino u ip) = overwrite (content ?d ?x) (unat off) ksrc"
    by (simp only: content_def iu(2) sz e_def len)
  moreover have "own_blocks start (IBLOCK (i_inum (ino u ip)) (sb u)) (bview u) (ino u ip) (unat (i_size (ino u ip)))"
    unfolding iu(2) sz y(4) U(1) t'(4) using C(1) y by (intro own_blocks_same [OF own_t]) simp_all
  moreover have "\<forall>c. c \<noteq> ?ib \<and> c \<notin> fblock ?d ?x ` {..<nblocks e} \<longrightarrow> bview u c = ?d c" using u(4) t(4) by (simp add: patched_def)
  ultimately show ?thesis using u(2) iu(1) U(1,3,8) t'(4,5,7) T(8) unfolding y_def e_def by (intro exI [of _ u] exI [of _ "log_add bns' ?ib"]) simp
qed

section \<open>Properties\<close>


definition demo_file :: inode where
  "demo_file = blank_inode\<lparr>i_dev := 1, i_inum := 5, i_ref := 1, i_valid := True, i_type := 2, i_nlink := 1, i_size := 1500,
     i_addrs := [100, 101] @ replicate 11 0\<rparr>"

lemma demo_file_blocks: "own_blocks 2 (IBLOCK 5 demo_sb) d demo_file 2048"
proof -
  have n: "nblocks 2048 = 2" by (simp add: nblocks_def BSIZE_def)
  have f: "fblock d demo_file k = (if k = 0 then 100 else 101)" if "k < 2" for k
    using less_2_cases [OF that] by (auto simp: fblock_def demo_file_def fs_consts)
  have small: "i div BSIZE < 2" if "i < 2048" for i using that by (simp add: BSIZE_def)
  have "IBLOCK 5 demo_sb = 32" by (simp add: IBLOCK_def demo_sb_def fs_consts)
  moreover have "(32 :: u32) \<notin> log_area 2" "100 \<notin> log_area 2" "101 \<notin> log_area 2"
    using log_area_range [of 2 32] log_area_range [of 2 100] log_area_range [of 2 101] by (simp_all add: param_defs)
  moreover have "inj_on (fblock d demo_file) {..<2}" using f by (auto simp: inj_on_def split: if_splits)
  moreover have "has_blocks d demo_file 2048" using f small by (simp add: has_blocks_def) (simp add: demo_file_def blank_inode_def param_defs fs_consts)
  ultimately show ?thesis using f by (simp add: own_blocks_def n fs_consts)
qed


end
