(* ===== verification/Fs_Dir.thy ===== *)
theory Fs_Dir
  imports Fs_Content
begin

text \<open>
  Directories and paths of \<^verbatim>\<open>kernel/fs.c\<close> over the content of files: a directory is a list of entries, \<^verbatim>\<open>dirlookup\<close> finds the first
  entry of a name, \<^verbatim>\<open>dirlink\<close> adds one; a path is the list of its elements, which \<^verbatim>\<open>namex\<close> takes one after the other.
\<close>

section \<open>Slots of 16 bytes\<close>

lemma slot_le: "16 * k \<le> n \<longleftrightarrow> k \<le> n div 16" for k n :: nat
  by (simp add: less_eq_div_iff_mult_less_eq mult.commute)

lemma slot_next: "k < n div 16 \<Longrightarrow> 16 * k + 16 \<le> n" for k n :: nat
  using slot_le [of "Suc k" n] by simp

lemma slot_in_block: "(16 * k) mod 1024 \<le> 1008" for k :: nat
  using mult_mod_right [of 16 k 64] by simp

section \<open>Search loops\<close>

lemma kscan_n_reach:
  assumes "\<And>j t. i \<le> j \<Longrightarrow> j < i + n \<Longrightarrow> I t \<Longrightarrow> \<exists>t'. f j t = Ok None t' \<and> I t'"
  shows "I s \<Longrightarrow> \<exists>t. I t \<and> kscan_n i (n + m) f s = kscan_n (i + n) m f t"
  using assms
proof (induction n arbitrary: i s)
  case (Suc n)
  from Suc.prems(2) [of i s] Suc.prems(1) obtain t where t: "f i s = Ok None t" "I t" by auto
  from Suc.IH [OF t(2), of "Suc i"] Suc.prems(2) obtain u where "I u" "kscan_n (Suc i) (n + m) f t = kscan_n (Suc i + n) m f u" by auto
  then show ?case using t(1) by auto
qed auto

lemma kscan_reach:
  assumes "\<And>j t. lo \<le> j \<Longrightarrow> j < k \<Longrightarrow> I t \<Longrightarrow> \<exists>t'. f j t = Ok None t' \<and> I t'" and "lo \<le> k" and "k \<le> hi" and "I s"
  shows "\<exists>t. I t \<and> kscan lo hi f s = kscan k hi f t"
  using kscan_n_reach [of lo "k - lo" I f s "hi - k"] assms by (simp add: kscan_def)

lemma kscan_end: "kscan hi hi f s = Ok None s"
  by (simp add: kscan_def)

lemma kscan_hit: "k < hi \<Longrightarrow> f k s = kbind r (\<lambda>a t. Ok (Some (g a)) t) \<Longrightarrow> kscan k hi f s = kbind r (\<lambda>a t. Ok (Some (g a)) t)"
  by (cases "hi - k"; cases r) (simp_all add: kscan_def)

section \<open>Directories\<close>

text \<open>The entries of a directory and the first entry of a name.\<close>

definition dirent :: "u8 list \<Rightarrow> nat \<Rightarrow> u8 list" where
  "dirent c k = take 16 (drop (16 * k) c)"

definition is_name :: "u8 list \<Rightarrow> u8 list \<Rightarrow> bool" where
  "is_name name de \<longleftrightarrow> de_inum de \<noteq> 0 \<and> take DIRSIZ (cstr name) = take DIRSIZ (cstr (de_name de))"

definition dir_find :: "(u8 list \<Rightarrow> bool) \<Rightarrow> u8 list \<Rightarrow> nat option" where
  "dir_find P c = find (\<lambda>k. P (dirent c k)) [0..<length c div 16]"

lemma dir_find_None: "dir_find P c = None \<longleftrightarrow> (\<forall>k<length c div 16. \<not> P (dirent c k))"
  by (auto simp: dir_find_def find_None_iff)

lemma dir_find_Some: "dir_find P c = Some k \<longleftrightarrow> k < length c div 16 \<and> P (dirent c k) \<and> (\<forall>j<k. \<not> P (dirent c j))"
  by (auto simp: dir_find_def find_Some_iff)

text \<open>A directory that is consistent, inside a system call with room in the cache: its content is read without a change.\<close>

definition dir_ok :: "nat \<Rightarrow> u32 \<Rightarrow> u32 list \<Rightarrow> nat \<Rightarrow> 'z fs_state_scheme \<Rightarrow> bool" where
  "dir_ok p start bns dp s \<longleftrightarrow> fs_inv p start {} bns s \<and> length bns < NBUF \<and> i_type (ino s dp) = T_DIR
     \<and> has_blocks (bview s) (ino s dp) (unat (i_size (ino s dp))) \<and> unat (i_size (ino s dp)) mod 16 = 0"

definition same_fs :: "'z fs_state_scheme \<Rightarrow> 'z fs_state_scheme \<Rightarrow> bool" where
  "same_fs s t \<longleftrightarrow> bview t = bview s \<and> tx_frame s t"

lemma same_fs_refl: "same_fs s s"
  by (simp add: same_fs_def tx_frame_refl)

lemma same_fs_trans: "same_fs s t \<Longrightarrow> same_fs t u \<Longrightarrow> same_fs s u"
  unfolding same_fs_def by (metis tx_frame_trans)

lemma dir_read:
  assumes "dir_ok p start bns dp s" and "same_fs s t" and "fs_inv p start {} bns t" and "k < unat (i_size (ino s dp)) div 16"
  shows "\<exists>u. readi dp False dst (of_nat (16 * k)) 16 t = Ok (16, dirent (content (bview s) (ino s dp)) k) u \<and> same_fs s u \<and> fs_inv p start {} bns u"
proof -
  have t: "bview t = bview s" "tx_frame s t" using assms(2) by (simp_all add: same_fs_def)
  note T = tx_frame_fields [OF t(2)]
  let ?n = "unat (i_size (ino s dp))" and ?c = "content (bview s) (ino s dp)"
  have hb: "has_blocks (bview t) (ino t dp) (unat (i_size (ino t dp)))" and room: "length bns < NBUF" using assms(1) by (simp_all add: dir_ok_def t T)
  have small: "?n \<le> MAXFILE * BSIZE" "?n mod 16 = 0" using assms(1) by (simp_all add: dir_ok_def has_blocks_def)
  have k: "16 * k + 16 \<le> ?n" using assms(4) by (rule slot_next)
  have o: "unat (of_nat (16 * k) :: u32) = 16 * k" using k small(1) by (subst unat_of_nat) (simp add: fs_consts)
  have "unat (of_nat (16 * k) :: u32) + unat (16 :: u32) < 2 ^ 32" unfolding o using k small(1) by (simp add: fs_consts)
  moreover have "of_nat (16 * k) \<le> i_size (ino t dp)" unfolding word_le_nat_alt o T(2) using k by simp
  ultimately obtain u where u: "readi dp False dst (of_nat (16 * k)) 16 t = Ok (int (length (dirent ?c k)), dirent ?c k) u"
      "fs_inv p start {} bns u" "bview u = bview t" "tx_frame t u"
    using readi_spec [OF assms(3) room hb, of "of_nat (16 * k)" 16 dst] unfolding o t(1) T(2) dirent_def by auto
  have "length (dirent ?c k) = 16" using k by (simp add: dirent_def)
  then show ?thesis using u t same_fs_trans [OF assms(2)] by (auto simp: same_fs_def)
qed

lemma dir_entries_eq: "unat (i_size (ino s dp)) mod 16 = 0 \<Longrightarrow> dir_entries dp s = unat (i_size (ino s dp)) div 16"
  unfolding dir_entries_def by (auto simp: mod_eq_0_iff_dvd elim!: dvdE)

text \<open>
  \<^verbatim>\<open>dirlookup\<close> of a consistent directory returns the inode of the first entry with the name, from \<^verbatim>\<open>iget\<close>, and its offset, or
  nothing when the name is not there.
\<close>

lemma dirlookup_spec:
  assumes ok: "dir_ok p start bns dp s"
  shows "case dir_find (is_name name) (content (bview s) (ino s dp)) of
       None \<Rightarrow> \<exists>t. dirlookup dp name s = Ok None t \<and> same_fs s t \<and> fs_inv p start {} bns t
     | Some k \<Rightarrow> \<exists>t. same_fs s t \<and> fs_inv p start {} bns t \<and> dirlookup dp name s =
         kbind (iget (i_dev (ino s dp)) (ucast (de_inum (dirent (content (bview s) (ino s dp)) k))) t) (\<lambda>ip u. Ok (Some (ip, of_nat (16 * k))) u)"
proof -
  let ?c = "content (bview s) (ino s dp)" and ?n = "unat (i_size (ino s dp)) div 16"
  let ?I = "\<lambda>t. same_fs s t \<and> fs_inv p start {} bns t"
  define body where "body = (\<lambda>k (s :: 'a fs_state_scheme). let off = of_nat (16 * k) in
        kbind (readi dp False 0 off 16 s) (\<lambda>(r, de) s.
        if r \<noteq> 16 then Panic ''dirlookup read''
        else if de_inum de = 0 then Ok None s
        else if namecmp name (de_name de) = 0 then
          kbind (iget (i_dev (ino s dp)) (ucast (de_inum de)) s) (\<lambda>ip s. Ok (Some (ip, off)) s)
        else Ok None s))"
  have look: "dirlookup dp name s = kscan 0 ?n body s"
    using ok dir_entries_eq [of s dp] by (simp add: dirlookup_def dir_ok_def body_def)
  have miss: "\<exists>t'. body j t = Ok None t' \<and> ?I t'" if "?I t" "j < ?n" "\<not> is_name name (dirent ?c j)" for j t
  proof -
    from dir_read [OF ok _ _ that(2), of t 0] that(1) obtain u where
      "readi dp False 0 (of_nat (16 * j)) 16 t = Ok (16, dirent ?c j) u" "?I u" by blast
    then show ?thesis using that(3) by (auto simp: body_def is_name_def namecmp_def strncmp_eq_0)
  qed
  have hit: "\<exists>t'. ?I t' \<and> body j t = kbind (iget (i_dev (ino s dp)) (ucast (de_inum (dirent ?c j))) t') (\<lambda>ip u. Ok (Some (ip, of_nat (16 * j))) u)"
    if "?I t" "j < ?n" "is_name name (dirent ?c j)" for j t
  proof -
    from dir_read [OF ok _ _ that(2), of t 0] that(1) obtain u where
      u: "readi dp False 0 (of_nat (16 * j)) 16 t = Ok (16, dirent ?c j) u" "?I u" by blast
    have "ino u dp = ino s dp" using u(2) tx_frame_fields(2) [of s u] by (simp add: same_fs_def)
    then show ?thesis using u that(3) by (auto simp: body_def is_name_def namecmp_def strncmp_eq_0)
  qed
  have start: "?I s" using ok by (simp add: dir_ok_def same_fs_refl)
  show ?thesis
  proof (cases "dir_find (is_name name) ?c")
    case None
    then have "\<forall>k<?n. \<not> is_name name (dirent ?c k)" by (simp add: dir_find_None)
    with kscan_reach [of 0 ?n ?I body ?n s] miss start obtain t where "?I t" "kscan 0 ?n body s = kscan ?n ?n body t" by blast
    then show ?thesis using None look by (auto simp: kscan_end)
  next
    case (Some k)
    then have k: "k < ?n" "is_name name (dirent ?c k)" "\<forall>j<k. \<not> is_name name (dirent ?c j)" by (simp_all add: dir_find_Some)
    have "\<exists>t'. body j t = Ok None t' \<and> ?I t'" if "j < k" "?I t" for j t using miss [OF that(2)] that(1) k by simp
    with kscan_reach [of 0 k ?I body ?n s] k(1) start obtain t where t: "?I t" "kscan 0 ?n body s = kscan k ?n body t" by auto
    from hit [OF t(1) k(1,2)] obtain u where u: "?I u"
      "body k t = kbind (iget (i_dev (ino s dp)) (ucast (de_inum (dirent ?c k))) u) (\<lambda>ip u. Ok (Some (ip, of_nat (16 * k))) u)" by blast
    have "kscan k ?n body t = kbind (iget (i_dev (ino s dp)) (ucast (de_inum (dirent ?c k))) u) (\<lambda>ip u. Ok (Some (ip, of_nat (16 * k))) u)"
      by (rule kscan_hit [where f = body and k = k and s = t and g = "\<lambda>ip. (ip, of_nat (16 * k) :: u32)", OF k(1)]) (rule u(2))
    then show ?thesis using Some u(1) look t(2) by auto
  qed
qed

text \<open>A directory as a map from names to inode numbers.\<close>

definition dir_inum :: "u8 list \<Rightarrow> u8 list \<Rightarrow> u16 option" where
  "dir_inum c name = map_option (\<lambda>k. de_inum (dirent c k)) (dir_find (is_name name) c)"

definition new_dirent :: "u32 \<Rightarrow> u8 list \<Rightarrow> u8 list" where
  "new_dirent inum name = to_le 2 (ucast inum :: u16) @ strncpy (replicate DIRSIZ 0) name DIRSIZ"

lemma new_dirent_facts:
  "length (new_dirent inum name) = 16" "de_inum (new_dirent inum name) = ucast inum"
  "take DIRSIZ (cstr (de_name (new_dirent inum name))) = take DIRSIZ (cstr name)"
proof -
  note S = strncpy_agrees [of DIRSIZ "replicate DIRSIZ 0" name]
  show "length (new_dirent inum name) = 16" using S by (simp add: new_dirent_def DIRSIZ_def)
  show "de_inum (new_dirent inum name) = ucast inum" by (simp add: new_dirent_def de_inum_def get16_def from_le_to_le take_bit_word_eq_self)
  show "take DIRSIZ (cstr (de_name (new_dirent inum name))) = take DIRSIZ (cstr name)"
    using S by (simp add: new_dirent_def de_name_def strncmp_eq_0)
qed

lemma dirent_overwrite:
  assumes "16 * k \<le> length c" and "length de = 16"
  shows "dirent (overwrite c (16 * k) de) j = (if j = k then de else dirent c j)"
proof -
  consider "j < k" | "j = k" | "j > k" by linarith
  then show ?thesis
  proof cases
    case 1
    then have "16 * j + 16 \<le> 16 * k" by simp
    then show ?thesis using assms 1 by (simp add: dirent_def overwrite_def drop_take)
  next
    case 2
    then show ?thesis using assms by (simp add: dirent_def overwrite_def)
  next
    case 3
    then have "16 * k + 16 \<le> 16 * j" by simp
    then show ?thesis using assms 3 by (simp add: dirent_def overwrite_def)
  qed
qed

lemma dir_inum_overwrite:
  assumes k: "16 * k \<le> length c" and len: "length c mod 16 = 0" and free: "k < length c div 16 \<Longrightarrow> de_inum (dirent c k) = 0"
    and i: "ucast inum \<noteq> (0 :: u16)" and new: "dir_find (is_name name) c = None"
  shows "dir_inum (overwrite c (16 * k) (new_dirent inum name)) name' =
     (if take DIRSIZ (cstr name') = take DIRSIZ (cstr name) then Some (ucast inum) else dir_inum c name')"
proof -
  let ?c = "overwrite c (16 * k) (new_dirent inum name)" and ?n = "length c div 16"
  note N = new_dirent_facts [of inum name]
  have kn: "k \<le> ?n" using k by (simp only: slot_le)
  have "length ?c = max (length c) (16 * k + 16)" using k N(1) by (simp add: overwrite_def)
  then have len': "length ?c div 16 = max ?n (Suc k)" using len kn by (auto simp: max_def)
  have ent: "dirent ?c j = (if j = k then new_dirent inum name else dirent c j)" for j by (rule dirent_overwrite [OF k N(1)])
  have new_is: "is_name name' (new_dirent inum name) \<longleftrightarrow> take DIRSIZ (cstr name') = take DIRSIZ (cstr name)" using i N by (auto simp: is_name_def)
  have old_is: "\<not> is_name name' (dirent c k)" if "k < ?n" using free [OF that] by (simp add: is_name_def)
  show ?thesis
  proof (cases "take DIRSIZ (cstr name') = take DIRSIZ (cstr name)")
    case True
    then have "is_name name' = is_name name" by (simp add: is_name_def fun_eq_iff)
    then have "dir_find (is_name name') ?c = Some k"
      using new kn True new_is unfolding dir_find_Some dir_find_None len' ent by auto
    then show ?thesis using True N(2) ent by (simp add: dir_inum_def)
  next
    case False
    have "dir_find (is_name name') ?c = dir_find (is_name name') c"
    proof (cases "dir_find (is_name name') c")
      case None
      then have "dir_find (is_name name') ?c = None"
        using False new_is kn unfolding dir_find_None len' ent by (auto simp: less_Suc_eq max_def split: if_splits)
      then show ?thesis using None by simp
    next
      case (Some j)
      then have j: "j < ?n" "is_name name' (dirent c j)" "\<forall>i<j. \<not> is_name name' (dirent c i)" by (simp_all add: dir_find_Some)
      then have "j \<noteq> k" using old_is by auto
      then have "dir_find (is_name name') ?c = Some j" using j False new_is unfolding dir_find_Some len' ent by auto
      then show ?thesis using Some by simp
    qed
    moreover have "dirent ?c j = dirent c j" if "dir_find (is_name name') c = Some j" for j
      using that old_is ent by (auto simp: dir_find_Some)
    ultimately show ?thesis using False by (cases "dir_find (is_name name') c") (simp_all add: dir_inum_def)
  qed
qed

text \<open>The entry \<^verbatim>\<open>dirlink\<close> uses: the first free one, or one behind the last.\<close>

definition free_slot :: "u8 list \<Rightarrow> nat" where
  "free_slot c = (case dir_find (\<lambda>de. de_inum de = 0) c of Some k \<Rightarrow> k | None \<Rightarrow> length c div 16)"

lemma free_slot_cases:
  obtains "dir_find (\<lambda>de. de_inum de = 0) c = None" "free_slot c = length c div 16" "\<forall>k<length c div 16. de_inum (dirent c k) \<noteq> 0"
  | k where "free_slot c = k" "k < length c div 16" "de_inum (dirent c k) = 0" "\<forall>j<k. de_inum (dirent c j) \<noteq> 0"
proof (cases "dir_find (\<lambda>de. de_inum de = 0) c")
  case None
  then show ?thesis using that(1) dir_find_None [of "\<lambda>de. de_inum de = 0" c] by (simp add: free_slot_def)
next
  case (Some k)
  then show ?thesis using that(2) [of k] dir_find_Some [of "\<lambda>de. de_inum de = 0" c k] by (simp add: free_slot_def)
qed

lemma free_slot_facts:
  "free_slot c \<le> length c div 16" "free_slot c < length c div 16 \<Longrightarrow> de_inum (dirent c (free_slot c)) = 0"
  "j < free_slot c \<Longrightarrow> j < length c div 16 \<and> de_inum (dirent c j) \<noteq> 0"
  by (rule free_slot_cases [of c]; simp)+

lemma dirlink_spec:
  assumes ok: "dir_ok p start bns dp s" and dp: "dp < length (itable s)" and o: "1 \<le> sint (l_outstanding (lg s))"
    and own: "own_blocks start (IBLOCK (i_inum (ino s dp)) (sb s)) (bview s) (ino s dp) (unat (i_size (ino s dp)) + 16)"
    and log: "length bns + 1 < LOGSIZE - 1" and new: "dir_find (is_name name) (content (bview s) (ino s dp)) = None"
  shows "\<exists>t bns'. dirlink dp name inum s = Ok 0 t \<and> dir_ok p start bns' dp t \<and> length bns' \<le> length bns + 2
     \<and> content (bview t) (ino t dp) = overwrite (content (bview s) (ino s dp)) (16 * free_slot (content (bview s) (ino s dp))) (new_dirent inum name)
     \<and> (\<forall>c. c \<noteq> IBLOCK (i_inum (ino s dp)) (sb s) \<and> c \<notin> fblock (bview s) (ino s dp) ` {..<nblocks (unat (i_size (ino s dp)) + 16)} \<longrightarrow> bview t c = bview s c)"
proof -
  let ?c = "content (bview s) (ino s dp)" and ?n = "unat (i_size (ino s dp)) div 16" and ?x = "ino s dp"
  let ?I = "\<lambda>t. same_fs s t \<and> fs_inv p start {} bns t"
  define body where "body = (\<lambda>k (s :: 'a fs_state_scheme). kbind (readi dp False 0 (of_nat (16 * k)) 16 s) (\<lambda>(r, de) s.
         if r \<noteq> 16 then Panic ''dirlink read''
         else if de_inum de = 0 then Ok (Some k) s else Ok None s))"
  from dirlookup_spec [OF ok, of name] new obtain t where t: "dirlookup dp name s = Ok None t" "?I t" by auto
  have it: "ino t dp = ?x" using t(2) tx_frame_fields(2) [of s t] by (simp add: same_fs_def)
  have sz: "unat (i_size ?x) mod 16 = 0" "i_type ?x = T_DIR" using ok by (simp_all add: dir_ok_def)
  have n: "dir_entries dp t = ?n" using dir_entries_eq [of t dp] it sz by simp
  have step: "\<exists>u. ?I u \<and> body j w = Ok (if de_inum (dirent ?c j) = 0 then Some j else None) u" if "?I w" "j < ?n" for j w
  proof -
    from dir_read [OF ok _ _ that(2), of w 0] that(1) obtain u where "readi dp False 0 (of_nat (16 * j)) 16 w = Ok (16, dirent ?c j) u" "?I u" by blast
    then show ?thesis by (auto simp: body_def)
  qed
  define k where "k = free_slot ?c"
  have scan: "\<exists>u. ?I u \<and> kscan 0 ?n body t = Ok (if k < ?n then Some k else None) u"
  proof -
    have "\<exists>u. body j w = Ok None u \<and> ?I u" if "j < k" "?I w" for j w
    proof -
      have "j < ?n" "de_inum (dirent ?c j) \<noteq> 0"
        using free_slot_facts(3) [of j ?c] that(1) by (simp_all add: k_def)
      then show ?thesis using step [OF that(2), of j] by auto
    qed
    moreover have kn: "k \<le> ?n" using free_slot_facts(1) [of ?c] by (simp add: k_def)
    ultimately obtain u where u: "?I u" "kscan 0 ?n body t = kscan k ?n body u" using kscan_reach [of 0 k ?I body ?n t] t(2) by auto
    show ?thesis
    proof (cases "k < ?n")
      case True
      then have "de_inum (dirent ?c k) = 0" using free_slot_facts(2) [of ?c] by (simp add: k_def)
      with step [OF u(1) True] obtain v where v: "?I v" "body k u = Ok (Some k) v" by auto
      have "kscan k ?n body u = kbind (Ok k v) (\<lambda>a t. Ok (Some a) t)"
        by (rule kscan_hit [where f = body and k = k and s = u and g = "\<lambda>a. a", OF True]) (simp add: v(2))
      then show ?thesis using u v True by auto
    next
      case False
      then show ?thesis using u kn kscan_end [of ?n body u] by auto
    qed
  qed
  then obtain u where u: "same_fs s u" "fs_inv p start {} bns u" "kscan 0 ?n body t = Ok (if k < ?n then Some k else None) u" by blast
  have eqs: "bview u = bview s" "itable u = itable s" "sb u = sb s" "l_outstanding (lg u) = l_outstanding (lg s)"
    using u(1) tx_frame_fields [of s u] tx_frame_outstanding [of s u] by (simp_all add: same_fs_def)
  let ?de = "new_dirent inum name" and ?off = "of_nat (16 * k) :: u32"
  have kle: "16 * k \<le> unat (i_size ?x)" using free_slot_facts(1) [of ?c] by (simp only: k_def length_content slot_le)
  have small: "unat (i_size ?x) + 16 \<le> MAXFILE * BSIZE" using own by (simp add: own_blocks_def has_blocks_def)
  have off: "unat ?off = 16 * k" using kle small by (subst unat_of_nat) (simp add: fs_consts)
  have "(16 * k) mod 1024 \<le> 1008" by (rule slot_in_block)
  then have r: "rounds (16 * k) (unat (16 :: u32)) = 1" by (simp add: rounds_def nblocks_def BSIZE_def)
  have own': "own_blocks start (IBLOCK (i_inum (ino u dp)) (sb u)) (bview u) (ino u dp) (max (unat (i_size (ino u dp))) (unat ?off + unat (16 :: u32)))"
    unfolding eqs off by (rule own_blocks_less [OF own]) (use kle in simp)
  have "dp < length (itable u)" "1 \<le> sint (l_outstanding (lg u))" "?off \<le> i_size (ino u dp)" "length ?de = unat (16 :: u32)"
      "length bns + rounds (unat ?off) (unat (16 :: u32)) < LOGSIZE - 1"
    using dp o kle log new_dirent_facts(1) [of inum name] unfolding word_le_nat_alt eqs off r by simp_all
  from writei_spec [OF u(2) this(1,2) own' this(3-5), of 0] obtain v bns' where
    v: "writei dp False 0 ?de ?off 16 u = Ok (int (unat (16 :: u32))) v" "fs_inv p start {} bns' v" "length bns' \<le> length bns + 1 + 1"
      "itable v = (itable u)[dp := (ino u dp)\<lparr>i_size := max (i_size (ino u dp)) (?off + 16)\<rparr>]"
      "content (bview v) (ino v dp) = overwrite (content (bview u) (ino u dp)) (16 * k) ?de"
      "own_blocks start (IBLOCK (i_inum (ino v dp)) (sb v)) (bview v) (ino v dp) (unat (i_size (ino v dp)))"
      "\<forall>c. c \<noteq> IBLOCK (i_inum (ino u dp)) (sb u) \<and> c \<notin> fblock (bview u) (ino u dp) ` {..<nblocks (max (unat (i_size (ino u dp))) (16 * k + unat (16 :: u32)))} \<longrightarrow> bview v c = bview u c"
    unfolding off r by blast
  have iv: "ino v dp = ?x\<lparr>i_size := max (i_size ?x) (?off + 16)\<rparr>" using dp by (simp only: v(4) eqs nth_list_update_eq)
  have "unat (?off + 16) = 16 * k + 16" using off kle small by (subst unat_add_lem [THEN iffD1]) (simp_all add: fs_consts)
  then have "unat (i_size (ino v dp)) = max (unat (i_size ?x)) (16 * k + 16)" by (simp add: iv max_def word_le_nat_alt)
  then have "unat (i_size (ino v dp)) mod 16 = 0" using sz(1) by (auto simp: max_def)
  then have "dir_ok p start bns' dp v" using v(2,3,6) log sz(2) iv by (simp add: dir_ok_def own_blocks_def param_defs)
  moreover have "dirlink dp name inum s = Ok 0 v"
  proof -
    have "dirlink dp name inum s = kbind (kscan 0 ?n body t) (\<lambda>r s.
        kbind (writei dp False 0 ?de (of_nat (16 * (case r of Some k \<Rightarrow> k | None \<Rightarrow> ?n))) 16 s) (\<lambda>w s. if w \<noteq> 16 then Panic ''dirlink'' else Ok 0 s))"
      by (simp only: dirlink_def Let_def t(1) kbind_simps option.case n body_def new_dirent_def)
    moreover have "(case (if k < ?n then Some k else None) of Some k \<Rightarrow> k | None \<Rightarrow> ?n) = k"
      using free_slot_facts(1) [of ?c] by (simp add: k_def)
    ultimately show ?thesis using v(1) by (simp only: u(3) kbind_simps) simp
  qed
  moreover have "content (bview v) (ino v dp) = overwrite ?c (16 * free_slot ?c) ?de" using v(5) unfolding eqs k_def .
  moreover have "\<forall>c. c \<noteq> IBLOCK (i_inum ?x) (sb s) \<and> c \<notin> fblock (bview s) ?x ` {..<nblocks (unat (i_size ?x) + 16)} \<longrightarrow> bview v c = bview s c"
  proof -
    have "max (unat (i_size ?x)) (16 * k + 16) \<le> unat (i_size ?x) + 16" using kle by simp
    then have "fblock (bview s) ?x ` {..<nblocks (max (unat (i_size ?x)) (16 * k + 16))} \<subseteq> fblock (bview s) ?x ` {..<nblocks (unat (i_size ?x) + 16)}"
      by (intro image_mono) (simp add: nblocks_mono)
    then show ?thesis using v(7) unfolding eqs by (simp add: subset_iff) meson
  qed
  ultimately show ?thesis using v(3) by (intro exI [of _ v] exI [of _ bns']) simp
qed

section \<open>Properties\<close>


definition demo_dir :: inode where
  "demo_dir = demo_file\<lparr>i_type := T_DIR, i_size := 0\<rparr>"


section \<open>Paths\<close>

text \<open>
  The elements of a path: the pieces between the slashes that are not empty, cut to \<^verbatim>\<open>DIRSIZ\<close> bytes.
\<close>

function elements :: "u8 list \<Rightarrow> u8 list list" where
  "elements q = (let q = dropWhile (\<lambda>c. c = 47) q in
     if q = [] then [] else take DIRSIZ (takeWhile (\<lambda>c. c \<noteq> 47) q) # elements (dropWhile (\<lambda>c. c \<noteq> 47) q))"
  by pat_completeness auto
termination
proof (relation "measure length")
  fix q x :: "u8 list" assume x: "x = dropWhile (\<lambda>c. c = 47) q" "x \<noteq> []"
  then have "hd x \<noteq> 47" using hd_dropWhile [of "\<lambda>c. c = 47" q] by auto
  then obtain c y where y: "x = c # y" "c \<noteq> 47" using x(2) by (cases x) auto
  have "length (dropWhile (\<lambda>c. c \<noteq> 47) x) \<le> length y" using y length_dropWhile_le [of "\<lambda>c. c \<noteq> 47" y] by simp
  then have "length (dropWhile (\<lambda>c. c \<noteq> 47) x) < length x" using y(1) by simp
  also have "length x \<le> length q" unfolding x(1) by (rule length_dropWhile_le)
  finally show "(dropWhile (\<lambda>c. c \<noteq> 47) x, q) \<in> measure length" by simp
qed simp

declare elements.simps [simp del]

lemma elements_slashes: "elements (dropWhile (\<lambda>c. c = 47) q) = elements q"
proof -
  have "dropWhile (\<lambda>c. c = 47) (dropWhile (\<lambda>c. c = 47) q) = dropWhile (\<lambda>c. c = (47 :: u8)) q" by simp
  then show ?thesis by (simp only: elements.simps [of "dropWhile (\<lambda>c. c = 47) q"] elements.simps [of q])
qed

lemma cstr_dropWhile: "(\<forall>c. P c \<longrightarrow> c \<noteq> 0) \<Longrightarrow> cstr (dropWhile P p) = dropWhile P (cstr p)"
  by (induction p) (auto simp: cstr_def)

lemma cstr_split:
  "takeWhile (\<lambda>c. c \<noteq> 47 \<and> c \<noteq> 0) p = takeWhile (\<lambda>c. c \<noteq> 47) (cstr p)"
  "cstr (drop (length (takeWhile (\<lambda>c. c \<noteq> 47) (cstr p))) p) = dropWhile (\<lambda>c. c \<noteq> 47) (cstr p)"
  by (induction p) (auto simp: cstr_def)

lemma deref_zero: "deref p = 0 \<longleftrightarrow> cstr p = []"
  by (cases p) (auto simp: deref_def cstr_def)

text \<open>\<^verbatim>\<open>skipelem\<close> takes the first element off the path and leaves it in the array \<^verbatim>\<open>name\<close>.\<close>

lemma skipelem_None: "skipelem path name = None \<longleftrightarrow> elements (cstr path) = []"
  by (simp add: skipelem_def Let_def deref_zero cstr_dropWhile elements.simps [of "cstr path"])

lemma skipelem_Some:
  assumes "skipelem path name = Some (rest, name')" and "length name = DIRSIZ"
  shows "elements (cstr path) = take DIRSIZ (cstr name') # elements (cstr rest)" "deref rest = 0 \<longleftrightarrow> elements (cstr rest) = []" "length name' = DIRSIZ"
proof -
  let ?q = "dropWhile (\<lambda>c. c = 47) path"
  let ?e = "takeWhile (\<lambda>c. c \<noteq> 47) (cstr ?q)"
  have q: "cstr ?q = dropWhile (\<lambda>c. c = 47) (cstr path)" by (rule cstr_dropWhile) simp
  have ne: "cstr ?q \<noteq> []" and r: "rest = dropWhile (\<lambda>c. c = 47) (drop (length ?e) ?q)"
    and n: "name' = (if length ?e \<ge> DIRSIZ then take DIRSIZ ?e else (?e @ drop (length ?e) name)[length ?e := 0])"
    using assms(1) by (auto simp: skipelem_def Let_def deref_zero cstr_split split: if_splits)
  show len: "length name' = DIRSIZ" using n assms(2) by auto
  have nz: "0 \<notin> set ?e" by (auto simp: cstr_def dest!: set_takeWhileD)
  have name': "take DIRSIZ (cstr name') = take DIRSIZ ?e"
  proof (cases "length ?e \<ge> DIRSIZ")
    case True
    then have "cstr name' = take DIRSIZ ?e" using n nz by (auto simp: cstr_def takeWhile_eq_all_conv dest: in_set_takeD)
    then show ?thesis by simp
  next
    case False
    then obtain c y where "drop (length ?e) name = c # y" using assms(2) by (cases "drop (length ?e) name") auto
    then have "name' = ?e @ 0 # y" using n False by (simp add: list_update_append)
    with cstr_append_nul [OF nz, of y] have "cstr name' = ?e" by simp
    then show ?thesis by simp
  qed
  have cr: "cstr rest = dropWhile (\<lambda>c. c = 47) (dropWhile (\<lambda>c. c \<noteq> 47) (cstr ?q))"
    unfolding r cstr_split(2) [of ?q, symmetric] by (rule cstr_dropWhile) simp
  have "elements (cstr path) = take DIRSIZ ?e # elements (dropWhile (\<lambda>c. c \<noteq> 47) (cstr ?q))"
    using ne by (subst elements.simps) (simp add: q [symmetric] Let_def)
  then show "elements (cstr path) = take DIRSIZ (cstr name') # elements (cstr rest)" by (simp only: name' cr elements_slashes)
  have "dropWhile (\<lambda>c. c = 47) (cstr rest) = cstr rest" unfolding cr by simp
  then show "deref rest = 0 \<longleftrightarrow> elements (cstr rest) = []" by (simp add: deref_zero elements.simps [of "cstr rest"] Let_def)
qed

text \<open>The lookup of a list of elements, one directory after the other; with \<^verbatim>\<open>parent\<close> it stops at the directory of the last one.\<close>

fun walk_elements :: "bool \<Rightarrow> nat \<Rightarrow> u8 list list \<Rightarrow> 'z fs_state_scheme \<Rightarrow> (nat option, 'z fs_state_scheme) res" where
  "walk_elements parent ip [] s = (if parent then kbind (iput ip s) (\<lambda>_ s. Ok None s) else Ok (Some ip) s)"
| "walk_elements parent ip (e # es) s =
     kbind (ilock ip s) (\<lambda>_ s.
     if i_type (ino s ip) \<noteq> T_DIR then kbind (iunlockput ip s) (\<lambda>_ s. Ok None s)
     else if parent \<and> es = [] then kbind (iunlock ip s) (\<lambda>_ s. Ok (Some ip) s)
     else kbind (dirlookup ip e s) (\<lambda>r s.
       kbind (iunlockput ip s) (\<lambda>_ s.
       case r of None \<Rightarrow> Ok None s | Some (nxt, _) \<Rightarrow> walk_elements parent nxt es s)))"

lemma cstr_take: "cstr (take n (cstr p)) = take n (cstr p)"
  by (auto simp: cstr_def takeWhile_eq_all_conv dest: in_set_takeD set_takeWhileD)

lemma dirlookup_name: "take DIRSIZ (cstr name) = take DIRSIZ (cstr name') \<Longrightarrow> dirlookup dp name s = dirlookup dp name' s"
proof -
  assume "take DIRSIZ (cstr name) = take DIRSIZ (cstr name')"
  then have "namecmp name de = 0 \<longleftrightarrow> namecmp name' de = 0" for de by (simp add: namecmp_def strncmp_eq_0)
  then show ?thesis by (simp only: dirlookup_def)
qed

text \<open>What a caller sees of the result: the inode, and the name when there is one.\<close>

definition seen :: "nat option \<times> u8 list \<Rightarrow> (nat \<times> u8 list) option" where
  "seen r = (case fst r of None \<Rightarrow> None | Some ip \<Rightarrow> Some (ip, take DIRSIZ (cstr (snd r))))"

lemma namex_loop_walk:
  fixes s :: "'z fs_state_scheme"
  shows "length name = DIRSIZ \<Longrightarrow>
     kbind (namex_loop ip path parent name s) (\<lambda>(r, _) t. Ok r t) = walk_elements parent ip (elements (cstr path)) s"
proof (induction "length path" arbitrary: ip path name s rule: less_induct)
  case less
  show ?case
  proof (cases "skipelem path name")
    case None
    then show ?thesis using skipelem_None [of path name] by (simp add: namex_loop.simps [of ip path] kbind_assoc)
  next
    case (Some rn)
    obtain rest name' where rn: "rn = (rest, name')" by (cases rn)
    note K = skipelem_Some [OF Some [unfolded rn] less.prems]
    have IH: "kbind (namex_loop nxt rest parent name' u) (\<lambda>(r, _) t. Ok r t) = walk_elements parent nxt (elements (cstr rest)) u" for nxt and u :: "'z fs_state_scheme"
      by (rule less.hyps [OF skipelem_shorter [OF Some [unfolded rn]] K(3)])
    have d: "dirlookup ip name' t = dirlookup ip (take DIRSIZ (cstr name')) t" for t :: "'z fs_state_scheme"
      by (rule dirlookup_name) (simp add: cstr_take)
    show ?thesis
      unfolding K(1) namex_loop.simps [of ip path] Some rn option.case prod.case walk_elements.simps kbind_assoc
      by (rule kbind_cong [OF refl]) (auto simp: kbind_assoc K(2) d IH intro!: kbind_cong split: option.splits, use IH in simp)
  qed
qed

lemma namex_loop_name:
  "namex_loop ip path True name s = Ok (Some r, nm) t \<Longrightarrow> length name = DIRSIZ \<Longrightarrow> elements (cstr path) \<noteq> [] \<and> take DIRSIZ (cstr nm) = last (elements (cstr path))"
proof (induction "length path" arbitrary: ip path name s rule: less_induct)
  case less
  show ?case
  proof (cases "skipelem path name")
    case None
    then show ?thesis using less.prems(1) by (auto simp: namex_loop.simps [of ip path] elim!: kbind_OkE)
  next
    case (Some rn)
    obtain rest name' where rn: "rn = (rest, name')" by (cases rn)
    note K = skipelem_Some [OF Some [unfolded rn] less.prems(2)]
    note IH = less.hyps [OF skipelem_shorter [OF Some [unfolded rn]] _ K(3)]
    from less.prems(1) show ?thesis unfolding namex_loop.simps [of ip path] Some rn K(1)
      by (auto simp: K(2) elim!: kbind_OkE split: if_splits option.splits) (use IH in blast)
  qed
qed

text \<open>The directory a path starts at, with a reference to it.\<close>

definition path_start :: "u8 list \<Rightarrow> 'z fs_state_scheme \<Rightarrow> (nat, 'z fs_state_scheme) res" where
  "path_start path s = (if deref path = 47 then iget ROOTDEV ROOTINO s
     else with_proc s (\<lambda>p. case p_cwd (pr s p) of None \<Rightarrow> Panic ''kerneltrap'' | Some d \<Rightarrow> idup d s))"

text \<open>
  \<^bold>\<open>C35\<close> A path is the list of its elements, the pieces between slashes cut to 14 bytes. On every path, \<^verbatim>\<open>namei\<close> starts at the root
  for a leading slash and at the current directory otherwise and looks the elements up one after the other, whatever number of slashes
  separates them; \<^verbatim>\<open>nameiparent\<close> does the same up to the last element, which it returns as the name, and fails when there is none.
\<close>

theorem paths_are_elements:
  "namei path s = kbind (path_start path s) (\<lambda>ip s. walk_elements False ip (elements (cstr path)) s)
   \<and> kbind (nameiparent path s) (\<lambda>r t. Ok (seen r) t) =
       kbind (path_start path s) (\<lambda>ip s. kbind (walk_elements True ip (elements (cstr path)) s) (\<lambda>r t.
         Ok (map_option (\<lambda>ip. (ip, last (elements (cstr path)))) r) t))"
proof (rule conjI)
  have len: "length (replicate DIRSIZ (0 :: u8)) = DIRSIZ" by simp
  show "namei path s = kbind (path_start path s) (\<lambda>ip s. walk_elements False ip (elements (cstr path)) s)"
    by (simp add: namei_def namex_def path_start_def kbind_assoc namex_loop_walk [OF len])
  have "kbind (namex_loop ip path True (replicate DIRSIZ 0) u) (\<lambda>r t. Ok (seen r) t) =
      kbind (walk_elements True ip (elements (cstr path)) u) (\<lambda>r t. Ok (map_option (\<lambda>ip. (ip, last (elements (cstr path)))) r) t)"
    for ip and u :: "'a fs_state_scheme"
    unfolding namex_loop_walk [OF len, symmetric] kbind_assoc
    by (rule kbind_cong [OF refl]) (auto simp: seen_def split: option.splits dest: namex_loop_name [OF _ len])
  then show "kbind (nameiparent path s) (\<lambda>r t. Ok (seen r) t) =
       kbind (path_start path s) (\<lambda>ip s. kbind (walk_elements True ip (elements (cstr path)) s) (\<lambda>r t.
         Ok (map_option (\<lambda>ip. (ip, last (elements (cstr path)))) r) t))"
    by (simp add: nameiparent_def namex_def path_start_def kbind_assoc)
qed

end
