(* ===== verification/Asm.thy ===== *)
theory Asm
  imports Riscv
begin

text \<open>
  The assembly routines of the kernel: \<^verbatim>\<open>kernel/entry.S\<close>, \<^verbatim>\<open>kernel/swtch.S\<close>, \<^verbatim>\<open>kernel/trampoline.S\<close> and \<^verbatim>\<open>kernel/kernelvec.S\<close>. A
  routine is the list of its instructions and runs on the registers of one hart. The memory is the one the current page table
  shows at the addresses used: \<^verbatim>\<open>uservec\<close> and \<^verbatim>\<open>userret\<close> touch memory only under the user page table. Privilege modes and the
  translation cache are not part of the state, so that \<^verbatim>\<open>sfence.vma\<close> does nothing and \<^verbatim>\<open>sret\<close> and \<^verbatim>\<open>mret\<close> only jump.
\<close>

section \<open>Instructions\<close>

datatype reg = RA | SP | GP | TP | T0 | T1 | T2 | S0 | S1 | A0 | A1 | A2 | A3 | A4 | A5 | A6 | A7
  | S2 | S3 | S4 | S5 | S6 | S7 | S8 | S9 | S10 | S11 | T3 | T4 | T5 | T6

datatype csr = Sscratch | Satp | Sepc | Sip | Sie | Mscratch | Mhartid | Mstatus | Mepc | Medeleg | Mideleg | Mtvec | Mie

datatype instr = Sd reg nat reg | Ld reg nat reg | Addi reg reg u64 | Add reg reg reg | Mul reg reg reg | Li reg u64
  | Csrrw reg csr reg | Csrr reg csr | Csrw csr reg | Sfence_vma | Jr reg | Ret | Sret | Mret

record hart =
  regs :: "reg \<Rightarrow> u64"
  csrs :: "csr \<Rightarrow> u64"
  hmem :: memory
  pc :: addr

definition set_reg :: "reg \<Rightarrow> u64 \<Rightarrow> hart \<Rightarrow> hart" where
  "set_reg r v h = h\<lparr>regs := (regs h)(r := v)\<rparr>"

definition set_csr :: "csr \<Rightarrow> u64 \<Rightarrow> hart \<Rightarrow> hart" where
  "set_csr c v h = h\<lparr>csrs := (csrs h)(c := v)\<rparr>"

fun step :: "instr \<Rightarrow> hart \<Rightarrow> hart" where
  "step (Sd r off b) h = h\<lparr>hmem := store64 (hmem h) (regs h b + of_nat off) (regs h r)\<rparr>"
| "step (Ld r off b) h = set_reg r (load64 (hmem h) (regs h b + of_nat off)) h"
| "step (Addi rd rs i) h = set_reg rd (regs h rs + i) h"
| "step (Add rd r1 r2) h = set_reg rd (regs h r1 + regs h r2) h"
| "step (Mul rd r1 r2) h = set_reg rd (regs h r1 * regs h r2) h"
| "step (Li rd i) h = set_reg rd i h"
| "step (Csrrw rd c rs) h = set_reg rd (csrs h c) (set_csr c (regs h rs) h)"
| "step (Csrr rd c) h = set_reg rd (csrs h c) h"
| "step (Csrw c rs) h = set_csr c (regs h rs) h"
| "step Sfence_vma h = h"
| "step (Jr r) h = h\<lparr>pc := regs h r\<rparr>"
| "step Ret h = h\<lparr>pc := regs h RA\<rparr>"
| "step Sret h = h\<lparr>pc := csrs h Sepc\<rparr>"
| "step Mret h = h\<lparr>pc := csrs h Mepc\<rparr>"

definition run :: "instr list \<Rightarrow> hart \<Rightarrow> hart" where
  "run is h = fold step is h"

lemma run_simps [simp]: "run [] h = h" "run (i # is) h = run is (step i h)" "run (is @ js) h = run js (run is h)"
  by (simp_all add: run_def)

section \<open>The routines\<close>

text \<open>\<^verbatim>\<open>_entry\<close> up to the call of \<^verbatim>\<open>start\<close>; \<^verbatim>\<open>stack0\<close> is the address of the stacks. \<^verbatim>\<open>kernelvec\<close> has a call of \<^verbatim>\<open>kerneltrap\<close> between its halves.\<close>

definition entry :: "addr \<Rightarrow> instr list" where
  "entry stack0 =
     [Li SP stack0, Li A0 4096, Csrr A1 Mhartid, Addi A1 A1 (1), Mul A0 A0 A1, Add SP SP A0]"

definition swtch :: "instr list" where
  "swtch =
     [Sd RA 0 A0, Sd SP 8 A0, Sd S0 16 A0, Sd S1 24 A0, Sd S2 32 A0, Sd S3 40 A0, Sd S4 48 A0, Sd S5 56 A0, Sd S6 64 A0,
      Sd S7 72 A0, Sd S8 80 A0, Sd S9 88 A0, Sd S10 96 A0, Sd S11 104 A0, Ld RA 0 A1, Ld SP 8 A1, Ld S0 16 A1, Ld S1 24 A1,
      Ld S2 32 A1, Ld S3 40 A1, Ld S4 48 A1, Ld S5 56 A1, Ld S6 64 A1, Ld S7 72 A1, Ld S8 80 A1, Ld S9 88 A1, Ld S10 96 A1,
      Ld S11 104 A1, Ret]"

definition uservec :: "instr list" where
  "uservec =
     [Csrrw A0 Sscratch A0, Sd RA 40 A0, Sd SP 48 A0, Sd GP 56 A0, Sd TP 64 A0, Sd T0 72 A0, Sd T1 80 A0, Sd T2 88 A0,
      Sd S0 96 A0, Sd S1 104 A0, Sd A1 120 A0, Sd A2 128 A0, Sd A3 136 A0, Sd A4 144 A0, Sd A5 152 A0, Sd A6 160 A0,
      Sd A7 168 A0, Sd S2 176 A0, Sd S3 184 A0, Sd S4 192 A0, Sd S5 200 A0, Sd S6 208 A0, Sd S7 216 A0, Sd S8 224 A0,
      Sd S9 232 A0, Sd S10 240 A0, Sd S11 248 A0, Sd T3 256 A0, Sd T4 264 A0, Sd T5 272 A0, Sd T6 280 A0, Csrr T0 Sscratch,
      Sd T0 112 A0, Ld SP 8 A0, Ld TP 32 A0, Ld T0 16 A0, Ld T1 0 A0, Csrw Satp T1, Sfence_vma, Jr T0]"

definition userret :: "instr list" where
  "userret =
     [Csrw Satp A1, Sfence_vma, Ld T0 112 A0, Csrw Sscratch T0, Ld RA 40 A0, Ld SP 48 A0, Ld GP 56 A0, Ld TP 64 A0,
      Ld T0 72 A0, Ld T1 80 A0, Ld T2 88 A0, Ld S0 96 A0, Ld S1 104 A0, Ld A1 120 A0, Ld A2 128 A0, Ld A3 136 A0,
      Ld A4 144 A0, Ld A5 152 A0, Ld A6 160 A0, Ld A7 168 A0, Ld S2 176 A0, Ld S3 184 A0, Ld S4 192 A0, Ld S5 200 A0,
      Ld S6 208 A0, Ld S7 216 A0, Ld S8 224 A0, Ld S9 232 A0, Ld S10 240 A0, Ld S11 248 A0, Ld T3 256 A0, Ld T4 264 A0,
      Ld T5 272 A0, Ld T6 280 A0, Csrrw A0 Sscratch A0, Sret]"

definition kernelvec_enter :: "instr list" where
  "kernelvec_enter =
     [Addi SP SP (-256), Sd RA 0 SP, Sd SP 8 SP, Sd GP 16 SP, Sd TP 24 SP, Sd T0 32 SP, Sd T1 40 SP, Sd T2 48 SP,
      Sd S0 56 SP, Sd S1 64 SP, Sd A0 72 SP, Sd A1 80 SP, Sd A2 88 SP, Sd A3 96 SP, Sd A4 104 SP, Sd A5 112 SP,
      Sd A6 120 SP, Sd A7 128 SP, Sd S2 136 SP, Sd S3 144 SP, Sd S4 152 SP, Sd S5 160 SP, Sd S6 168 SP, Sd S7 176 SP,
      Sd S8 184 SP, Sd S9 192 SP, Sd S10 200 SP, Sd S11 208 SP, Sd T3 216 SP, Sd T4 224 SP, Sd T5 232 SP, Sd T6 240 SP]"

definition kernelvec_leave :: "instr list" where
  "kernelvec_leave =
     [Ld RA 0 SP, Ld SP 8 SP, Ld GP 16 SP, Ld T0 32 SP, Ld T1 40 SP, Ld T2 48 SP, Ld S0 56 SP, Ld S1 64 SP, Ld A0 72 SP,
      Ld A1 80 SP, Ld A2 88 SP, Ld A3 96 SP, Ld A4 104 SP, Ld A5 112 SP, Ld A6 120 SP, Ld A7 128 SP, Ld S2 136 SP,
      Ld S3 144 SP, Ld S4 152 SP, Ld S5 160 SP, Ld S6 168 SP, Ld S7 176 SP, Ld S8 184 SP, Ld S9 192 SP, Ld S10 200 SP,
      Ld S11 208 SP, Ld T3 216 SP, Ld T4 224 SP, Ld T5 232 SP, Ld T6 240 SP, Addi SP SP (256), Sret]"

definition timervec :: "instr list" where
  "timervec =
     [Csrrw A0 Mscratch A0, Sd A1 0 A0, Sd A2 8 A0, Sd A3 16 A0, Ld A1 24 A0, Ld A2 32 A0, Ld A3 0 A1, Add A3 A3 A2,
      Sd A3 0 A1, Li A1 2, Csrw Sip A1, Ld A3 16 A0, Ld A2 8 A0, Ld A1 0 A0, Csrrw A0 Mscratch A0, Mret]"

section \<open>Saving and restoring registers\<close>

type_synonym slots = "(reg \<times> nat) list"

fun save_mem :: "(reg \<Rightarrow> u64) \<Rightarrow> addr \<Rightarrow> slots \<Rightarrow> memory \<Rightarrow> memory" where
  "save_mem f b [] m = m"
| "save_mem f b ((r, k) # ps) m = save_mem f b ps (store64 m (b + of_nat k) (f r))"

definition slot :: "nat \<Rightarrow> bool" where
  "slot k \<longleftrightarrow> k mod 8 = 0 \<and> k < 4096"

lemma run_saves: "run (map (\<lambda>(r, k). Sd r k b) ps) h = h\<lparr>hmem := save_mem (regs h) (regs h b) ps (hmem h)\<rparr>"
  by (induction ps arbitrary: h) (auto simp: case_prod_unfold)

lemma slots_apart:
  assumes "slot j" and "slot k" and "j \<noteq> k"
  shows "region (b + of_nat j) 8 \<inter> region (b + of_nat k) 8 = {}"
proof -
  have False if x: "unat (x - (b + of_nat j)) < 8" "unat (x - (b + of_nat k)) < 8" for x
  proof -
    define i l where "i = unat (x - (b + of_nat j))" and "l = unat (x - (b + of_nat k))"
    have il: "i < 8" "l < 8" using x by (simp_all add: i_def l_def)
    have "x = b + of_nat (j + i)" "x = b + of_nat (k + l)" by (simp_all add: i_def l_def algebra_simps)
    then have "(of_nat (j + i) :: addr) = of_nat (k + l)" by simp
    then have "unat (of_nat (j + i) :: addr) = unat (of_nat (k + l) :: addr)" by simp
    moreover have "j + i < 2 ^ 64" "k + l < 2 ^ 64" using assms il by (simp_all add: slot_def)
    ultimately have "j + i = k + l" by (simp only: unat_of_nat_lt64)
    moreover have "(j + i) div 8 = j div 8" "(k + l) div 8 = k div 8" using assms(1,2) il by (simp_all add: slot_def div_add1_eq [of j i] div_add1_eq [of k l])
    ultimately have "j div 8 = k div 8" by simp
    then show False using assms by (metis slot_def mult_div_mod_eq)
  qed
  then show ?thesis by (auto simp: region_def)
qed

lemma save_mem_other:
  "slot k \<Longrightarrow> \<forall>j\<in>snd ` set ps. slot j \<and> j \<noteq> k \<Longrightarrow> load64 (save_mem f b ps m) (b + of_nat k) = load64 m (b + of_nat k)"
  by (induction f b ps m rule: save_mem.induct) (auto simp: load64_store64_disjoint slots_apart)

lemma save_mem_saved:
  "(r, k) \<in> set ps \<Longrightarrow> \<forall>j\<in>snd ` set ps. slot j \<Longrightarrow> distinct (map snd ps) \<Longrightarrow> load64 (save_mem f b ps m) (b + of_nat k) = f r"
proof (induction f b ps m rule: save_mem.induct)
  case (2 f b r' k' ps m)
  show ?case
  proof (cases "(r, k) = (r', k')")
    case True
    then show ?thesis using 2 save_mem_other [of k ps f b "store64 m (b + of_nat k) (f r)"] by (auto simp: image_iff)
  next
    case False
    then show ?thesis using 2 by auto
  qed
qed simp

lemma run_restores:
  "b \<notin> fst ` set ps \<Longrightarrow> distinct (map fst ps) \<Longrightarrow>
     run (map (\<lambda>(r, k). Ld r k b) ps) h =
       h\<lparr>regs := \<lambda>r. case map_of ps r of Some k \<Rightarrow> load64 (hmem h) (regs h b + of_nat k) | None \<Rightarrow> regs h r\<rparr>"
proof (induction ps arbitrary: h)
  case (Cons p ps)
  obtain r k where p: "p = (r, k)" by (cases p)
  have "r \<notin> dom (map_of ps)" using Cons.prems by (auto simp: p dom_map_of_conv_image_fst)
  then show ?case using Cons by (auto simp: p set_reg_def fun_eq_iff split: option.splits)
qed simp

section \<open>Traps from user space\<close>

text \<open>The slots of the user registers in the trapframe.\<close>

fun tf_slot :: "reg \<Rightarrow> nat" where
  "tf_slot RA = 40" | "tf_slot SP = 48" | "tf_slot GP = 56" | "tf_slot TP = 64" | "tf_slot T0 = 72" | "tf_slot T1 = 80"
| "tf_slot T2 = 88" | "tf_slot S0 = 96" | "tf_slot S1 = 104" | "tf_slot A0 = 112" | "tf_slot A1 = 120" | "tf_slot A2 = 128"
| "tf_slot A3 = 136" | "tf_slot A4 = 144" | "tf_slot A5 = 152" | "tf_slot A6 = 160" | "tf_slot A7 = 168" | "tf_slot S2 = 176"
| "tf_slot S3 = 184" | "tf_slot S4 = 192" | "tf_slot S5 = 200" | "tf_slot S6 = 208" | "tf_slot S7 = 216" | "tf_slot S8 = 224"
| "tf_slot S9 = 232" | "tf_slot S10 = 240" | "tf_slot S11 = 248" | "tf_slot T3 = 256" | "tf_slot T4 = 264" | "tf_slot T5 = 272"
| "tf_slot T6 = 280"

text \<open>All registers but \<^verbatim>\<open>a0\<close>, in the order in which the code stores and loads them.\<close>

definition user_regs :: "reg list" where
  "user_regs = [RA, SP, GP, TP, T0, T1, T2, S0, S1, A1, A2, A3, A4, A5, A6, A7, S2, S3, S4, S5, S6, S7, S8, S9, S10, S11, T3, T4, T5, T6]"

definition user_slots :: slots where
  "user_slots = map (\<lambda>r. (r, tf_slot r)) user_regs"

lemma user_slots_facts:
  "\<forall>k\<in>snd ` set user_slots. slot k \<and> k \<notin> {0, 8, 16, 24, 32, 112}" "distinct (map snd user_slots)" "distinct (map fst user_slots)"
  "A0 \<notin> fst ` set user_slots" "r \<noteq> A0 \<Longrightarrow> (r, tf_slot r) \<in> set user_slots" "r \<noteq> A0 \<Longrightarrow> map_of user_slots r = Some (tf_slot r)"
  "map_of user_slots A0 = None" "slot (tf_slot r)"
  by (simp_all add: user_slots_def user_regs_def slot_def) (cases r; simp)+

lemma uservec_parts:
  "uservec = [Csrrw A0 Sscratch A0] @ map (\<lambda>(r, k). Sd r k A0) user_slots
     @ [Csrr T0 Sscratch, Sd T0 112 A0, Ld SP 8 A0, Ld TP 32 A0, Ld T0 16 A0, Ld T1 0 A0, Csrw Satp T1, Sfence_vma, Jr T0]"
  by (simp add: uservec_def user_slots_def user_regs_def)

lemma userret_parts:
  "userret = [Csrw Satp A1, Sfence_vma, Ld T0 112 A0, Csrw Sscratch T0] @ map (\<lambda>(r, k). Ld r k A0) user_slots @ [Csrrw A0 Sscratch A0, Sret]"
  by (simp add: userret_def user_slots_def user_regs_def)

lemma uservec_saves:
  assumes "csrs h Sscratch = tf"
  shows "load64 (hmem (run uservec h)) (tf + of_nat (tf_slot r)) = regs h r"
    and "regs (run uservec h) SP = load64 (hmem h) (tf + 8)" and "regs (run uservec h) TP = load64 (hmem h) (tf + 32)"
    and "csrs (run uservec h) Satp = load64 (hmem h) tf" and "pc (run uservec h) = load64 (hmem h) (tf + 16)"
proof -
  let ?f = "(regs h)(A0 := tf)"
  define m where "m = save_mem ?f tf user_slots (hmem h)"
  have mem: "hmem (run uservec h) = store64 m (tf + of_nat 112) (regs h A0)"
    using assms by (simp add: uservec_parts run_saves set_reg_def set_csr_def m_def)
  have s112: "slot 112" by (simp add: slot_def)
  show "load64 (hmem (run uservec h)) (tf + of_nat (tf_slot r)) = regs h r"
  proof (cases "r = A0")
    case True
    then show ?thesis unfolding mem by simp
  next
    case False
    have "tf_slot r \<noteq> 112" using False user_slots_facts(1,5) by force
    then have "load64 (hmem (run uservec h)) (tf + of_nat (tf_slot r)) = load64 m (tf + of_nat (tf_slot r))"
      unfolding mem using user_slots_facts(8) s112 by (intro load64_store64_disjoint slots_apart) auto
    also have "\<dots> = ?f r" unfolding m_def using user_slots_facts(1,2,5) False by (intro save_mem_saved) auto
    finally show ?thesis using False by simp
  qed
  have k: "load64 (store64 m (tf + of_nat 112) (regs h A0)) (tf + of_nat k) = load64 (hmem h) (tf + of_nat k)" if "k \<in> {0, 8, 16, 32}" for k
  proof -
    have "slot k" "k \<noteq> 112" using that by (auto simp: slot_def)
    then have "load64 (store64 m (tf + of_nat 112) (regs h A0)) (tf + of_nat k) = load64 m (tf + of_nat k)"
      using s112 by (intro load64_store64_disjoint slots_apart) auto
    also have "\<dots> = load64 (hmem h) (tf + of_nat k)" unfolding m_def using \<open>slot k\<close> that user_slots_facts(1) by (intro save_mem_other) auto
    finally show ?thesis .
  qed
  show "regs (run uservec h) SP = load64 (hmem h) (tf + 8)" "regs (run uservec h) TP = load64 (hmem h) (tf + 32)"
    "csrs (run uservec h) Satp = load64 (hmem h) tf" "pc (run uservec h) = load64 (hmem h) (tf + 16)"
    using assms k [of 0] k [of 8] k [of 16] k [of 32] by (simp_all add: uservec_parts run_saves set_reg_def set_csr_def m_def)
qed

lemma userret_restores:
  assumes "regs h A0 = tf"
  shows "regs (run userret h) r = load64 (hmem h) (tf + of_nat (tf_slot r))" and "csrs (run userret h) Sscratch = tf"
    and "csrs (run userret h) Satp = regs h A1" and "pc (run userret h) = csrs h Sepc" and "hmem (run userret h) = hmem h"
  using assms
  by (cases "r = A0"; simp add: userret_parts run_restores user_slots_facts(3,4,6,7) set_reg_def set_csr_def del: map_of_eq_Some_iff)+

section \<open>Context switches\<close>

definition context_regs :: "reg list" where
  "context_regs = [RA, SP, S0, S1, S2, S3, S4, S5, S6, S7, S8, S9, S10, S11]"

definition context_slots :: slots where
  "context_slots = zip context_regs [0, 8, 16, 24, 32, 40, 48, 56, 64, 72, 80, 88, 96, 104]"

lemma context_slots_facts:
  "\<forall>k\<in>snd ` set context_slots. slot k \<and> k < 112" "distinct (map snd context_slots)" "distinct (map fst context_slots)"
  "fst ` set context_slots = set context_regs" "A0 \<notin> set context_regs" "A1 \<notin> set context_regs"
  by (simp_all add: context_slots_def context_regs_def slot_def)

lemma swtch_parts: "swtch = map (\<lambda>(r, k). Sd r k A0) context_slots @ map (\<lambda>(r, k). Ld r k A1) context_slots @ [Ret]"
  by (simp add: swtch_def context_slots_def context_regs_def)

lemma save_mem_outside:
  "\<forall>j\<in>snd ` set ps. region (b + of_nat j) 8 \<inter> region c 8 = {} \<Longrightarrow> load64 (save_mem f b ps m) c = load64 m c"
  by (induction f b ps m rule: save_mem.induct) (auto simp: load64_store64_disjoint)

lemma swtch_switches:
  assumes apart: "\<forall>(r, j)\<in>set context_slots. \<forall>(r', k)\<in>set context_slots. region (regs h A0 + of_nat j) 8 \<inter> region (regs h A1 + of_nat k) 8 = {}"
    and r: "(r, k) \<in> set context_slots"
  shows "regs (run swtch h) r = load64 (hmem h) (regs h A1 + of_nat k)" and "load64 (hmem (run swtch h)) (regs h A0 + of_nat k) = regs h r"
    and "pc (run swtch h) = load64 (hmem h) (regs h A1)"
proof -
  define m where "m = save_mem (regs h) (regs h A0) context_slots (hmem h)"
  note S = context_slots_facts
  have ra: "map_of context_slots RA = Some 0" "(RA, 0) \<in> set context_slots" by (simp_all add: context_slots_def context_regs_def)
  have u: "run swtch h = (h\<lparr>hmem := m, regs := \<lambda>r. case map_of context_slots r of Some k \<Rightarrow> load64 m (regs h A1 + of_nat k) | None \<Rightarrow> regs h r,
      pc := load64 m (regs h A1)\<rparr>)"
    using S(3-6) ra by (simp add: swtch_parts run_saves run_restores m_def [symmetric] del: map_of_eq_Some_iff cong: option.case_cong)
  have old: "load64 m (regs h A1 + of_nat k) = load64 (hmem h) (regs h A1 + of_nat k)" if "(r, k) \<in> set context_slots" for r k
    unfolding m_def using apart that by (intro save_mem_outside) fastforce
  have "map_of context_slots r = Some k" using r S(3) by simp
  then show "regs (run swtch h) r = load64 (hmem h) (regs h A1 + of_nat k)" using old [OF r] by (simp add: u)
  show "load64 (hmem (run swtch h)) (regs h A0 + of_nat k) = regs h r" unfolding u m_def using r S(1,2) by (simp add: save_mem_saved)
  from old [OF ra(2)] show "pc (run swtch h) = load64 (hmem h) (regs h A1)" by (simp add: u)
qed

section \<open>Traps in the kernel\<close>

definition kernel_slots :: slots where
  "kernel_slots = zip [GP, T0, T1, T2, S0, S1, A0, A1, A2, A3, A4, A5, A6, A7, S2, S3, S4, S5, S6, S7, S8, S9, S10, S11, T3, T4, T5, T6]
     [16, 32, 40, 48, 56, 64, 72, 80, 88, 96, 104, 112, 120, 128, 136, 144, 152, 160, 168, 176, 184, 192, 200, 208, 216, 224, 232, 240]"

lemma kernel_slots_facts:
  "\<forall>k\<in>snd ` set ((RA, 0) # (SP, 8) # (TP, 24) # kernel_slots). slot k" "distinct (map snd ((RA, 0) # (SP, 8) # (TP, 24) # kernel_slots))"
  "distinct (map fst kernel_slots)" "SP \<notin> fst ` set kernel_slots" "r \<notin> {RA, SP, TP} \<Longrightarrow> \<exists>k. (r, k) \<in> set kernel_slots"
  "map_of kernel_slots RA = None" "map_of kernel_slots TP = None" "map_of kernel_slots SP = None"
  by (simp_all add: kernel_slots_def slot_def) (cases r; auto)

definition kernel_frame :: slots where
  "kernel_frame = [(RA, 0), (SP, 8), (GP, 16), (TP, 24)] @ tl kernel_slots"

lemma kernelvec_enter_parts: "kernelvec_enter = [Addi SP SP (- 256)] @ map (\<lambda>(r, k). Sd r k SP) kernel_frame"
  by (simp add: kernelvec_enter_def kernel_frame_def kernel_slots_def)

lemma kernelvec_leave_parts:
  "kernelvec_leave = [Ld RA 0 SP, Ld SP 8 SP] @ map (\<lambda>(r, k). Ld r k SP) kernel_slots @ [Addi SP SP 256, Sret]"
  by (simp add: kernelvec_leave_def kernel_slots_def)

text \<open>
  A trap taken in the kernel changes no register but \<^verbatim>\<open>tp\<close>, provided that \<^verbatim>\<open>kerneltrap\<close> returns with the stack pointer it was called with
  and the frame below it intact, as the calling convention says.
\<close>

lemma kernelvec_preserves:
  assumes sp: "regs t SP = regs (run kernelvec_enter h) SP"
    and frame: "\<And>k. slot k \<Longrightarrow> k < 256 \<Longrightarrow> load64 (hmem t) (regs t SP + of_nat k) = load64 (hmem (run kernelvec_enter h)) (regs t SP + of_nat k)"
  shows "r \<noteq> TP \<Longrightarrow> regs (run kernelvec_leave t) r = regs h r" and "regs (run kernelvec_leave t) TP = regs t TP"
    and "pc (run kernelvec_leave t) = csrs t Sepc"
proof -
  define b where "b = regs h SP - 256"
  define f where "f = (regs h)(SP := b)"
  note K = kernel_slots_facts
  have e: "run kernelvec_enter h = h\<lparr>regs := f, hmem := save_mem f b kernel_frame (hmem h)\<rparr>"
    by (simp add: kernelvec_enter_parts run_saves set_reg_def b_def f_def)
  have tb: "regs t SP = b" using sp by (simp add: e f_def)
  have sub: "set kernel_frame = set ((RA, 0) # (SP, 8) # (TP, 24) # kernel_slots)" "\<forall>k\<in>snd ` set kernel_frame. slot k \<and> k < 256" "distinct (map snd kernel_frame)"
    by (auto simp: kernel_frame_def kernel_slots_def slot_def)
  have v: "load64 (hmem t) (b + of_nat k) = f r" if "(r, k) \<in> set kernel_frame" for r k
  proof -
    have "slot k" "k < 256" using that sub(2) by force+
    from frame [OF this] show ?thesis using that sub(2,3) by (simp add: tb e save_mem_saved)
  qed
  have v0: "load64 (hmem t) b = regs h RA" "load64 (hmem t) (b + 8) = b" using v [of RA 0] v [of SP 8] by (simp_all add: sub(1) f_def)
  let ?t = "t\<lparr>regs := (regs t)(RA := regs h RA, SP := b)\<rparr>"
  have l: "run kernelvec_leave t = (let u = run (map (\<lambda>(r, k). Ld r k SP) kernel_slots) ?t in (set_reg SP (regs u SP + 256) u)\<lparr>pc := csrs u Sepc\<rparr>)"
    by (simp add: kernelvec_leave_parts set_reg_def tb v0 Let_def)
  note L = l [unfolded run_restores [OF K(4,3)] Let_def set_reg_def]
  show "regs (run kernelvec_leave t) TP = regs t TP" "pc (run kernelvec_leave t) = csrs t Sepc" unfolding L using K(7) by simp_all
  show "regs (run kernelvec_leave t) r = regs h r" if ne: "r \<noteq> TP"
  proof (cases "r \<in> {RA, SP}")
    case True
    then show ?thesis unfolding L using K(6,8) by (auto simp: b_def)
  next
    case False
    then obtain k where k: "(r, k) \<in> set kernel_slots" using K(5) [of r] ne by auto
    then have "map_of kernel_slots r = Some k" using K(3) by simp
    then show ?thesis unfolding L using False v [of r k] k by (simp add: sub(1) f_def)
  qed
qed

section \<open>The timer\<close>

text \<open>
  \<^verbatim>\<open>timervec\<close> moves the next timer interrupt of the hart on by the interval, raises a software interrupt and changes nothing else
  the interrupted code sees. \<^verbatim>\<open>cmp\<close> is the address of the compare register, which is outside the scratch area.
\<close>

lemma timervec_ticks:
  assumes sc: "csrs h Mscratch = sc" and cmp: "load64 (hmem h) (sc + 24) = cmp" and iv: "load64 (hmem h) (sc + 32) = interval"
    and apart: "\<And>k. k \<in> {0, 8, 16} \<Longrightarrow> region cmp 8 \<inter> region (sc + of_nat k) 8 = {}"
  shows "regs (run timervec h) = regs h" and "csrs (run timervec h) = (csrs h)(Sip := 2)"
    and "load64 (hmem (run timervec h)) cmp = load64 (hmem h) cmp + interval" and "pc (run timervec h) = csrs h Mepc"
proof -
  define m where "m = store64 (store64 (store64 (hmem h) sc (regs h A1)) (sc + 8) (regs h A2)) (sc + 16) (regs h A3)"
  have m: "m = save_mem (regs h) sc [(A1, 0), (A2, 8), (A3, 16)] (hmem h)" by (simp add: m_def)
  have keep: "load64 m (sc + of_nat k) = load64 (hmem h) (sc + of_nat k)" if "k \<in> {24, 32}" for k
    unfolding m using that by (intro save_mem_other) (auto simp: slot_def)
  have saved: "load64 m sc = regs h A1" "load64 m (sc + 8) = regs h A2" "load64 m (sc + 16) = regs h A3"
    using save_mem_saved [of _ _ "[(A1, 0), (A2, 8), (A3, 16)]" "regs h" sc "hmem h"] by (force simp: m slot_def)+
  have c: "load64 m cmp = load64 (hmem h) cmp" unfolding m using apart by (intro save_mem_outside) (auto simp: Int_commute)
  let ?m = "store64 m cmp (load64 (hmem h) cmp + interval)"
  have r: "load64 ?m sc = regs h A1" "load64 ?m (sc + 8) = regs h A2" "load64 ?m (sc + 16) = regs h A3"
    using saved apart [of 0] apart [of 8] apart [of 16] by (simp_all add: load64_store64_disjoint)
  have run: "run timervec h = h\<lparr>csrs := (csrs h)(Sip := 2), hmem := ?m, pc := csrs h Mepc\<rparr>"
    using sc cmp iv keep [of 24] keep [of 32] c r
    by (simp add: timervec_def set_reg_def set_csr_def m_def [symmetric] fun_upd_twist) (simp add: fun_upd_def fun_eq_iff)
  show "regs (run timervec h) = regs h" "csrs (run timervec h) = (csrs h)(Sip := 2)"
    "load64 (hmem (run timervec h)) cmp = load64 (hmem h) cmp + interval" "pc (run timervec h) = csrs h Mepc" by (simp_all add: run)
qed

text \<open>Each hart starts at the top of a stack of its own.\<close>

lemma entry_stack: "regs (run (entry stack0) h) SP = stack0 + 4096 * (csrs h Mhartid + 1)"
  by (simp add: entry_def set_reg_def)

section \<open>Starting a hart\<close>

text \<open>
  \<^verbatim>\<open>kernel/start.c\<close>. The addresses of \<^verbatim>\<open>main\<close>, \<^verbatim>\<open>timervec\<close> and \<^verbatim>\<open>timer_scratch\<close> come from the linker; the registers of the CLINT are part
  of the memory.
\<close>

definition MSTATUS_MPP_MASK :: u64 where "MSTATUS_MPP_MASK = push_bit 11 3"
definition MSTATUS_MPP_S :: u64 where "MSTATUS_MPP_S = push_bit 11 1"
definition MSTATUS_MIE :: u64 where "MSTATUS_MIE = push_bit 3 1"
definition SIE_SEIE :: u64 where "SIE_SEIE = push_bit 9 1"
definition SIE_STIE :: u64 where "SIE_STIE = push_bit 5 1"
definition SIE_SSIE :: u64 where "SIE_SSIE = push_bit 1 1"
definition MIE_MTIE :: u64 where "MIE_MTIE = push_bit 7 1"
definition CLINT :: u64 where "CLINT = 0x2000000"
definition CLINT_MTIMECMP :: "u64 \<Rightarrow> u64" where "CLINT_MTIMECMP hartid = CLINT + 0x4000 + 8 * hartid"
definition CLINT_MTIME :: u64 where "CLINT_MTIME = CLINT + 0xBFF8"

definition hart_id :: "hart \<Rightarrow> u64" where
  "hart_id h = scast (ucast (csrs h Mhartid) :: i32)"

definition timerinit :: "addr \<Rightarrow> addr \<Rightarrow> hart \<Rightarrow> hart" where
  "timerinit timer_scratch tvec h =
     (let id = hart_id h;
          interval = 1000000;
          h = h\<lparr>hmem := store64 (hmem h) (CLINT_MTIMECMP id) (load64 (hmem h) CLINT_MTIME + interval)\<rparr>;
          scratch = timer_scratch + 40 * id;
          h = h\<lparr>hmem := store64 (hmem h) (scratch + 24) (CLINT_MTIMECMP id)\<rparr>;
          h = h\<lparr>hmem := store64 (hmem h) (scratch + 32) interval\<rparr>;
          h = set_csr Mscratch scratch h;
          h = set_csr Mtvec tvec h;
          h = set_csr Mstatus (csrs h Mstatus OR MSTATUS_MIE) h in
      set_csr Mie (csrs h Mie OR MIE_MTIE) h)"

definition start :: "addr \<Rightarrow> addr \<Rightarrow> addr \<Rightarrow> hart \<Rightarrow> hart" where
  "start kmain timer_scratch tvec h =
     (let x = csrs h Mstatus;
          x = x AND NOT MSTATUS_MPP_MASK;
          x = x OR MSTATUS_MPP_S;
          h = set_csr Mstatus x h;
          h = set_csr Mepc kmain h;
          h = set_csr Satp 0 h;
          h = set_csr Medeleg 0xffff h;
          h = set_csr Mideleg 0xffff h;
          h = set_csr Sie (csrs h Sie OR SIE_SEIE OR SIE_STIE OR SIE_SSIE) h;
          h = timerinit timer_scratch tvec h;
          h = set_reg TP (hart_id h) h in
      step Mret h)"

text \<open>
  The hart goes on in \<^verbatim>\<open>main\<close> with paging off, its number in \<^verbatim>\<open>tp\<close> and supervisor mode as the mode to return to. The scratch area is what
  \<^verbatim>\<open>timervec\<close> expects, so that from the first timer interrupt on the ticks are an interval apart.
\<close>

lemma start_enters_main:
  "pc (start kmain ts tvec h) = kmain" "csrs (start kmain ts tvec h) Satp = 0" "regs (start kmain ts tvec h) TP = hart_id h"
  "csrs (start kmain ts tvec h) Mtvec = tvec" "csrs (start kmain ts tvec h) Mstatus AND MSTATUS_MPP_MASK = MSTATUS_MPP_S"
  by (simp_all add: start_def timerinit_def Let_def set_csr_def set_reg_def hart_id_def)
    (simp add: MSTATUS_MPP_MASK_def MSTATUS_MPP_S_def MSTATUS_MIE_def bit_eq_iff bit_simps; auto simp: numeral_eq_Suc less_Suc_eq)

lemma start_then_tick:
  assumes scr: "scr = ts + 40 * hart_id h" and t: "t = start kmain ts tvec h"
    and apart: "\<And>k. slot k \<Longrightarrow> k < 40 \<Longrightarrow> region (CLINT_MTIMECMP (hart_id h)) 8 \<inter> region (scr + of_nat k) 8 = {}"
  shows "load64 (hmem t) (CLINT_MTIMECMP (hart_id h)) = load64 (hmem h) CLINT_MTIME + 1000000"
    and "load64 (hmem (run timervec t)) (CLINT_MTIMECMP (hart_id h)) = load64 (hmem h) CLINT_MTIME + 2000000"
    and "regs (run timervec t) = regs t"
proof -
  let ?c = "CLINT_MTIMECMP (hart_id h)"
  have m: "hmem t = store64 (store64 (store64 (hmem h) ?c (load64 (hmem h) CLINT_MTIME + 1000000)) (scr + 24) ?c) (scr + 32) 1000000"
    by (simp add: t start_def timerinit_def Let_def set_csr_def set_reg_def hart_id_def scr)
  have sl: "slot 0" "slot 8" "slot 16" "slot 24" "slot 32" by (simp_all add: slot_def)
  have d: "region ?c 8 \<inter> region (scr + 24) 8 = {}" "region ?c 8 \<inter> region (scr + 32) 8 = {}" "region (scr + 32) 8 \<inter> region (scr + 24) 8 = {}"
    using apart [OF sl(4)] apart [OF sl(5)] slots_apart [OF sl(5,4), of scr] by simp_all
  show first: "load64 (hmem t) ?c = load64 (hmem h) CLINT_MTIME + 1000000"
    using d(1,2) by (simp add: m load64_store64_disjoint Int_commute)
  have "csrs t Mscratch = scr" by (simp add: t start_def timerinit_def Let_def set_csr_def set_reg_def hart_id_def scr)
  moreover have "load64 (hmem t) (scr + 24) = ?c" "load64 (hmem t) (scr + 32) = 1000000" using d(3) by (simp_all add: m load64_store64_disjoint)
  moreover have "region ?c 8 \<inter> region (scr + of_nat k) 8 = {}" if "k \<in> {0, 8, 16}" for k using apart [of k] that by (auto simp: slot_def)
  ultimately have "regs (run timervec t) = regs t \<and> load64 (hmem (run timervec t)) ?c = load64 (hmem t) ?c + 1000000"
    using timervec_ticks(1,3) [of t scr ?c 1000000] by blast
  then show "load64 (hmem (run timervec t)) ?c = load64 (hmem h) CLINT_MTIME + 2000000" "regs (run timervec t) = regs t" using first by simp_all
qed

section \<open>Properties\<close>

text \<open>
  \<^bold>\<open>C12\<close> A trap does not change the registers of the user program. \<^verbatim>\<open>uservec\<close> enters the kernel at the address, with the stack, hart
  number and page table that the trapframe gives; and when \<^verbatim>\<open>userret\<close> returns with the user registers of the trapframe as \<^verbatim>\<open>uservec\<close>
  left them, all 31 registers are as before the trap, the user page table is the one passed, execution goes on at \<^verbatim>\<open>sepc\<close>, and
  \<^verbatim>\<open>sscratch\<close> holds the trapframe for the next trap.
\<close>

theorem trap_preserves_user:
  assumes tf: "csrs h Sscratch = tf" and k: "k = run uservec h" and a0: "regs t A0 = tf"
    and frame: "\<And>r. load64 (hmem t) (tf + of_nat (tf_slot r)) = load64 (hmem k) (tf + of_nat (tf_slot r))"
  shows "pc k = load64 (hmem h) (tf + 16) \<and> regs k SP = load64 (hmem h) (tf + 8) \<and> regs k TP = load64 (hmem h) (tf + 32)
     \<and> csrs k Satp = load64 (hmem h) tf \<and> regs (run userret t) = regs h \<and> csrs (run userret t) Satp = regs t A1
     \<and> pc (run userret t) = csrs t Sepc \<and> csrs (run userret t) Sscratch = tf \<and> hmem (run userret t) = hmem t"
proof -
  have "regs (run userret t) r = regs h r" for r using userret_restores(1) [OF a0] frame uservec_saves(1) [OF tf] by (simp add: k)
  then have "regs (run userret t) = regs h" by (rule ext)
  then show ?thesis using uservec_saves(2-5) [OF tf] userret_restores(2-5) [OF a0] by (simp add: k)
qed

definition demo_hart :: hart where
  "demo_hart = \<lparr>regs = (\<lambda>r. of_nat (tf_slot r) + 1), csrs = (\<lambda>_. 0)(Sscratch := 0x3FFFFFE000), hmem = (\<lambda>_. 5), pc = 0\<rparr>"

theorem trap_preserves_user_witness:
  "regs (run userret ((run uservec demo_hart)\<lparr>regs := (\<lambda>_. 0)(A0 := 0x3FFFFFE000, A1 := 7)\<rparr>)) = regs demo_hart
   \<and> regs demo_hart A0 = 113 \<and> csrs (run userret ((run uservec demo_hart)\<lparr>regs := (\<lambda>_. 0)(A0 := 0x3FFFFFE000, A1 := 7)\<rparr>)) Satp = 7"
  using trap_preserves_user [of demo_hart "0x3FFFFFE000" _ "(run uservec demo_hart)\<lparr>regs := (\<lambda>_. 0)(A0 := 0x3FFFFFE000, A1 := 7)\<rparr>", OF _ refl]
  by (simp add: demo_hart_def)

end
