(* ===== verification/Mkfs.thy ===== *)
theory Mkfs
  imports Fs_Inode
begin

text \<open>
  The program that makes the file system image (\<^verbatim>\<open>mkfs/mkfs.c\<close>). It runs on the host: the image is the list of its sectors, and whether
  a call of \<^verbatim>\<open>lseek\<close>, \<^verbatim>\<open>read\<close> or \<^verbatim>\<open>write\<close> on it fails is up to the host, \<^verbatim>\<open>io\<close> telling of each access in turn whether it succeeds. The values of a \<^verbatim>\<open>struct dinode\<close>
  are those of the fields of \<^typ>\<open>inode\<close> that are on disk. What the program prints is left out.
\<close>

section \<open>The image\<close>

definition NINODES :: nat where "NINODES = 200"
definition nbitmap :: nat where "nbitmap = FSSIZE div (BSIZE * 8) + 1"
definition ninodeblocks :: nat where "ninodeblocks = NINODES div IPB + 1"
definition nlog :: nat where "nlog = LOGSIZE"
definition nmeta :: nat where "nmeta = 2 + nlog + ninodeblocks + nbitmap"
definition nblocks_mk :: nat where "nblocks_mk = FSSIZE - nmeta"

definition xshort :: "u16 \<Rightarrow> u16" where
  "xshort x = from_le [ucast x, ucast (drop_bit 8 x)]"

definition xint :: "u32 \<Rightarrow> u32" where
  "xint x = from_le [ucast x, ucast (drop_bit 8 x), ucast (drop_bit 16 x), ucast (drop_bit 24 x)]"

record mkfs_state =
  img :: "u8 list list"
  io :: "nat \<Rightarrow> bool"
  ios :: nat
  freeinode :: u32
  freeblock :: u32

text \<open>The program may end early: with \<^verbatim>\<open>exit\<close> or with a failed \<^verbatim>\<open>assert\<close>.\<close>

datatype mkfs_end = Mk_exit int | Mk_assert

type_synonym 'a mk = "mkfs_end + 'a \<times> mkfs_state"

definition mbind :: "'a mk \<Rightarrow> ('a \<Rightarrow> mkfs_state \<Rightarrow> 'b mk) \<Rightarrow> 'b mk" where
  "mbind r f = (case r of Inl e \<Rightarrow> Inl e | Inr (a, s) \<Rightarrow> f a s)"

lemma mbind_simps [simp]: "mbind (Inl e) f = Inl e" "mbind (Inr (a, s)) f = f a s"
  by (simp_all add: mbind_def)

definition mk_sb :: superblock where
  "mk_sb = \<lparr>sb_magic = FSMAGIC, sb_size = xint (of_nat FSSIZE), sb_nblocks = xint (of_nat nblocks_mk), sb_ninodes = xint (of_nat NINODES),
     sb_nlog = xint (of_nat nlog), sb_logstart = xint 2, sb_inodestart = xint (of_nat (2 + nlog)), sb_bmapstart = xint (of_nat (2 + nlog + ninodeblocks))\<rparr>"

text \<open>The byte offset of a sector is computed in 32 bits. A write behind the end fills the gap with zeros.\<close>

definition sector :: "u32 \<Rightarrow> nat" where
  "sector sec = unat (sec * of_nat BSIZE) div BSIZE"

definition wsect :: "u32 \<Rightarrow> u8 list \<Rightarrow> mkfs_state \<Rightarrow> unit mk" where
  "wsect sec buf s =
     (let s' = s\<lparr>ios := Suc (ios s)\<rparr>; k = sector sec in
      if \<not> io s (ios s) then Inl (Mk_exit 1)
      else Inr ((), s'\<lparr>img := (img s @ replicate (Suc k - length (img s)) (replicate BSIZE 0))[k := buf]\<rparr>))"

definition rsect :: "u32 \<Rightarrow> mkfs_state \<Rightarrow> u8 list mk" where
  "rsect sec s =
     (let s' = s\<lparr>ios := Suc (ios s)\<rparr>; k = sector sec in
      if \<not> io s (ios s) \<or> length (img s) \<le> k then Inl (Mk_exit 1) else Inr (img s ! k, s'))"

section \<open>Inodes\<close>

definition winode :: "u32 \<Rightarrow> inode \<Rightarrow> mkfs_state \<Rightarrow> unit mk" where
  "winode inum ip s =
     (let bn = IBLOCK inum mk_sb in
      mbind (rsect bn s) (\<lambda>buf s.
      wsect bn (put_bytes buf (dinode_off inum) (dinode_bytes ip)) s))"

definition zero_din :: inode where
  "zero_din = \<lparr>i_dev = 0, i_inum = 0, i_ref = 0, i_valid = False, i_type = 0, i_major = 0, i_minor = 0, i_nlink = 0, i_size = 0,
     i_addrs = replicate (NDIRECT + 1) 0\<rparr>"

definition rinode :: "u32 \<Rightarrow> mkfs_state \<Rightarrow> inode mk" where
  "rinode inum s =
     (let bn = IBLOCK inum mk_sb in
      mbind (rsect bn s) (\<lambda>buf s. Inr (load_dinode buf (dinode_off inum) zero_din, s)))"

definition mk_ialloc :: "u16 \<Rightarrow> mkfs_state \<Rightarrow> u32 mk" where
  "mk_ialloc type s =
     (let inum = freeinode s;
          s = s\<lparr>freeinode := freeinode s + 1\<rparr>;
          din = zero_din\<lparr>i_type := xshort type, i_nlink := xshort 1, i_size := xint 0\<rparr> in
      mbind (winode inum din s) (\<lambda>_ s. Inr (inum, s)))"

section \<open>Blocks\<close>

fun mark_used :: "nat \<Rightarrow> u8 list \<Rightarrow> u8 list" where
  "mark_used 0 buf = buf"
| "mark_used (Suc i) buf = (let buf = mark_used i buf in buf[i div 8 := buf ! (i div 8) OR push_bit (i mod 8) 1])"

definition mk_balloc :: "u32 \<Rightarrow> mkfs_state \<Rightarrow> unit mk" where
  "mk_balloc nused s =
     (if \<not> sint nused < int (BSIZE * 8) then Inl Mk_assert
      else wsect (sb_bmapstart mk_sb) (mark_used (nat (sint nused)) (replicate BSIZE 0)) s)"

text \<open>The block of the file that holds offset \<^verbatim>\<open>fbn * BSIZE\<close>, allocated when there is none.\<close>

definition take_block :: "u32 \<Rightarrow> mkfs_state \<Rightarrow> u32 \<times> mkfs_state" where
  "take_block a s = (if xint a = 0 then (xint (freeblock s), s\<lparr>freeblock := freeblock s + 1\<rparr>) else (a, s))"

definition iappend_block :: "nat \<Rightarrow> inode \<Rightarrow> mkfs_state \<Rightarrow> (u32 \<times> inode) mk" where
  "iappend_block fbn din s =
     (if fbn < NDIRECT then
        let (a, s) = take_block (i_addrs din ! fbn) s in Inr ((xint a, din\<lparr>i_addrs := (i_addrs din)[fbn := a]\<rparr>), s)
      else
        let (d, s) = take_block (i_addrs din ! NDIRECT) s; din = din\<lparr>i_addrs := (i_addrs din)[NDIRECT := d]\<rparr>; j = fbn - NDIRECT in
        mbind (rsect (xint d) s) (\<lambda>ind s.
        if get32 ind (4 * j) = 0 then
          let a = xint (freeblock s); s = s\<lparr>freeblock := freeblock s + 1\<rparr> in
          mbind (wsect (xint d) (put_bytes ind (4 * j) (to_le 4 a)) s) (\<lambda>_ s. Inr ((xint a, din), s))
        else Inr ((xint (get32 ind (4 * j)), din), s)))"

function iappend_loop :: "inode \<Rightarrow> u32 \<Rightarrow> u8 list \<Rightarrow> mkfs_state \<Rightarrow> (inode \<times> u32) mk" where
  "iappend_loop din off p s =
     (if p = [] then Inr ((din, off), s)
      else
        let fbn = unat off div BSIZE in
        if \<not> fbn < MAXFILE then Inl Mk_assert
        else
          mbind (iappend_block fbn din s) (\<lambda>(x, din) s.
          let n1 = min (length p) ((fbn + 1) * BSIZE - unat off) in
          mbind (rsect x s) (\<lambda>buf s.
          mbind (wsect x (put_bytes buf (unat off - fbn * BSIZE) (take n1 p)) s) (\<lambda>_ s.
          iappend_loop din (off + of_nat n1) (drop n1 p) s))))"
  by pat_completeness auto
termination
proof (relation "measure (\<lambda>(din, off, p, s). length p)", simp)
  fix p :: "u8 list" and off :: u32 and fbn n1
  assume p: "p \<noteq> []" and f: "fbn = unat off div BSIZE" and n1: "n1 = min (length p) ((fbn + 1) * BSIZE - unat off)"
  have "unat off < (fbn + 1) * BSIZE" unfolding f using dividend_less_div_times [of 1024 "unat off"] by (simp add: BSIZE_def)
  then have "0 < n1" using p n1 by simp
  then show "\<And>din s x xa y b c d e. ((d, off + of_nat n1, drop n1 p, e), din, off, p, s) \<in> measure (\<lambda>(din, off, p, s). length p)" using p by simp
qed

definition iappend :: "u32 \<Rightarrow> u8 list \<Rightarrow> mkfs_state \<Rightarrow> unit mk" where
  "iappend inum p s =
     mbind (rinode inum s) (\<lambda>din s.
     let off = xint (i_size din) in
     mbind (iappend_loop din off p s) (\<lambda>(din, off) s.
     winode inum (din\<lparr>i_size := xint off\<rparr>) s))"

section \<open>main\<close>

definition mk_dirent :: "u32 \<Rightarrow> u8 list \<Rightarrow> u8 list" where
  "mk_dirent inum name = to_le 2 (xshort (ucast inum)) @ strncpy (replicate DIRSIZ 0) name DIRSIZ"

fun zero_sectors :: "nat \<Rightarrow> mkfs_state \<Rightarrow> unit mk" where
  "zero_sectors 0 s = Inr ((), s)"
| "zero_sectors (Suc i) s = mbind (zero_sectors i s) (\<lambda>_ s. wsect (of_nat i) (replicate BSIZE 0) s)"

definition sb_bytes :: "superblock \<Rightarrow> u8 list" where
  "sb_bytes b = concat (map (to_le 4) [sb_magic b, sb_size b, sb_nblocks b, sb_ninodes b, sb_nlog b, sb_logstart b, sb_inodestart b, sb_bmapstart b])"

definition shortname :: "u8 list \<Rightarrow> u8 list" where
  "shortname arg = (if strncmp arg (cbytes ''user/'') 5 = 0 then drop 5 arg else arg)"

fun append_chunks :: "u32 \<Rightarrow> u8 list list \<Rightarrow> mkfs_state \<Rightarrow> unit mk" where
  "append_chunks inum [] s = Inr ((), s)"
| "append_chunks inum (c # cs) s = mbind (iappend inum c s) (\<lambda>_ s. append_chunks inum cs s)"

text \<open>\<^verbatim>\<open>files\<close> gives the pieces in which the host reads a file, and None when it cannot be opened.\<close>

fun add_files :: "(u8 list \<Rightarrow> u8 list list option) \<Rightarrow> u32 \<Rightarrow> u8 list list \<Rightarrow> mkfs_state \<Rightarrow> unit mk" where
  "add_files files rootino [] s = Inr ((), s)"
| "add_files files rootino (arg # argv) s =
     (let name = shortname arg in
      if 47 \<in> set (cstr name) then Inl Mk_assert
      else
        case files arg of
          None \<Rightarrow> Inl (Mk_exit 1)
        | Some cs \<Rightarrow>
            let name = (if deref name = 95 then tl name else name) in
            mbind (mk_ialloc T_FILE s) (\<lambda>inum s.
            mbind (iappend rootino (mk_dirent inum name) s) (\<lambda>_ s.
            mbind (append_chunks inum cs s) (\<lambda>_ s.
            add_files files rootino argv s))))"

definition fix_root_size :: "u32 \<Rightarrow> mkfs_state \<Rightarrow> unit mk" where
  "fix_root_size rootino s =
     mbind (rinode rootino s) (\<lambda>din s.
     let off = xint (i_size din); off = (off div of_nat BSIZE + 1) * of_nat BSIZE in
     winode rootino (din\<lparr>i_size := xint off\<rparr>) s)"

definition mkfs_main :: "(u8 list \<Rightarrow> u8 list list option) \<Rightarrow> (nat \<Rightarrow> bool) \<Rightarrow> u8 list list \<Rightarrow> unit mk" where
  "mkfs_main files host argv =
     (if argv = [] then Inl (Mk_exit 1)
      else if \<not> host 0 then Inl (Mk_exit 1)
      else
        let s = \<lparr>img = [], io = host, ios = 1, freeinode = 1, freeblock = of_nat nmeta\<rparr> in
        mbind (zero_sectors FSSIZE s) (\<lambda>_ s.
        mbind (wsect 1 (put_bytes (replicate BSIZE 0) 0 (sb_bytes mk_sb)) s) (\<lambda>_ s.
        mbind (mk_ialloc T_DIR s) (\<lambda>rootino s.
        if rootino \<noteq> ROOTINO then Inl Mk_assert
        else
          mbind (iappend rootino (mk_dirent rootino (cbytes ''.'')) s) (\<lambda>_ s.
          mbind (iappend rootino (mk_dirent rootino (cbytes ''..'')) s) (\<lambda>_ s.
          mbind (add_files files rootino (tl argv) s) (\<lambda>_ s.
          mbind (fix_root_size rootino s) (\<lambda>_ s.
          mk_balloc (freeblock s) s))))))))"

section \<open>Facts\<close>

text \<open>The conversions to little-endian order do nothing on a little-endian host.\<close>

lemma xshort_id [simp]: "xshort x = x"
proof -
  have "[ucast x, ucast (drop_bit 8 x)] = to_le 2 x" by (simp add: numeral_eq_Suc)
  then show ?thesis by (simp add: xshort_def from_le_to_le take_bit_word_eq_self)
qed

lemma xint_id [simp]: "xint x = x"
proof -
  have "[ucast x, ucast (drop_bit 8 x), ucast (drop_bit 16 x), ucast (drop_bit 24 x)] = to_le 4 x" by (simp add: numeral_eq_Suc drop_bit_drop_bit)
  then show ?thesis by (simp add: xint_def from_le_to_le take_bit_word_eq_self)
qed

text \<open>The areas of the image follow each other, and the bitmap has a bit for every block.\<close>

lemma layout:
  "nmeta = 46" "nmeta + nblocks_mk = FSSIZE" "nbitmap * BPB \<ge> FSSIZE" "ninodeblocks * IPB \<ge> NINODES"
  "mk_sb = \<lparr>sb_magic = FSMAGIC, sb_size = 1000, sb_nblocks = 954, sb_ninodes = 200, sb_nlog = 30, sb_logstart = 2, sb_inodestart = 32, sb_bmapstart = 45\<rparr>"
  by (simp_all add: nmeta_def nlog_def ninodeblocks_def nbitmap_def nblocks_mk_def NINODES_def BSIZE_def fs_consts param_defs mk_sb_def)

text \<open>The kernel finds this superblock in block 1.\<close>

lemma superblock_roundtrip: "superblock_of (put_bytes (replicate BSIZE 0) 0 (sb_bytes b)) = b"
proof -
  let ?l = "[sb_magic b, sb_size b, sb_nblocks b, sb_ninodes b, sb_nlog b, sb_logstart b, sb_inodestart b, sb_bmapstart b]"
  have "length (sb_bytes b) = 32" by (simp add: sb_bytes_def)
  then have "get32 (put_bytes (replicate BSIZE 0) 0 (sb_bytes b)) (4 * j) = get32 (sb_bytes b) (4 * j)" if "j < 8" for j
    using that get32_window [of 0 "sb_bytes b" "replicate BSIZE 0" "4 * j"] by (simp add: BSIZE_def)
  moreover have "get32 (sb_bytes b) (4 * j) = ?l ! j" if "j < 8" for j
    using take_concat4 [of j ?l] that by (simp add: get32_def sb_bytes_def from_le_to_le take_bit_word_eq_self)
  ultimately have g: "get32 (put_bytes (replicate BSIZE 0) 0 (sb_bytes b)) (4 * j) = ?l ! j" if "j < 8" for j using that by simp
  show ?thesis using g [of 0] g [of 1] g [of 2] g [of 3] g [of 4] g [of 5] g [of 6] g [of 7] by (simp add: superblock_of_def)
qed

lemma rsect_wsect:
  assumes "io s (ios s)" and "io s (Suc (ios s))"
  shows "mbind (wsect sec buf s) (\<lambda>_ s. rsect sec s) = Inr (buf, (s\<lparr>ios := Suc (Suc (ios s)),
     img := (img s @ replicate (Suc (sector sec) - length (img s)) (replicate BSIZE 0))[sector sec := buf]\<rparr>))"
  using assms by (simp add: wsect_def rsect_def Let_def)

lemma winode_rinode:
  assumes "winode inum ip s = Inr ((), t)" and "io t (ios t)" and "length (i_addrs ip) = NDIRECT + 1" and "\<forall>b\<in>set (img s). length b = BSIZE"
  shows "\<exists>u. rinode inum t = Inr (ip\<lparr>i_dev := 0, i_inum := 0, i_ref := 0, i_valid := False\<rparr>, u)"
proof -
  let ?bn = "IBLOCK inum mk_sb"
  from assms(1) have s: "io s (ios s)" "sector ?bn < length (img s)" and
    t: "img t = (img s)[sector ?bn := put_bytes (img s ! sector ?bn) (dinode_off inum) (dinode_bytes ip)]"
    by (auto simp: winode_def rsect_def wsect_def Let_def split: if_splits)
  have "length (img s ! sector ?bn) = BSIZE" using assms(4) s(2) by simp
  then have "load_dinode (img t ! sector ?bn) (dinode_off inum) zero_din = ip\<lparr>i_dev := 0, i_inum := 0, i_ref := 0, i_valid := False\<rparr>"
    using load_dinode_stored [OF assms(3), of "dinode_off inum"] dinode_room [of inum] s(2) by (simp add: t zero_din_def)
  then show ?thesis using assms(2) s(2) t by (simp add: rinode_def rsect_def Let_def)
qed

lemma mark_used_bits:
  "n \<le> 8 * length d \<Longrightarrow> length (mark_used n d) = length d \<and> (bbit (mark_used n d) j \<longleftrightarrow> bbit d j \<or> j < n)"
proof (induction n)
  case (Suc n)
  then have "n div 8 < length (mark_used n d)" by simp
  from bbit_set [OF this, of j] show ?case using Suc by (auto simp: Let_def push_bit_eq_mult less_Suc_eq)
qed simp

lemma mk_balloc_marks:
  assumes "mk_balloc n s = Inr ((), t)" and "unat n < 2 ^ 31" and "b < 8 * BSIZE"
  shows "used mk_sb (\<lambda>k. img t ! unat k) b \<longleftrightarrow> b < unat n"
proof -
  have n: "sint n < int (BSIZE * 8)" using assms(1) by (auto simp: mk_balloc_def split: if_splits)
  have un: "nat (sint n) = unat n" using assms(2) sint_of_nat32 [of "unat n"] by simp
  have "img t ! 45 = mark_used (unat n) (replicate BSIZE 0)"
    using assms(1) by (auto simp: mk_balloc_def wsect_def layout sector_def BSIZE_def un Let_def split: if_splits)
  moreover have "unat n \<le> 8 * length (replicate BSIZE (0 :: u8))" using n un by simp
  ultimately show ?thesis using mark_used_bits [of "unat n" "replicate BSIZE 0" b] assms(3)
    by (simp add: used_def bmap_block_def layout fs_consts BSIZE_def bbit_def)
qed

end
