(* ===== verification/Ulib.thy ===== *)
theory Ulib
  imports Cmem
begin

text \<open>
  The C library of the user programs (\<^verbatim>\<open>user/ulib.c\<close>). As for the kernel's string routines, a pointer into a string is the
  rest of its array and a read at the end yields the NUL; a store at the end of an array makes the list longer, so that
  an overflow shows in the length. The routines on raw memory run on \<^typ>\<open>memory\<close>. \<^verbatim>\<open>char\<close> is unsigned on this machine.
\<close>

section \<open>Strings\<close>

fun strcpy :: "u8 list \<Rightarrow> u8 list \<Rightarrow> u8 list" where
  "strcpy s t = (if deref t = 0 then 0 # tl s else deref t # strcpy (tl s) (tl t))"

fun strcmp :: "u8 list \<Rightarrow> u8 list \<Rightarrow> int" where
  "strcmp p q =
     (if deref p \<noteq> 0 \<and> deref p = deref q then strcmp (tl p) (tl q) else uint (deref p) - uint (deref q))"

definition strlen_user :: "u8 list \<Rightarrow> u32" where
  "strlen_user s = of_nat (strlen s)"

text \<open>\<^verbatim>\<open>strchr\<close> returns the distance of the first occurrence.\<close>

fun strchr :: "u8 list \<Rightarrow> u8 \<Rightarrow> nat option" where
  "strchr s c = (if deref s = 0 then None else if deref s = c then Some 0 else map_option Suc (strchr (tl s) c))"

lemma deref_digit [termination_simp]: "48 \<le> deref s \<Longrightarrow> length s - Suc 0 < length s"
  by (cases s) auto

fun atoi_loop :: "u8 list \<Rightarrow> i32 \<Rightarrow> i32" where
  "atoi_loop s n = (if 48 \<le> deref s \<and> deref s \<le> 57 then atoi_loop (tl s) (n * 10 + ucast (deref s) - 48) else n)"

definition atoi :: "u8 list \<Rightarrow> i32" where
  "atoi s = atoi_loop s 0"

text \<open>The first loop of \<^verbatim>\<open>my_strcat\<close> finds the NUL of the destination, the second stores the source there.\<close>

definition my_strcat :: "u8 list \<Rightarrow> u8 list \<Rightarrow> u8 list" where
  "my_strcat destination source =
     (let i = strlen destination in take i destination @ strcpy (drop i destination) source)"

section \<open>System calls and input\<close>

text \<open>
  A user program sees the kernel through its system calls, each a function on the state \<^verbatim>\<open>'w\<close> of the rest of the system, which
  returns the result. \<^verbatim>\<open>read\<close> returns the bytes, none at the end of the file, or fails; \<^verbatim>\<open>exec\<close> says whether it replaced the
  program; after \<^verbatim>\<open>fork\<close> the program goes on as the process that the result tells.
\<close>

record 'w os =
  os_read :: "int \<Rightarrow> nat \<Rightarrow> 'w \<Rightarrow> u8 list option \<times> 'w"
  os_write :: "int \<Rightarrow> u8 list \<Rightarrow> 'w \<Rightarrow> int \<times> 'w"
  os_open :: "u8 list \<Rightarrow> u32 \<Rightarrow> 'w \<Rightarrow> int \<times> 'w"
  os_close :: "int \<Rightarrow> 'w \<Rightarrow> 'w"
  os_dup :: "int \<Rightarrow> 'w \<Rightarrow> 'w"
  os_fstat :: "int \<Rightarrow> 'w \<Rightarrow> (int \<times> u8 list) \<times> 'w"
  os_pipe :: "'w \<Rightarrow> (int \<times> int) option \<times> 'w"
  os_fork :: "'w \<Rightarrow> int \<times> 'w"
  os_wait :: "'w \<Rightarrow> int \<times> 'w"
  os_exec :: "u8 list \<Rightarrow> u8 list list \<Rightarrow> 'w \<Rightarrow> bool \<times> 'w"
  os_chdir :: "u8 list \<Rightarrow> 'w \<Rightarrow> int \<times> 'w"
  os_sbrk :: "i32 \<Rightarrow> 'w \<Rightarrow> addr \<times> 'w"

text \<open>The loop of \<^verbatim>\<open>gets\<close> returns the bytes it stores from index \<^verbatim>\<open>i\<close> on.\<close>

function gets_loop :: "'w os \<Rightarrow> nat \<Rightarrow> nat \<Rightarrow> 'w \<Rightarrow> u8 list \<times> 'w" where
  "gets_loop os i mx w =
     (if i + 1 < mx then
        case os_read os 0 1 w of
          (Some (c # _), w) \<Rightarrow>
            if c = 10 \<or> c = 13 then ([c], w)
            else let (bs, w) = gets_loop os (Suc i) mx w in (c # bs, w)
        | (_, w) \<Rightarrow> ([], w)
      else ([], w))"
  by pat_completeness auto
termination
  by (relation "measure (\<lambda>(os, i, mx, w). mx - i)") auto

declare gets_loop.simps [simp del]

definition gets :: "'w os \<Rightarrow> u8 list \<Rightarrow> nat \<Rightarrow> 'w \<Rightarrow> u8 list \<times> 'w" where
  "gets os buf mx w = (let (bs, w) = gets_loop os 0 mx w in (bs @ 0 # drop (length bs + 1) buf, w))"

definition stat_path :: "'w os \<Rightarrow> u8 list \<Rightarrow> 'w \<Rightarrow> (int \<times> u8 list) \<times> 'w" where
  "stat_path os n w =
     (let (fd, w) = os_open os (cstr n) 0 w in
      if fd < 0 then ((-1, []), w)
      else let (r, w) = os_fstat os fd w in (r, os_close os fd w))"

section \<open>Memory\<close>

definition memset_user :: "memory \<Rightarrow> addr \<Rightarrow> i32 \<Rightarrow> u32 \<Rightarrow> memory" where
  "memset_user m dst c n = memset_loop m dst (ucast c) 0 (unat n)"

text \<open>\<^verbatim>\<open>n\<close> is a signed \<^verbatim>\<open>int\<close>: with a negative one the loops do nothing.\<close>

definition memmove_user :: "memory \<Rightarrow> addr \<Rightarrow> addr \<Rightarrow> i32 \<Rightarrow> memory" where
  "memmove_user m vdst vsrc n =
     (if vsrc > vdst then move_forward m vdst vsrc (nat (sint n))
      else move_backward m (vdst + scast n) (vsrc + scast n) (nat (sint n)))"

definition memcmp_user :: "memory \<Rightarrow> addr \<Rightarrow> addr \<Rightarrow> u32 \<Rightarrow> int" where
  "memcmp_user m s1 s2 n = memcmp m s1 s2 (unat n)"

definition memcpy_user :: "memory \<Rightarrow> addr \<Rightarrow> addr \<Rightarrow> u32 \<Rightarrow> memory" where
  "memcpy_user m dst src n = memmove_user m dst src n"

section \<open>Facts\<close>

lemmas [simp del] = strcpy.simps strcmp.simps strchr.simps atoi_loop.simps

lemma strcpy_eq: "strcpy s t = cstr t @ 0 # drop (Suc (length (cstr t))) s"
proof (induction s t rule: strcpy.induct)
  case (1 s t)
  show ?case
  proof (cases "deref t = 0")
    case True
    then show ?thesis by (simp add: strcpy.simps [of s t] cstr_unfold [of t] drop_Suc)
  next
    case False
    then show ?thesis using 1 by (simp add: strcpy.simps [of s t] cstr_unfold [of t] drop_Suc)
  qed
qed

lemma cstr_nul_free: "0 \<notin> set s \<Longrightarrow> cstr s = s"
  by (auto simp: cstr_def takeWhile_eq_all_conv)

text \<open>\<^verbatim>\<open>my_strcat\<close> appends, and needs room for both strings and one NUL.\<close>

lemma my_strcat_eq:
  "my_strcat d s = cstr d @ cstr s @ 0 # drop (length (cstr d) + length (cstr s) + 1) d"
proof -
  have "take (length (cstr d)) d = cstr d" unfolding cstr_def by (metis takeWhile_eq_take)
  then show ?thesis by (simp add: my_strcat_def strlen_eq strcpy_eq add.commute)
qed

lemma my_strcat_string: "cstr (my_strcat d s) = cstr d @ cstr s"
  using cstr_append_nul [of "cstr d @ cstr s"] by (simp add: my_strcat_eq)

lemma my_strcat_length:
  "length (my_strcat d s) = max (length d) (length (cstr d) + length (cstr s) + 1)"
proof -
  have "length (cstr d) \<le> length d" by (simp add: cstr_def length_takeWhile_le)
  then show ?thesis by (auto simp: my_strcat_eq max_def)
qed

text \<open>\<^verbatim>\<open>strchr\<close> on a string.\<close>

lemma strchr_cstr: "strchr s c = (if c \<in> set (cstr s) then Some (length (takeWhile (\<lambda>x. x \<noteq> c) (cstr s))) else None)"
proof (induction s c rule: strchr.induct)
  case (1 s c)
  then show ?case by (auto simp: strchr.simps [of s c] cstr_unfold [of s])
qed

lemma strchr_list [simp]:
  "strchr [] c = None" "strchr (x # s) c = (if x = 0 then None else if x = c then Some 0 else map_option Suc (strchr s c))"
  by (simp_all add: strchr.simps [of "[]"] strchr.simps [of "x # s"])

lemma strchr_less: "strchr s c = Some k \<Longrightarrow> k < length s"
  by (induction s arbitrary: k) (auto split: if_splits)

lemma strchr_None_iff: "strchr s c = None \<longleftrightarrow> c \<notin> set (cstr s)"
  by (simp add: strchr_cstr)

lemma gets_loop_bound: "gets_loop os i mx w = (bs, w') \<Longrightarrow> i + 1 \<le> mx \<Longrightarrow> i + length bs + 1 \<le> mx"
proof (induction os i mx w arbitrary: bs w' rule: gets_loop.induct)
  case (1 os i mx w)
  show ?case
  proof (cases "i + 1 < mx")
    case True
    obtain r w1 where rd: "os_read os 0 1 w = (r, w1)" by (cases "os_read os 0 1 w")
    then show ?thesis using 1 True
      by (fastforce simp: gets_loop.simps [of os i] split: option.splits list.splits if_splits prod.splits)
  qed (use 1 in \<open>simp add: gets_loop.simps [of os i]\<close>)
qed

end
