(* ===== verification/Grep.thy ===== *)
theory Grep
  imports Ulib
begin

text \<open>
  \<^verbatim>\<open>user/grep.c\<close>: the matcher for patterns with \<^verbatim>\<open>^\<close>, \<^verbatim>\<open>.\<close>, \<^verbatim>\<open>*\<close> and \<^verbatim>\<open>$\<close>, and the loop that reads lines into a fixed buffer.
  The matcher is compared with a definition of patterns by the set of words they denote, the loop with a filter on the
  lines of the input. 94, 46, 42, 36 and 10 are \<^verbatim>\<open>^\<close>, \<^verbatim>\<open>.\<close>, \<^verbatim>\<open>*\<close>, \<^verbatim>\<open>$\<close> and the newline.
\<close>

section \<open>The matcher\<close>

lemma deref_second: "deref (tl re) = 42 \<Longrightarrow> length re - 2 < length re"
  by (cases re) auto

function matchhere :: "u8 list \<Rightarrow> u8 list \<Rightarrow> bool"
  and matchstar :: "u8 \<Rightarrow> u8 list \<Rightarrow> u8 list \<Rightarrow> bool" where
  "matchhere re text =
     (if deref re = 0 then True
      else if deref (tl re) = 42 then matchstar (deref re) (drop 2 re) text
      else if deref re = 36 \<and> deref (tl re) = 0 then deref text = 0
      else if deref text \<noteq> 0 \<and> (deref re = 46 \<or> deref re = deref text) then matchhere (tl re) (tl text)
      else False)"
| "matchstar c re text =
     (if matchhere re text then True
      else if deref text \<noteq> 0 \<and> (deref text = c \<or> c = 46) then matchstar c re (tl text)
      else False)"
  by pat_completeness auto
termination
  by (relation "inv_image (less_than <*lex*> less_than <*lex*> less_than)
       (case_sum (\<lambda>(re, text). (length re, length text, 0 :: nat)) (\<lambda>(c, re, text). (length re, length text, 1)))")
    (auto dest: deref_length deref_second)

lemmas [simp del] = matchhere.simps matchstar.simps

fun match_loop :: "u8 list \<Rightarrow> u8 list \<Rightarrow> bool" where
  "match_loop re text =
     (if matchhere re text then True else if deref text \<noteq> 0 then match_loop re (tl text) else False)"

declare match_loop.simps [simp del]

definition match :: "u8 list \<Rightarrow> u8 list \<Rightarrow> bool" where
  "match re text = (if deref re = 94 then matchhere (tl re) text else match_loop re text)"

section \<open>The loop over the input\<close>

text \<open>
  The inner loop over the complete lines in the buffer: what it writes, and the bytes behind the last newline. A NUL byte
  hides what follows it from \<^verbatim>\<open>strchr\<close>.
\<close>

function grep_lines :: "u8 list \<Rightarrow> u8 list \<Rightarrow> u8 list \<times> u8 list" where
  "grep_lines pattern p =
     (case strchr p 10 of
        None \<Rightarrow> ([], p)
      | Some k \<Rightarrow>
          let line = take k p; (out, rest) = grep_lines pattern (drop (k + 1) p) in
          ((if match pattern line then line @ [10] else []) @ out, rest))"
  by pat_completeness auto
termination
  by (relation "measure (\<lambda>(pattern, p). length p)") (auto dest: strchr_less)

declare grep_lines.simps [simp del]

text \<open>
  \<^verbatim>\<open>grep\<close> on the bytes that \<^verbatim>\<open>read\<close> will deliver; \<^verbatim>\<open>chunk k\<close> bounds what the \<^verbatim>\<open>k\<close>-th call delivers, and any call before the end
  of the input delivers at least one byte unless it asks for none. \<^verbatim>\<open>pre\<close> is \<^verbatim>\<open>buf[0..m-1]\<close>.
\<close>

definition read_size :: "nat \<Rightarrow> nat \<Rightarrow> u8 list \<Rightarrow> nat" where
  "read_size lim room inp = min (length inp) (min room (max 1 lim))"

function grep :: "u8 list \<Rightarrow> (nat \<Rightarrow> nat) \<Rightarrow> nat \<Rightarrow> u8 list \<Rightarrow> u8 list \<Rightarrow> u8 list" where
  "grep pattern chunk k pre inp =
     (let n = read_size (chunk k) (1024 - length pre - 1) inp in
      if n > 0 then
        let (out, rest) = grep_lines pattern (pre @ take n inp) in
        out @ grep pattern chunk (Suc k) rest (drop n inp)
      else [])"
  by pat_completeness auto
termination
  by (relation "measure (\<lambda>(pattern, chunk, k, pre, inp). length inp)") (auto simp: read_size_def)

declare grep.simps [simp del]

section \<open>What the matcher decides\<close>

text \<open>
  A pattern is a sequence of items, each a byte or any byte, taken once or any number of times, and may be anchored at the end.
\<close>

datatype item = One u8 | Many u8

fun items :: "u8 list \<Rightarrow> item list \<times> bool" where
  "items [] = ([], False)"
| "items [c] = (if c = 36 then ([], True) else ([One c], False))"
| "items (c # d # re) =
     (if d = 42 then let (is, e) = items re in (Many c # is, e)
      else let (is, e) = items (d # re) in (One c # is, e))"

definition accepts :: "u8 \<Rightarrow> u8 \<Rightarrow> bool" where
  "accepts c x \<longleftrightarrow> c = 46 \<or> c = x"

fun words :: "item list \<Rightarrow> u8 list set" where
  "words [] = {[]}"
| "words (One c # is) = {x # w | x w. accepts c x \<and> w \<in> words is}"
| "words (Many c # is) = {v @ w | v w. (\<forall>x\<in>set v. accepts c x) \<and> w \<in> words is}"

definition begins :: "item list \<times> bool \<Rightarrow> u8 list \<Rightarrow> bool" where
  "begins p t \<longleftrightarrow> (\<exists>u v. t = u @ v \<and> u \<in> words (fst p) \<and> (snd p \<longrightarrow> v = []))"

definition denotes :: "u8 list \<Rightarrow> u8 list \<Rightarrow> bool" where
  "denotes re t = (if re \<noteq> [] \<and> hd re = 94 then begins (items (tl re)) t else (\<exists>u v. t = u @ v \<and> begins (items re) v))"

lemma begins_nil: "begins ([], e) t \<longleftrightarrow> (e \<longrightarrow> t = [])"
  by (auto simp: begins_def)

lemma begins_one: "begins (One c # is, e) t \<longleftrightarrow> (\<exists>x w. t = x # w \<and> accepts c x \<and> begins (is, e) w)"
proof
  assume "begins (One c # is, e) t"
  then obtain a v where t: "t = a @ v" and a: "a \<in> words (One c # is)" and v: "e \<longrightarrow> v = []"
    unfolding begins_def fst_conv snd_conv by blast
  from a obtain x w where "a = x # w" "accepts c x" "w \<in> words is" by auto
  with t v show "\<exists>x w. t = x # w \<and> accepts c x \<and> begins (is, e) w" by (auto simp: begins_def)
next
  assume "\<exists>x w. t = x # w \<and> accepts c x \<and> begins (is, e) w"
  then obtain x u v where "t = (x # u) @ v" "accepts c x" "u \<in> words is" "e \<longrightarrow> v = []" by (auto simp: begins_def)
  then show "begins (One c # is, e) t" unfolding begins_def by (intro exI [of _ "x # u"] exI [of _ v]) simp
qed

lemma begins_manyI:
  "t = v @ w @ u \<Longrightarrow> \<forall>x\<in>set v. accepts c x \<Longrightarrow> w \<in> words is \<Longrightarrow> (e \<longrightarrow> u = []) \<Longrightarrow> begins (Many c # is, e) t"
  unfolding begins_def by (intro exI [of _ "v @ w"] exI [of _ u]) auto

lemma begins_manyE:
  assumes "begins (Many c # is, e) t"
  obtains v w u where "t = v @ w @ u" and "\<forall>x\<in>set v. accepts c x" and "w \<in> words is" and "e \<longrightarrow> u = []"
proof -
  from assms obtain a u where t: "t = a @ u" and a: "a \<in> words (Many c # is)" and u: "e \<longrightarrow> u = []"
    unfolding begins_def fst_conv snd_conv by blast
  from a obtain v w where "a = v @ w" "\<forall>x\<in>set v. accepts c x" "w \<in> words is" by auto
  with t u show thesis by (intro that [of v w u]) simp_all
qed

lemma begins_many:
  "begins (Many c # is, e) t \<longleftrightarrow>
     begins (is, e) t \<or> (\<exists>x w. t = x # w \<and> accepts c x \<and> begins (Many c # is, e) w)" (is "?L \<longleftrightarrow> ?R")
proof
  assume ?L
  then obtain v w u where t: "t = v @ w @ u" and v: "\<forall>x\<in>set v. accepts c x" and w: "w \<in> words is" and u: "e \<longrightarrow> u = []"
    by (rule begins_manyE)
  show ?R
  proof (cases v)
    case Nil
    then have "begins (is, e) t" using t w u by (auto simp: begins_def)
    then show ?thesis ..
  next
    case (Cons x v')
    then have "begins (Many c # is, e) (v' @ w @ u)" using v w u by (intro begins_manyI [OF refl]) auto
    then show ?thesis using Cons t v by auto
  qed
next
  assume ?R
  then show ?L
  proof
    assume "begins (is, e) t"
    then obtain w u where "t = [] @ w @ u" "w \<in> words is" "e \<longrightarrow> u = []" by (auto simp: begins_def)
    then show ?thesis by (intro begins_manyI) auto
  next
    assume "\<exists>x w. t = x # w \<and> accepts c x \<and> begins (Many c # is, e) w"
    then obtain x t' where t: "t = x # t'" and x: "accepts c x" and b: "begins (Many c # is, e) t'" by auto
    from b obtain v w u where "t' = v @ w @ u" "\<forall>y\<in>set v. accepts c y" "w \<in> words is" "e \<longrightarrow> u = []"
      by (rule begins_manyE)
    then show ?thesis using t x by (intro begins_manyI [of t "x # v" w u]) auto
  qed
qed

text \<open>NUL-free arrays, on which the two loops agree with the denotation.\<close>

lemma nul_free_deref: "0 \<notin> set s \<Longrightarrow> deref s = 0 \<longleftrightarrow> s = []"
  by (cases s) auto

lemma matchhere_list:
  "matchhere [] t"
  "c \<noteq> 0 \<Longrightarrow> matchhere [c] t = (if c = 36 then deref t = 0 else deref t \<noteq> 0 \<and> accepts c (deref t))"
  "c \<noteq> 0 \<Longrightarrow> d \<noteq> 0 \<Longrightarrow> matchhere (c # d # r) t =
     (if d = 42 then matchstar c r t else deref t \<noteq> 0 \<and> accepts c (deref t) \<and> matchhere (d # r) (tl t))"
  by (auto simp: matchhere.simps [of "[]"] matchhere.simps [of "[c]"] matchhere.simps [of "c # d # r"] accepts_def)

lemma matchstar_list:
  "matchstar c re t = (matchhere re t \<or> deref t \<noteq> 0 \<and> accepts c (deref t) \<and> matchstar c re (tl t))"
  unfolding matchstar.simps [of c re t] by (cases "deref t = c") (simp_all add: accepts_def eq_commute [of c "deref t"])

lemma matchhere_begins: "0 \<notin> set re \<Longrightarrow> 0 \<notin> set t \<Longrightarrow> matchhere re t = begins (items re) t"
  and matchstar_begins: "0 \<notin> set re \<Longrightarrow> 0 \<notin> set t \<Longrightarrow>
    matchstar c re t = begins (Many c # fst (items re), snd (items re)) t"
proof (induction re t and c re t rule: matchhere_matchstar.induct)
  case (1 re t)
  consider "re = []" | c where "re = [c]" | c d r where "re = c # d # r" by (cases re rule: items.cases) auto
  then show ?case
  proof cases
    case 1
    then show ?thesis by (simp add: matchhere_list begins_nil)
  next
    case 2
    then show ?thesis using "1.prems" by (cases t) (auto simp: matchhere_list begins_nil begins_one)
  next
    case 3
    have star: "d = 42 \<Longrightarrow> matchstar c r t = begins (Many c # fst (items r), snd (items r)) t"
      using 1 3 by simp
    have one: "t = x # w \<Longrightarrow> accepts c x \<Longrightarrow> d \<noteq> 42 \<Longrightarrow> matchhere (d # r) w = begins (items (d # r)) w" for x w
      using 1 3 by (auto simp: accepts_def)
    show ?thesis using "1.prems" 3 star one
      by (cases t) (auto simp: matchhere_list begins_one split: prod.splits)
  qed
next
  case (2 c re t)
  have here: "matchhere re t = begins (items re) t" using 2 by simp
  show ?case
  proof (cases t)
    case Nil
    then show ?thesis using here by (subst matchstar_list, subst begins_many) simp
  next
    case (Cons x w)
    have "matchstar c re w = begins (Many c # fst (items re), snd (items re)) w" if "accepts c x" "\<not> matchhere re t"
    proof -
      have "deref t \<noteq> 0 \<and> (deref t = c \<or> c = 46)" using Cons "2.prems" that(1) by (auto simp: accepts_def)
      then show ?thesis using "2.IH"(2) [OF that(2)] "2.prems" Cons by simp
    qed
    moreover have "x \<noteq> 0" using "2.prems" Cons by auto
    ultimately have "matchhere re t \<or> accepts c x \<and> matchstar c re w \<longleftrightarrow>
        begins (items re) t \<or> accepts c x \<and> begins (Many c # fst (items re), snd (items re)) w" using here by blast
    moreover have "matchstar c re t \<longleftrightarrow> matchhere re t \<or> accepts c x \<and> matchstar c re w"
      by (subst matchstar_list) (simp add: Cons \<open>x \<noteq> 0\<close>)
    moreover have "begins (Many c # fst (items re), snd (items re)) t \<longleftrightarrow>
        begins (items re) t \<or> accepts c x \<and> begins (Many c # fst (items re), snd (items re)) w"
      by (subst begins_many) (simp add: Cons)
    ultimately show ?thesis by simp
  qed
qed

lemma deref_cstr [simp]: "deref (cstr s) = deref s"
  by (cases s) (auto simp: cstr_def)

lemma tl_cstr: "deref s \<noteq> 0 \<Longrightarrow> tl (cstr s) = cstr (tl s)"
  by (cases s) (auto simp: cstr_def)

lemma drop2_cstr: "deref s \<noteq> 0 \<Longrightarrow> deref (tl s) \<noteq> 0 \<Longrightarrow> drop 2 (cstr s) = cstr (drop 2 s)"
  by (simp add: numeral_2_eq_2 drop_Suc tl_cstr)

lemma matchhere_cstr: "matchhere re t = matchhere (cstr re) (cstr t)"
  and matchstar_cstr: "matchstar c re t = matchstar c (cstr re) (cstr t)"
proof (induction re t and c re t rule: matchhere_matchstar.induct)
  case (1 re t)
  have "deref (tl re) = deref (tl (cstr re))" if "deref re \<noteq> 0" using that by (simp add: tl_cstr)
  then show ?case using 1
    by (simp add: matchhere.simps [of re t] matchhere.simps [of "cstr re" "cstr t"] tl_cstr drop2_cstr)
next
  case (2 c re t)
  then show ?case
    by (simp add: matchstar.simps [of c re t] matchstar.simps [of c "cstr re" "cstr t"] tl_cstr)
qed

lemma match_loop_begins: "match_loop re t \<longleftrightarrow> (\<exists>u v. cstr t = u @ v \<and> begins (items (cstr re)) v)"
proof (induction re t rule: match_loop.induct)
  case (1 re t)
  have here: "matchhere re t = begins (items (cstr re)) (cstr t)"
    by (subst matchhere_cstr) (simp add: matchhere_begins)
  show ?case
  proof (cases "deref t = 0")
    case True
    then show ?thesis using here by (simp add: match_loop.simps [of re t] cstr_unfold [of t])
  next
    case False
    have "(\<exists>u v. c # w = u @ v \<and> P v) \<longleftrightarrow> P (c # w) \<or> (\<exists>u v. w = u @ v \<and> P v)" for c and w :: "u8 list" and P
      by (auto simp: Cons_eq_append_conv)
    then show ?thesis using here 1 False by (simp add: match_loop.simps [of re t] cstr_unfold [of t])
  qed
qed

lemma match_iff: "match re t = denotes (cstr re) (cstr t)"
proof (cases "deref re = 94")
  case True
  then obtain r where re: "re = 94 # r" by (cases re) auto
  then have "matchhere r t = begins (items (cstr r)) (cstr t)"
    by (subst matchhere_cstr) (simp add: matchhere_begins)
  then show ?thesis using re by (simp add: match_def denotes_def cstr_def)
next
  case False
  then have "cstr re = [] \<or> hd (cstr re) \<noteq> 94" by (cases re) (auto simp: cstr_def)
  then show ?thesis using False by (auto simp: match_def denotes_def match_loop_begins)
qed

section \<open>Lines\<close>

definition unlines :: "u8 list list \<Rightarrow> u8 list" where
  "unlines ls = concat (map (\<lambda>l. l @ [10]) ls)"

lemma unlines_simps [simp]:
  "unlines [] = []" "unlines (l # ls) = l @ 10 # unlines ls" "unlines (ls @ ms) = unlines ls @ unlines ms"
  by (simp_all add: unlines_def)

lemma strchr_line: "0 \<notin> set l \<Longrightarrow> 10 \<notin> set l \<Longrightarrow> strchr (l @ 10 # r) 10 = Some (length l)"
  by (induction l) auto

lemma strchr_absent: "10 \<notin> set p \<Longrightarrow> strchr p 10 = None"
  by (induction p) auto

lemma newline_split:
  "p @ q = l @ 10 # r \<Longrightarrow> (10 :: u8) \<notin> set l \<Longrightarrow>
    (\<exists>r'. p = l @ 10 # r' \<and> r' @ q = r) \<or> (10 \<notin> set p \<and> length p \<le> length l)"
proof (induction l arbitrary: p)
  case Nil
  then show ?case by (cases p) auto
next
  case (Cons x l)
  then show ?case by (cases p) auto
qed

text \<open>The buffer holds a part of the lines still to come: the complete ones are handled, the rest starts the next line.\<close>

lemma grep_lines_prefix:
  assumes "\<forall>l\<in>set ls. 0 \<notin> set l \<and> 10 \<notin> set l" and "p @ q = unlines ls"
  shows "\<exists>ls1 ls2 rest. ls = ls1 @ ls2 \<and> grep_lines pat p = (unlines (filter (match pat) ls1), rest)
    \<and> rest @ q = unlines ls2 \<and> 10 \<notin> set rest"
  using assms
proof (induction ls arbitrary: p)
  case Nil
  then show ?case by (simp add: grep_lines.simps [of pat "[]"])
next
  case (Cons l ls)
  from Cons.prems(2) have pq: "p @ q = l @ 10 # unlines ls" by simp
  have l: "0 \<notin> set l" "10 \<notin> set l" using Cons.prems(1) by auto
  consider r where "p = l @ 10 # r" "r @ q = unlines ls" | "10 \<notin> set p"
    using newline_split [OF pq l(2)] by blast
  then show ?case
  proof cases
    case 1
    from Cons.IH [of r] Cons.prems(1) 1(2) obtain ls1 ls2 rest where ih: "ls = ls1 @ ls2"
      "grep_lines pat r = (unlines (filter (match pat) ls1), rest)" "rest @ q = unlines ls2" "10 \<notin> set rest" by auto
    have "grep_lines pat p = (unlines (filter (match pat) (l # ls1)), rest)"
      using l ih(2) 1(1) by (simp add: grep_lines.simps [of pat "l @ 10 # r"] strchr_line)
    then show ?thesis using ih by (intro exI [of _ "l # ls1"] exI [of _ ls2] exI [of _ rest]) simp
  next
    case 2
    then have "grep_lines pat p = ([], p)" by (simp add: grep_lines.simps [of pat p] strchr_absent)
    then show ?thesis using 2 Cons.prems(2) by (intro exI [of _ "[]"] exI [of _ "l # ls"] exI [of _ p]) simp
  qed
qed

lemma grep_loop_lines:
  assumes "\<forall>l\<in>set ls. 0 \<notin> set l \<and> 10 \<notin> set l \<and> length l \<le> 1022" and "pre @ inp = unlines ls" and "10 \<notin> set pre"
  shows "grep pat chunk k pre inp = unlines (filter (match pat) ls)"
  using assms
proof (induction "length inp" arbitrary: k pre inp ls rule: less_induct)
  case less
  show ?case
  proof (cases "inp = []")
    case True
    then have "ls = []" using less.prems by (cases ls) auto
    then show ?thesis using True by (simp add: grep.simps [of pat chunk k] read_size_def)
  next
    case False
    define n where "n = read_size (chunk k) (1024 - length pre - 1) inp"
    from False less.prems obtain l ms where ls: "ls = l # ms" by (cases ls) auto
    have "length pre \<le> length l"
      using newline_split [of pre inp l "unlines ms"] less.prems ls by auto
    then have n: "0 < n" using less.prems(1) ls False by (auto simp: n_def read_size_def)
    have "(pre @ take n inp) @ drop n inp = unlines ls" using less.prems by simp
    with less.prems(1) obtain ls1 ls2 rest where r: "ls = ls1 @ ls2"
      "grep_lines pat (pre @ take n inp) = (unlines (filter (match pat) ls1), rest)"
      "rest @ drop n inp = unlines ls2" "10 \<notin> set rest"
      using grep_lines_prefix [of ls "pre @ take n inp" "drop n inp" pat] by auto
    have "length (drop n inp) < length inp" using n False by simp
    from less.hyps [OF this, of ls2 rest "Suc k"] r less.prems(1)
    have "grep pat chunk (Suc k) rest (drop n inp) = unlines (filter (match pat) ls2)" by auto
    then show ?thesis using r(1,2) n 
      unfolding grep.simps [of pat chunk k pre] n_def [symmetric] Let_def by simp
  qed
qed

section \<open>Properties\<close>

text \<open>
  \<^bold>\<open>C36\<close> On every pattern and text, \<^verbatim>\<open>match\<close> returns, and decides whether the text up to its NUL has a part the pattern denotes:
  at its beginning after \<^verbatim>\<open>^\<close>, up to its end before a final \<^verbatim>\<open>$\<close>, with \<^verbatim>\<open>.\<close> for any byte and \<^verbatim>\<open>*\<close> for any number of the byte in
  front of it.
\<close>

theorem match_denotes: "match re t = denotes (cstr re) (cstr t)"
  by (rule match_iff)



end
