(* ===== verification/Uprintf.thy ===== *)
theory Uprintf
  imports Ulib
begin

text \<open>
  The formatted output of the user programs (\<^verbatim>\<open>user/printf.c\<close>): every byte is one \<^verbatim>\<open>write\<close>.
\<close>

definition putc :: "'w os \<Rightarrow> int \<Rightarrow> u8 \<Rightarrow> 'w \<Rightarrow> 'w" where
  "putc os fd c w = snd (os_write os fd [c] w)"

definition putcs :: "'w os \<Rightarrow> int \<Rightarrow> u8 list \<Rightarrow> 'w \<Rightarrow> 'w" where
  "putcs os fd cs w = fold (putc os fd) cs w"

definition udigits :: "u8 list" where
  "udigits = cbytes ''0123456789ABCDEF''"

text \<open>The \<^verbatim>\<open>do\<close> loop: the digits, the least significant first. The bases are 10 and 16.\<close>

function udigit_loop :: "u32 \<Rightarrow> u32 \<Rightarrow> u8 list" where
  "udigit_loop x base =
     udigits ! unat (x mod base) # (if x div base \<noteq> 0 \<and> 1 < base then udigit_loop (x div base) base else [])"
  by pat_completeness auto
termination
proof (relation "measure (\<lambda>(x, base). unat x)", goal_cases)
  case (2 x base)
  then have "unat x div unat base \<noteq> 0" "1 < unat base"
    by (simp_all add: word_less_nat_alt unat_div flip: unat_eq_0)
  then show ?case by (auto simp: unat_div intro!: div_less_dividend gr0I)
qed simp

declare udigit_loop.simps [simp del]

definition uprintint :: "'w os \<Rightarrow> int \<Rightarrow> i32 \<Rightarrow> i32 \<Rightarrow> bool \<Rightarrow> 'w \<Rightarrow> 'w" where
  "uprintint os fd xx base sn w =
     (let neg = (sn \<and> sint xx < 0); x = (if neg then - xx else xx);
          buf = udigit_loop x base @ (if neg then [45] else []) in
      putcs os fd (rev buf) w)"

fun uprintptr_loop :: "nat \<Rightarrow> u64 \<Rightarrow> u8 list" where
  "uprintptr_loop 0 x = []"
| "uprintptr_loop (Suc k) x = udigits ! unat (drop_bit 60 x) # uprintptr_loop k (push_bit 4 x)"

definition uprintptr :: "'w os \<Rightarrow> int \<Rightarrow> u64 \<Rightarrow> 'w \<Rightarrow> 'w" where
  "uprintptr os fd x w = putcs os fd ([48, 120] @ uprintptr_loop 16 x) w"

text \<open>
  The variable arguments: each takes an 8-byte slot, a number or a string pointer. A conversion that finds no argument of its
  kind has undefined behaviour, here no result.
\<close>

datatype uarg = U_word u64 | U_str "u8 list option"

definition uconv :: "'w os \<Rightarrow> int \<Rightarrow> u8 \<Rightarrow> uarg list \<Rightarrow> 'w \<Rightarrow> (uarg list \<times> 'w) option" where
  "uconv os fd c ap w =
     (if c = 100 then (case ap of U_word x # ap \<Rightarrow> Some (ap, uprintint os fd (ucast x) 10 True w) | _ \<Rightarrow> None)
      else if c = 108 then (case ap of U_word x # ap \<Rightarrow> Some (ap, uprintint os fd (ucast x) 10 False w) | _ \<Rightarrow> None)
      else if c = 120 then (case ap of U_word x # ap \<Rightarrow> Some (ap, uprintint os fd (ucast x) 16 False w) | _ \<Rightarrow> None)
      else if c = 112 then (case ap of U_word x # ap \<Rightarrow> Some (ap, uprintptr os fd x w) | _ \<Rightarrow> None)
      else if c = 115 then
        (case ap of U_str p # ap \<Rightarrow>
           Some (ap, putcs os fd (case p of None \<Rightarrow> cbytes ''(null)'' | Some t \<Rightarrow> cstr t) w)
         | _ \<Rightarrow> None)
      else if c = 99 then (case ap of U_word x # ap \<Rightarrow> Some (ap, putc os fd (ucast x) w) | _ \<Rightarrow> None)
      else if c = 37 then Some (ap, putc os fd c w)
      else Some (ap, putcs os fd [37, c] w))"

text \<open>The flag of the loop is the variable \<^verbatim>\<open>state\<close>, set behind a percent sign.\<close>

fun vprintf_loop :: "'w os \<Rightarrow> int \<Rightarrow> bool \<Rightarrow> u8 list \<Rightarrow> uarg list \<Rightarrow> 'w \<Rightarrow> 'w option" where
  "vprintf_loop os fd st [] ap w = Some w"
| "vprintf_loop os fd st (c # fmt) ap w =
     (if c = 0 then Some w
      else if \<not> st then
        if c = 37 then vprintf_loop os fd True fmt ap w else vprintf_loop os fd False fmt ap (putc os fd c w)
      else case uconv os fd c ap w of None \<Rightarrow> None | Some (ap, w) \<Rightarrow> vprintf_loop os fd False fmt ap w)"

definition vprintf :: "'w os \<Rightarrow> int \<Rightarrow> u8 list \<Rightarrow> uarg list \<Rightarrow> 'w \<Rightarrow> 'w option" where
  "vprintf os fd fmt ap w = vprintf_loop os fd False fmt ap w"

definition fprintf :: "'w os \<Rightarrow> int \<Rightarrow> u8 list \<Rightarrow> uarg list \<Rightarrow> 'w \<Rightarrow> 'w option" where
  "fprintf os fd fmt ap w = vprintf os fd fmt ap w"

definition printf_user :: "'w os \<Rightarrow> u8 list \<Rightarrow> uarg list \<Rightarrow> 'w \<Rightarrow> 'w option" where
  "printf_user os fmt ap w = vprintf os 1 fmt ap w"

end
