(* ===== verification/Sh.thy ===== *)
theory Sh
  imports Uprintf
begin

text \<open>
  The shell (\<^verbatim>\<open>user/sh.c\<close>). The parser works on the bytes of the line; a pointer into the line is an index, \<^verbatim>\<open>es\<close> the index of its
  NUL. A command is a tree whose words are pairs of indices, the start and the end of a word, until \<^verbatim>\<open>nulterminate\<close> stores
  a NUL at each end. The four parsing procedures call each other; the number of nested calls left is an argument, and
  running out of it is the result \<^verbatim>\<open>None\<close>. \<^verbatim>\<open>panic\<close> in the parser is the left side of the result, with its message.
\<close>

section \<open>Commands\<close>

definition MAXARGS :: nat where "MAXARGS = 10"

datatype cmd =
    EXEC "(nat \<times> nat) list"
  | REDIR cmd nat nat u32 int
  | PIPE cmd cmd
  | LIST cmd cmd
  | BACK cmd

section \<open>Tokens\<close>

definition whitespace :: "u8 list" where "whitespace = [32, 9, 13, 10, 11]"
definition symbols :: "u8 list" where "symbols = cbytes ''<|>&;()''"

definition ch :: "u8 list \<Rightarrow> nat \<Rightarrow> u8" where
  "ch b s = deref (drop s b)"

function skip_while :: "(u8 \<Rightarrow> bool) \<Rightarrow> u8 list \<Rightarrow> nat \<Rightarrow> nat \<Rightarrow> nat" where
  "skip_while P b es s = (if s < es \<and> P (ch b s) then skip_while P b es (Suc s) else s)"
  by pat_completeness auto
termination
  by (relation "measure (\<lambda>(P, b, es, s). es - s)") auto

declare skip_while.simps [simp del]

definition is_space :: "u8 \<Rightarrow> bool" where
  "is_space c \<longleftrightarrow> strchr whitespace c \<noteq> None"

definition is_word :: "u8 \<Rightarrow> bool" where
  "is_word c \<longleftrightarrow> strchr whitespace c = None \<and> strchr symbols c = None"

text \<open>\<^verbatim>\<open>gettoken\<close> returns the kind of the token, its start and end, and the new position.\<close>

definition gettoken :: "u8 list \<Rightarrow> nat \<Rightarrow> nat \<Rightarrow> u8 \<times> nat \<times> nat \<times> nat" where
  "gettoken b es s =
     (let q = skip_while is_space b es s;
          c = ch b q;
          (ret, eq) =
            (if c = 0 then (c, q)
             else if c \<in> set (cbytes ''|();&<'') then (c, q + 1)
             else if c = 62 then if ch b (q + 1) = 62 then (43, q + 2) else (c, q + 1)
             else (97, skip_while is_word b es q)) in
      (ret, q, eq, skip_while is_space b es eq))"

definition peek :: "u8 list \<Rightarrow> nat \<Rightarrow> u8 list \<Rightarrow> nat \<Rightarrow> bool \<times> nat" where
  "peek b es toks s =
     (let s = skip_while is_space b es s in (ch b s \<noteq> 0 \<and> strchr toks (ch b s) \<noteq> None, s))"

section \<open>The parser\<close>

type_synonym 'a pres = "(u8 list + 'a) option"

definition pbind :: "'a pres \<Rightarrow> ('a \<Rightarrow> 'b pres) \<Rightarrow> 'b pres" where
  "pbind m f = (case m of None \<Rightarrow> None | Some (Inl e) \<Rightarrow> Some (Inl e) | Some (Inr x) \<Rightarrow> f x)"

definition redir :: "cmd \<Rightarrow> u8 \<Rightarrow> nat \<Rightarrow> nat \<Rightarrow> cmd" where
  "redir c tok q eq =
     (if tok = 60 then REDIR c q eq O_RDONLY 0
      else if tok = 62 then REDIR c q eq (O_WRONLY OR O_CREATE OR O_TRUNC) 1
      else if tok = 43 then REDIR c q eq (O_WRONLY OR O_CREATE) 1
      else c)"

lemma ch_nonzero: "ch b s \<noteq> 0 \<Longrightarrow> s < length b"
  by (cases "s < length b") (auto simp: ch_def)

lemma skip_while_ge: "s \<le> skip_while P b es s"
proof (induction P b es s rule: skip_while.induct)
  case (1 P b es s)
  then show ?case by (auto simp: skip_while.simps [of P b es s])
qed

lemma skip_while_stop [simp]: "skip_while P b es (skip_while P b es s) = skip_while P b es s"
proof (induction P b es s rule: skip_while.induct)
  case (1 P b es s)
  then show ?case by (cases "s < es \<and> P (ch b s)") (auto simp: skip_while.simps [of P b es s])
qed

lemma symbols_set: "set symbols = insert 62 (set (cbytes ''|();&<''))"
  by (auto simp: symbols_def cbytes_def)

lemma symbol_consumed:
  assumes "peek b es toks s0 = (True, s)" and "set toks \<subseteq> set symbols" and "gettoken b es s = (t, q, eq, s')"
  shows "s0 < s'" and "s0 < length b"
proof -
  have s: "s = skip_while is_space b es s0" and c: "ch b s \<noteq> 0" "ch b s \<in> set toks"
    using assms(1) by (auto simp: peek_def Let_def strchr_cstr cstr_def split: if_splits dest: set_takeWhileD)
  have "ch b s = 62 \<or> ch b s \<in> set (cbytes ''|();&<'')" using c(2) assms(2) symbols_set by blast
  then have "s < eq"
    using assms(3) c(1) skip_while_stop [of is_space b es s0] by (auto simp: gettoken_def Let_def s split: if_splits)
  moreover have "eq \<le> s'" using assms(3) skip_while_ge by (auto simp: gettoken_def Let_def split: prod.splits)
  moreover have "s0 \<le> s" unfolding s by (rule skip_while_ge)
  ultimately show "s0 < s'" "s0 < length b" using ch_nonzero [OF c(1)] by linarith+
qed

lemma gettoken_ge: "gettoken b es s = (t, q, eq, s') \<Longrightarrow> s \<le> q \<and> q \<le> eq \<and> eq \<le> s'"
  using skip_while_ge [of s is_space b es] skip_while_ge [of q is_word b es] skip_while_ge [of eq is_space b es]
  by (auto simp: gettoken_def Let_def split: if_splits)

lemma symbol_lists: "set (cbytes ''<>'') \<subseteq> set symbols" "set (cbytes ''&'') \<subseteq> set symbols" "set (cbytes '';'') \<subseteq> set symbols"
  "set (cbytes ''|'') \<subseteq> set symbols" "set (cbytes ''('') \<subseteq> set symbols" "set (cbytes '')'') \<subseteq> set symbols"
  by (auto simp: symbols_def cbytes_def)

lemma redirs_measure:
  "gettoken b es s1 = (k, q, e2, s2) \<Longrightarrow> gettoken b es s = (tok, q1, e1, s1) \<Longrightarrow>
    peek b es (cbytes ''<>'') s0 = (True, s) \<Longrightarrow> length b - s2 < length b - s0"
  using symbol_consumed [OF _ symbol_lists(1), of b es s0 s tok q1 e1 s1] gettoken_ge [of b es s1 k q e2 s2] by auto

function parseredirs :: "cmd \<Rightarrow> u8 list \<Rightarrow> nat \<Rightarrow> nat \<Rightarrow> u8 list + cmd \<times> nat" where
  "parseredirs c b es s =
     (case peek b es (cbytes ''<>'') s of (t, s) \<Rightarrow>
      if t then
        case gettoken b es s of (tok, _, _, s) \<Rightarrow>
        case gettoken b es s of (k, q, eq, s) \<Rightarrow>
        if k \<noteq> 97 then Inl (cbytes ''missing file for redirection'')
        else parseredirs (redir c tok q eq) b es s
      else Inr (c, s))"
  by pat_completeness auto
termination
  by (relation "measure (\<lambda>(c, b, es, s). length b - s)") (auto dest: redirs_measure [OF sym sym sym])

text \<open>
  \<^verbatim>\<open>parseexec\<close> keeps a pointer to the \<^verbatim>\<open>execcmd\<close> below the redirections, and stores the words there; \<^verbatim>\<open>args_loop\<close> is its loop, with the
  words found so far.
\<close>

fun set_argv :: "(nat \<times> nat) list \<Rightarrow> cmd \<Rightarrow> cmd" where
  "set_argv argv (REDIR c q eq mode fd) = REDIR (set_argv argv c) q eq mode fd"
| "set_argv argv (EXEC _) = EXEC argv"
| "set_argv argv c = c"

function args_loop :: "cmd \<Rightarrow> (nat \<times> nat) list \<Rightarrow> u8 list \<Rightarrow> nat \<Rightarrow> nat \<Rightarrow> u8 list + cmd \<times> nat" where
  "args_loop ret argv b es s =
     (case peek b es (cbytes ''|)&;'') s of (t, s) \<Rightarrow>
      if t then Inr (set_argv argv ret, s)
      else case gettoken b es s of (tok, q, eq, s) \<Rightarrow>
        if tok = 0 then Inr (set_argv argv ret, s)
        else if tok \<noteq> 97 then Inl (cbytes ''syntax'')
        else if length argv + 1 \<ge> MAXARGS then Inl (cbytes ''too many args'')
        else case parseredirs ret b es s of
          Inl e \<Rightarrow> Inl e
        | Inr (ret, s) \<Rightarrow> args_loop ret (argv @ [(q, eq)]) b es s)"
  by pat_completeness auto
termination
  by (relation "measure (\<lambda>(ret, argv, b, es, s). MAXARGS - length argv)") auto

lemma back_measure:
  "gettoken b es s = (tok, q, eq, s') \<Longrightarrow> peek b es (cbytes ''&'') s0 = (True, s) \<Longrightarrow> length b - s' < length b - s0"
  using symbol_consumed [OF _ symbol_lists(2), of b es s0 s tok q eq s'] by auto

function back_loop :: "cmd \<Rightarrow> u8 list \<Rightarrow> nat \<Rightarrow> nat \<Rightarrow> cmd \<times> nat" where
  "back_loop c b es s =
     (case peek b es (cbytes ''&'') s of (t, s) \<Rightarrow>
      if t then case gettoken b es s of (_, _, _, s) \<Rightarrow> back_loop (BACK c) b es s
      else (c, s))"
  by pat_completeness auto
termination
  by (relation "measure (\<lambda>(c, b, es, s). length b - s)") (auto dest: back_measure [OF sym sym])

declare parseredirs.simps [simp del] args_loop.simps [simp del] back_loop.simps [simp del]

function (sequential) parseline :: "nat \<Rightarrow> u8 list \<Rightarrow> nat \<Rightarrow> nat \<Rightarrow> (cmd \<times> nat) pres"
  and parsepipe :: "nat \<Rightarrow> u8 list \<Rightarrow> nat \<Rightarrow> nat \<Rightarrow> (cmd \<times> nat) pres"
  and parseexec :: "nat \<Rightarrow> u8 list \<Rightarrow> nat \<Rightarrow> nat \<Rightarrow> (cmd \<times> nat) pres"
  and parseblock :: "nat \<Rightarrow> u8 list \<Rightarrow> nat \<Rightarrow> nat \<Rightarrow> (cmd \<times> nat) pres" where
  "parseline 0 b es s = None"
| "parseline (Suc n) b es s =
     pbind (parsepipe n b es s) (\<lambda>(c, s).
     case back_loop c b es s of (c, s) \<Rightarrow>
     case peek b es (cbytes '';'') s of (t, s) \<Rightarrow>
     if t then
       case gettoken b es s of (_, _, _, s) \<Rightarrow>
       pbind (parseline n b es s) (\<lambda>(d, s). Some (Inr (LIST c d, s)))
     else Some (Inr (c, s)))"
| "parsepipe 0 b es s = None"
| "parsepipe (Suc n) b es s =
     pbind (parseexec n b es s) (\<lambda>(c, s).
     case peek b es (cbytes ''|'') s of (t, s) \<Rightarrow>
     if t then
       case gettoken b es s of (_, _, _, s) \<Rightarrow>
       pbind (parsepipe n b es s) (\<lambda>(d, s). Some (Inr (PIPE c d, s)))
     else Some (Inr (c, s)))"
| "parseblock 0 b es s = None"
| "parseblock (Suc n) b es s =
     (case peek b es (cbytes ''('') s of (t, s) \<Rightarrow>
      if \<not> t then Some (Inl (cbytes ''parseblock''))
      else case gettoken b es s of (_, _, _, s) \<Rightarrow>
        pbind (parseline n b es s) (\<lambda>(c, s).
        case peek b es (cbytes '')'') s of (t, s) \<Rightarrow>
        if \<not> t then Some (Inl (cbytes ''syntax - missing )''))
        else case gettoken b es s of (_, _, _, s) \<Rightarrow> Some (parseredirs c b es s)))"
| "parseexec 0 b es s = None"
| "parseexec (Suc n) b es s =
     (case peek b es (cbytes ''('') s of (t, s) \<Rightarrow>
      if t then parseblock n b es s
      else case parseredirs (EXEC []) b es s of
          Inl e \<Rightarrow> Some (Inl e)
        | Inr (ret, s) \<Rightarrow> Some (args_loop ret [] b es s))"
  by pat_completeness auto
termination
  by (relation "measure (case_sum (case_sum fst fst) (case_sum fst fst))") simp_all

fun nulterminate :: "cmd \<Rightarrow> u8 list \<Rightarrow> u8 list" where
  "nulterminate (EXEC argv) b = foldl (\<lambda>b (q, eq). b[eq := 0]) b argv"
| "nulterminate (REDIR c q eq mode fd) b = (nulterminate c b)[eq := 0]"
| "nulterminate (PIPE l r) b = nulterminate r (nulterminate l b)"
| "nulterminate (LIST l r) b = nulterminate r (nulterminate l b)"
| "nulterminate (BACK c) b = nulterminate c b"

definition parsecmd :: "nat \<Rightarrow> u8 list \<Rightarrow> (cmd \<times> u8 list) pres" where
  "parsecmd n b =
     (let es = strlen b in
      pbind (parseline n b es 0) (\<lambda>(c, s).
      case peek b es [] s of (_, s) \<Rightarrow>
      if s \<noteq> es then Some (Inl (cbytes ''leftovers: '' @ cstr (drop s b) @ [10] @ cbytes ''syntax''))
      else Some (Inr (c, nulterminate c b))))"

section \<open>Running commands\<close>

text \<open>
  How a process of the shell ends: it exits, \<^verbatim>\<open>exec\<close> replaces it, or it reads outside an allocated block. The result \<^verbatim>\<open>None\<close> stands
  for a process that never ends. \<^verbatim>\<open>malloc\<close> is taken to succeed; a block is the list of its bytes.
\<close>

datatype 'w outcome = Exits int 'w | Execs 'w | Faults

definition panic_sh :: "'w os \<Rightarrow> u8 list \<Rightarrow> 'w \<Rightarrow> 'w outcome option" where
  "panic_sh os m w = Option.bind (fprintf os 2 (cbytes ''%s'' @ [10]) [U_str (Some m)] w) (\<lambda>w. Some (Exits 1 w))"

definition fork1 :: "'w os \<Rightarrow> 'w \<Rightarrow> 'w outcome option + int \<times> 'w" where
  "fork1 os w = (case os_fork os w of (pid, w) \<Rightarrow> if pid = -1 then Inl (panic_sh os (cbytes ''fork'') w) else Inr (pid, w))"

partial_function (option) reading_loop :: "'w os \<Rightarrow> int \<Rightarrow> u8 list \<Rightarrow> 'w \<Rightarrow> (u8 list \<times> 'w) option" where
  "reading_loop os fd path w =
     (case os_read os fd 1 w of (r, w) \<Rightarrow>
      case r of
        None \<Rightarrow> Some (path, w)
      | Some bs \<Rightarrow>
          if bs = [] then Some (path, w)
          else
            let path = (if strlen path \<ge> 100 then strcpy (replicate (strlen path + 2) 0) path else path) in
            reading_loop os fd (my_strcat path [hd bs, 0]) w)"

definition reading_from_fd :: "'w os \<Rightarrow> int \<Rightarrow> 'w \<Rightarrow> (u8 list \<times> 'w) option" where
  "reading_from_fd os fd w = reading_loop os fd (replicate 100 0) w"

text \<open>The inner loop of the search: the bytes up to the colon are appended to \<^verbatim>\<open>word\<close>, and \<^verbatim>\<open>path\<close> then points to the colon.\<close>

fun dir_word :: "u8 list \<Rightarrow> u8 list \<Rightarrow> (u8 list \<times> u8 list) option" where
  "dir_word word [] = None"
| "dir_word word (c # path) = (if c = 58 then Some (word, c # path) else dir_word (my_strcat word [c, 0]) path)"

partial_function (option) search_path :: "'w os \<Rightarrow> u8 list \<Rightarrow> u8 list list \<Rightarrow> u8 list \<Rightarrow> 'w \<Rightarrow> 'w outcome option" where
  "search_path os argv0 argv path w =
     (if deref path \<noteq> 0 \<and> deref path \<noteq> 10 then
        case dir_word (replicate 100 0) path of
          None \<Rightarrow> Some Faults
        | Some (word, path) \<Rightarrow>
            (case os_exec os (cstr (my_strcat word argv0)) argv w of (ok, w) \<Rightarrow>
             if ok then Some (Execs w) else search_path os argv0 argv path w)
      else
        case os_exec os argv0 argv w of (ok, w) \<Rightarrow>
        if ok then Some (Execs w)
        else Option.bind (fprintf os 2 (cbytes ''exec %s failed'' @ [10]) [U_str (Some argv0)] w) (\<lambda>w. Some (Exits 0 w)))"

definition word_at :: "u8 list \<Rightarrow> nat \<times> nat \<Rightarrow> u8 list" where
  "word_at b t = cstr (drop (fst t) b)"

fun runcmd :: "'w os \<Rightarrow> u8 list \<Rightarrow> cmd \<Rightarrow> 'w \<Rightarrow> 'w outcome option" where
  "runcmd os b (EXEC argv) w =
     (if argv = [] then Some (Exits 1 w)
      else
        let argv0 = word_at b (hd argv) in
        case os_open os (cbytes ''/path'') O_RDONLY w of (fd, w) \<Rightarrow>
        if fd = -1 then
          Option.bind (fprintf os 2 (cbytes ''open %s failed'' @ [10]) [U_str (Some argv0)] w) (\<lambda>w. Some (Exits 1 w))
        else
          case reading_from_fd os fd w of
            None \<Rightarrow> None
          | Some (path, w) \<Rightarrow> search_path os argv0 (map (word_at b) argv) path w)"
| "runcmd os b (REDIR c q eq mode fd) w =
     (let w = os_close os fd w in
      case os_open os (word_at b (q, eq)) mode w of (r, w) \<Rightarrow>
      if r < 0 then
        Option.bind (fprintf os 2 (cbytes ''open %s failed'' @ [10]) [U_str (Some (word_at b (q, eq)))] w) (\<lambda>w. Some (Exits 1 w))
      else runcmd os b c w)"
| "runcmd os b (LIST l r) w =
     (case fork1 os w of
        Inl out \<Rightarrow> out
      | Inr (pid, w) \<Rightarrow> if pid = 0 then runcmd os b l w else runcmd os b r (snd (os_wait os w)))"
| "runcmd os b (PIPE l r) w =
     (case os_pipe os w of
        (None, w) \<Rightarrow> panic_sh os (cbytes ''pipe'') w
      | (Some (p0, p1), w) \<Rightarrow>
          (case fork1 os w of
             Inl out \<Rightarrow> out
           | Inr (pid, w) \<Rightarrow>
               if pid = 0 then runcmd os b l (os_close os p1 (os_close os p0 (os_dup os p1 (os_close os 1 w))))
               else
                 case fork1 os w of
                   Inl out \<Rightarrow> out
                 | Inr (pid, w) \<Rightarrow>
                     if pid = 0 then runcmd os b r (os_close os p1 (os_close os p0 (os_dup os p0 (os_close os 0 w))))
                     else Some (Exits 0 (snd (os_wait os (snd (os_wait os (os_close os p1 (os_close os p0 w)))))))))"
| "runcmd os b (BACK c) w =
     (case fork1 os w of
        Inl out \<Rightarrow> out
      | Inr (pid, w) \<Rightarrow> if pid = 0 then runcmd os b c w else Some (Exits 0 w))"

definition getcmd :: "'w os \<Rightarrow> nat \<Rightarrow> 'w \<Rightarrow> (int \<times> u8 list \<times> 'w) option" where
  "getcmd os nbuf w =
     Option.bind (fprintf os 2 (cbytes ''$ '') [] w) (\<lambda>w.
     let (buf, w) = gets os (replicate nbuf 0) nbuf w in
     Some (if deref buf = 0 then -1 else 0, buf, w))"

partial_function (option) open_console :: "'w os \<Rightarrow> 'w \<Rightarrow> 'w option" where
  "open_console os w =
     (case os_open os (cbytes ''console'') O_RDWR w of (fd, w) \<Rightarrow>
      if fd \<ge> 0 then if fd \<ge> 3 then Some (os_close os fd w) else open_console os w else Some w)"

partial_function (option) main_loop :: "'w os \<Rightarrow> 'w \<Rightarrow> 'w outcome option" where
  "main_loop os w =
     (case getcmd os 100 w of
        None \<Rightarrow> None
      | Some (r, buf, w) \<Rightarrow>
          if r < 0 then Some (Exits 0 w)
          else if take 3 buf = cbytes ''cd '' then
            let buf = buf[strlen buf - 1 := 0] in
            (case os_chdir os (cstr (drop 3 buf)) w of (r, w) \<Rightarrow>
             if r < 0 then
               case fprintf os 2 (cbytes ''cannot cd %s'' @ [10]) [U_str (Some (drop 3 buf))] w of
                 None \<Rightarrow> None
               | Some w \<Rightarrow> main_loop os w
             else main_loop os w)
          else
            case fork1 os w of
              Inl out \<Rightarrow> out
            | Inr (pid, w) \<Rightarrow>
                if pid = 0 then
                  case parsecmd (4 * strlen buf + 4) buf of
                    None \<Rightarrow> None
                  | Some (Inl e) \<Rightarrow> panic_sh os e w
                  | Some (Inr (c, buf)) \<Rightarrow> runcmd os buf c w
                else main_loop os (snd (os_wait os w)))"

definition sh_main :: "'w os \<Rightarrow> 'w \<Rightarrow> 'w outcome option" where
  "sh_main os w = Option.bind (open_console os w) (main_loop os)"

lemmas [code] = reading_loop.simps search_path.simps open_console.simps main_loop.simps

section \<open>The parser on a line\<close>

text \<open>
  A word of the line: it is not empty, has no delimiter, and ends at a delimiter or at the end of the line. A command is well
  formed when its words are, and no simple command has more words than \<^verbatim>\<open>argv\<close> has room for.
\<close>

definition tok_ok :: "u8 list \<Rightarrow> nat \<Rightarrow> nat \<Rightarrow> bool" where
  "tok_ok b q eq \<longleftrightarrow> q < eq \<and> eq \<le> strlen b \<and> (\<forall>i. q \<le> i \<and> i < eq \<longrightarrow> is_word (ch b i)) \<and> (ch b eq = 0 \<or> \<not> is_word (ch b eq))"

fun cmd_ok :: "u8 list \<Rightarrow> cmd \<Rightarrow> bool" where
  "cmd_ok b (EXEC argv) \<longleftrightarrow> length argv < MAXARGS \<and> (\<forall>(q, eq)\<in>set argv. tok_ok b q eq)"
| "cmd_ok b (REDIR c q eq mode fd) \<longleftrightarrow> cmd_ok b c \<and> tok_ok b q eq"
| "cmd_ok b (PIPE l r) \<longleftrightarrow> cmd_ok b l \<and> cmd_ok b r"
| "cmd_ok b (LIST l r) \<longleftrightarrow> cmd_ok b l \<and> cmd_ok b r"
| "cmd_ok b (BACK c) \<longleftrightarrow> cmd_ok b c"

fun words_of :: "cmd \<Rightarrow> (nat \<times> nat) list" where
  "words_of (EXEC argv) = argv"
| "words_of (REDIR c q eq mode fd) = words_of c @ [(q, eq)]"
| "words_of (PIPE l r) = words_of l @ words_of r"
| "words_of (LIST l r) = words_of l @ words_of r"
| "words_of (BACK c) = words_of c"

lemma cmd_ok_words: "cmd_ok b c \<Longrightarrow> (q, eq) \<in> set (words_of c) \<Longrightarrow> tok_ok b q eq"
  by (induction c) auto

lemma ch_inside: "i < strlen b \<Longrightarrow> ch b i \<noteq> 0"
proof -
  assume i: "i < strlen b"
  then have "i < length (cstr b)" by (simp add: strlen_eq)
  moreover from this have "b ! i = cstr b ! i" and "i < length b"
    using length_takeWhile_le [of "\<lambda>c. c \<noteq> 0" b] by (simp_all add: cstr_def takeWhile_nth)
  moreover from \<open>i < length (cstr b)\<close> have "cstr b ! i \<noteq> 0" by (metis nth_mem no_nul_cstr)
  ultimately show ?thesis by (simp add: ch_def Cons_nth_drop_Suc [symmetric])
qed

lemma ch_end: "ch b (strlen b) = 0"
proof -
  have "drop (length (cstr b)) b = dropWhile (\<lambda>c. c \<noteq> 0) b" by (simp add: cstr_def dropWhile_eq_drop)
  then show ?thesis using hd_dropWhile [of "\<lambda>c. c \<noteq> 0" b] by (cases "dropWhile (\<lambda>c. c \<noteq> 0) b") (auto simp: ch_def strlen_eq)
qed

lemma skip_while_le: "s \<le> es \<Longrightarrow> skip_while P b es s \<le> es"
proof (induction P b es s rule: skip_while.induct)
  case (1 P b es s)
  then show ?case by (simp add: skip_while.simps [of P b es s])
qed

lemma skip_while_all: "s \<le> i \<Longrightarrow> i < skip_while P b es s \<Longrightarrow> P (ch b i)"
proof (induction P b es s rule: skip_while.induct)
  case (1 P b es s)
  then show ?case by (cases "i = s") (auto simp: skip_while.simps [of P b es s] split: if_splits)
qed

lemma skip_while_end: "skip_while P b es s < es \<Longrightarrow> \<not> P (ch b (skip_while P b es s))"
proof (induction P b es s rule: skip_while.induct)
  case (1 P b es s)
  then show ?case by (auto simp: skip_while.simps [of P b es s] split: if_splits)
qed

lemma peek_le: "peek b es toks s = (t, s') \<Longrightarrow> s \<le> es \<Longrightarrow> s \<le> s' \<and> s' \<le> es"
  using skip_while_ge [of s is_space b es] skip_while_le [of s es is_space b] by (auto simp: peek_def Let_def)

lemma gettoken_ok:
  assumes "gettoken b (strlen b) s = (t, q, eq, s')" and "s \<le> strlen b"
  shows "s' \<le> strlen b" and "t = 97 \<Longrightarrow> tok_ok b q eq"
proof -
  let ?es = "strlen b"
  have q: "q = skip_while is_space b ?es s" and s': "s' = skip_while is_space b ?es eq"
    using assms(1) by (auto simp: gettoken_def Let_def split: prod.splits)
  have qe: "q \<le> ?es" unfolding q using assms(2) by (rule skip_while_le)
  have lt: "i < ?es" if "ch b i \<noteq> 0" "i \<le> ?es" for i using that ch_end [of b] by (cases "i = ?es") auto
  have e: "eq \<le> ?es"
    using assms(1) qe lt [of q] lt [of "q + 1"] skip_while_le [of q ?es is_word b]
    by (auto simp: gettoken_def Let_def q [symmetric] split: if_splits)
  show "s' \<le> ?es" unfolding s' using e by (rule skip_while_le)
  assume "t = 97"
  then have c: "ch b q \<noteq> 0" "ch b q \<notin> set symbols" "eq = skip_while is_word b ?es q"
    using assms(1) by (auto simp: gettoken_def Let_def q [symmetric] symbols_set cbytes_def split: if_splits)
  have "\<not> is_space (ch b q)" using lt [OF c(1) qe] skip_while_end [of is_space b ?es s] by (simp add: q)
  then have "is_word (ch b q)" using c(2)
    by (auto simp: is_word_def is_space_def strchr_cstr cstr_def dest: set_takeWhileD)
  then have "q < eq" using lt [OF c(1) qe] skip_while_ge [of "Suc q" is_word b ?es]
    by (simp add: c(3) skip_while.simps [of is_word b ?es q])
  moreover have "ch b eq = 0 \<or> \<not> is_word (ch b eq)"
    using e ch_end [of b] skip_while_end [of is_word b ?es q] c(3) by (cases "eq = ?es") auto
  ultimately show "tok_ok b q eq" using e skip_while_all [of q _ is_word b ?es] c(3) by (auto simp: tok_ok_def)
qed

text \<open>What a parsing procedure returns: an error, or a well-formed command and a later position in the line.\<close>

definition parsed :: "u8 list \<Rightarrow> nat \<Rightarrow> u8 list + cmd \<times> nat \<Rightarrow> bool" where
  "parsed b s r \<longleftrightarrow> (\<forall>c s'. r = Inr (c, s') \<longrightarrow> s \<le> s' \<and> s' \<le> strlen b \<and> cmd_ok b c)"

lemma parseredirs_parsed:
  "cmd_ok b c \<Longrightarrow> s \<le> strlen b \<Longrightarrow> parsed b s (parseredirs c b (strlen b) s)"
proof (induction "length b - s" arbitrary: c s rule: less_induct)
  case less
  let ?es = "strlen b"
  obtain t s1 where p: "peek b ?es (cbytes ''<>'') s = (t, s1)" by (cases "peek b ?es (cbytes ''<>'') s")
  obtain tok q1 e1 s2 where g: "gettoken b ?es s1 = (tok, q1, e1, s2)" by (cases "gettoken b ?es s1")
  obtain k q e s3 where h: "gettoken b ?es s2 = (k, q, e, s3)" by (cases "gettoken b ?es s2")
  have s1: "s \<le> s1" "s1 \<le> ?es" using peek_le [OF p less.prems(2)] by auto
  have s2: "s2 \<le> ?es" "s1 \<le> s2" using gettoken_ok(1) [OF g s1(2)] gettoken_ge [OF g] by auto
  have s3: "s3 \<le> ?es" "s2 \<le> s3" "k = 97 \<Longrightarrow> tok_ok b q e"
    using gettoken_ok [OF h s2(1)] gettoken_ge [OF h] by auto
  have ok: "k = 97 \<Longrightarrow> cmd_ok b (redir c tok q e)" using s3(3) less.prems(1) by (simp add: redir_def)
  have "parsed b s3 (parseredirs (redir c tok q e) b ?es s3)" if "t" "k = 97"
    using less.hyps [OF redirs_measure [OF h g] ok s3(1)] p that by simp
  then have "parsed b s (parseredirs (redir c tok q e) b ?es s3)" if "t" "k = 97"
    using that s1 s2 s3(2) unfolding parsed_def by (meson le_trans)
  then show ?case using less.prems s1 by (simp add: parseredirs.simps [of c b ?es s] p g h parsed_def)
qed

lemma set_argv_ok: "cmd_ok b (set_argv argv c)" if "cmd_ok b c" and "cmd_ok b (EXEC argv)"
  using that by (induction argv c rule: set_argv.induct) simp_all

lemma args_loop_parsed:
  "cmd_ok b ret \<Longrightarrow> cmd_ok b (EXEC argv) \<Longrightarrow> s \<le> strlen b \<Longrightarrow> parsed b s (args_loop ret argv b (strlen b) s)"
proof (induction "MAXARGS - length argv" arbitrary: ret argv s rule: less_induct)
  case less
  let ?es = "strlen b"
  obtain t s1 where p: "peek b ?es (cbytes ''|)&;'') s = (t, s1)" by (cases "peek b ?es (cbytes ''|)&;'') s")
  obtain tok q e s2 where g: "gettoken b ?es s1 = (tok, q, e, s2)" by (cases "gettoken b ?es s1")
  have s1: "s \<le> s1" "s1 \<le> ?es" using peek_le [OF p less.prems(3)] by auto
  have s2: "s2 \<le> ?es" "s1 \<le> s2" "tok = 97 \<Longrightarrow> tok_ok b q e" using gettoken_ok [OF g s1(2)] gettoken_ge [OF g] by auto
  have red: "parsed b s2 (parseredirs ret b ?es s2)" by (rule parseredirs_parsed [OF less.prems(1) s2(1)])
  have more: "parsed b s (args_loop ret' (argv @ [(q, e)]) b ?es s3)"
    if "parseredirs ret b ?es s2 = Inr (ret', s3)" "tok = 97" "length argv + 1 < MAXARGS" for ret' s3
  proof -
    have r: "s2 \<le> s3" "s3 \<le> ?es" "cmd_ok b ret'" using red that(1) by (auto simp: parsed_def)
    have "cmd_ok b (EXEC (argv @ [(q, e)]))" using less.prems(2) s2(3) that by auto
    with less.hyps [of "argv @ [(q, e)]" ret' s3] r that(3)
    have "parsed b s3 (args_loop ret' (argv @ [(q, e)]) b ?es s3)" by auto
    then show ?thesis using r s1 s2(2) unfolding parsed_def by (meson le_trans)
  qed
  have fin: "parsed b s (Inr (set_argv argv ret, s'))" if "s \<le> s'" "s' \<le> ?es" for s'
    using that set_argv_ok [OF less.prems(1,2)] by (simp add: parsed_def)
  have err: "parsed b s (Inl m)" for m by (simp add: parsed_def)
  show ?case
    unfolding args_loop.simps [of ret argv b ?es s] p g prod.case
    using fin [OF s1] fin [OF order_trans [OF s1(1) s2(2)] s2(1)] more err
    by (auto split: sum.splits)
qed

lemma back_loop_ok:
  "cmd_ok b c \<Longrightarrow> s \<le> strlen b \<Longrightarrow> back_loop c b (strlen b) s = (c', s') \<Longrightarrow> s \<le> s' \<and> s' \<le> strlen b \<and> cmd_ok b c'"
proof (induction "length b - s" arbitrary: c s rule: less_induct)
  case less
  let ?es = "strlen b"
  obtain t s1 where p: "peek b ?es (cbytes ''&'') s = (t, s1)" by (cases "peek b ?es (cbytes ''&'') s")
  obtain tok q e s2 where g: "gettoken b ?es s1 = (tok, q, e, s2)" by (cases "gettoken b ?es s1")
  have s1: "s \<le> s1" "s1 \<le> ?es" using peek_le [OF p less.prems(2)] by auto
  have s2: "s2 \<le> ?es" "s1 \<le> s2" using gettoken_ok(1) [OF g s1(2)] gettoken_ge [OF g] by auto
  show ?case
  proof (cases t)
    case True
    have "s2 \<le> s' \<and> s' \<le> ?es \<and> cmd_ok b c'"
      using less.hyps [OF back_measure [OF g], of "BACK c"] less.prems p g s2(1) True
      by (simp add: back_loop.simps [of c b ?es s])
    then show ?thesis using s1 s2 by simp
  qed (use less.prems p s1 in \<open>auto simp: back_loop.simps [of c b ?es s]\<close>)
qed

text \<open>With enough nested calls the procedures return; a call consumes at least one byte in every four levels.\<close>

definition returns :: "u8 list \<Rightarrow> nat \<Rightarrow> (cmd \<times> nat) pres \<Rightarrow> bool" where
  "returns b s r \<longleftrightarrow> (\<exists>x. r = Some x \<and> parsed b s x)"

lemma returns_Some [simp]: "returns b s (Some x) = parsed b s x"
  by (simp add: returns_def)

lemma parsed_simps [simp]:
  "parsed b s (Inl e)" "parsed b s (Inr (c, s')) \<longleftrightarrow> s \<le> s' \<and> s' \<le> strlen b \<and> cmd_ok b c"
  by (simp_all add: parsed_def)

lemma parsed_mono: "parsed b s1 x \<Longrightarrow> s \<le> s1 \<Longrightarrow> parsed b s x"
  by (auto simp: parsed_def intro: order_trans)

lemma returns_mono: "returns b s1 r \<Longrightarrow> s \<le> s1 \<Longrightarrow> returns b s r"
  unfolding returns_def by (blast intro: parsed_mono)

lemma returns_pbind:
  assumes "returns b s1 m" and "s \<le> s1" and "\<And>c s'. s1 \<le> s' \<Longrightarrow> s' \<le> strlen b \<Longrightarrow> cmd_ok b c \<Longrightarrow> returns b s (f (c, s'))"
  shows "returns b s (pbind m f)"
proof -
  from assms(1) obtain x where x: "m = Some x" "parsed b s1 x" by (auto simp: returns_def)
  show ?thesis
  proof (cases x)
    case (Inl e)
    then show ?thesis using x by (simp add: pbind_def)
  next
    case (Inr y)
    then show ?thesis using x assms(3) by (cases y) (simp add: pbind_def)
  qed
qed

lemma symbol_step:
  assumes "peek b (strlen b) toks s = (t, s1)" and "s \<le> strlen b" and "gettoken b (strlen b) s1 = (tok, q, e, s2)"
    and "set toks \<subseteq> set symbols"
  shows "s \<le> s1" "s1 \<le> strlen b" "s2 \<le> strlen b" "s1 \<le> s2" "t \<Longrightarrow> s < s2"
proof -
  show s1: "s \<le> s1" "s1 \<le> strlen b" using peek_le [OF assms(1,2)] by auto
  show "s2 \<le> strlen b" "s1 \<le> s2" using gettoken_ok(1) [OF assms(3) s1(2)] gettoken_ge [OF assms(3)] by auto
  assume t
  then show "s < s2" using assms(1) symbol_consumed(1) [OF _ assms(4,3), of s] by simp
qed

lemma tail_returns:
  assumes "s0 \<le> s" and "s \<le> strlen b" and "cmd_ok b c" and "set toks \<subseteq> set symbols"
    and rest: "\<And>s'. s < s' \<Longrightarrow> s' \<le> strlen b \<Longrightarrow> returns b s' (rest s')"
    and mk: "\<And>d. cmd_ok b d \<Longrightarrow> cmd_ok b (mk c d)"
  shows "returns b s0 (case peek b (strlen b) toks s of (t, s) \<Rightarrow>
    if t then case gettoken b (strlen b) s of (_, _, _, s) \<Rightarrow> pbind (rest s) (\<lambda>(d, s). Some (Inr (mk c d, s)))
    else Some (Inr (c, s)))"
proof -
  obtain t s1 where p: "peek b (strlen b) toks s = (t, s1)" by (cases "peek b (strlen b) toks s")
  obtain tok q e s2 where g: "gettoken b (strlen b) s1 = (tok, q, e, s2)" by (cases "gettoken b (strlen b) s1")
  note st = symbol_step [OF p assms(2) g assms(4)]
  have "returns b s0 (pbind (rest s2) (\<lambda>(d, s). Some (Inr (mk c d, s))))" if t
    using rest [of s2] st that assms(1) mk by (intro returns_pbind [of b s2]) auto
  then show ?thesis using assms(1,3) st p g by simp
qed

lemma parseblock_returns:
  assumes "s \<le> strlen b" and line: "\<And>s'. s < s' \<Longrightarrow> s' \<le> strlen b \<Longrightarrow> returns b s' (parseline n b (strlen b) s')"
  shows "returns b s (parseblock (Suc n) b (strlen b) s)"
proof -
  let ?es = "strlen b"
  obtain t s1 where p: "peek b ?es (cbytes ''('') s = (t, s1)" by (cases "peek b ?es (cbytes ''('') s")
  obtain tok q e s2 where g: "gettoken b ?es s1 = (tok, q, e, s2)" by (cases "gettoken b ?es s1")
  note st = symbol_step [OF p assms(1) g symbol_lists(5)]
  have close: "returns b s (case peek b ?es (cbytes '')'') s3 of (t, s) \<Rightarrow>
      if \<not> t then Some (Inl (cbytes ''syntax - missing )''))
      else case gettoken b ?es s of (_, _, _, s) \<Rightarrow> Some (parseredirs c b ?es s))"
    if "s2 \<le> s3" "s3 \<le> ?es" "cmd_ok b c" for s3 c
  proof -
    obtain t' s4 where p': "peek b ?es (cbytes '')'') s3 = (t', s4)" by (cases "peek b ?es (cbytes '')'') s3")
    obtain tok' q' e' s5 where g': "gettoken b ?es s4 = (tok', q', e', s5)" by (cases "gettoken b ?es s4")
    note st' = symbol_step [OF p' that(2) g' symbol_lists(6)]
    have "parsed b s (parseredirs c b ?es s5)"
      using st st' that(1) by (intro parsed_mono [OF parseredirs_parsed [OF that(3) st'(3)]]) linarith
    then show ?thesis by (simp add: p' g')
  qed
  have "returns b s (pbind (parseline n b ?es s2) (\<lambda>(c, s). case peek b ?es (cbytes '')'') s of (t, s) \<Rightarrow>
      if \<not> t then Some (Inl (cbytes ''syntax - missing )''))
      else case gettoken b ?es s of (_, _, _, s) \<Rightarrow> Some (parseredirs c b ?es s)))" if t
    using line [of s2] st that close by (intro returns_pbind [of b s2]) auto
  then show ?thesis by (simp add: p g)
qed

lemma parseexec_returns:
  assumes "s \<le> strlen b" and block: "\<And>s'. s \<le> s' \<Longrightarrow> s' \<le> strlen b \<Longrightarrow> returns b s' (parseblock n b (strlen b) s')"
  shows "returns b s (parseexec (Suc n) b (strlen b) s)"
proof -
  let ?es = "strlen b"
  obtain t s1 where p: "peek b ?es (cbytes ''('') s = (t, s1)" by (cases "peek b ?es (cbytes ''('') s")
  have s1: "s \<le> s1" "s1 \<le> ?es" using peek_le [OF p assms(1)] by auto
  have "parsed b s1 (parseredirs (EXEC []) b ?es s1)" by (rule parseredirs_parsed [OF _ s1(2)]) (simp add: MAXARGS_def)
  then have "s1 \<le> s2 \<and> parsed b s2 (args_loop ret [] b ?es s2)" if "parseredirs (EXEC []) b ?es s1 = Inr (ret, s2)" for ret s2
    using that args_loop_parsed [of b ret "[]" s2] by (simp add: MAXARGS_def)
  then have "parsed b s (args_loop ret [] b ?es s2)" if "parseredirs (EXEC []) b ?es s1 = Inr (ret, s2)" for ret s2
    using that s1(1) parsed_mono order_trans by blast
  then show ?thesis using block [OF s1] s1 returns_mono [of b s1 "parseblock n b ?es s1" s]
    by (auto simp: p split: sum.splits)
qed

lemma parse_returns:
  "(s \<le> strlen b \<longrightarrow> 4 * (strlen b - s) + 4 \<le> n \<longrightarrow> returns b s (parseline n b (strlen b) s)) \<and>
   (s \<le> strlen b \<longrightarrow> 4 * (strlen b - s) + 3 \<le> n \<longrightarrow> returns b s (parsepipe n b (strlen b) s)) \<and>
   (s \<le> strlen b \<longrightarrow> 4 * (strlen b - s) + 2 \<le> n \<longrightarrow> returns b s (parseexec n b (strlen b) s)) \<and>
   (s \<le> strlen b \<longrightarrow> 4 * (strlen b - s) + 1 \<le> n \<longrightarrow> returns b s (parseblock n b (strlen b) s))"
proof (induction n arbitrary: s)
  case 0
  show ?case by simp
next
  case (Suc n)
  let ?es = "strlen b"
  have "returns b s (parseline (Suc n) b ?es s)" if le: "s \<le> ?es" "4 * (?es - s) + 4 \<le> Suc n"
    unfolding parseline.simps
  proof (rule returns_pbind [of b s])
    show "returns b s (parsepipe n b ?es s)" using Suc.IH [of s] le by simp
    fix c s1 assume s1: "s \<le> s1" "s1 \<le> ?es" "cmd_ok b c"
    obtain c' s2 where bl: "back_loop c b ?es s1 = (c', s2)" by (cases "back_loop c b ?es s1")
    have s2: "s1 \<le> s2" "s2 \<le> ?es" "cmd_ok b c'" using back_loop_ok [OF s1(3,2) bl] by auto
    have rec: "returns b s' (parseline n b ?es s')" if "s2 < s'" "s' \<le> ?es" for s'
      using Suc.IH [of s'] that le s1 s2(1) by auto
    show "returns b s ((\<lambda>(c, s). case back_loop c b ?es s of (c, s) \<Rightarrow> case peek b ?es (cbytes '';'') s of (t, s) \<Rightarrow>
        if t then case gettoken b ?es s of (_, _, _, s) \<Rightarrow> pbind (parseline n b ?es s) (\<lambda>(d, s). Some (Inr (LIST c d, s)))
        else Some (Inr (c, s))) (c, s1))"
      unfolding prod.case bl using s1 s2
      by (intro tail_returns [where rest = "\<lambda>s. parseline n b ?es s" and mk = LIST] symbol_lists rec) auto
  qed simp
  moreover have "returns b s (parsepipe (Suc n) b ?es s)" if le: "s \<le> ?es" "4 * (?es - s) + 3 \<le> Suc n"
    unfolding parsepipe.simps
  proof (rule returns_pbind [of b s])
    show "returns b s (parseexec n b ?es s)" using Suc.IH [of s] le by simp
    fix c s1 assume s1: "s \<le> s1" "s1 \<le> ?es" "cmd_ok b c"
    have rec: "returns b s' (parsepipe n b ?es s')" if "s1 < s'" "s' \<le> ?es" for s'
      using Suc.IH [of s'] that le s1 by auto
    show "returns b s ((\<lambda>(c, s). case peek b ?es (cbytes ''|'') s of (t, s) \<Rightarrow>
        if t then case gettoken b ?es s of (_, _, _, s) \<Rightarrow> pbind (parsepipe n b ?es s) (\<lambda>(d, s). Some (Inr (PIPE c d, s)))
        else Some (Inr (c, s))) (c, s1))"
      unfolding prod.case using s1
      by (intro tail_returns [where rest = "\<lambda>s. parsepipe n b ?es s" and mk = PIPE] symbol_lists rec) auto
  qed simp
  moreover have "returns b s (parseexec (Suc n) b ?es s)" if "s \<le> ?es" "4 * (?es - s) + 2 \<le> Suc n"
    using that Suc.IH by (intro parseexec_returns) auto
  moreover have "returns b s (parseblock (Suc n) b ?es s)" if "s \<le> ?es" "4 * (?es - s) + 1 \<le> Suc n"
    using that Suc.IH by (intro parseblock_returns) auto
  ultimately show ?case by simp
qed

section \<open>More nested calls do not change the result\<close>

definition grows :: "'a option \<Rightarrow> 'a option \<Rightarrow> bool" where
  "grows r r' \<longleftrightarrow> r = None \<or> r = r'"

lemma grows_simps [simp]: "grows None r" "grows r r" "grows (Some x) r \<longleftrightarrow> r = Some x"
  by (auto simp: grows_def)

lemma grows_pbind: "grows m m' \<Longrightarrow> (\<And>x. grows (f x) (f' x)) \<Longrightarrow> grows (pbind m f) (pbind m' f')"
  by (cases m) (auto simp: pbind_def split: sum.splits)

lemma parse_grows:
  "n \<le> m \<Longrightarrow> grows (parseline n b es s) (parseline m b es s) \<and> grows (parsepipe n b es s) (parsepipe m b es s) \<and>
   grows (parseexec n b es s) (parseexec m b es s) \<and> grows (parseblock n b es s) (parseblock m b es s)"
proof (induction n arbitrary: m s)
  case (Suc n)
  then obtain k where m: "m = Suc k" and k: "n \<le> k" by (cases m) auto
  show ?case unfolding m parseline.simps parsepipe.simps parseexec.simps parseblock.simps
    using Suc.IH [OF k] by (auto intro!: grows_pbind split: prod.splits sum.splits)
qed simp

lemma parseline_more: "parseline n b es s = Some r \<Longrightarrow> parseline (n + k) b es s = Some r"
  using parse_grows [of n "n + k" b es s] by simp

lemma parsecmd_more: "parsecmd n b = Some r \<Longrightarrow> parsecmd (n + k) b = Some r"
  using parseline_more [of n b "strlen b" 0 _ k]
  by (auto simp: parsecmd_def Let_def pbind_def split: option.splits)

section \<open>NUL-termination\<close>

lemma nth_store: "j < length xs \<Longrightarrow> xs[i := x] ! j = (if i = j then x else xs ! j)"
  by (cases "i = j") auto

lemma length_foldl_nul [simp]: "length (foldl (\<lambda>b (q, eq). b[eq := 0]) b argv) = length b"
  by (induction argv arbitrary: b) auto

lemma length_nulterminate [simp]: "length (nulterminate c b) = length b"
  by (induction c b rule: nulterminate.induct) auto

lemma foldl_nul:
  "i < length b \<Longrightarrow> foldl (\<lambda>b (q, eq). b[eq := 0]) b argv ! i = (if i \<in> snd ` set argv then 0 else b ! i)"
  by (induction argv arbitrary: b rule: rev_induct) (simp_all add: nth_store case_prod_beta)

lemma nulterminate_nth:
  "i < length b \<Longrightarrow> nulterminate c b ! i = (if i \<in> snd ` set (words_of c) then 0 else b ! i)"
  by (induction c b rule: nulterminate.induct) (auto simp: foldl_nul nth_store image_Un split: if_splits intro: rev_image_eqI)

lemma ch_nth: "i < length b \<Longrightarrow> ch b i = b ! i"
  by (simp add: ch_def Cons_nth_drop_Suc [symmetric])

lemma word_terminated:
  assumes "strlen b < length b" and "cmd_ok b c" and "(q, eq) \<in> set (words_of c)"
  shows "cstr (drop q (nulterminate c b)) = take (eq - q) (drop q b)"
proof -
  let ?b = "nulterminate c b"
  have w: "tok_ok b q eq" by (rule cmd_ok_words [OF assms(2,3)])
  then have e: "q < eq" "eq \<le> strlen b" "eq < length b" using assms(1) by (auto simp: tok_ok_def)
  have inside: "i \<notin> snd ` set (words_of c)" "ch b i \<noteq> 0" if i: "q \<le> i" "i < eq" for i
  proof -
    show nz: "ch b i \<noteq> 0" using i e by (intro ch_inside) simp
    have "is_word (ch b i)" using w i by (simp add: tok_ok_def)
    then show "i \<notin> snd ` set (words_of c)" using nz cmd_ok_words [OF assms(2)] by (force simp: tok_ok_def)
  qed
  have same: "?b ! i = b ! i \<and> b ! i \<noteq> 0" if "q \<le> i" "i < eq" for i
    using inside [OF that] that e by (simp add: nulterminate_nth ch_nth)
  have "?b ! eq = 0" using assms(3) e by (force simp: nulterminate_nth)
  then have d: "drop q ?b = take (eq - q) (drop q ?b) @ 0 # drop (Suc eq) ?b"
    using e id_take_nth_drop [of "eq - q" "drop q ?b"] by (simp add: add.commute)
  have t: "take (eq - q) (drop q ?b) = take (eq - q) (drop q b)"
    by (rule nth_equalityI) (use same e in auto)
  have "0 \<notin> set (take (eq - q) (drop q b))"
    using same e by (auto simp: in_set_conv_nth)
  then show ?thesis by (subst d, subst t) (rule cstr_append_nul)
qed

section \<open>The search for a command\<close>

lemma dir_word_colon: "58 \<notin> set dir \<Longrightarrow> \<exists>word'. dir_word word (dir @ 58 # rest) = Some (word', 58 # rest)"
  by (induction dir arbitrary: word) auto

text \<open>At a colon the search never moves on: it looks for the plain name again and again.\<close>

lemma search_at_colon:
  assumes "search_path os argv0 argv path w = Some out"
  shows "(\<forall>p w. \<not> fst (os_exec os p argv w)) \<longrightarrow> (\<forall>rest. path \<noteq> 58 # rest)"
proof (rule search_path.raw_induct [OF _ assms,
      where P = "\<lambda>os argv0 argv path w out. (\<forall>p w. \<not> fst (os_exec os p argv w)) \<longrightarrow> (\<forall>rest. path \<noteq> 58 # rest)"], goal_cases)
  case (1 search os argv0 argv path w out)
  show ?case
  proof (intro impI allI notI)
    fix rest assume f: "\<forall>p w. \<not> fst (os_exec os p argv w)" and p: "path = 58 # rest"
    obtain ok w' where e: "os_exec os (cstr (my_strcat (replicate 100 0) argv0)) argv w = (ok, w')"
      by (cases "os_exec os (cstr (my_strcat (replicate 100 0) argv0)) argv w")
    then have "\<not> ok" using f by (metis fst_conv)
    then have "search os argv0 argv path w' = Some out" using 1(2) p e by simp
    then show False using 1(1) f p by blast
  qed
qed

lemma search_diverges:
  assumes fail: "\<forall>p w. \<not> fst (os_exec os p argv w)" and dir: "58 \<notin> set dir" "deref (dir @ [58]) \<noteq> 0" "deref (dir @ [58]) \<noteq> 10"
  shows "search_path os argv0 argv (dir @ 58 # rest) w = None"
proof -
  obtain word where d: "dir_word (replicate 100 0) (dir @ 58 # rest) = Some (word, 58 # rest)" using dir_word_colon [OF dir(1)] by blast
  obtain ok w' where e: "os_exec os (cstr (my_strcat word argv0)) argv w = (ok, w')"
    by (cases "os_exec os (cstr (my_strcat word argv0)) argv w")
  have "\<not> ok" using fail e by (metis fst_conv)
  moreover have "deref (dir @ 58 # rest) \<noteq> 0 \<and> deref (dir @ 58 # rest) \<noteq> 10" using dir by (cases dir) auto
  ultimately have "search_path os argv0 argv (dir @ 58 # rest) w = search_path os argv0 argv (58 # rest) w'"
    by (simp add: search_path.simps [of os argv0 argv "dir @ 58 # rest"] d e)
  moreover have "search_path os argv0 argv (58 # rest) w' = None"
    using search_at_colon [of os argv0 argv "58 # rest" w'] fail by (cases "search_path os argv0 argv (58 # rest) w'") auto
  ultimately show ?thesis by simp
qed

section \<open>Properties\<close>

text \<open>
  \<^bold>\<open>C38\<close> The parser returns on every line: on a line of \<^verbatim>\<open>n\<close> bytes it nests at most \<^verbatim>\<open>4 n + 4\<close> calls, and reports an error or
  returns a command, the same for every larger bound.
\<close>

theorem parsecmd_terminates: "\<exists>r. \<forall>k. parsecmd (4 * strlen b + 4 + k) b = Some r"
proof -
  have "returns b 0 (parseline (4 * strlen b + 4) b (strlen b) 0)" using parse_returns [of 0 b "4 * strlen b + 4"] by simp
  then obtain x where "parseline (4 * strlen b + 4) b (strlen b) 0 = Some x" by (auto simp: returns_def)
  then have "parsecmd (4 * strlen b + 4) b \<noteq> None"
    by (cases x) (auto simp: parsecmd_def pbind_def Let_def split: prod.splits)
  then obtain r where "parsecmd (4 * strlen b + 4) b = Some r" by blast
  then show ?thesis using parsecmd_more by blast
qed

text \<open>
  \<^bold>\<open>C39\<close> When the parser accepts a line that lies in its buffer with its NUL, the words of the command are words of the line,
  each simple command has at most nine of them, no store of \<^verbatim>\<open>nulterminate\<close> leaves the buffer, and afterwards each word reads
  as a string exactly as it stood in the line.
\<close>

theorem parsecmd_words:
  assumes "strlen b < length b" and "parsecmd (4 * strlen b + 4) b = Some (Inr (c, b'))"
  shows "cmd_ok b c \<and> length b' = length b \<and>
    (\<forall>(q, eq)\<in>set (words_of c). eq < length b \<and> cstr (drop q b') = take (eq - q) (drop q b))"
proof -
  obtain s where p: "parseline (4 * strlen b + 4) b (strlen b) 0 = Some (Inr (c, s))" and b': "b' = nulterminate c b"
    using assms(2) by (auto simp: parsecmd_def pbind_def Let_def split: option.splits sum.splits prod.splits if_splits)
  have ok: "cmd_ok b c" using parse_returns [of 0 b "4 * strlen b + 4"] p by (simp add: parsed_def)
  have "\<forall>(q, eq)\<in>set (words_of c). eq < length b \<and> cstr (drop q b') = take (eq - q) (drop q b)"
    using word_terminated [OF assms(1) ok] cmd_ok_words [OF ok] assms(1) b' by (fastforce simp: tok_ok_def)
  then show ?thesis using ok b' by simp
qed

theorem parsecmd_words_witness:
  "let b = cbytes ''ls a|wc>f;x'' @ [10, 0]; c = LIST (PIPE (EXEC [(0, 2), (3, 4)]) (REDIR (EXEC [(5, 7)]) 8 9 0x601 1)) (EXEC [(10, 11)]) in
   cstr (drop 5 (nulterminate c b)) = cbytes ''wc''"
proof -
  define b where "b = cbytes ''ls a|wc>f;x'' @ [10, 0 :: u8]"
  define c where "c = LIST (PIPE (EXEC [(0, 2), (3, 4)]) (REDIR (EXEC [(5, 7)]) 8 9 0x601 1)) (EXEC [(10, 11)])"
  have "strlen b < length b" "parsecmd (4 * strlen b + 4) b = Some (Inr (c, nulterminate c b))"
    unfolding b_def c_def by code_simp+
  from parsecmd_words [OF this] show ?thesis by (simp add: b_def c_def cbytes_def)
qed

text \<open>
  \<^bold>\<open>C40\<close> A command that is not found is never reported. When \<^verbatim>\<open>/path\<close> holds a colon and no \<^verbatim>\<open>exec\<close> succeeds, the process of a simple
  command runs as long as \<^verbatim>\<open>malloc\<close> gives it memory, without end in the model, which does not run out: the search stops at the first colon and tries the plain name again and again, so the other
  directories of \<^verbatim>\<open>/path\<close> are never looked at and the message \<^verbatim>\<open>exec ... failed\<close> is never printed.
\<close>

theorem missing_command_hangs:
  assumes "argv \<noteq> []" and "os_open os (cbytes ''/path'') O_RDONLY w = (fd, w1)" and "fd \<noteq> -1"
    and "reading_from_fd os fd w1 = Some (dir @ 58 # rest, w2)"
    and "58 \<notin> set dir" and "deref (dir @ [58]) \<noteq> 0" and "deref (dir @ [58]) \<noteq> 10"
    and "\<forall>p argv w. \<not> fst (os_exec os p argv w)"
  shows "runcmd os b (EXEC argv) w = None"
  using assms search_diverges [of os "map (word_at b) argv" dir] by simp

definition demo_os :: "u8 list \<Rightarrow> nat os" where
  "demo_os f = \<lparr>os_read = (\<lambda>fd n pos. (Some (take n (drop pos f)), pos + n)), os_write = (\<lambda>fd bs w. (int (length bs), w)),
     os_open = (\<lambda>p m w. (3, 0)), os_close = (\<lambda>fd w. w), os_dup = (\<lambda>fd w. w), os_fstat = (\<lambda>fd w. ((0, []), w)),
     os_pipe = (\<lambda>w. (None, w)), os_fork = (\<lambda>w. (0, w)), os_wait = (\<lambda>w. (0, w)), os_exec = (\<lambda>p a w. (False, w)),
     os_chdir = (\<lambda>p w. (0, w)), os_sbrk = (\<lambda>n w. (0, w))\<rparr>"

theorem missing_command_hangs_witness: "runcmd (demo_os (cbytes ''/:/user/:'')) (cbytes ''x'' @ [0]) (EXEC [(0, 1)]) 0 = None"
proof -
  let ?os = "demo_os (cbytes ''/:/user/:'')"
  have r: "reading_from_fd ?os 3 0 = Some ([47] @ 58 # cbytes ''/user/:'' @ replicate 91 0, 10)"
    by code_simp
  show ?thesis by (rule missing_command_hangs [OF _ _ _ r]) (simp_all add: demo_os_def)
qed

end
