(* ===== verification/Uprogs.thy ===== *)
theory Uprogs
  imports Sh
begin

text \<open>
  The small user programs: \<^verbatim>\<open>user/cat.c\<close>, \<^verbatim>\<open>user/wc.c\<close>, \<^verbatim>\<open>user/echo.c\<close>, \<^verbatim>\<open>user/kill.c\<close>, \<^verbatim>\<open>user/ln.c\<close>, \<^verbatim>\<open>user/mkdir.c\<close>, \<^verbatim>\<open>user/rm.c\<close>,
  \<^verbatim>\<open>user/ls.c\<close>, \<^verbatim>\<open>user/init.c\<close> and \<^verbatim>\<open>user/zombie.c\<close>. A program gets its arguments without \<^verbatim>\<open>argv[0]\<close>; the result None means that it does not end.
  A subroutine that may call \<^verbatim>\<open>exit\<close> returns Inl of the end of the program, or Inr of the state of the rest of the system.
\<close>

section \<open>Further system calls\<close>

record 'w os_calls =
  os_kill :: "i32 \<Rightarrow> 'w \<Rightarrow> 'w"
  os_link :: "u8 list \<Rightarrow> u8 list \<Rightarrow> 'w \<Rightarrow> int \<times> 'w"
  os_unlink :: "u8 list \<Rightarrow> 'w \<Rightarrow> int \<times> 'w"
  os_mkdir :: "u8 list \<Rightarrow> 'w \<Rightarrow> int \<times> 'w"
  os_mknod :: "u8 list \<Rightarrow> int \<Rightarrow> int \<Rightarrow> 'w \<Rightarrow> 'w"
  os_sleep :: "int \<Rightarrow> 'w \<Rightarrow> 'w"

definition complain :: "'w os \<Rightarrow> int \<Rightarrow> u8 list \<Rightarrow> uarg list \<Rightarrow> int \<Rightarrow> 'w \<Rightarrow> 'w outcome option" where
  "complain os fd fmt ap status w = Option.bind (fprintf os fd (fmt @ [10]) ap w) (\<lambda>w. Some (Exits status w))"

definition finish :: "('w outcome + 'w) option \<Rightarrow> ('w \<Rightarrow> 'w outcome option) \<Rightarrow> 'w outcome option" where
  "finish r k = Option.bind r (\<lambda>x. case x of Inl out \<Rightarrow> Some out | Inr w \<Rightarrow> k w)"

section \<open>cat\<close>

partial_function (option) cat :: "'w os \<Rightarrow> int \<Rightarrow> 'w \<Rightarrow> ('w outcome + 'w) option" where
  "cat os fd w =
     (case os_read os fd 512 w of (r, w) \<Rightarrow>
      case r of
        None \<Rightarrow> map_option Inl (complain os 2 (cbytes ''cat: read error'') [] 1 w)
      | Some bs \<Rightarrow>
          if bs = [] then Some (Inr w)
          else
            case os_write os 1 bs w of (n, w) \<Rightarrow>
            if n \<noteq> int (length bs) then map_option Inl (complain os 2 (cbytes ''cat: write error'') [] 1 w)
            else cat os fd w)"

fun cat_files :: "'w os \<Rightarrow> u8 list list \<Rightarrow> 'w \<Rightarrow> 'w outcome option" where
  "cat_files os [] w = Some (Exits 0 w)"
| "cat_files os (a # argv) w =
     (case os_open os a 0 w of (fd, w) \<Rightarrow>
      if fd < 0 then complain os 2 (cbytes ''cat: cannot open %s'') [U_str (Some a)] 1 w
      else finish (cat os fd w) (\<lambda>w. cat_files os argv (os_close os fd w)))"

definition cat_main :: "'w os \<Rightarrow> u8 list list \<Rightarrow> 'w \<Rightarrow> 'w outcome option" where
  "cat_main os argv w = (if argv = [] then finish (cat os 0 w) (\<lambda>w. Some (Exits 0 w)) else cat_files os argv w)"

section \<open>wc\<close>

record counts =
  c_l :: i32
  c_w :: i32
  c_c :: i32
  c_inword :: bool

definition wc_byte :: "u8 \<Rightarrow> counts \<Rightarrow> counts" where
  "wc_byte b s =
     (let s = s\<lparr>c_c := c_c s + 1\<rparr>;
          s = (if b = 10 then s\<lparr>c_l := c_l s + 1\<rparr> else s) in
      if strchr [32, 13, 9, 10, 11] b \<noteq> None then s\<lparr>c_inword := False\<rparr>
      else if \<not> c_inword s then s\<lparr>c_w := c_w s + 1, c_inword := True\<rparr>
      else s)"

partial_function (option) wc_loop :: "'w os \<Rightarrow> int \<Rightarrow> counts \<Rightarrow> 'w \<Rightarrow> ('w outcome + counts \<times> 'w) option" where
  "wc_loop os fd s w =
     (case os_read os fd 512 w of (r, w) \<Rightarrow>
      case r of
        None \<Rightarrow> map_option Inl (complain os 1 (cbytes ''wc: read error'') [] 1 w)
      | Some bs \<Rightarrow> if bs = [] then Some (Inr (s, w)) else wc_loop os fd (fold wc_byte bs s) w)"

definition no_counts :: counts where
  "no_counts = \<lparr>c_l = 0, c_w = 0, c_c = 0, c_inword = False\<rparr>"

definition wc :: "'w os \<Rightarrow> int \<Rightarrow> u8 list \<Rightarrow> 'w \<Rightarrow> ('w outcome + 'w) option" where
  "wc os fd name w =
     Option.bind (wc_loop os fd no_counts w) (\<lambda>r. case r of
       Inl out \<Rightarrow> Some (Inl out)
     | Inr (s, w) \<Rightarrow>
         map_option Inr (printf_user os (cbytes ''%d %d %d %s'' @ [10]) [U_word (scast (c_l s)), U_word (scast (c_w s)), U_word (scast (c_c s)), U_str (Some name)] w))"

fun wc_files :: "'w os \<Rightarrow> u8 list list \<Rightarrow> 'w \<Rightarrow> 'w outcome option" where
  "wc_files os [] w = Some (Exits 0 w)"
| "wc_files os (a # argv) w =
     (case os_open os a 0 w of (fd, w) \<Rightarrow>
      if fd < 0 then complain os 1 (cbytes ''wc: cannot open %s'') [U_str (Some a)] 1 w
      else finish (wc os fd a w) (\<lambda>w. wc_files os argv (os_close os fd w)))"

definition wc_main :: "'w os \<Rightarrow> u8 list list \<Rightarrow> 'w \<Rightarrow> 'w outcome option" where
  "wc_main os argv w = (if argv = [] then finish (wc os 0 [] w) (\<lambda>w. Some (Exits 0 w)) else wc_files os argv w)"

section \<open>echo, kill, ln, mkdir, rm, zombie\<close>

fun echo_main :: "'w os \<Rightarrow> u8 list list \<Rightarrow> 'w \<Rightarrow> 'w outcome option" where
  "echo_main os [] w = Some (Exits 0 w)"
| "echo_main os (a # argv) w =
     (let w = snd (os_write os 1 (cstr a) w);
          w = snd (os_write os 1 (if argv \<noteq> [] then [32] else [10]) w) in
      echo_main os argv w)"

definition kill_main :: "'w os \<Rightarrow> 'w os_calls \<Rightarrow> u8 list list \<Rightarrow> 'w \<Rightarrow> 'w outcome option" where
  "kill_main os x argv w =
     (if argv = [] then complain os 2 (cbytes ''usage: kill pid...'') [] 1 w
      else Some (Exits 0 (fold (\<lambda>a. os_kill x (atoi a)) argv w)))"

definition ln_main :: "'w os \<Rightarrow> 'w os_calls \<Rightarrow> u8 list list \<Rightarrow> 'w \<Rightarrow> 'w outcome option" where
  "ln_main os x argv w =
     (case argv of
        [old, new] \<Rightarrow>
          (case os_link x old new w of (r, w) \<Rightarrow>
           if r < 0 then complain os 2 (cbytes ''link %s %s: failed'') [U_str (Some old), U_str (Some new)] 0 w
           else Some (Exits 0 w))
      | _ \<Rightarrow> complain os 2 (cbytes ''Usage: ln old new'') [] 1 w)"

fun mkdir_loop :: "'w os \<Rightarrow> 'w os_calls \<Rightarrow> u8 list list \<Rightarrow> 'w \<Rightarrow> 'w outcome option" where
  "mkdir_loop os x [] w = Some (Exits 0 w)"
| "mkdir_loop os x (a # argv) w =
     (case os_mkdir x a w of (r, w) \<Rightarrow>
      if r < 0 then complain os 2 (cbytes ''mkdir: %s failed to create'') [U_str (Some a)] 0 w
      else mkdir_loop os x argv w)"

definition mkdir_main :: "'w os \<Rightarrow> 'w os_calls \<Rightarrow> u8 list list \<Rightarrow> 'w \<Rightarrow> 'w outcome option" where
  "mkdir_main os x argv w =
     (if argv = [] then complain os 2 (cbytes ''Usage: mkdir files...'') [] 1 w else mkdir_loop os x argv w)"

fun rm_loop :: "'w os \<Rightarrow> 'w os_calls \<Rightarrow> u8 list list \<Rightarrow> 'w \<Rightarrow> 'w outcome option" where
  "rm_loop os x [] w = Some (Exits 0 w)"
| "rm_loop os x (a # argv) w =
     (case os_unlink x a w of (r, w) \<Rightarrow>
      if r < 0 then complain os 2 (cbytes ''rm: %s failed to delete'') [U_str (Some a)] 0 w
      else rm_loop os x argv w)"

definition rm_main :: "'w os \<Rightarrow> 'w os_calls \<Rightarrow> u8 list list \<Rightarrow> 'w \<Rightarrow> 'w outcome option" where
  "rm_main os x argv w =
     (if argv = [] then complain os 2 (cbytes ''Usage: rm files...'') [] 1 w else rm_loop os x argv w)"

definition zombie_main :: "'w os \<Rightarrow> 'w os_calls \<Rightarrow> 'w \<Rightarrow> 'w outcome option" where
  "zombie_main os x w = (case os_fork os w of (pid, w) \<Rightarrow> Some (Exits 0 (if pid > 0 then os_sleep x 5 w else w)))"

section \<open>ls\<close>

definition DIRSIZ_user :: nat where "DIRSIZ_user = 14"

text \<open>The name behind the last slash, padded with blanks.\<close>

definition fmtname :: "u8 list \<Rightarrow> u8 list" where
  "fmtname path =
     (let p = rev (takeWhile (\<lambda>c. c \<noteq> 47) (rev (cstr path))) in
      if length p \<ge> DIRSIZ_user then p else p @ replicate (DIRSIZ_user - length p) 32)"

text \<open>\<^verbatim>\<open>struct stat\<close> as \<^verbatim>\<open>fstat\<close> stores it.\<close>

definition st_ino :: "u8 list \<Rightarrow> u32" where "st_ino st = from_le (take 4 (drop 4 st))"
definition st_type :: "u8 list \<Rightarrow> u16" where "st_type st = from_le (take 2 (drop 8 st))"
definition st_size :: "u8 list \<Rightarrow> u64" where "st_size st = from_le (take 8 (drop 16 st))"

definition ls_line :: "'w os \<Rightarrow> u8 list \<Rightarrow> u8 list \<Rightarrow> u8 list \<Rightarrow> 'w \<Rightarrow> 'w option" where
  "ls_line os fmt path st w =
     printf_user os (fmt @ [10]) [U_str (Some (fmtname path)), U_word (scast (st_type st)), U_word (ucast (st_ino st)), U_word (st_size st)] w"

partial_function (option) ls_entries :: "'w os \<Rightarrow> int \<Rightarrow> u8 list \<Rightarrow> 'w \<Rightarrow> 'w option" where
  "ls_entries os fd path w =
     (case os_read os fd 16 w of (r, w) \<Rightarrow>
      case r of
        None \<Rightarrow> Some w
      | Some de \<Rightarrow>
          if length de \<noteq> 16 then Some w
          else if (from_le (take 2 de) :: u16) = 0 then ls_entries os fd path w
          else
            let buf = cstr path @ [47] @ take DIRSIZ_user (drop 2 de) @ [0] in
            (case stat_path os buf w of ((r, st), w) \<Rightarrow>
             Option.bind
               (if r < 0 then printf_user os (cbytes ''ls: cannot stat %s'' @ [10]) [U_str (Some buf)] w
                else ls_line os (cbytes ''%s %d %d %d'') buf st w)
               (\<lambda>w. ls_entries os fd path w)))"

definition ls :: "'w os \<Rightarrow> u8 list \<Rightarrow> 'w \<Rightarrow> 'w option" where
  "ls os path w =
     (case os_open os path 0 w of (fd, w) \<Rightarrow>
      if fd < 0 then fprintf os 2 (cbytes ''ls: cannot open %s'' @ [10]) [U_str (Some path)] w
      else
        case os_fstat os fd w of ((r, st), w) \<Rightarrow>
        if r < 0 then map_option (os_close os fd) (fprintf os 2 (cbytes ''ls: cannot stat %s'' @ [10]) [U_str (Some path)] w)
        else
          map_option (os_close os fd)
            (if st_type st = 2 then ls_line os (cbytes ''%s %d %d %l'') path st w
             else if st_type st = 1 then
               if strlen path + 1 + DIRSIZ_user + 1 > 512 then printf_user os (cbytes ''ls: path too long'' @ [10]) [] w
               else ls_entries os fd path w
             else Some w))"

fun ls_args :: "'w os \<Rightarrow> u8 list list \<Rightarrow> 'w \<Rightarrow> 'w outcome option" where
  "ls_args os [] w = Some (Exits 0 w)"
| "ls_args os (a # argv) w = Option.bind (ls os a w) (ls_args os argv)"

definition ls_main :: "'w os \<Rightarrow> u8 list list \<Rightarrow> 'w \<Rightarrow> 'w outcome option" where
  "ls_main os argv w = (if argv = [] then Option.bind (ls os (cbytes ''.'') w) (\<lambda>w. Some (Exits 0 w)) else ls_args os argv w)"

section \<open>init\<close>

text \<open>The inner loop waits until the shell has exited.\<close>

partial_function (option) init_wait :: "'w os \<Rightarrow> int \<Rightarrow> 'w \<Rightarrow> ('w outcome + 'w) option" where
  "init_wait os pid w =
     (case os_wait os w of (wpid, w) \<Rightarrow>
      if wpid = pid then Some (Inr w)
      else if wpid < 0 then map_option Inl (complain os 1 (cbytes ''init: wait returned an error'') [] 1 w)
      else init_wait os pid w)"

partial_function (option) init_loop :: "'w os \<Rightarrow> 'w \<Rightarrow> 'w outcome option" where
  "init_loop os w =
     Option.bind (printf_user os (cbytes ''init: starting sh'' @ [10]) [] w) (\<lambda>w.
     case os_fork os w of (pid, w) \<Rightarrow>
     if pid < 0 then complain os 1 (cbytes ''init: fork failed'') [] 1 w
     else if pid = 0 then
       case os_exec os (cbytes ''sh'') [cbytes ''sh''] w of (ok, w) \<Rightarrow>
       if ok then Some (Execs w) else complain os 1 (cbytes ''init: exec sh failed'') [] 1 w
     else
       Option.bind (init_wait os pid w) (\<lambda>r. case r of Inl out \<Rightarrow> Some out | Inr w \<Rightarrow> init_loop os w))"

definition init_main :: "'w os \<Rightarrow> 'w os_calls \<Rightarrow> 'w \<Rightarrow> 'w outcome option" where
  "init_main os x w =
     (case os_open os (cbytes ''console'') O_RDWR w of (fd, w) \<Rightarrow>
      let w = (if fd < 0 then snd (os_open os (cbytes ''console'') O_RDWR (os_mknod x (cbytes ''console'') 1 0 w)) else w);
          w = os_dup os 0 w;
          w = os_dup os 0 w in
      init_loop os w)"

section \<open>What cat and wc do with a file\<close>

text \<open>
  A system that serves the program: \<^verbatim>\<open>read\<close> returns some more bytes of the input until it is used up, \<^verbatim>\<open>write\<close> appends all bytes
  to the output. \<^verbatim>\<open>inp\<close> and \<^verbatim>\<open>out\<close> are the rest of the input and the output in a state of the system.
\<close>

definition serves_input :: "'w os \<Rightarrow> int \<Rightarrow> ('w \<Rightarrow> u8 list) \<Rightarrow> ('w \<Rightarrow> u8 list) \<Rightarrow> bool" where
  "serves_input os fd inp out \<longleftrightarrow>
     (\<forall>w n. 0 < n \<longrightarrow> (\<exists>k w'. os_read os fd n w = (Some (take k (inp w)), w') \<and> k \<le> n \<and> (inp w \<noteq> [] \<longrightarrow> 0 < k)
        \<and> inp w' = drop k (inp w) \<and> out w' = out w))"

definition serves_output :: "'w os \<Rightarrow> ('w \<Rightarrow> u8 list) \<Rightarrow> ('w \<Rightarrow> u8 list) \<Rightarrow> bool" where
  "serves_output os inp out \<longleftrightarrow> (\<forall>bs w. \<exists>w'. os_write os 1 bs w = (int (length bs), w') \<and> out w' = out w @ bs \<and> inp w' = inp w)"

lemma serves_inputD:
  assumes "serves_input os fd inp out"
  obtains k w' where "os_read os fd 512 w = (Some (take k (inp w)), w')" "inp w \<noteq> [] \<longrightarrow> 0 < k" "inp w' = drop k (inp w)" "out w' = out w"
  using assms unfolding serves_input_def by (metis zero_less_numeral)

lemma cat_copies:
  assumes "serves_input os fd inp out" and "serves_output os inp out"
  shows "\<exists>w'. cat os fd w = Some (Inr w') \<and> out w' = out w @ inp w \<and> inp w' = []"
proof (induction "length (inp w)" arbitrary: w rule: less_induct)
  case less
  from serves_inputD [OF assms(1), of w] obtain k w1 where
    r: "os_read os fd 512 w = (Some (take k (inp w)), w1)" "inp w \<noteq> [] \<longrightarrow> 0 < k" "inp w1 = drop k (inp w)" "out w1 = out w" by blast
  show ?case
  proof (cases "inp w = []")
    case True
    then show ?thesis using r by (subst cat.simps) simp
  next
    case False
    obtain w2 where w: "os_write os 1 (take k (inp w)) w1 = (int (length (take k (inp w))), w2)" "out w2 = out w1 @ take k (inp w)" "inp w2 = inp w1"
      using assms(2) unfolding serves_output_def by blast
    have "length (inp w2) < length (inp w)" using False r(2,3) w(3) by simp
    from less [OF this] obtain w3 where "cat os fd w2 = Some (Inr w3)" "out w3 = out w2 @ inp w2" "inp w3 = []" by blast
    then show ?thesis using False r w by (subst cat.simps) simp
  qed
qed

lemma wc_loop_counts:
  assumes "serves_input os fd inp out"
  shows "\<exists>w'. wc_loop os fd s w = Some (Inr (fold wc_byte (inp w) s, w')) \<and> inp w' = []"
proof (induction "length (inp w)" arbitrary: s w rule: less_induct)
  case less
  from serves_inputD [OF assms, of w] obtain k w1 where
    r: "os_read os fd 512 w = (Some (take k (inp w)), w1)" "inp w \<noteq> [] \<longrightarrow> 0 < k" "inp w1 = drop k (inp w)" by blast
  show ?case
  proof (cases "inp w = []")
    case True
    then show ?thesis using r by (subst wc_loop.simps) simp
  next
    case False
    have "length (inp w1) < length (inp w)" using False r(2,3) by simp
    from less [OF this, of "fold wc_byte (take k (inp w)) s"] obtain w2 where
      "wc_loop os fd (fold wc_byte (take k (inp w)) s) w1 = Some (Inr (fold wc_byte (inp w1) (fold wc_byte (take k (inp w)) s), w2))" "inp w2 = []" by blast
    moreover have "fold wc_byte (drop k (inp w)) (fold wc_byte (take k (inp w)) s) = fold wc_byte (inp w) s"
      by (metis append_take_drop_id comp_apply fold_append)
    ultimately show ?thesis using False r by (subst wc_loop.simps) simp
  qed
qed

text \<open>The counts are those of lines, of the places where a word starts, and of bytes.\<close>

definition blank :: "u8 \<Rightarrow> bool" where
  "blank b \<longleftrightarrow> b \<in> {32, 13, 9, 10, 11}"

definition word_starts :: "u8 list \<Rightarrow> nat set" where
  "word_starts bs = {i. i < length bs \<and> \<not> blank (bs ! i) \<and> (i = 0 \<or> blank (bs ! (i - 1)))}"

lemma strchr_blank: "strchr [32, 13, 9, 10, 11] b \<noteq> None \<longleftrightarrow> blank b"
  by (auto simp: blank_def)

lemma word_starts_snoc:
  "word_starts (bs @ [b]) = word_starts bs \<union> (if \<not> blank b \<and> (bs = [] \<or> blank (last bs)) then {length bs} else {})"
  by (cases "bs = []") (auto simp: word_starts_def nth_append last_conv_nth less_Suc_eq)

lemma wc_counts:
  "fold wc_byte bs no_counts =
     \<lparr>c_l = of_nat (length (filter (\<lambda>b. b = 10) bs)), c_w = of_nat (card (word_starts bs)), c_c = of_nat (length bs),
      c_inword = (bs \<noteq> [] \<and> \<not> blank (last bs))\<rparr>"
proof (induction bs rule: rev_induct)
  case Nil
  then show ?case by (simp add: no_counts_def word_starts_def)
next
  case (snoc b bs)
  have fin: "finite (word_starts bs)" "length bs \<notin> word_starts bs" by (simp_all add: word_starts_def)
  have "wc_byte b s = s\<lparr>c_l := c_l s + (if b = 10 then 1 else 0), c_w := c_w s + (if \<not> blank b \<and> \<not> c_inword s then 1 else 0), c_c := c_c s + 1,
      c_inword := \<not> blank b\<rparr>" for s
    unfolding wc_byte_def strchr_blank by (cases "b = 10") (simp_all add: Let_def blank_def)
  moreover have "card (word_starts (bs @ [b])) = card (word_starts bs) + (if \<not> blank b \<and> (bs = [] \<or> blank (last bs)) then 1 else 0)"
    using fin by (simp add: word_starts_snoc)
  ultimately show ?case using snoc by simp
qed

end
