(* ===== verification/Umalloc.thy ===== *)
theory Umalloc
  imports Ulib
begin

text \<open>
  The allocator of the user programs (\<^verbatim>\<open>user/umalloc.c\<close>). A header is named by its address and holds 16 bytes; a block of
  \<^verbatim>\<open>size\<close> units starts with its header. The store maps the address of a header to its content. The invariant below
  keeps all headers apart, so that a store to one never changes a part of another. \<^verbatim>\<open>base\<close> is the address the linker gives
  the variable of this name; \<^verbatim>\<open>sbrk\<close> is the system call.
\<close>

section \<open>The code\<close>

record header =
  s_ptr :: addr
  s_size :: u32

record 'w heap =
  hdr :: "addr \<Rightarrow> header"
  freep :: addr
  sys :: 'w

definition set_ptr :: "addr \<Rightarrow> addr \<Rightarrow> 'w heap \<Rightarrow> 'w heap" where
  "set_ptr p q s = s\<lparr>hdr := (hdr s)(p := (hdr s p)\<lparr>s_ptr := q\<rparr>)\<rparr>"

definition set_size :: "addr \<Rightarrow> u32 \<Rightarrow> 'w heap \<Rightarrow> 'w heap" where
  "set_size p n s = s\<lparr>hdr := (hdr s)(p := (hdr s p)\<lparr>s_size := n\<rparr>)\<rparr>"

text \<open>Pointer arithmetic on headers counts units of 16 bytes.\<close>

definition plus_units :: "addr \<Rightarrow> u32 \<Rightarrow> addr" where
  "plus_units p n = p + 16 * ucast n"

partial_function (option) free_find :: "(addr \<Rightarrow> header) \<Rightarrow> addr \<Rightarrow> addr \<Rightarrow> addr option" where
  "free_find h bp p =
     (if bp > p \<and> bp < s_ptr (h p) then Some p
      else if p \<ge> s_ptr (h p) \<and> (bp > p \<or> bp < s_ptr (h p)) then Some p
      else free_find h bp (s_ptr (h p)))"

definition join_next :: "addr \<Rightarrow> addr \<Rightarrow> 'w heap \<Rightarrow> 'w heap" where
  "join_next bp p s =
     (let q = s_ptr (hdr s p) in
      if plus_units bp (s_size (hdr s bp)) = q
      then let s = set_size bp (s_size (hdr s bp) + s_size (hdr s q)) s in set_ptr bp (s_ptr (hdr s (s_ptr (hdr s p)))) s
      else set_ptr bp q s)"

definition join_prev :: "addr \<Rightarrow> addr \<Rightarrow> 'w heap \<Rightarrow> 'w heap" where
  "join_prev bp p s =
     (if plus_units p (s_size (hdr s p)) = bp
      then let s = set_size p (s_size (hdr s p) + s_size (hdr s bp)) s in set_ptr p (s_ptr (hdr s bp)) s
      else set_ptr p bp s)"

definition free :: "addr \<Rightarrow> 'w heap \<Rightarrow> 'w heap option" where
  "free ap s =
     (let bp = ap - 16 in
      Option.bind (free_find (hdr s) bp (freep s)) (\<lambda>p. Some ((join_prev bp p (join_next bp p s))\<lparr>freep := p\<rparr>)))"

definition morecore :: "'w os \<Rightarrow> u32 \<Rightarrow> 'w heap \<Rightarrow> (addr \<times> 'w heap) option" where
  "morecore os nu s =
     (let nu = (if nu < 4096 then 4096 else nu);
          (p, w) = os_sbrk os (ucast (ucast nu * 16 :: u64)) (sys s);
          s = s\<lparr>sys := w\<rparr> in
      if p = -1 then Some (0, s)
      else Option.bind (free (p + 16) (set_size p nu s)) (\<lambda>s. Some (freep s, s)))"

definition carve :: "u32 \<Rightarrow> addr \<Rightarrow> addr \<Rightarrow> 'w heap \<Rightarrow> addr \<times> 'w heap" where
  "carve nunits prevp p s =
     (let (p, s) =
        (if s_size (hdr s p) = nunits then (p, set_ptr prevp (s_ptr (hdr s p)) s)
         else let s = set_size p (s_size (hdr s p) - nunits) s; p = plus_units p (s_size (hdr s p)) in (p, set_size p nunits s)) in
      (p + 16, s\<lparr>freep := prevp\<rparr>))"

partial_function (option) malloc_loop :: "'w os \<Rightarrow> u32 \<Rightarrow> addr \<Rightarrow> addr \<Rightarrow> 'w heap \<Rightarrow> (addr \<times> 'w heap) option" where
  "malloc_loop os nunits prevp p s =
     (if s_size (hdr s p) \<ge> nunits then Some (carve nunits prevp p s)
      else if p = freep s then
        Option.bind (morecore os nunits s) (\<lambda>(p, s).
        if p = 0 then Some (0, s) else malloc_loop os nunits p (s_ptr (hdr s p)) s)
      else malloc_loop os nunits p (s_ptr (hdr s p)) s)"

definition units_for :: "u32 \<Rightarrow> u32" where
  "units_for nbytes = ucast ((ucast nbytes + 16 - 1 :: u64) div 16 + 1)"

definition malloc :: "'w os \<Rightarrow> addr \<Rightarrow> u32 \<Rightarrow> 'w heap \<Rightarrow> (addr \<times> 'w heap) option" where
  "malloc os base nbytes s =
     (let nunits = units_for nbytes;
          s = (if freep s = 0 then set_size base 0 ((set_ptr base base s)\<lparr>freep := base\<rparr>) else s) in
      malloc_loop os nunits (freep s) (s_ptr (hdr s (freep s))) s)"

section \<open>The ring of free blocks\<close>

fun path :: "(addr \<Rightarrow> header) \<Rightarrow> addr \<Rightarrow> addr list \<Rightarrow> addr \<Rightarrow> bool" where
  "path h x [] z \<longleftrightarrow> x = z"
| "path h x (y # ys) z \<longleftrightarrow> x = y \<and> path h (s_ptr (h y)) ys z"

lemma path_append [simp]: "path h x (xs @ ys) z \<longleftrightarrow> (\<exists>y. path h x xs y \<and> path h y ys z)"
  by (induction xs arbitrary: x) auto

lemma path_cong: "(\<And>x. x \<in> set xs \<Longrightarrow> s_ptr (h' x) = s_ptr (h x)) \<Longrightarrow> path h' x xs z = path h x xs z"
  by (induction xs arbitrary: x) auto

lemma path_upd [simp]: "u \<notin> set xs \<Longrightarrow> path (h(u := v)) x xs z = path h x xs z"
  by (rule path_cong) auto

lemma path_succ: "path h b (xs @ y # r) z \<Longrightarrow> s_ptr (h y) = hd (r @ [z])"
  by (cases r) auto

text \<open>From every block of a ring a walk leads to every other.\<close>

lemma ring_walk:
  assumes "path h b ns b" and "f \<in> set ns" and "m \<in> set ns"
  shows "\<exists>xs. path h f (xs @ [m]) (s_ptr (h m)) \<and> m \<notin> set xs \<and> set xs \<subseteq> set ns"
proof -
  from split_list [OF assms(2)] obtain ys zs where ns: "ns = ys @ f # zs" by blast
  have ring: "path h f (f # zs @ ys) f" using assms(1) by (auto simp: ns)
  have "m \<in> set (f # zs @ ys)" using assms(3) by (auto simp: ns)
  from split_list_first [OF this] obtain xs r where xs: "f # zs @ ys = xs @ m # r" "m \<notin> set xs" by blast
  have "path h f (xs @ m # r) f" using ring by (simp only: xs(1))
  then have "path h f (xs @ [m]) (s_ptr (h m))" by auto
  moreover have "set (f # zs @ ys) = set ns" by (auto simp: ns)
  then have "set xs \<subseteq> set ns" unfolding xs(1) by auto
  ultimately show ?thesis using xs(2) by blast
qed

text \<open>The condition on which the loop of \<^verbatim>\<open>free\<close> ends at \<^verbatim>\<open>y\<close>.\<close>

definition stops :: "(addr \<Rightarrow> header) \<Rightarrow> addr \<Rightarrow> addr \<Rightarrow> bool" where
  "stops h bp y \<longleftrightarrow> y < bp \<and> bp < s_ptr (h y) \<or> s_ptr (h y) \<le> y \<and> (y < bp \<or> bp < s_ptr (h y))"

lemma free_find_walk:
  "path h x (xs @ [m]) z \<Longrightarrow> \<forall>y\<in>set xs. \<not> stops h bp y \<Longrightarrow> stops h bp m \<Longrightarrow> free_find h bp x = Some m"
proof (induction xs arbitrary: x)
  case Nil
  then have "x = m" by simp
  then show ?case using Nil.prems(3) by (subst free_find.simps) (auto simp: stops_def)
next
  case (Cons y ys)
  then have "free_find h bp (s_ptr (h y)) = Some m" and x: "x = y" "\<not> stops h bp y" by auto
  then show ?case unfolding x(1) stops_def by (subst free_find.simps) auto
qed

lemma ascending_split:
  "sorted_wrt (<) (b # bs) \<Longrightarrow> b < bp \<Longrightarrow> bp \<notin> set bs \<Longrightarrow>
     \<exists>ys m zs. b # bs = ys @ m # zs \<and> (\<forall>x\<in>set ys \<union> {m}. x < bp) \<and> (\<forall>x\<in>set zs. bp < x)" for bp :: addr
proof (induction bs arbitrary: b)
  case Nil
  then show ?case by (intro exI [of _ "[]"] exI [of _ b]) simp
next
  case (Cons c cs)
  show ?case
  proof (cases "c < bp")
    case True
    have "sorted_wrt (<) (c # cs)" "bp \<notin> set cs" using Cons.prems by auto
    from Cons.IH [OF this(1) True this(2)] obtain ys m zs where
      "c # cs = ys @ m # zs" "\<forall>x\<in>set ys \<union> {m}. x < bp" "\<forall>x\<in>set zs. bp < x" by blast
    then show ?thesis using Cons.prems(2) by (intro exI [of _ "b # ys"] exI [of _ m] exI [of _ zs]) auto
  next
    case False
    then have "\<forall>x\<in>set (c # cs). bp < x" using Cons.prems by auto
    then show ?thesis using Cons.prems(2) by (intro exI [of _ "[]"] exI [of _ b] exI [of _ "c # cs"]) auto
  qed
qed

lemma stops_exactly:
  assumes ring: "path h base (ys @ m # zs) base" and asc: "sorted_wrt (<) (ys @ m # zs)" and b: "base \<le> m" "base < bp"
    and l: "\<forall>x\<in>set ys \<union> {m}. x < bp" and g: "\<forall>x\<in>set zs. bp < x"
  shows "stops h bp m" and "y \<in> set (ys @ m # zs) \<Longrightarrow> y \<noteq> m \<Longrightarrow> \<not> stops h bp y"
proof -
  have "s_ptr (h m) = hd (zs @ [base])" using path_succ [OF ring] .
  then show "stops h bp m" using l g b by (cases zs) (auto simp: stops_def)
next
  assume "y \<in> set (ys @ m # zs)" "y \<noteq> m"
  then consider ys1 ys2 where "ys = ys1 @ y # ys2" | zs1 zs2 where "zs = zs1 @ y # zs2" by (auto dest: split_list)
  then show "\<not> stops h bp y"
  proof cases
    case 1
    then have "s_ptr (h y) = hd ((ys2 @ m # zs) @ [base])" using path_succ [of h base ys1 y "ys2 @ m # zs" base] ring by simp
    then have "s_ptr (h y) \<in> set (ys2 @ [m])" by (cases ys2) auto
    then have "y < s_ptr (h y)" "s_ptr (h y) < bp" using asc l by (auto simp: 1 sorted_wrt_append)
    then show ?thesis by (auto simp: stops_def)
  next
    case 2
    then have s: "s_ptr (h y) = hd (zs2 @ [base])" using path_succ [of h base "ys @ m # zs1" y zs2 base] ring by simp
    have y: "bp < y" using g 2 by simp
    show ?thesis
    proof (cases zs2)
      case Nil
      then show ?thesis using s y b by (auto simp: stops_def)
    next
      case (Cons q r)
      then have "y < q" using asc 2 by (simp add: sorted_wrt_append)
      then show ?thesis using s y Cons by (auto simp: stops_def)
    qed
  qed
qed

section \<open>The invariant\<close>

text \<open>
  A block lies from its header to \<^verbatim>\<open>fin\<close>. \<^verbatim>\<open>heap_ok\<close> says of the blocks \<^verbatim>\<open>ns\<close> on the ring and of the blocks \<^verbatim>\<open>U\<close> in use: the ring
  starts at \<^verbatim>\<open>base\<close> and ascends, blocks lie between \<^verbatim>\<open>base\<close> and the break, no two of them share a byte, and together they are the
  memory \<^verbatim>\<open>A\<close>. \<^verbatim>\<open>coalesced\<close> says that no free block ends where the next one starts.
\<close>

definition fin :: "(addr \<Rightarrow> header) \<Rightarrow> addr \<Rightarrow> nat" where
  "fin h x = unat x + 16 * unat (s_size (h x))"

definition ext :: "(addr \<Rightarrow> header) \<Rightarrow> addr \<Rightarrow> nat set" where
  "ext h x = {unat x ..< fin h x}"

definition heap_ok :: "addr \<Rightarrow> nat \<Rightarrow> nat set \<Rightarrow> (addr \<Rightarrow> header) \<Rightarrow> addr list \<Rightarrow> addr set \<Rightarrow> bool" where
  "heap_ok base brk A h ns U \<longleftrightarrow>
     path h base ns base \<and> ns \<noteq> [] \<and> sorted_wrt (\<lambda>x y. x < y \<and> fin h x \<le> unat y) ns \<and> s_size (h base) = 0 \<and> 0 < base \<and> base \<notin> U
     \<and> unat base + 16 \<le> brk \<and> brk \<le> 2 ^ 32
     \<and> (\<forall>b\<in>set ns \<union> U - {base}. s_size (h b) \<noteq> 0 \<and> unat base + 16 \<le> unat b \<and> fin h b \<le> brk)
     \<and> set ns \<inter> U = {} \<and> (\<forall>u\<in>U. \<forall>v\<in>set ns \<union> U. u \<noteq> v \<longrightarrow> ext h u \<inter> ext h v = {})
     \<and> (\<Union>b\<in>set ns \<union> U. ext h b) = A"

definition coalesced :: "(addr \<Rightarrow> header) \<Rightarrow> addr list \<Rightarrow> bool" where
  "coalesced h ns \<longleftrightarrow> successively (\<lambda>x y. fin h x \<noteq> unat y) ns"

lemma ext_cong: "s_size (h' x) = s_size (h x) \<Longrightarrow> ext h' x = ext h x"
  and fin_cong: "s_size (h' x) = s_size (h x) \<Longrightarrow> fin h' x = fin h x"
  by (simp_all add: ext_def fin_def)

lemma apart_before: "ext h a \<inter> ext h b = {} \<Longrightarrow> s_size (h a) \<noteq> 0 \<Longrightarrow> s_size (h b) \<noteq> 0 \<Longrightarrow> a < b \<Longrightarrow> fin h a \<le> unat b"
proof (rule ccontr)
  assume a: "ext h a \<inter> ext h b = {}" "s_size (h b) \<noteq> 0" "a < b" "\<not> fin h a \<le> unat b"
  have "0 < unat (s_size (h b))" using a(2) by (simp add: unat_gt_0)
  then have "unat b \<in> ext h a \<inter> ext h b" using a(3,4) by (simp add: ext_def fin_def word_less_nat_alt)
  then show False using a(1) by blast
qed

lemma heap_okD:
  assumes "heap_ok base brk A h ns U"
  shows "path h base ns base" "sorted_wrt (\<lambda>x y. x < y \<and> fin h x \<le> unat y) ns" "s_size (h base) = 0" "0 < base" "base \<notin> U"
    "unat base + 16 \<le> brk" "brk \<le> 2 ^ 32" "set ns \<inter> U = {}" "(\<Union>b\<in>set ns \<union> U. ext h b) = A"
  using assms by (auto simp: heap_ok_def)

lemma heap_ok_ascending:
  assumes "heap_ok base brk A h ns U"
  shows "sorted_wrt (<) ns" and "distinct ns" and "\<exists>bs. ns = base # bs"
proof -
  show s: "sorted_wrt (<) ns" using heap_okD(2) [OF assms] by (rule sorted_wrt_mono_rel [rotated]) simp
  then show "distinct ns" by (induction ns) auto
  show "\<exists>bs. ns = base # bs" using assms by (cases ns) (auto simp: heap_ok_def)
qed

lemma heap_ok_block:
  assumes "heap_ok base brk A h ns U" and "b \<in> set ns \<union> U" and "b \<noteq> base"
  shows "s_size (h b) \<noteq> 0" "unat base + 16 \<le> unat b" "fin h b \<le> brk" "base < b"
proof -
  show b: "s_size (h b) \<noteq> 0" "unat base + 16 \<le> unat b" "fin h b \<le> brk" using assms by (auto simp: heap_ok_def)
  show "base < b" using b(2) by (simp add: word_less_nat_alt)
qed

lemma heap_ok_nonzero:
  assumes "heap_ok base brk A h ns U" and "x \<in> set ns"
  shows "x \<noteq> 0"
proof -
  have "base \<le> x" using heap_ok_block(4) [OF assms(1), of x] assms(2) by (cases "x = base") auto
  with heap_okD(4) [OF assms(1)] have "0 < x" by (rule order_less_le_trans)
  then show ?thesis by auto
qed

lemma sorted_apart:
  "sorted_wrt (\<lambda>x y. x < y \<and> fin h x \<le> unat y) ns \<Longrightarrow> x \<in> set ns \<Longrightarrow> y \<in> set ns \<Longrightarrow> x \<noteq> y \<Longrightarrow> ext h x \<inter> ext h y = {}"
proof (induction ns)
  case (Cons z zs)
  have "ext h z \<inter> ext h v = {}" if "v \<in> set zs" for v
  proof -
    have "fin h z \<le> unat v" using Cons.prems(1) that by simp
    then show ?thesis by (auto simp: ext_def)
  qed
  then show ?case using Cons by auto
qed simp

lemma heap_ok_apart:
  assumes "heap_ok base brk A h ns U" and "x \<in> set ns \<union> U" and "y \<in> set ns \<union> U" and "x \<noteq> y"
  shows "ext h x \<inter> ext h y = {}"
proof -
  have d: "\<forall>u\<in>U. \<forall>v\<in>set ns \<union> U. u \<noteq> v \<longrightarrow> ext h u \<inter> ext h v = {}" using assms(1) by (simp add: heap_ok_def)
  consider "x \<in> U" | "y \<in> U" | "x \<in> set ns" "y \<in> set ns" using assms(2,3) by auto
  then show ?thesis
  proof cases
    case 1
    then show ?thesis using d [rule_format, of x y] assms(3,4) by simp
  next
    case 2
    then have "ext h y \<inter> ext h x = {}" using d [rule_format, of y x] assms(2,4) by simp
    then show ?thesis by (simp add: Int_commute)
  next
    case 3
    then show ?thesis by (rule sorted_apart [OF heap_okD(2) [OF assms(1)] _ _ assms(4)])
  qed
qed

lemma heap_ok_before:
  assumes "heap_ok base brk A h ns U" and "x \<in> set ns \<union> U" and "y \<in> set ns \<union> U" and "x < y"
  shows "fin h x \<le> unat y"
proof (cases "x = base")
  case True
  then show ?thesis using heap_okD(3) [OF assms(1)] assms(4) by (simp add: fin_def word_less_nat_alt)
next
  case False
  have "y \<noteq> base" using heap_ok_block(4) [OF assms(1,2) False] assms(4) by auto
  moreover have "x \<noteq> y" using assms(4) by simp
  ultimately show ?thesis
    by (intro apart_before [OF _ _ _ assms(4)] heap_ok_apart [OF assms(1-3)] heap_ok_block(1) [OF assms(1,2) False] heap_ok_block(1) [OF assms(1,3)])
qed

text \<open>The loop of \<^verbatim>\<open>free\<close> ends, at the last free block below the one it returns.\<close>

lemma free_find_ok:
  assumes ok: "heap_ok base brk A h ns U" and f: "f \<in> set ns" and bp: "bp \<in> U"
  shows "\<exists>ys m zs. ns = ys @ m # zs \<and> free_find h bp f = Some m \<and> (\<forall>x\<in>set ys \<union> {m}. x < bp) \<and> (\<forall>x\<in>set zs. bp < x)"
proof -
  note D = heap_okD [OF ok] and S = heap_ok_ascending [OF ok]
  from S(3) obtain bs where bs: "ns = base # bs" by blast
  have "bp \<noteq> base" using bp D(5) by auto
  then have lt: "base < bp" using heap_ok_block(4) [OF ok _] bp by simp
  have "bp \<notin> set bs" using D(8) bp by (auto simp: bs)
  from ascending_split [OF S(1) [unfolded bs] lt this] obtain ys m zs where
    split: "ns = ys @ m # zs" "\<forall>x\<in>set ys \<union> {m}. x < bp" "\<forall>x\<in>set zs. bp < x" unfolding bs by blast
  have m: "m \<in> set ns" by (simp add: split(1))
  have "base \<le> m" using heap_ok_block(4) [OF ok, of m] m by (cases "m = base") auto
  note st = stops_exactly [OF D(1) [unfolded split(1)] S(1) [unfolded split(1)] this lt split(2,3)]
  from ring_walk [OF D(1) f m] obtain xs where xs: "path h f (xs @ [m]) (s_ptr (h m))" "m \<notin> set xs" "set xs \<subseteq> set ns" by blast
  have "\<forall>y\<in>set xs. \<not> stops h bp y" using st(2) xs(2,3) unfolding split(1) by blast
  from free_find_walk [OF xs(1) this st(1)] show ?thesis using split by (intro exI [of _ ys] exI [of _ m] exI [of _ zs] conjI)
qed

section \<open>Steps on the ring\<close>

text \<open>A block in use is put on the ring.\<close>

lemma heap_ok_link:
  assumes ok: "heap_ok base brk A h (ys @ m # zs) U" and bp: "bp \<in> U"
    and l: "\<forall>x\<in>set ys \<union> {m}. x < bp" and g: "\<forall>x\<in>set zs. bp < x"
    and h': "h' = h(bp := (h bp)\<lparr>s_ptr := s_ptr (h m)\<rparr>, m := (h m)\<lparr>s_ptr := bp\<rparr>)"
  shows "heap_ok base brk A h' (ys @ m # bp # zs) (U - {bp})"
proof -
  note D = heap_okD [OF ok] and S = heap_ok_ascending(2) [OF ok]
  have size: "s_size (h' x) = s_size (h x)" for x by (simp add: h')
  note F = fin_cong [of h' _ h, OF size] ext_cong [of h' _ h, OF size]
  have ne: "bp \<notin> set (ys @ m # zs)" using D(8) bp by blast
  have sets: "set (ys @ m # bp # zs) \<union> (U - {bp}) = set (ys @ m # zs) \<union> U" using bp by auto
  have "path h base ys m" "path h (s_ptr (h m)) zs base" using D(1) by auto
  then have "path h' base (ys @ m # bp # zs) base"
    using S ne by (simp add: h')
  moreover have "sorted_wrt (\<lambda>x y. x < y \<and> fin h x \<le> unat y) (ys @ m # bp # zs)"
  proof -
    have "\<forall>x\<in>set ys \<union> {m}. fin h x \<le> unat bp" using l bp by (auto intro!: heap_ok_before [OF ok])
    moreover have "\<forall>x\<in>set zs. fin h bp \<le> unat x" using g bp by (auto intro!: heap_ok_before [OF ok])
    ultimately show ?thesis using D(2) l g by (auto simp: sorted_wrt_append)
  qed
  moreover have "\<forall>u\<in>U - {bp}. \<forall>v\<in>set (ys @ m # zs) \<union> U. u \<noteq> v \<longrightarrow> ext h u \<inter> ext h v = {}"
    using heap_ok_apart [OF ok] by simp
  moreover have "\<forall>b\<in>set (ys @ m # zs) \<union> U - {base}. s_size (h b) \<noteq> 0 \<and> unat base + 16 \<le> unat b \<and> fin h b \<le> brk"
    using heap_ok_block [OF ok] by simp
  moreover have "set (ys @ m # bp # zs) \<inter> (U - {bp}) = {}" using D(8) by auto
  ultimately show ?thesis unfolding heap_ok_def F size sets using D(3-7,9) by auto
qed

text \<open>A free block takes up the next one, which starts where it ends.\<close>

lemma heap_ok_merge:
  assumes ok: "heap_ok base brk A h (xs @ a # b # r) U" and e: "fin h a = unat b"
    and h': "h' = h(a := \<lparr>s_ptr = s_ptr (h b), s_size = s_size (h a) + s_size (h b)\<rparr>)"
  shows "heap_ok base brk A h' (xs @ a # r) U" and "fin h' a = fin h b" and "s_size (h a) \<le> s_size (h' a)" and "s_size (h b) \<le> s_size (h' a)"
proof -
  note D = heap_okD [OF ok] and S = heap_ok_ascending [OF ok]
  have lt: "a < b" using S(1) by (simp add: sorted_wrt_append)
  then have "a \<noteq> base" using e D(3) by (auto simp: fin_def word_less_nat_alt)
  have "b \<noteq> base" using heap_ok_block(4) [OF ok, of a] \<open>a \<noteq> base\<close> lt by auto
  note B = heap_ok_block [OF ok _ this]
  have "16 * (unat (s_size (h a)) + unat (s_size (h b))) \<le> brk" using B(3) e by (simp add: fin_def)
  then have sum: "unat (s_size (h a) + s_size (h b)) = unat (s_size (h a)) + unat (s_size (h b))"
    using D(7) by (simp add: unat_word_ariths)
  then show fa: "fin h' a = fin h b" "s_size (h a) \<le> s_size (h' a)" "s_size (h b) \<le> s_size (h' a)"
    using e by (simp_all add: fin_def h' word_le_nat_alt)
  have size: "s_size (h' x) = s_size (h x)" if "x \<noteq> a" for x using that by (simp add: h')
  note F = fin_cong [of h' _ h, OF size] ext_cong [of h' _ h, OF size]
  have ea: "ext h' a = ext h a \<union> ext h b" using fa(1) e by (auto simp: ext_def fin_def)
  have da: "a \<notin> set xs" "a \<notin> set r" "b \<notin> set xs" "b \<notin> set r" "a \<notin> U" "b \<notin> U" using S(2) D(8) by auto
  have "path h base xs a" "path h (s_ptr (h b)) r base" using D(1) by auto
  then have "path h' base (xs @ a # r) base"
    using da by (simp add: h')
  moreover have "sorted_wrt (\<lambda>x y. x < y \<and> fin h' x \<le> unat y) (xs @ a # r)"
  proof -
    have "sorted_wrt (\<lambda>x y. x < y \<and> fin h' x \<le> unat y) l = sorted_wrt (\<lambda>x y. x < y \<and> fin h x \<le> unat y) l" if "a \<notin> set l" for l
      using that F(1) by (induction l) auto
    then show ?thesis using D(2) da F(1) fa(1) lt by (auto simp: sorted_wrt_append)
  qed
  moreover have "\<forall>u\<in>U. \<forall>v\<in>set (xs @ a # r) \<union> U. u \<noteq> v \<longrightarrow> ext h' u \<inter> ext h' v = {}"
  proof (intro ballI impI)
    fix u v
    assume v: "u \<in> U" "v \<in> set (xs @ a # r) \<union> U" "u \<noteq> v"
    have "ext h u \<inter> ext h w = {}" if "w \<in> set (xs @ a # b # r) \<union> U" "w \<noteq> u" for w using heap_ok_apart [OF ok _ that(1), of u] v(1) that(2) by auto
    from this [of a] this [of b] this [of v] have "ext h u \<inter> ext h a = {}" "ext h u \<inter> ext h b = {}" "ext h u \<inter> ext h v = {}" using v da(5,6) by auto
    moreover have "ext h' u = ext h u" using F(2) [of u] v(1) da(5) by auto
    ultimately show "ext h' u \<inter> ext h' v = {}" using F(2) [of v] ea by (cases "v = a") (simp_all add: Int_Un_distrib)
  qed
  moreover have "\<forall>c\<in>set (xs @ a # r) \<union> U - {base}. s_size (h' c) \<noteq> 0 \<and> unat base + 16 \<le> unat c \<and> fin h' c \<le> brk"
  proof
    fix c
    assume c: "c \<in> set (xs @ a # r) \<union> U - {base}"
    have "s_size (h' a) \<noteq> 0" using fa(3) B(1) by (auto simp: word_le_nat_alt unat_eq_0)
    then show "s_size (h' c) \<noteq> 0 \<and> unat base + 16 \<le> unat c \<and> fin h' c \<le> brk"
      using heap_ok_block [OF ok, of c] c B(3) fa(1) size [of c] F(1) [of c] by (cases "c = a") auto
  qed
  moreover have "(\<Union>c\<in>set (xs @ a # r) \<union> U. ext h' c) = A"
  proof -
    have "(\<Union>c\<in>C. ext h' c) = (\<Union>c\<in>C. ext h c)" if "a \<notin> C" for C using that by (intro SUP_cong refl F(2)) auto
    then show ?thesis using D(9) da ea by auto
  qed
  moreover have "s_size (h' base) = 0" using size [of base] \<open>a \<noteq> base\<close> D(3) by simp
  ultimately show "heap_ok base brk A h' (xs @ a # r) U" unfolding heap_ok_def using D(4-8) by auto
qed

lemma coalesced_cong: "(\<And>x. x \<in> set xs \<Longrightarrow> fin h' x = fin h x) \<Longrightarrow> coalesced h' (xs @ [y]) = coalesced h (xs @ [y])"
proof (induction xs)
  case (Cons x xs)
  then show ?case by (cases xs) (auto simp: coalesced_def)
qed (simp add: coalesced_def)

lemma coalesced_agree: "(\<And>x. x \<in> set xs \<Longrightarrow> fin h' x = fin h x) \<Longrightarrow> coalesced h' xs = coalesced h xs"
  using coalesced_cong [of "butlast xs" h' h "last xs"] by (cases "xs = []") (auto simp: coalesced_def dest: in_set_butlastD)

lemma coalesced_split: "coalesced h (ys @ m # zs) \<longleftrightarrow> coalesced h (ys @ [m]) \<and> coalesced h (m # zs)"
  by (cases zs) (auto simp: coalesced_def successively_append_iff)

lemma coalesced_Cons: "coalesced h (m # zs) \<longleftrightarrow> coalesced h zs \<and> (zs = [] \<or> fin h m \<noteq> unat (hd zs))"
  by (cases zs) (auto simp: coalesced_def)

lemma plus_units_fin:
  assumes "fin h a \<le> 2 ^ 32"
  shows "unat (plus_units a (s_size (h a))) = fin h a" and "plus_units a (s_size (h a)) = b \<longleftrightarrow> fin h a = unat b"
proof -
  have "16 * unat (s_size (h a)) < 2 ^ 64" using assms by (simp add: fin_def)
  then have "unat (16 * ucast (s_size (h a)) :: u64) = 16 * unat (s_size (h a))" by (simp add: unat_word_ariths)
  then show e: "unat (plus_units a (s_size (h a))) = fin h a" using assms by (simp add: plus_units_def fin_def unat_word_ariths)
  show "plus_units a (s_size (h a)) = b \<longleftrightarrow> fin h a = unat b" unfolding word_unat_eq_iff e ..
qed

text \<open>The two halves of \<^verbatim>\<open>free\<close>: the block is joined with the next one, then with the previous one.\<close>

lemma join_next_ok:
  assumes ok: "heap_ok base brk A (hdr s) (ys @ m # zs) U" and c: "coalesced (hdr s) (ys @ m # zs)" and bp: "bp \<in> U"
    and l: "\<forall>x\<in>set ys \<union> {m}. x < bp" and g: "\<forall>x\<in>set zs. bp < x"
    and h': "h' = (hdr (join_next bp m s))(m := (hdr s m)\<lparr>s_ptr := bp\<rparr>)"
  shows "\<exists>zs'. heap_ok base brk A h' (ys @ m # bp # zs') (U - {bp}) \<and> coalesced h' (ys @ [m]) \<and> coalesced h' (bp # zs')
     \<and> s_size (hdr s bp) \<le> s_size (h' bp) \<and> (\<forall>x. x \<noteq> m \<and> x \<noteq> bp \<longrightarrow> h' x = hdr s x)"
proof -
  let ?h = "hdr s" and ?q = "s_ptr (hdr s m)"
  define h0 where "h0 = ?h(bp := (?h bp)\<lparr>s_ptr := ?q\<rparr>, m := (?h m)\<lparr>s_ptr := bp\<rparr>)"
  note D = heap_okD [OF ok] and ok0 = heap_ok_link [OF ok bp l g h0_def]
  have ne: "m \<noteq> bp" "bp \<noteq> base" "bp \<notin> set zs" "m \<notin> set zs" "bp \<notin> set ys" "m \<notin> set ys" using l g bp D(5) heap_ok_ascending(2) [OF ok] by auto
  have q: "?q = hd (zs @ [base])" using D(1) by (rule path_succ)
  note B = heap_ok_block [OF ok _ ne(2)]
  have le: "fin ?h bp \<le> 2 ^ 32" using B(3) bp D(7) by auto
  note P = plus_units_fin(2) [OF le]
  have f0: "fin h0 x = fin ?h x" for x by (rule fin_cong) (simp add: h0_def)
  have c0: "coalesced h0 (ys @ [m])" "coalesced h0 zs" using c by (auto simp: coalesced_def f0 successively_append_iff successively_Cons)
  show ?thesis
  proof (cases "plus_units bp (s_size (?h bp)) = ?q")
    case True
    then have e: "fin ?h bp = unat ?q" by (simp add: P)
    have "?q \<noteq> base" using e B(2) bp by (auto simp: fin_def)
    then obtain r where zs: "zs = ?q # r" using q by (cases zs) auto
    have h'': "h' = h0(bp := \<lparr>s_ptr = s_ptr (h0 ?q), s_size = s_size (h0 bp) + s_size (h0 ?q)\<rparr>)"
      using True ne zs by (auto simp: h' h0_def join_next_def set_size_def set_ptr_def Let_def)
    have "heap_ok base brk A h0 ((ys @ [m]) @ bp # ?q # r) (U - {bp})" using ok0 zs by simp
    note M = heap_ok_merge [OF this _ h'', unfolded f0, OF e]
    have f': "fin h' x = fin h0 x" if "x \<noteq> bp" for x using that by (intro fin_cong) (simp add: h'')
    have "fin h' x = fin h0 x" if "x \<in> set ys \<union> set r" for x using f' [of x] that ne(3,5) zs by auto
    note E = coalesced_cong [of ys h' h0 m, OF this] coalesced_agree [of r h' h0, OF this]
    have "coalesced h' (ys @ [m])" using c0(1) E(1) by simp
    moreover have "coalesced h' (bp # r)"
    proof -
      have "coalesced h0 (?q # r)" using c0(2) zs by simp
      then show ?thesis using M(2) E(2) f0 by (simp add: coalesced_Cons)
    qed
    moreover have "s_size (?h bp) \<le> s_size (h' bp)" using M(3) ne(1) by (simp add: h0_def)
    ultimately show ?thesis using M(1) by (intro exI [of _ r]) (auto simp: h'' h0_def)
  next
    case False
    then have "h' = h0" using ne by (auto simp: h' h0_def join_next_def set_ptr_def Let_def)
    moreover have "coalesced h0 (bp # zs)" using c0(2) False q P f0 by (cases zs) (auto simp: coalesced_Cons)
    ultimately show ?thesis using ok0 c0(1) ne(1) by (intro exI [of _ zs]) (auto simp: h0_def)
  qed
qed

lemma join_prev_ok:
  assumes ok: "heap_ok base brk A h (ys @ m # bp # zs) U" and c: "coalesced h (ys @ [m])" "coalesced h (bp # zs)"
    and s: "hdr s = h(m := (h m)\<lparr>s_ptr := p\<rparr>)" and hm: "s_ptr (h m) = bp"
  shows "\<exists>ns'. heap_ok base brk A (hdr (join_prev bp m s)) ns' U \<and> coalesced (hdr (join_prev bp m s)) ns' \<and> m \<in> set ns'
     \<and> (\<exists>x\<in>set ns'. s_size (h bp) \<le> s_size (hdr (join_prev bp m s) x)) \<and> (\<forall>x. x \<noteq> m \<longrightarrow> hdr (join_prev bp m s) x = h x)"
proof -
  let ?h' = "hdr (join_prev bp m s)"
  have d: "distinct (ys @ m # bp # zs)" using heap_ok_ascending(2) [OF ok] .
  have "fin h m \<le> unat bp" using heap_ok_before [OF ok, of m bp] heap_ok_ascending(1) [OF ok] by (simp add: sorted_wrt_append)
  moreover have "bp \<noteq> base" using heap_ok_ascending(3) [OF ok] d by (cases ys) auto
  then have "unat bp \<le> 2 ^ 32" using heap_ok_block(3) [OF ok, of bp] heap_okD(7) [OF ok] by (simp add: fin_def)
  ultimately have P: "plus_units m (s_size (h m)) = bp \<longleftrightarrow> fin h m = unat bp" by (intro plus_units_fin(2)) simp
  show ?thesis
  proof (cases "fin h m = unat bp")
    case True
    then have h': "?h' = h(m := \<lparr>s_ptr = s_ptr (h bp), s_size = s_size (h m) + s_size (h bp)\<rparr>)"
      using P d by (auto simp: join_prev_def s set_size_def set_ptr_def Let_def)
    note M = heap_ok_merge [OF ok True h']
    have "fin ?h' x = fin h x" if "x \<in> set ys \<union> set zs" for x using that d by (intro fin_cong) (auto simp: h')
    note E = coalesced_cong [of ys ?h' h m, OF this] coalesced_agree [of zs ?h' h, OF this]
    have "coalesced ?h' (ys @ m # zs)" using coalesced_split [of ?h' ys m zs] c E M(2) by (simp add: coalesced_Cons)
    then show ?thesis using M(1,4) by (intro exI [of _ "ys @ m # zs"]) (auto simp: h')
  next
    case False
    then have h': "?h' = h" using P hm by (auto simp: join_prev_def s set_ptr_def)
    have "coalesced h (ys @ m # bp # zs)" using coalesced_split [of h ys m "bp # zs"] c False by (simp add: coalesced_Cons)
    then show ?thesis using ok by (intro exI [of _ "ys @ m # bp # zs"]) (auto simp: h')
  qed
qed

lemma free_ok:
  assumes ok: "heap_ok base brk A (hdr s) ns U" and c: "coalesced (hdr s) ns" and f: "freep s \<in> set ns" and bp: "bp \<in> U"
  shows "\<exists>t ns'. free (bp + 16) s = Some t \<and> heap_ok base brk A (hdr t) ns' (U - {bp}) \<and> coalesced (hdr t) ns' \<and> freep t \<in> set ns' \<and> sys t = sys s
     \<and> (\<exists>x\<in>set ns'. s_size (hdr s bp) \<le> s_size (hdr t x)) \<and> (\<forall>u\<in>U - {bp}. hdr t u = hdr s u)"
proof -
  from free_find_ok [OF ok f bp] obtain ys m zs where
    n: "ns = ys @ m # zs" "free_find (hdr s) bp (freep s) = Some m" "\<forall>x\<in>set ys \<union> {m}. x < bp" "\<forall>x\<in>set zs. bp < x" by blast
  define h' where "h' = (hdr (join_next bp m s))(m := (hdr s m)\<lparr>s_ptr := bp\<rparr>)"
  from join_next_ok [OF ok [unfolded n(1)] c [unfolded n(1)] bp n(3,4) h'_def] obtain zs' where
    z: "heap_ok base brk A h' (ys @ m # bp # zs') (U - {bp})" "coalesced h' (ys @ [m])" "coalesced h' (bp # zs')"
      "s_size (hdr s bp) \<le> s_size (h' bp)" "\<forall>x. x \<noteq> m \<and> x \<noteq> bp \<longrightarrow> h' x = hdr s x" by blast
  have "m \<noteq> bp" using n(3) by auto
  then have jm: "hdr (join_next bp m s) m = hdr s m" by (simp add: join_next_def set_ptr_def set_size_def Let_def)
  then have "hdr (join_next bp m s) = h'(m := (h' m)\<lparr>s_ptr := s_ptr (hdr s m)\<rparr>)" by (auto simp: h'_def)
  from join_prev_ok [OF z(1-3) this] obtain ns' where
    j: "heap_ok base brk A (hdr (join_prev bp m (join_next bp m s))) ns' (U - {bp})" "coalesced (hdr (join_prev bp m (join_next bp m s))) ns'"
      "m \<in> set ns'" "\<exists>x\<in>set ns'. s_size (h' bp) \<le> s_size (hdr (join_prev bp m (join_next bp m s)) x)"
      "\<forall>x. x \<noteq> m \<longrightarrow> hdr (join_prev bp m (join_next bp m s)) x = h' x" by (auto simp: h'_def)
  have m: "m \<notin> U" using heap_okD(8) [OF ok] by (auto simp: n(1))
  have u: "\<forall>u\<in>U - {bp}. hdr (join_prev bp m (join_next bp m s)) u = hdr s u"
  proof
    fix u
    assume "u \<in> U - {bp}"
    then have "u \<noteq> m" "u \<noteq> bp" using m by auto
    then show "hdr (join_prev bp m (join_next bp m s)) u = hdr s u" using j(5) z(5) by simp
  qed
  have x: "\<exists>x\<in>set ns'. s_size (hdr s bp) \<le> s_size (hdr (join_prev bp m (join_next bp m s)) x)" using j(4) z(4) order_trans by blast
  have sy: "sys (join_prev bp m (join_next bp m s)) = sys s" by (simp add: join_prev_def join_next_def set_ptr_def set_size_def Let_def)
  show ?thesis using n(2) j(1-3) u x sy
    by (intro exI [of _ "(join_prev bp m (join_next bp m s))\<lparr>freep := m\<rparr>"] exI [of _ ns']) (simp add: free_def Let_def)
qed

text \<open>\<^verbatim>\<open>malloc\<close> takes a block off the ring, or the end of one.\<close>

lemma heap_ok_unlink:
  assumes ok: "heap_ok base brk A h (xs @ a # p # r) U" and c: "coalesced h (xs @ a # p # r)"
    and h': "h' = h(a := (h a)\<lparr>s_ptr := s_ptr (h p)\<rparr>)"
  shows "heap_ok base brk A h' (xs @ a # r) (insert p U)" and "coalesced h' (xs @ a # r)"
proof -
  note D = heap_okD [OF ok] and S = heap_ok_ascending [OF ok]
  have size: "s_size (h' x) = s_size (h x)" for x by (simp add: h')
  note F = fin_cong [of h' _ h, OF size] ext_cong [of h' _ h, OF size]
  have p: "p \<noteq> base" using S(2,3) by (cases xs) auto
  have "path h' base (xs @ a # r) base" using D(1) S(2) by (auto simp: h')
  moreover have "sorted_wrt (\<lambda>x y. x < y \<and> fin h x \<le> unat y) (xs @ a # r)" using D(2) by (auto simp: sorted_wrt_append)
  moreover have "\<forall>u\<in>insert p U. \<forall>v\<in>set (xs @ a # r) \<union> insert p U. u \<noteq> v \<longrightarrow> ext h u \<inter> ext h v = {}"
    by (intro ballI impI heap_ok_apart [OF ok]) auto
  moreover have "\<forall>b\<in>set (xs @ a # r) \<union> insert p U - {base}. s_size (h b) \<noteq> 0 \<and> unat base + 16 \<le> unat b \<and> fin h b \<le> brk"
    by (intro ballI conjI heap_ok_block(1-3) [OF ok]) auto
  moreover have "set (xs @ a # r) \<inter> insert p U = {}" using D(8) S(2) by auto
  moreover have "(\<Union>b\<in>set (xs @ a # r) \<union> insert p U. ext h b) = A" using D(9) by auto
  ultimately show "heap_ok base brk A h' (xs @ a # r) (insert p U)" unfolding heap_ok_def F size using D(3-7) p by simp
  have "fin h a \<le> unat p" "\<forall>x\<in>set r. unat p < unat x" using D(2) by (auto simp: sorted_wrt_append word_less_nat_alt)
  then have "r = [] \<or> fin h a \<noteq> unat (hd r)" by (cases r) auto
  then show "coalesced h' (xs @ a # r)" using coalesced_split [of h xs a r] coalesced_split [of h xs a "p # r"] c coalesced_agree [of "xs @ a # r" h' h, OF F(1)] by (simp add: coalesced_Cons)
qed

text \<open>A new block in use, which may have been cut off a free one.\<close>

lemma heap_ok_insert:
  assumes ok: "heap_ok base brk A h ns U" and ptr: "\<And>x. s_ptr (h' x) = s_ptr (h x)" and base: "s_size (h' base) = 0"
    and old: "\<And>b. b \<in> set ns \<union> U \<Longrightarrow> ext h' b \<subseteq> ext h b" "\<And>b. b \<in> set ns \<union> U \<Longrightarrow> fin h' b \<le> fin h b"
      "\<And>b. b \<in> set ns \<union> U \<Longrightarrow> s_size (h b) \<noteq> 0 \<Longrightarrow> s_size (h' b) \<noteq> 0" "\<And>b. b \<in> set ns \<union> U \<Longrightarrow> ext h' q \<inter> ext h' b = {}"
    and q: "q \<notin> set ns \<union> U" "s_size (h' q) \<noteq> 0" "unat base + 16 \<le> unat q" "fin h' q \<le> brk'" "brk \<le> brk'" "brk' \<le> 2 ^ 32"
    and A': "(\<Union>b\<in>set ns \<union> U. ext h' b) \<union> ext h' q = A'"
  shows "heap_ok base brk' A' h' ns (insert q U)"
proof -
  note D = heap_okD [OF ok]
  have "path h' base ns base" using D(1) path_cong [of ns h' h base base] ptr by simp
  moreover have "sorted_wrt (\<lambda>x y. x < y \<and> fin h' x \<le> unat y) ns"
  proof (rule sorted_wrt_mono_rel [OF _ D(2)])
    fix x y
    assume "x \<in> set ns" "x < y \<and> fin h x \<le> unat y"
    then show "x < y \<and> fin h' x \<le> unat y" using old(2) [of x] by simp
  qed
  moreover have "\<forall>u\<in>insert q U. \<forall>v\<in>set ns \<union> insert q U. u \<noteq> v \<longrightarrow> ext h' u \<inter> ext h' v = {}"
  proof (intro ballI impI)
    fix u v
    assume u: "u \<in> insert q U" "v \<in> set ns \<union> insert q U" "u \<noteq> v"
    show "ext h' u \<inter> ext h' v = {}"
    proof (cases "u = q \<or> v = q")
      case True
      then show ?thesis using old(4) [of u] old(4) [of v] u by (auto simp: Int_commute)
    next
      case False
      then have "u \<in> set ns \<union> U" "v \<in> set ns \<union> U" using u by auto
      from heap_ok_apart [OF ok this u(3)] old(1) [OF this(1)] old(1) [OF this(2)] show ?thesis by blast
    qed
  qed
  moreover have "\<forall>b\<in>set ns \<union> insert q U - {base}. s_size (h' b) \<noteq> 0 \<and> unat base + 16 \<le> unat b \<and> fin h' b \<le> brk'"
  proof
    fix b
    assume b: "b \<in> set ns \<union> insert q U - {base}"
    show "s_size (h' b) \<noteq> 0 \<and> unat base + 16 \<le> unat b \<and> fin h' b \<le> brk'"
    proof (cases "b = q")
      case False
      then have "b \<in> set ns \<union> U" "b \<noteq> base" using b by auto
      from heap_ok_block [OF ok this] old(2,3) [OF this(1)] show ?thesis using q(5) by simp
    qed (use q in simp)
  qed
  moreover have "(\<Union>b\<in>set ns \<union> insert q U. ext h' b) = A'" using A' by auto
  moreover have "set ns \<inter> insert q U = {}" "base \<notin> insert q U" "ns \<noteq> []" using D(5,8) q(1,3) heap_ok_ascending(3) [OF ok] by auto
  ultimately show ?thesis unfolding heap_ok_def using D(4,6) base q(5,6) by simp
qed

lemma cut_facts:
  assumes ok: "heap_ok base brk A h ns U" and p: "p \<in> set ns" and n: "0 < n" "n < s_size (h p)"
    and q: "q = plus_units p (s_size (h p) - n)" and h': "h' = h(p := (h p)\<lparr>s_size := s_size (h p) - n\<rparr>, q := (h q)\<lparr>s_size := n\<rparr>)"
  shows "p \<noteq> base" "q \<notin> set ns \<union> U" "p \<noteq> q" "unat p < unat q" "fin h' p = unat q" "fin h' q = fin h p" "unat q < fin h p"
    "ext h p = ext h' p \<union> ext h' q" "ext h' p \<inter> ext h' q = {}" "s_size (h' p) \<noteq> 0"
proof -
  note D = heap_okD [OF ok] and S = heap_ok_ascending [OF ok]
  show pb: "p \<noteq> base" using n D(3) by auto
  note B = heap_ok_block [OF ok _ pb]
  have pU: "p \<in> set ns \<union> U" using p by simp
  have un: "unat (s_size (h p) - n) = unat (s_size (h p)) - unat n" "0 < unat n" "unat n < unat (s_size (h p))"
    using n by (auto simp: unat_sub word_less_nat_alt word_le_nat_alt)
  have le: "fin h p \<le> 2 ^ 32" using B(3) [OF pU] D(7) by simp
  let ?g = "h(p := (h p)\<lparr>s_size := s_size (h p) - n\<rparr>)"
  have "fin ?g p \<le> 2 ^ 32" using le un by (simp add: fin_def)
  from plus_units_fin(1) [OF this] have uq: "unat q = unat p + 16 * (unat (s_size (h p)) - unat n)" by (simp add: q un fin_def)
  then have pq: "unat p < unat q" "unat q + 16 * unat n = fin h p" using un by (simp_all add: fin_def)
  then have inp: "unat q \<in> ext h p" using un by (simp add: ext_def)
  have nq: "q \<noteq> x" if "x \<in> set ns \<union> U" for x
  proof
    assume x: "q = x"
    show False
    proof (cases "x = p \<or> x = base")
      case True
      then show False using pq B(2) [OF pU] x by auto
    next
      case False
      then have "unat x \<in> ext h x" using heap_ok_block(1) [OF ok that] by (simp add: ext_def fin_def unat_gt_0)
      then show False using inp x heap_ok_apart [OF ok pU that] False by auto
    qed
  qed
  then show "q \<notin> set ns \<union> U" by blast
  show np: "p \<noteq> q" and "unat p < unat q" "unat q < fin h p" using pq un by auto
  show fp: "fin h' p = unat q" "fin h' q = fin h p" using np pq uq un by (simp_all add: h' fin_def)
  show "ext h p = ext h' p \<union> ext h' q" "ext h' p \<inter> ext h' q = {}" unfolding ext_def fp using pq by (auto simp: fin_def)
  show "s_size (h' p) \<noteq> 0" using np un by (auto simp: h' word_unat_eq_iff)
qed

lemma heap_ok_cut:
  assumes ok: "heap_ok base brk A h ns U" and c: "coalesced h ns" and p: "p \<in> set ns" and n: "0 < n" "n < s_size (h p)"
    and q: "q = plus_units p (s_size (h p) - n)" and h': "h' = h(p := (h p)\<lparr>s_size := s_size (h p) - n\<rparr>, q := (h q)\<lparr>s_size := n\<rparr>)"
  shows "heap_ok base brk A h' ns (insert q U)" and "coalesced h' ns"
proof -
  note D = heap_okD [OF ok] and C = cut_facts [OF ok p n q h']
  let ?own = "\<lambda>x. if x = q then p else x"
  have pU: "p \<in> set ns \<union> U" using p by simp
  have size: "s_size (h' x) = s_size (h x)" if "x \<noteq> p" "x \<noteq> q" for x using that by (simp add: h')
  note F = fin_cong [of h' _ h, OF size] ext_cong [of h' _ h, OF size]
  have sub: "ext h' x \<subseteq> ext h (?own x)" for x using F(2) [of x] C(3,8) by (cases "x = p"; cases "x = q") auto
  have fle: "fin h' x \<le> fin h x" if "x \<in> set ns \<union> U" for x using F(1) [of x] C(2,5,7) that by (cases "x = p"; cases "x = q") auto
  have "fin h' x \<noteq> unat y" if "x \<in> set ns" "y \<in> set ns" "fin h x \<noteq> unat y" for x y 
  proof -
    have "x \<noteq> q" "y \<noteq> q" using C(2) that(1,2) by auto
    then show ?thesis using F(1) [of x] C(5) that(3) word_unat_eq_iff [of q y] by (cases "x = p") auto
  qed
  then show "coalesced h' ns" using c unfolding coalesced_def by (rule successively_mono [rotated])
  show "heap_ok base brk A h' ns (insert q U)"
  proof (rule heap_ok_insert [OF ok])
    fix b
    assume b: "b \<in> set ns \<union> U"
    then have bq: "b \<noteq> q" using C(2) by auto
    show "ext h' b \<subseteq> ext h b" "fin h' b \<le> fin h b" using sub [of b] bq fle [OF b] by simp_all
    show "s_size (h' b) \<noteq> 0" if "s_size (h b) \<noteq> 0" using that size [OF _ bq] C(10) by (cases "b = p") auto
    show "ext h' q \<inter> ext h' b = {}"
    proof (cases "b = p")
      case False
      then have "ext h p \<inter> ext h b = {}" using heap_ok_apart [OF ok pU b] by simp
      then show ?thesis using sub [of q] sub [of b] bq by auto
    qed (use C(9) in \<open>simp add: Int_commute\<close>)
  next
    have "(\<Union>c\<in>set ns \<union> U - {p}. ext h' c) = (\<Union>c\<in>set ns \<union> U - {p}. ext h c)" using C(2) by (intro SUP_cong refl F(2)) auto
    moreover have one: "(\<Union>b\<in>set ns \<union> U. g b) = g p \<union> (\<Union>b\<in>set ns \<union> U - {p}. g b)" for g :: "addr \<Rightarrow> nat set" using p by blast
    have "A = ext h p \<union> (\<Union>b\<in>set ns \<union> U - {p}. ext h b)" using D(9) one [of "ext h"] by simp
    ultimately show "(\<Union>b\<in>set ns \<union> U. ext h' b) \<union> ext h' q = A" unfolding one [of "ext h'"] C(8) by blast
  qed (use heap_ok_block [OF ok pU C(1)] C D(3,7) n(1) size [of base] heap_ok_ascending(3) [OF ok] in \<open>auto simp: h'\<close>)
qed

section \<open>Allocation\<close>

lemma ring_pred:
  assumes "heap_ok base brk A h ns U" and "a \<in> set ns" and "s_ptr (h a) \<noteq> base"
  shows "\<exists>xs r. ns = xs @ a # s_ptr (h a) # r"
proof -
  from split_list [OF assms(2)] obtain xs r where n: "ns = xs @ a # r" by blast
  have "s_ptr (h a) = hd (r @ [base])" using heap_okD(1) [OF assms(1)] unfolding n by (rule path_succ)
  then show ?thesis using n assms(3) by (cases r) auto
qed

lemma carve_ok:
  assumes ok: "heap_ok base brk A (hdr s) ns U" and c: "coalesced (hdr s) ns" and a: "a \<in> set ns" "p \<in> set ns" "s_ptr (hdr s a) = p"
    and n: "0 < n" "n \<le> s_size (hdr s p)"
  shows "\<exists>b t ns'. carve n a p s = (b + 16, t) \<and> b \<notin> U \<and> b \<noteq> base \<and> heap_ok base brk A (hdr t) ns' (insert b U) \<and> coalesced (hdr t) ns'
     \<and> freep t \<in> set ns' \<and> s_size (hdr t b) = n \<and> sys t = sys s \<and> (\<forall>u\<in>U. hdr t u = hdr s u)"
proof (cases "s_size (hdr s p) = n")
  case True
  have p: "p \<noteq> base" using n True heap_okD(3) [OF ok] by auto
  from ring_pred [OF ok a(1)] p a(3) obtain xs r where ns: "ns = xs @ a # p # r" by auto
  let ?t = "(set_ptr a (s_ptr (hdr s p)) s)\<lparr>freep := a\<rparr>"
  have h': "hdr ?t = (hdr s)(a := (hdr s a)\<lparr>s_ptr := s_ptr (hdr s p)\<rparr>)" by (simp add: set_ptr_def)
  note L = heap_ok_unlink [OF ok [unfolded ns] c [unfolded ns] h']
  have "a \<notin> U" "p \<notin> U" "a \<noteq> p" using heap_okD(8) [OF ok] heap_ok_ascending(2) [OF ok] by (auto simp: ns)
  then show ?thesis using L True p
    by (intro exI [of _ p] exI [of _ ?t] exI [of _ "xs @ a # r"]) (auto simp: carve_def set_ptr_def)
next
  case False
  then have lt: "n < s_size (hdr s p)" using n(2) by simp
  define q where "q = plus_units p (s_size (hdr s p) - n)"
  define t where "t = (set_size q n (set_size p (s_size (hdr s p) - n) s))\<lparr>freep := a\<rparr>"
  have pU: "p \<notin> U" using a(2) heap_okD(8) [OF ok] by blast
  have "p \<noteq> q" using cut_facts(3) [OF ok a(2) n(1) lt q_def refl] .
  then have h': "hdr t = (hdr s)(p := (hdr s p)\<lparr>s_size := s_size (hdr s p) - n\<rparr>, q := (hdr s q)\<lparr>s_size := n\<rparr>)"
    by (auto simp: t_def set_size_def)
  note K = heap_ok_cut [OF ok c a(2) n(1) lt q_def h'] cut_facts(2) [OF ok a(2) n(1) lt q_def h']
  have "q \<noteq> base" using heap_okD(5) [OF K(1)] by auto
  moreover have "carve n a p s = (q + 16, t)" using False by (simp add: carve_def t_def q_def set_size_def Let_def)
  moreover have "\<forall>u\<in>U. hdr t u = hdr s u" using pU K(3) by (auto simp: h')
  ultimately show ?thesis using K a(1)
    by (intro exI [of _ q] exI [of _ t] exI [of _ ns]) (auto simp: h' t_def set_size_def)
qed

text \<open>The loop of \<^verbatim>\<open>malloc\<close> goes round the ring once.\<close>

lemma ring_round:
  assumes "path h b ns b" and "f \<in> set ns" and "distinct ns"
  shows "\<exists>xs. path h (s_ptr (h f)) xs f \<and> set xs = set ns - {f}"
proof -
  from split_list [OF assms(2)] obtain ys zs where ns: "ns = ys @ f # zs" by blast
  then show ?thesis using assms(1,3) by (intro exI [of _ "zs @ ys"]) auto
qed

lemma malloc_walk:
  "path (hdr s) p xs t \<Longrightarrow> \<forall>x\<in>set xs. s_size (hdr s x) < n \<and> x \<noteq> freep s \<Longrightarrow> s_ptr (hdr s a) = p \<Longrightarrow>
     \<exists>a'\<in>insert a (set xs). malloc_loop os n a p s = malloc_loop os n a' t s \<and> s_ptr (hdr s a') = t"
proof (induction xs arbitrary: a p)
  case (Cons x xs)
  have "malloc_loop os n a x s = malloc_loop os n x (s_ptr (hdr s x)) s"
    using Cons.prems(2) by (subst malloc_loop.simps) auto
  moreover from Cons.IH [of "s_ptr (hdr s x)" x] Cons.prems obtain a' where
    "a' \<in> insert x (set xs)" "malloc_loop os n x (s_ptr (hdr s x)) s = malloc_loop os n a' t s" "s_ptr (hdr s a') = t" by auto
  ultimately show ?case using Cons.prems(1) by auto
qed auto

lemma malloc_found:
  assumes ok: "heap_ok base brk A (hdr s) ns U" and f: "freep s \<in> set ns" and big: "\<exists>x\<in>set ns. n \<le> s_size (hdr s x)"
  shows "\<exists>a x. malloc_loop os n (freep s) (s_ptr (hdr s (freep s))) s = Some (carve n a x s)
     \<and> a \<in> set ns \<and> x \<in> set ns \<and> s_ptr (hdr s a) = x \<and> n \<le> s_size (hdr s x)"
proof -
  from ring_round [OF heap_okD(1) [OF ok] f heap_ok_ascending(2) [OF ok]] obtain xs where
    xs: "path (hdr s) (s_ptr (hdr s (freep s))) xs (freep s)" "set xs = set ns - {freep s}" by blast
  have "\<exists>x\<in>set (xs @ [freep s]). n \<le> s_size (hdr s x)" using big xs(2) by auto
  from split_list_first_prop [OF this] obtain as x bs where
    x: "xs @ [freep s] = as @ x # bs" "n \<le> s_size (hdr s x)" "\<forall>y\<in>set as. \<not> n \<le> s_size (hdr s y)" by blast
  have sub: "set as \<subseteq> set xs" using x(1) by (cases bs rule: rev_cases) auto
  have "path (hdr s) (s_ptr (hdr s (freep s))) (xs @ [freep s]) (s_ptr (hdr s (freep s)))" using xs(1) by auto
  then have "path (hdr s) (s_ptr (hdr s (freep s))) as x" unfolding x(1) by auto
  from malloc_walk [OF this _ refl, of n os] obtain a where
    a: "a \<in> insert (freep s) (set as)" "malloc_loop os n (freep s) (s_ptr (hdr s (freep s))) s = malloc_loop os n a x s" "s_ptr (hdr s a) = x"
    using x(3) sub xs(2) by (auto simp: not_le)
  have "x \<in> set (xs @ [freep s])" unfolding x(1) by simp
  then have "x \<in> set ns" using xs(2) f by auto
  moreover have "malloc_loop os n a x s = Some (carve n a x s)" using x(2) by (subst malloc_loop.simps) simp
  ultimately show ?thesis using a x(2) sub xs(2) f by auto
qed

section \<open>More memory\<close>

text \<open>
  What \<^verbatim>\<open>sbrk\<close> promises, for an increment that is positive as an \<^verbatim>\<open>int\<close>: it fails and changes nothing, or returns the old break and
  moves it by the increment. The break stays below 4 GB because \<^verbatim>\<open>growproc\<close> keeps it in a \<^verbatim>\<open>uint\<close>.
\<close>

definition sbrk_ok :: "'w os \<Rightarrow> ('w \<Rightarrow> nat) \<Rightarrow> bool" where
  "sbrk_ok os brk \<longleftrightarrow> (\<forall>n w. 0 < sint n \<longrightarrow>
     (let (a, w') = os_sbrk os n w in
      if a = -1 then brk w' = brk w else unat a = brk w \<and> brk w' = brk w + nat (sint n) \<and> brk w' \<le> 2 ^ 32))"

lemma heap_ok_grow:
  assumes ok: "heap_ok base brk A h ns U" and c: "coalesced h ns" and p: "unat p = brk" and n: "n \<noteq> 0" "brk + 16 * unat n \<le> 2 ^ 32"
    and h': "h' = h(p := (h p)\<lparr>s_size := n\<rparr>)"
  shows "heap_ok base (brk + 16 * unat n) (A \<union> {brk ..< brk + 16 * unat n}) h' ns (insert p U)" and "coalesced h' ns" and "p \<notin> set ns \<union> U"
proof -
  note D = heap_okD [OF ok]
  have pb: "p \<noteq> base" using p D(6) by auto
  have lt: "fin h b \<le> brk \<and> b \<noteq> p" if "b \<in> set ns \<union> U" for b
  proof (cases "b = base")
    case True
    then show ?thesis using D(3,6) pb by (simp add: fin_def)
  next
    case False
    then have "fin h b \<le> brk" "unat b < fin h b" using heap_ok_block(1,3) [OF ok that] by (simp_all add: fin_def unat_gt_0)
    then show ?thesis using p by auto
  qed
  then show np: "p \<notin> set ns \<union> U" by blast
  have size: "s_size (h' b) = s_size (h b)" if "b \<noteq> p" for b using that by (simp add: h')
  note F = fin_cong [of h' _ h, OF size] ext_cong [of h' _ h, OF size]
  have fp: "ext h' p = {brk ..< brk + 16 * unat n}" by (simp add: ext_def fin_def h' p)
  have "fin h' x = fin h x" if "x \<in> set ns" for x using that np by (intro F(1)) auto
  from coalesced_agree [of ns h' h, OF this] show "coalesced h' ns" using c by simp
  have "(\<Union>b\<in>set ns \<union> U. ext h' b) = (\<Union>b\<in>set ns \<union> U. ext h b)" using np by (intro SUP_cong refl F(2)) auto
  then have A': "(\<Union>b\<in>set ns \<union> U. ext h' b) \<union> ext h' p = A \<union> {brk ..< brk + 16 * unat n}" using D(9) fp by simp
  show "heap_ok base (brk + 16 * unat n) (A \<union> {brk ..< brk + 16 * unat n}) h' ns (insert p U)"
  proof (rule heap_ok_insert [OF ok _ _ _ _ _ _ np _ _ _ _ _ A'])
    fix b
    assume b: "b \<in> set ns \<union> U"
    note L = lt [OF b]
    show "ext h' b \<subseteq> ext h b" "fin h' b \<le> fin h b" "s_size (h b) \<noteq> 0 \<Longrightarrow> s_size (h' b) \<noteq> 0" using L F [of b] size [of b] by auto
    show "ext h' p \<inter> ext h' b = {}" using L F(2) [of b] fp by (auto simp: ext_def)
  qed (use D(3,6) n p pb in \<open>simp_all add: h' fin_def\<close>)
qed

lemma request_bytes:
  assumes "unat n < 2 ^ 27"
  shows "sint (ucast (ucast (n :: u32) * 16 :: u64) :: i32) = 16 * int (unat n)"
proof -
  have "ucast x = (of_nat k :: i32)" if "unat x = k" for x :: u64 and k using that by auto
  moreover have "unat (ucast n * 16 :: u64) = 16 * unat n" using assms by (simp add: unat_word_ariths)
  ultimately have "ucast (ucast n * 16 :: u64) = (of_nat (16 * unat n) :: i32)" by blast
  moreover have "sint (of_nat (16 * unat n) :: i32) = 16 * int (unat n)" using assms sint_of_nat32 [of "16 * unat n"] by simp
  ultimately show ?thesis by simp
qed

lemma morecore_ok:
  assumes sb: "sbrk_ok os brk" and ok: "heap_ok base (brk (sys s)) A (hdr s) ns U" and c: "coalesced (hdr s) ns" and f: "freep s \<in> set ns"
    and n: "0 < n" "unat n < 2 ^ 27"
  shows "(\<exists>w k. morecore os n s = Some (0, s\<lparr>sys := w\<rparr>) \<and> sint k = 16 * int (max 4096 (unat n)) \<and> os_sbrk os k (sys s) = (-1, w) \<and> brk w = brk (sys s))
     \<or> (\<exists>t ns'. morecore os n s = Some (freep t, t) \<and> brk (sys s) \<le> brk (sys t)
          \<and> heap_ok base (brk (sys t)) (A \<union> {brk (sys s) ..< brk (sys t)}) (hdr t) ns' U
          \<and> coalesced (hdr t) ns' \<and> freep t \<in> set ns' \<and> (\<exists>x\<in>set ns'. n \<le> s_size (hdr t x)) \<and> (\<forall>u\<in>U. hdr t u = hdr s u))"
proof -
  define nu where "nu = (if n < 4096 then 4096 else n)"
  have nu: "unat nu < 2 ^ 27" "n \<le> nu" "nu \<noteq> 0" using n by (auto simp: nu_def)
  let ?k = "ucast (ucast nu * 16 :: u64) :: i32"
  have k: "sint ?k = 16 * int (unat nu)" by (rule request_bytes [OF nu(1)])
  have kn: "nat (sint ?k) = 16 * unat nu" unfolding k by linarith
  have "0 < unat nu" using nu(3) by (simp add: unat_gt_0)
  then have pos: "0 < sint ?k" unfolding k by linarith
  obtain p w where pw: "os_sbrk os ?k (sys s) = (p, w)" by (cases "os_sbrk os ?k (sys s)")
  have m: "morecore os n s = (if p = -1 then Some (0, s\<lparr>sys := w\<rparr>)
      else Option.bind (free (p + 16) (set_size p nu (s\<lparr>sys := w\<rparr>))) (\<lambda>s. Some (freep s, s)))"
    by (simp only: morecore_def nu_def [symmetric] Let_def pw split)
  have law: "if p = -1 then brk w = brk (sys s) else unat p = brk (sys s) \<and> brk w = brk (sys s) + 16 * unat nu \<and> brk w \<le> 2 ^ 32"
    using sb [unfolded sbrk_ok_def, rule_format, OF pos, of "sys s"] pw kn by (simp split: if_splits)
  show ?thesis
  proof (cases "p = -1")
    case True
    have "unat nu = max 4096 (unat n)" by (auto simp: nu_def word_less_nat_alt)
    then show ?thesis using m law pw k True by (intro disjI1 exI [of _ w] exI [of _ ?k]) simp
  next
    case False
    define s' where "s' = set_size p nu (s\<lparr>sys := w\<rparr>)"
    have p: "unat p = brk (sys s)" "brk w = brk (sys s) + 16 * unat nu" "brk w \<le> 2 ^ 32" using law False by auto
    have h': "hdr s' = (hdr s)(p := (hdr s p)\<lparr>s_size := nu\<rparr>)" and s': "freep s' = freep s" "sys s' = w" by (simp_all add: s'_def set_size_def)
    note G = heap_ok_grow [OF ok c p(1) nu(3) _ h', folded p(2), OF p(3)]
    from free_ok [OF G(1,2) _ insertI1, unfolded s'(1), OF f] obtain t ns' where
      t: "free (p + 16) s' = Some t" "heap_ok base (brk w) (A \<union> {brk (sys s) ..< brk w}) (hdr t) ns' (insert p U - {p})" "coalesced (hdr t) ns'"
        "freep t \<in> set ns'" "sys t = w" "\<exists>x\<in>set ns'. s_size (hdr s' p) \<le> s_size (hdr t x)" "\<forall>u\<in>insert p U - {p}. hdr t u = hdr s' u"
      unfolding s'(2) by blast
    have U: "insert p U - {p} = U" using G(3) by auto
    have "\<forall>u\<in>U. hdr t u = hdr s u" using t(7) G(3) unfolding U by (auto simp: h')
    moreover have "\<exists>x\<in>set ns'. n \<le> s_size (hdr t x)" using t(6) nu(2) order_trans by (auto simp: h')
    ultimately show ?thesis using m False t(1-5) p(2) unfolding U s'_def [symmetric] by (intro disjI2 exI [of _ t] exI [of _ ns']) simp
  qed
qed

section \<open>Properties\<close>

text \<open>
  The state of the allocator between calls, with the blocks \<^verbatim>\<open>U\<close> in use and the memory \<^verbatim>\<open>A\<close>; \<^verbatim>\<open>heap_ready\<close> holds before the
  first call as well.
\<close>

definition heap_inv :: "addr \<Rightarrow> ('w \<Rightarrow> nat) \<Rightarrow> nat set \<Rightarrow> 'w heap \<Rightarrow> addr set \<Rightarrow> bool" where
  "heap_inv base brk A s U \<longleftrightarrow> (\<exists>ns. heap_ok base (brk (sys s)) A (hdr s) ns U \<and> coalesced (hdr s) ns \<and> freep s \<in> set ns)"

definition heap_ready :: "addr \<Rightarrow> ('w \<Rightarrow> nat) \<Rightarrow> nat set \<Rightarrow> 'w heap \<Rightarrow> addr set \<Rightarrow> bool" where
  "heap_ready base brk A s U \<longleftrightarrow> heap_inv base brk A s U
     \<or> freep s = 0 \<and> 0 < base \<and> U = {} \<and> A = {} \<and> unat base + 16 \<le> brk (sys s) \<and> brk (sys s) \<le> 2 ^ 32"

lemma heap_start:
  assumes "heap_ready base brk A s U" and "freep s = 0"
  shows "heap_inv base brk A (set_size base 0 ((set_ptr base base s)\<lparr>freep := base\<rparr>)) U" and "U = {}"
proof -
  have "\<not> heap_inv base brk A s U"
  proof
    assume "heap_inv base brk A s U"
    then obtain ns where "heap_ok base (brk (sys s)) A (hdr s) ns U" "freep s \<in> set ns" by (auto simp: heap_inv_def)
    from heap_ok_nonzero [OF this] show False using assms(2) by simp
  qed
  then have r: "0 < base" "U = {}" "A = {}" "unat base + 16 \<le> brk (sys s)" "brk (sys s) \<le> 2 ^ 32" using assms(1) by (auto simp: heap_ready_def)
  then show "U = {}" "heap_inv base brk A (set_size base 0 ((set_ptr base base s)\<lparr>freep := base\<rparr>)) U"
    by (auto simp: heap_inv_def heap_ok_def coalesced_def ext_def fin_def set_size_def set_ptr_def intro!: exI [of _ "[base]"])
qed

lemma units_for_enough:
  assumes "nbytes < 2 ^ 31 - 32"
  shows "0 < units_for nbytes" "unat (units_for nbytes) < 2 ^ 27" "unat nbytes + 16 \<le> 16 * unat (units_for nbytes)"
proof -
  have b: "unat nbytes < 2 ^ 31 - 32" using assms by (simp add: word_less_nat_alt)
  have "unat (ucast nbytes + 15 :: u64) = unat nbytes + 15" using b by (simp add: unat_word_ariths)
  moreover have "(unat nbytes + 15) div 16 < 2 ^ 27 - 1" using b by (simp add: div_less_iff_less_mult)
  ultimately have "unat ((ucast nbytes + 15 :: u64) div 16 + 1) = (unat nbytes + 15) div 16 + 1" by (simp add: unat_word_ariths unat_div)
  moreover have "unat (ucast x :: u32) = unat x" if "unat x < 2 ^ 32" for x :: u64 using that by (simp add: unsigned_ucast_eq take_bit_nat_eq_self)
  moreover have "units_for nbytes = ucast ((ucast nbytes + 15 :: u64) div 16 + 1)" by (simp add: units_for_def add.commute)
  ultimately have u: "unat (units_for nbytes) = (unat nbytes + 15) div 16 + 1"
    using \<open>(unat nbytes + 15) div 16 < 2 ^ 27 - 1\<close> by simp
  have up: "a + 16 \<le> 16 * (q + 1)" if "q * 16 + r = a + 15" "r < 16" for a q r :: nat using that by simp
  show "unat nbytes + 16 \<le> 16 * unat (units_for nbytes)" unfolding u by (rule up [OF div_mult_mod_eq]) simp
  show "unat (units_for nbytes) < 2 ^ 27" using \<open>(unat nbytes + 15) div 16 < 2 ^ 27 - 1\<close> unfolding u by simp
  show "0 < units_for nbytes" unfolding word_less_nat_alt u by simp
qed

lemma malloc_take:
  assumes ok: "heap_ok base (brk (sys s)) A (hdr s) ns U" and c: "coalesced (hdr s) ns" and f: "freep s \<in> set ns"
    and n: "0 < n" "\<exists>x\<in>set ns. n \<le> s_size (hdr s x)"
  shows "\<exists>b t. malloc_loop os n (freep s) (s_ptr (hdr s (freep s))) s = Some (b + 16, t) \<and> b \<notin> U \<and> b \<noteq> base \<and> s_size (hdr t b) = n
     \<and> heap_inv base brk A t (insert b U) \<and> sys t = sys s \<and> (\<forall>u\<in>U. hdr t u = hdr s u)"
proof -
  from malloc_found [OF ok f n(2), of os] obtain a x where
    x: "malloc_loop os n (freep s) (s_ptr (hdr s (freep s))) s = Some (carve n a x s)" "a \<in> set ns" "x \<in> set ns" "s_ptr (hdr s a) = x"
      "n \<le> s_size (hdr s x)" by blast
  from carve_ok [OF ok c x(2-4) n(1) x(5)] obtain b t ns' where
    t: "carve n a x s = (b + 16, t)" "b \<notin> U" "b \<noteq> base" "heap_ok base (brk (sys s)) A (hdr t) ns' (insert b U)" "coalesced (hdr t) ns'"
      "freep t \<in> set ns'" "s_size (hdr t b) = n" "sys t = sys s" "\<forall>u\<in>U. hdr t u = hdr s u" by blast
  have "heap_inv base brk A t (insert b U)" unfolding heap_inv_def t(8) using t(4-6) by blast
  then show ?thesis using x(1) t by auto
qed

lemma malloc_loop_ok:
  assumes sb: "sbrk_ok os brk" and inv: "heap_inv base brk A s U" and n: "0 < n" "unat n < 2 ^ 27"
  shows "(\<exists>t k. malloc_loop os n (freep s) (s_ptr (hdr s (freep s))) s = Some (0, t) \<and> sint k = 16 * int (max 4096 (unat n)) \<and> fst (os_sbrk os k (sys s)) = -1
       \<and> heap_inv base brk A t U \<and> hdr t = hdr s)
     \<or> (\<exists>b t A'. malloc_loop os n (freep s) (s_ptr (hdr s (freep s))) s = Some (b + 16, t) \<and> b \<notin> U \<and> b \<noteq> base \<and> s_size (hdr t b) = n
       \<and> A' = A \<union> {brk (sys s) ..< brk (sys t)} \<and> heap_inv base brk A' t (insert b U) \<and> (\<forall>u\<in>U. hdr t u = hdr s u))"
proof -
  from inv obtain ns where ok: "heap_ok base (brk (sys s)) A (hdr s) ns U" and c: "coalesced (hdr s) ns" and f: "freep s \<in> set ns"
    by (auto simp: heap_inv_def)
  show ?thesis
  proof (cases "\<exists>x\<in>set ns. n \<le> s_size (hdr s x)")
    case True
    from malloc_take [where brk = brk, OF ok c f n(1) True, of os] show ?thesis by (intro disjI2) fastforce
  next
    case False
    from ring_round [OF heap_okD(1) [OF ok] f heap_ok_ascending(2) [OF ok]] obtain xs where
      xs: "path (hdr s) (s_ptr (hdr s (freep s))) xs (freep s)" "set xs = set ns - {freep s}" by blast
    from malloc_walk [OF xs(1) _ refl, of n os] False xs(2) obtain a where
      "malloc_loop os n (freep s) (s_ptr (hdr s (freep s))) s = malloc_loop os n a (freep s) s" by (auto simp: not_le)
    also have "\<dots> = Option.bind (morecore os n s) (\<lambda>(p, s). if p = 0 then Some (0, s) else malloc_loop os n p (s_ptr (hdr s p)) s)"
      using False f by (subst malloc_loop.simps) auto
    finally have l: "malloc_loop os n (freep s) (s_ptr (hdr s (freep s))) s = \<dots>" .
    from morecore_ok [OF sb ok c f n] show ?thesis
    proof (elim disjE exE conjE)
      fix w k
      assume m: "morecore os n s = Some (0, s\<lparr>sys := w\<rparr>)" "sint k = 16 * int (max 4096 (unat n))" "os_sbrk os k (sys s) = (-1, w)" "brk w = brk (sys s)"
      then have "heap_inv base brk A (s\<lparr>sys := w\<rparr>) U" using inv by (simp add: heap_inv_def)
      then show ?thesis using m l by (intro disjI1 exI [of _ "s\<lparr>sys := w\<rparr>"] exI [of _ k]) simp
    next
      fix t ns'
      assume m: "morecore os n s = Some (freep t, t)" and ok': "heap_ok base (brk (sys t)) (A \<union> {brk (sys s) ..< brk (sys t)}) (hdr t) ns' U"
        and c': "coalesced (hdr t) ns'" and f': "freep t \<in> set ns'" and big: "\<exists>x\<in>set ns'. n \<le> s_size (hdr t x)" and u: "\<forall>u\<in>U. hdr t u = hdr s u"
      have "freep t \<noteq> 0" using heap_ok_nonzero [OF ok' f'] .
      then have "malloc_loop os n (freep s) (s_ptr (hdr s (freep s))) s = malloc_loop os n (freep t) (s_ptr (hdr t (freep t))) t"
        using l m by simp
      with malloc_take [where brk = brk, OF ok' c' f' n(1) big, of os] u show ?thesis by (intro disjI2) fastforce
    qed
  qed
qed

text \<open>
  \<^bold>\<open>C11\<close> The allocator of the user programs is correct, whatever has been allocated and freed before. A request below 2 GB ends. It
  returns 0 only when \<^verbatim>\<open>sbrk\<close> refuses the 4096 or more units asked for; otherwise it returns a new block with room for the request that shares no byte with another
  block in use or with a free one, and the memory managed is the old one and what \<^verbatim>\<open>sbrk\<close> added. \<^verbatim>\<open>free\<close> of a block in use ends
  and gives exactly this block back; neighbours on the ring are joined. Headers of other blocks in use do not change.
\<close>

theorem malloc_free_correct:
  assumes sb: "sbrk_ok os brk" and ready: "heap_ready base brk A s U" and n: "nbytes < 2 ^ 31 - 32"
  shows "(\<exists>r t. malloc os base nbytes s = Some (r, t) \<and> (\<forall>u\<in>U. hdr t u = hdr s u)
       \<and> (r = 0 \<and> (\<exists>k. sint k = 16 * int (max 4096 (unat (units_for nbytes))) \<and> fst (os_sbrk os k (sys s)) = -1) \<and> heap_inv base brk A t U
          \<or> r \<noteq> 0 \<and> r - 16 \<notin> U \<and> unat (r - 16) + 16 + unat nbytes \<le> fin (hdr t) (r - 16)
            \<and> heap_inv base brk (A \<union> {brk (sys s) ..< brk (sys t)}) t (insert (r - 16) U)))
     \<and> (\<forall>ap. ap - 16 \<in> U \<longrightarrow> (\<exists>t. free ap s = Some t \<and> heap_inv base brk A t (U - {ap - 16}) \<and> (\<forall>u\<in>U - {ap - 16}. hdr t u = hdr s u)))"
proof (intro conjI allI impI)
  define s' where "s' = (if freep s = 0 then set_size base 0 ((set_ptr base base s)\<lparr>freep := base\<rparr>) else s)"
  have s': "heap_inv base brk A s' U" "sys s' = sys s" "\<forall>u\<in>U. hdr s' u = hdr s u"
    using ready heap_start [OF ready] by (auto simp: s'_def heap_ready_def set_size_def set_ptr_def)
  have m: "malloc os base nbytes s = malloc_loop os (units_for nbytes) (freep s') (s_ptr (hdr s' (freep s'))) s'"
    by (simp only: malloc_def s'_def Let_def)
  note N = units_for_enough [OF n]
  from malloc_loop_ok [OF sb s'(1) N(1,2)] show "\<exists>r t. malloc os base nbytes s = Some (r, t) \<and> (\<forall>u\<in>U. hdr t u = hdr s u)
       \<and> (r = 0 \<and> (\<exists>k. sint k = 16 * int (max 4096 (unat (units_for nbytes))) \<and> fst (os_sbrk os k (sys s)) = -1) \<and> heap_inv base brk A t U
          \<or> r \<noteq> 0 \<and> r - 16 \<notin> U \<and> unat (r - 16) + 16 + unat nbytes \<le> fin (hdr t) (r - 16)
            \<and> heap_inv base brk (A \<union> {brk (sys s) ..< brk (sys t)}) t (insert (r - 16) U))"
  proof (elim disjE exE conjE)
    fix t k
    assume "malloc_loop os (units_for nbytes) (freep s') (s_ptr (hdr s' (freep s'))) s' = Some (0, t)"
      "sint k = 16 * int (max 4096 (unat (units_for nbytes)))" "fst (os_sbrk os k (sys s')) = -1"
      "heap_inv base brk A t U" "hdr t = hdr s'"
    then show ?thesis using m s'(2,3) by (intro exI [of _ 0] exI [of _ t]) auto
  next
    fix b t A'
    assume t: "malloc_loop os (units_for nbytes) (freep s') (s_ptr (hdr s' (freep s'))) s' = Some (b + 16, t)" "b \<notin> U" "b \<noteq> base"
      "s_size (hdr t b) = units_for nbytes" "A' = A \<union> {brk (sys s') ..< brk (sys t)}" "heap_inv base brk A' t (insert b U)" "\<forall>u\<in>U. hdr t u = hdr s' u"
    from t(6) obtain ns where ok: "heap_ok base (brk (sys t)) A' (hdr t) ns (insert b U)" by (auto simp: heap_inv_def)
    have "unat b \<le> 2 ^ 32" using heap_ok_block(3) [OF ok _ t(3)] heap_okD(7) [OF ok] by (simp add: fin_def)
    then have "unat (b + 16) \<noteq> 0" by (simp add: unat_word_ariths)
    then have "b + 16 \<noteq> 0" by (metis unat_0)
    then show ?thesis using m s'(2,3) t N(3) by (intro exI [of _ "b + 16"] exI [of _ t]) (auto simp: fin_def)
  qed
next
  fix ap
  assume ap: "ap - 16 \<in> U"
  then obtain ns where ok: "heap_ok base (brk (sys s)) A (hdr s) ns U" "coalesced (hdr s) ns" "freep s \<in> set ns"
    using ready by (auto simp: heap_ready_def heap_inv_def)
  from free_ok [OF ok ap] show "\<exists>t. free ap s = Some t \<and> heap_inv base brk A t (U - {ap - 16}) \<and> (\<forall>u\<in>U - {ap - 16}. hdr t u = hdr s u)"
    by (auto simp: heap_inv_def)
qed

text \<open>A system whose state is the break and that refuses to go beyond 64 MB.\<close>

definition demo_sbrk :: "i32 \<Rightarrow> nat \<Rightarrow> addr \<times> nat" where
  "demo_sbrk n w = (if w + nat (sint n) \<le> 0x4000000 then (of_nat w, w + nat (sint n)) else (-1, w))"

definition demo_heap_os :: "nat os" where
  "demo_heap_os = \<lparr>os_read = (\<lambda>fd n w. (None, w)), os_write = (\<lambda>fd bs w. (-1, w)), os_open = (\<lambda>p m w. (-1, w)), os_close = (\<lambda>fd w. w),
     os_dup = (\<lambda>fd w. w), os_fstat = (\<lambda>fd w. ((-1, []), w)), os_pipe = (\<lambda>w. (None, w)), os_fork = (\<lambda>w. (-1, w)), os_wait = (\<lambda>w. (-1, w)),
     os_exec = (\<lambda>p a w. (False, w)), os_chdir = (\<lambda>p w. (-1, w)), os_sbrk = demo_sbrk\<rparr>"

lemma demo_sbrk_ok: "sbrk_ok demo_heap_os (\<lambda>w. w)"
proof -
  have "unat (of_nat w :: addr) = w" "(of_nat w :: addr) \<noteq> -1" if "w \<le> 0x4000000" for w
    using that by (auto simp: unat_of_nat word_unat_eq_iff unsigned_minus_1_eq_mask mask_eq_exp_minus_1)
  then show ?thesis by (auto simp: sbrk_ok_def demo_heap_os_def demo_sbrk_def)
qed

definition demo_heap :: "nat heap" where
  "demo_heap = \<lparr>hdr = (\<lambda>_. \<lparr>s_ptr = 0, s_size = 0\<rparr>), freep = 0, sys = 0x2000\<rparr>"

theorem malloc_free_correct_witness:
  "\<exists>r t. malloc demo_heap_os 0x1000 100 demo_heap = Some (r, t) \<and> r \<noteq> 0 \<and> unat (r - 16) + 116 \<le> fin (hdr t) (r - 16)
     \<and> heap_inv 0x1000 (\<lambda>w. w) {0x2000 ..< sys t} t {r - 16}"
proof -
  have ready: "heap_ready 0x1000 (\<lambda>w. w) {} demo_heap {}" by (simp add: heap_ready_def demo_heap_def word_less_nat_alt)
  have u: "units_for 100 = 8" by (simp add: units_for_def)
  have "fst (os_sbrk demo_heap_os k (sys demo_heap)) \<noteq> -1" if "sint k = 16 * int (max 4096 (unat (units_for 100)))" for k
    using that by (simp add: demo_heap_os_def demo_sbrk_def demo_heap_def u)
  then show ?thesis using malloc_free_correct [OF demo_sbrk_ok ready, of 100, THEN conjunct1] by (auto simp: demo_heap_def word_less_nat_alt)
qed

text \<open>
  A request of almost 4 GB wraps around: \<^verbatim>\<open>nu * sizeof(Header)\<close> is 2^32 + 16 and \<^verbatim>\<open>sbrk\<close> is asked for 16 bytes. If it grants them,
  the header there says 2^28 + 1 units.
\<close>

lemma huge_request_wraps:
  "units_for 0xFFFFFFFF = 0x10000001" "ucast (ucast (0x10000001 :: u32) * 16 :: u64) = (16 :: i32)"
  by (simp_all add: units_for_def)

end
