(* ===== verification/Spec2Isabelle.thy ===== *)
theory Spec2Isabelle
  imports Trap Virtio_Props File_Props Fs_Dir Asm Mkfs Grep Uprogs Umalloc
begin

text \<open>
  A verification development of the xv6 kernel for RISC-V.
\<close>

end
